(* ===== verification/Prelude.thy ===== *)
theory Prelude
  imports
    Main
    "HOL-Library.Word"
    "HOL-Library.AList"
    "HOL-Library.Sublist"
    "HOL-Library.Char_ord"
    "HOL-Library.List_Lexorder"
begin

text \<open>
  Shared material of the development: the bytes and strings of Go, the functions of the
  packages \<open>strings\<close> and \<open>bytes\<close> the sources call, results with an error, and the
  generic lemmas on lists and words the component theories use.

  A Go string is a sequence of bytes; it is modelled as Isabelle's \<open>string\<close>, a list of
  8-bit characters. \<open>strings.ToLower\<close>, \<open>ToUpper\<close> and \<open>EqualFold\<close> are modelled on ASCII, the
  alphabet of host names, rule keywords and scheme names; bytes above 127 are left as
  they are. \<open>strings.TrimSpace\<close> is likewise the ASCII one.
\<close>

named_theorems go_simps \<open>rewrite rules for the Go library functions\<close>
named_theorems inv_intros \<open>preservation of the components' invariants\<close>

unbundle bit_operations_syntax

type_synonym u8 = "8 word"
type_synonym u16 = "16 word"
type_synonym u32 = "32 word"
type_synonym u64 = "64 word"
type_synonym bytes = "u8 list"

text \<open>The result of a function that returns a value and an error.\<close>

datatype ('e, 'a) go_result = Err (go_err: 'e) | Ok (go_val: 'a)

fun is_ok :: "('e, 'a) go_result \<Rightarrow> bool" where
  "is_ok (Err _) = False"
| "is_ok (Ok _) = True"

lemma is_ok_iff: "is_ok r \<longleftrightarrow> (\<exists>x. r = Ok x)"
  by (cases r) auto

section \<open>Package strings\<close>

definition ascii_lower :: "char \<Rightarrow> char" where
  "ascii_lower c = (if CHR ''A'' \<le> c \<and> c \<le> CHR ''Z'' then char_of (of_char c + 32 :: nat) else c)"

definition ascii_upper :: "char \<Rightarrow> char" where
  "ascii_upper c = (if CHR ''a'' \<le> c \<and> c \<le> CHR ''z'' then char_of (of_char c - 32 :: nat) else c)"

definition to_lower :: "string \<Rightarrow> string" where
  "to_lower s = map ascii_lower s"

definition to_upper :: "string \<Rightarrow> string" where
  "to_upper s = map ascii_upper s"

definition equal_fold :: "string \<Rightarrow> string \<Rightarrow> bool" where
  "equal_fold a b \<longleftrightarrow> to_lower a = to_lower b"

text \<open>\<open>strings.Split\<close> with a separator of one byte: never the empty list.\<close>

fun split_on :: "char \<Rightarrow> string \<Rightarrow> string list" where
  "split_on c [] = [[]]"
| "split_on c (x # xs) =
     (if x = c then [] # split_on c xs
      else (x # hd (split_on c xs)) # tl (split_on c xs))"

fun join_with :: "char \<Rightarrow> string list \<Rightarrow> string" where
  "join_with c [] = []"
| "join_with c [w] = w"
| "join_with c (w # v # ws) = w @ c # join_with c (v # ws)"

definition has_prefix :: "string \<Rightarrow> string \<Rightarrow> bool" where
  "has_prefix s p \<longleftrightarrow> take (length p) s = p"

definition has_suffix :: "string \<Rightarrow> string \<Rightarrow> bool" where
  "has_suffix s p \<longleftrightarrow> length p \<le> length s \<and> drop (length s - length p) s = p"

fun contains_str :: "string \<Rightarrow> string \<Rightarrow> bool" where
  "contains_str [] p \<longleftrightarrow> p = []"
| "contains_str (x # xs) p \<longleftrightarrow> has_prefix (x # xs) p \<or> contains_str xs p"

definition trim_set :: "string \<Rightarrow> string \<Rightarrow> string" where
  "trim_set cs s = rev (dropWhile (\<lambda>c. c \<in> set cs) (rev (dropWhile (\<lambda>c. c \<in> set cs) s)))"

definition trim_right_set :: "string \<Rightarrow> string \<Rightarrow> string" where
  "trim_right_set cs s = rev (dropWhile (\<lambda>c. c \<in> set cs) (rev s))"

definition space_chars :: string where
  "space_chars = [CHR '' '', CHR 0x09, CHR 0x0A, CHR 0x0B, CHR 0x0C, CHR 0x0D]"

definition trim_space :: "string \<Rightarrow> string" where
  "trim_space s = trim_set space_chars s"

subsection \<open>Facts about them\<close>

lemma split_on_not_Nil [simp]: "split_on c s \<noteq> []"
  by (cases s) auto

lemma join_with_Cons: "ws \<noteq> [] \<Longrightarrow> join_with c (w # ws) = w @ c # join_with c ws"
  by (cases ws) auto

lemma join_split [simp]: "join_with c (split_on c s) = s"
proof (induction s)
  case Nil
  show ?case by simp
next
  case (Cons x xs)
  obtain w ws where split: "split_on c xs = w # ws"
    by (meson neq_Nil_conv split_on_not_Nil)
  with Cons show ?case
    by (cases ws) (auto simp: join_with_Cons)
qed

lemma split_on_no_sep: "w \<in> set (split_on c s) \<Longrightarrow> c \<notin> set w"
proof (induction s arbitrary: w)
  case Nil
  then show ?case by simp
next
  case (Cons x xs)
  obtain v vs where split: "split_on c xs = v # vs"
    by (meson neq_Nil_conv split_on_not_Nil)
  with Cons.IH [of v] Cons.IH [of w] Cons.prems show ?case
    by (auto split: if_splits)
qed

lemma split_on_id: "c \<notin> set w \<Longrightarrow> split_on c w = [w]"
  by (induction w) auto

lemma split_on_append: "c \<notin> set w \<Longrightarrow> split_on c (w @ c # s) = w # split_on c s"
  by (induction w) auto

lemma split_join:
  "ws \<noteq> [] \<Longrightarrow> (\<And>w. w \<in> set ws \<Longrightarrow> c \<notin> set w) \<Longrightarrow> split_on c (join_with c ws) = ws"
  by (induction c ws rule: join_with.induct) (auto simp: split_on_id split_on_append)

lemma ascii_lower_eq: "\<not> (CHR ''a'' \<le> x \<and> x \<le> CHR ''z'') \<Longrightarrow> ascii_lower c = x \<Longrightarrow> c = x"
proof (cases "CHR ''A'' \<le> c \<and> c \<le> CHR ''Z''")
  case True
  assume n: "\<not> (CHR ''a'' \<le> x \<and> x \<le> CHR ''z'')" and e: "ascii_lower c = x"
  have "65 \<le> (of_char c :: nat)" "(of_char c :: nat) \<le> 90" using True by (auto simp: less_eq_char_def)
  then have "of_char x = (of_char c + 32 :: nat)" using True e by (auto simp: ascii_lower_def)
  with n \<open>65 \<le> (of_char c :: nat)\<close> \<open>(of_char c :: nat) \<le> 90\<close> show ?thesis by (auto simp: less_eq_char_def)
qed (auto simp: ascii_lower_def)

text \<open>A byte that is no letter is in a string exactly when it is in it in lower case.\<close>

lemma in_to_lower_iff:
  assumes "\<not> (CHR ''a'' \<le> x \<and> x \<le> CHR ''z'')" "\<not> (CHR ''A'' \<le> x \<and> x \<le> CHR ''Z'')"
  shows "x \<in> set (to_lower s) \<longleftrightarrow> x \<in> set s"
proof -
  have l: "ascii_lower x = x" using assms(2) by (auto simp: ascii_lower_def)
  have "x \<in> ascii_lower ` set s \<longleftrightarrow> x \<in> set s"
  proof
    assume "x \<in> ascii_lower ` set s"
    then obtain c where "x = ascii_lower c" "c \<in> set s" by blast
    with ascii_lower_eq [OF assms(1), of c] show "x \<in> set s" by simp
  next
    assume "x \<in> set s"
    then show "x \<in> ascii_lower ` set s" using l by (metis imageI)
  qed
  then show ?thesis by (simp add: to_lower_def)
qed

lemma set_split_on: "w \<in> set (split_on c s) \<Longrightarrow> set w \<subseteq> set s"
proof (induction s arbitrary: w)
  case (Cons x s)
  then show ?case
  proof (cases "x = c")
    case False
    with Cons.prems consider "w = x # hd (split_on c s)" | "w \<in> set (tl (split_on c s))" by auto
    then show ?thesis
    proof cases
      case 1
      have "set (hd (split_on c s)) \<subseteq> set s" by (rule Cons.IH) simp
      with 1 show ?thesis by auto
    next
      case 2
      then have "w \<in> set (split_on c s)" by (metis list.set_sel(2) split_on_not_Nil)
      with Cons.IH show ?thesis by fastforce
    qed
  qed auto
qed simp

lemma split_on_append_any: "split_on c (s @ c # t) = split_on c s @ split_on c t"
  by (induction s) (simp_all add: hd_append tl_append split: list.split)

lemma has_suffix_iff: "has_suffix s p \<longleftrightarrow> suffix p s"
proof
  assume "has_suffix s p"
  then have "s = take (length s - length p) s @ p"
    unfolding has_suffix_def by (metis append_take_drop_id)
  then show "suffix p s" unfolding suffix_def by blast
next
  assume "suffix p s"
  then show "has_suffix s p" by (auto simp: has_suffix_def suffix_def)
qed

lemma has_prefix_iff: "has_prefix s p \<longleftrightarrow> prefix p s"
  unfolding has_prefix_def prefix_def by (metis append_eq_conv_conj append_take_drop_id)

lemma contains_str_iff: "contains_str s p \<longleftrightarrow> sublist p s"
  by (induction s) (auto simp: has_prefix_iff sublist_Cons_right)

lemma length_to_lower [simp]: "length (to_lower s) = length s"
  by (simp add: to_lower_def)

lemma to_lower_Nil_iff [simp]: "to_lower s = [] \<longleftrightarrow> s = []"
  by (simp add: to_lower_def)

lemma to_lower_append: "to_lower (s @ t) = to_lower s @ to_lower t"
  by (simp add: to_lower_def)

lemma ascii_lower_idem [simp]: "ascii_lower (ascii_lower c) = ascii_lower c"
proof (cases "CHR ''A'' \<le> c \<and> c \<le> CHR ''Z''")
  case True
  then have "65 \<le> (of_char c :: nat)" "(of_char c :: nat) \<le> 90"
    by (auto simp: less_eq_char_def)
  then show ?thesis
    by (auto simp: ascii_lower_def less_eq_char_def)
next
  case False
  then show ?thesis by (auto simp: ascii_lower_def)
qed

lemma to_lower_idem [simp]: "to_lower (to_lower s) = to_lower s"
  by (simp add: to_lower_def)

section \<open>Lists and maps\<close>

text \<open>The first defined value of a list of options: a search in order of priority.\<close>

fun first_some :: "'a option list \<Rightarrow> 'a option" where
  "first_some [] = None"
| "first_some (None # xs) = first_some xs"
| "first_some (Some x # xs) = Some x"

lemma first_some_append:
  "first_some (xs @ ys) = (case first_some xs of None \<Rightarrow> first_some ys | Some x \<Rightarrow> Some x)"
  by (induction xs rule: first_some.induct) auto

lemma first_some_SomeD: "first_some xs = Some x \<Longrightarrow> Some x \<in> set xs"
  by (induction xs rule: first_some.induct) auto

lemma first_some_None_iff: "first_some xs = None \<longleftrightarrow> set xs \<subseteq> {None}"
  by (induction xs rule: first_some.induct) auto

lemma first_some_replicate_None: "(\<And>x. x \<in> set xs \<Longrightarrow> x = None) \<Longrightarrow> first_some xs = None"
  by (auto simp: first_some_None_iff)

lemma first_some_all_None [simp]: "first_some (map (\<lambda>x. None) xs) = None"
  by (auto simp: first_some_None_iff)

lemma first_some_single [simp]: "first_some [x] = x"
  by (cases x) auto

lemma unat_u8_less: "unat (a :: u8) < 256"
  by (rule order_less_le_trans [OF unsigned_less]) simp

section \<open>Outcomes\<close>

text \<open>What a call of the sources ends in: a value, a run-time panic, or no end within the fuel that the model
  spends on calls that may not return.\<close>

datatype 'a outcome = Done 'a | Panicked | NoFuel

fun obind :: "'a outcome \<Rightarrow> ('a \<Rightarrow> 'b outcome) \<Rightarrow> 'b outcome" where
  "obind (Done x) f = f x"
| "obind Panicked f = Panicked"
| "obind NoFuel f = NoFuel"

lemma obind_cong [fundef_cong]:
  "x = x' \<Longrightarrow> (\<And>y. x' = Done y \<Longrightarrow> f y = f' y) \<Longrightarrow> obind x f = obind x' f'"
  by (cases x') auto

lemma obind_Done: "obind x f = Done y \<longleftrightarrow> (\<exists>z. x = Done z \<and> f z = Done y)"
  by (cases x) auto

lemma obind_NoFuel: "obind x f = NoFuel \<longleftrightarrow> x = NoFuel \<or> (\<exists>z. x = Done z \<and> f z = NoFuel)"
  by (cases x) auto


text \<open>Association lists, as which the maps of Go are modelled where their size or order matters.\<close>

lemma set_AList_update: "set (AList.update k v m) \<subseteq> insert (k, v) (set m)"
  by (induction m) auto

end
