(* ===== verification/LruCache.thy ===== *)
theory LruCache
  imports Prelude
begin

text \<open>
  The LRU cache of \<open>common/cache/lrucache.go\<close>.

  The cache holds a map from keys to list elements and a list of elements, the front being
  the least recently used. Every element carries a pointer to an entry, and \<open>CloneTo\<close>
  makes two caches share the entries, so the entries live in a heap: a list of entries,
  a reference being an index. Within one list an entry occurs in one element only, so a
  reference also stands for the element that carries it. The doubly linked list itself is
  modelled in the theory \<open>GoList\<close>; here it is the list of its elements.

  The clock (\<open>time.Now().Unix()\<close>) is the parameter \<open>now\<close>, read once per operation. The
  callback \<open>onEvict\<close> is represented by the list of the calls made to it, \<open>None\<close> if it is
  not set.
\<close>

section \<open>State\<close>

record ('k, 'v) entry =
  ekey :: 'k
  evalue :: 'v
  eexpires :: int

type_synonym ('k, 'v) eheap = "('k, 'v) entry list"

record ('k, 'v) lru_cache =
  maxAge :: int
  maxSize :: int
  cache :: "'k \<rightharpoonup> nat"
  lru :: "nat list"
  updateAgeOnGet :: bool
  staleReturn :: bool
  onEvict :: "('k \<times> 'v) list option"

definition lru_new :: "int \<Rightarrow> int \<Rightarrow> bool \<Rightarrow> bool \<Rightarrow> ('k, 'v) lru_cache" where
  "lru_new age sz upd stale =
     \<lparr>maxAge = age, maxSize = sz, cache = Map.empty, lru = [],
      updateAgeOnGet = upd, staleReturn = stale, onEvict = None\<rparr>"

section \<open>Operations\<close>

definition deleteElement ::
  "('k, 'v) eheap \<Rightarrow> nat \<Rightarrow> ('k, 'v) lru_cache \<Rightarrow> ('k, 'v) lru_cache" where
  "deleteElement h r c =
     (let e = h ! r in
      c\<lparr>lru := remove1 r (lru c),
        cache := (cache c)(ekey e := None),
        onEvict := map_option (\<lambda>l. l @ [(ekey e, evalue e)]) (onEvict c)\<rparr>)"

text \<open>The loop of \<open>maybeDeleteOldest\<close>, over the elements from the front on.\<close>

fun delete_expired ::
  "('k, 'v) eheap \<Rightarrow> int \<Rightarrow> nat list \<Rightarrow> ('k, 'v) lru_cache \<Rightarrow> ('k, 'v) lru_cache" where
  "delete_expired h now [] c = c"
| "delete_expired h now (r # rs) c =
     (if eexpires (h ! r) \<le> now then delete_expired h now rs (deleteElement h r c) else c)"

definition maybeDeleteOldest ::
  "('k, 'v) eheap \<Rightarrow> int \<Rightarrow> ('k, 'v) lru_cache \<Rightarrow> ('k, 'v) lru_cache" where
  "maybeDeleteOldest h now c =
     (if \<not> staleReturn c \<and> 0 < maxAge c then delete_expired h now (lru c) c else c)"

definition MoveToBack :: "nat \<Rightarrow> nat list \<Rightarrow> nat list" where
  "MoveToBack r rs = (if r \<in> set rs then remove1 r rs @ [r] else rs)"

definition lru_setWithExpire ::
  "int \<Rightarrow> 'k \<Rightarrow> 'v \<Rightarrow> int \<Rightarrow> ('k, 'v) eheap \<Rightarrow> ('k, 'v) lru_cache
    \<Rightarrow> ('k, 'v) eheap \<times> ('k, 'v) lru_cache" where
  "lru_setWithExpire now k v expires h c =
     (case cache c k of
        Some r \<Rightarrow>
          let c1 = c\<lparr>lru := MoveToBack r (lru c)\<rparr>;
              h1 = h[r := (h ! r)\<lparr>evalue := v, eexpires := expires\<rparr>]
          in (h1, maybeDeleteOldest h1 now c1)
      | None \<Rightarrow>
          let r = length h;
              h1 = h @ [\<lparr>ekey = k, evalue = v, eexpires = expires\<rparr>];
              c1 = c\<lparr>cache := (cache c)(k \<mapsto> r), lru := lru c @ [r]\<rparr>;
              c2 = (if 0 < maxSize c1 \<and> maxSize c1 < int (length (lru c1))
                    then deleteElement h1 (hd (lru c1)) c1 else c1)
          in (h1, maybeDeleteOldest h1 now c2))"

definition lru_set ::
  "int \<Rightarrow> 'k \<Rightarrow> 'v \<Rightarrow> ('k, 'v) eheap \<Rightarrow> ('k, 'v) lru_cache
    \<Rightarrow> ('k, 'v) eheap \<times> ('k, 'v) lru_cache" where
  "lru_set now k v h c =
     lru_setWithExpire now k v (if 0 < maxAge c then now + maxAge c else 0) h c"

text \<open>The unexported \<open>get\<close>: the reference of the entry it returns.\<close>

definition lru_get_ref ::
  "int \<Rightarrow> 'k \<Rightarrow> ('k, 'v) eheap \<Rightarrow> ('k, 'v) lru_cache
    \<Rightarrow> nat option \<times> ('k, 'v) eheap \<times> ('k, 'v) lru_cache" where
  "lru_get_ref now k h c =
     (case cache c k of
        None \<Rightarrow> (None, h, c)
      | Some r \<Rightarrow>
          if \<not> staleReturn c \<and> 0 < maxAge c \<and> eexpires (h ! r) \<le> now
          then (None, h, maybeDeleteOldest h now (deleteElement h r c))
          else
            let c1 = c\<lparr>lru := MoveToBack r (lru c)\<rparr>;
                h1 = (if 0 < maxAge c \<and> updateAgeOnGet c
                      then h[r := (h ! r)\<lparr>eexpires := now + maxAge c\<rparr>] else h)
            in (Some r, h1, c1))"

definition lru_get ::
  "int \<Rightarrow> 'k \<Rightarrow> ('k, 'v) eheap \<Rightarrow> ('k, 'v) lru_cache
    \<Rightarrow> 'v option \<times> ('k, 'v) eheap \<times> ('k, 'v) lru_cache" where
  "lru_get now k h c =
     (case lru_get_ref now k h c of
        (None, h1, c1) \<Rightarrow> (None, h1, c1)
      | (Some r, h1, c1) \<Rightarrow> (Some (evalue (h1 ! r)), h1, c1))"

definition lru_GetWithExpire ::
  "int \<Rightarrow> 'k \<Rightarrow> ('k, 'v) eheap \<Rightarrow> ('k, 'v) lru_cache
    \<Rightarrow> ('v \<times> int) option \<times> ('k, 'v) eheap \<times> ('k, 'v) lru_cache" where
  "lru_GetWithExpire now k h c =
     (case lru_get_ref now k h c of
        (None, h1, c1) \<Rightarrow> (None, h1, c1)
      | (Some r, h1, c1) \<Rightarrow> (Some (evalue (h1 ! r), eexpires (h1 ! r)), h1, c1))"

text \<open>The result of \<open>GetOrStore\<close>: the value and whether it was there.\<close>

definition lru_GetOrStore ::
  "int \<Rightarrow> 'k \<Rightarrow> 'v \<Rightarrow> ('k, 'v) eheap \<Rightarrow> ('k, 'v) lru_cache
    \<Rightarrow> ('v \<times> bool) \<times> ('k, 'v) eheap \<times> ('k, 'v) lru_cache" where
  "lru_GetOrStore now k v h c =
     (case lru_get_ref now k h c of
        (None, h1, c1) \<Rightarrow> ((v, False), lru_set now k v h1 c1)
      | (Some r, h1, c1) \<Rightarrow> ((evalue (h1 ! r), True), h1, c1))"

definition lru_exist :: "'k \<Rightarrow> ('k, 'v) lru_cache \<Rightarrow> bool" where
  "lru_exist k c \<longleftrightarrow> cache c k \<noteq> None"

definition lru_delete ::
  "'k \<Rightarrow> ('k, 'v) eheap \<Rightarrow> ('k, 'v) lru_cache \<Rightarrow> ('k, 'v) lru_cache" where
  "lru_delete k h c = (case cache c k of None \<Rightarrow> c | Some r \<Rightarrow> deleteElement h r c)"

text \<open>\<open>Clear\<close> makes a new map and leaves the list as it is.\<close>

definition lru_clear :: "('k, 'v) lru_cache \<Rightarrow> ('k, 'v) lru_cache" where
  "lru_clear c = c\<lparr>cache := Map.empty\<rparr>"

text \<open>\<open>CloneTo\<close>: a new list of new elements that point to the same entries, and a new map.\<close>

definition lru_cloneTo ::
  "('k, 'v) eheap \<Rightarrow> ('k, 'v) lru_cache \<Rightarrow> ('k, 'v) lru_cache \<Rightarrow> ('k, 'v) lru_cache" where
  "lru_cloneTo h c n =
     n\<lparr>lru := lru c,
       cache := fold (\<lambda>r m. m(ekey (h ! r) \<mapsto> r)) (lru c) Map.empty\<rparr>"

section \<open>Invariants\<close>

text \<open>Kept by every operation, \<open>Clear\<close> included.\<close>

definition lru_wf :: "('k, 'v) eheap \<Rightarrow> ('k, 'v) lru_cache \<Rightarrow> bool" where
  "lru_wf h c \<longleftrightarrow> distinct (lru c) \<and> (\<forall>r \<in> set (lru c). r < length h) \<and>
     (\<forall>k r. cache c k = Some r \<longrightarrow> r \<in> set (lru c) \<and> ekey (h ! r) = k)"

text \<open>List and map agree: kept by every operation but \<open>Clear\<close>.\<close>

definition lru_sync :: "('k, 'v) eheap \<Rightarrow> ('k, 'v) lru_cache \<Rightarrow> bool" where
  "lru_sync h c \<longleftrightarrow> lru_wf h c \<and> (\<forall>r \<in> set (lru c). cache c (ekey (h ! r)) = Some r)"

definition lru_view :: "('k, 'v) eheap \<Rightarrow> ('k, 'v) lru_cache \<Rightarrow> ('k, 'v) entry list" where
  "lru_view h c = map (\<lambda>r. h ! r) (lru c)"

lemma lru_new_sync [simp]: "lru_sync h (lru_new a s u t)"
  by (simp add: lru_sync_def lru_wf_def lru_new_def)

lemma sync_wf [inv_intros]: "lru_sync h c \<Longrightarrow> lru_wf h c"
  by (simp add: lru_sync_def)

lemma wf_cacheD: "lru_wf h c \<Longrightarrow> cache c k = Some r \<Longrightarrow> r \<in> set (lru c) \<and> ekey (h ! r) = k \<and> r < length h"
  by (auto simp: lru_wf_def)

lemma sync_key_inj:
  assumes "lru_sync h c" "r \<in> set (lru c)" "s \<in> set (lru c)" "ekey (h ! r) = ekey (h ! s)"
  shows "r = s"
  using assms unfolding lru_sync_def by (metis option.inject)

lemma distinct_remove1_filter: "distinct xs \<Longrightarrow> remove1 x xs = filter (\<lambda>y. y \<noteq> x) xs"
  by (induction xs) (auto intro!: filter_True[symmetric])

lemma deleteElement_simps [simp]:
  "maxAge (deleteElement h r c) = maxAge c"
  "maxSize (deleteElement h r c) = maxSize c"
  "staleReturn (deleteElement h r c) = staleReturn c"
  "updateAgeOnGet (deleteElement h r c) = updateAgeOnGet c"
  "lru (deleteElement h r c) = remove1 r (lru c)"
  "cache (deleteElement h r c) = (cache c)(ekey (h ! r) := None)"
  by (simp_all add: deleteElement_def Let_def)

lemma deleteElement_wf [inv_intros]:
  assumes "lru_wf h c"
  shows "lru_wf h (deleteElement h r c)"
  using assms unfolding lru_wf_def
  by (auto simp: distinct_remove1_filter)

lemma deleteElement_sync [inv_intros]:
  assumes "lru_sync h c" "r \<in> set (lru c)"
  shows "lru_sync h (deleteElement h r c)"
proof -
  have wf: "lru_wf h (deleteElement h r c)" using assms by (intro inv_intros)
  have "((cache c)(ekey (h ! r) := None)) (ekey (h ! s)) = Some s"
    if "s \<in> set (lru c)" "s \<noteq> r" for s
    using that assms sync_key_inj [OF assms(1) that(1) assms(2)] by (auto simp: lru_sync_def)
  moreover have "distinct (lru c)" using assms by (simp add: lru_sync_def lru_wf_def)
  ultimately show ?thesis
    using wf by (auto simp: lru_sync_def distinct_remove1_filter)
qed

section \<open>The abstract cache: a list of entries\<close>

text \<open>
  The promise of the cache, over the list of its entries from the least to the most
  recently used, with at most one entry for a key.
\<close>

definition s_del :: "'k \<Rightarrow> ('k, 'v) entry list \<Rightarrow> ('k, 'v) entry list" where
  "s_del k es = filter (\<lambda>e. ekey e \<noteq> k) es"

definition s_find :: "'k \<Rightarrow> ('k, 'v) entry list \<Rightarrow> ('k, 'v) entry option" where
  "s_find k es = find (\<lambda>e. ekey e = k) es"

definition s_expire :: "bool \<Rightarrow> int \<Rightarrow> int \<Rightarrow> ('k, 'v) entry list \<Rightarrow> ('k, 'v) entry list" where
  "s_expire stale age now es =
     (if \<not> stale \<and> 0 < age then dropWhile (\<lambda>e. eexpires e \<le> now) es else es)"

definition s_get ::
  "bool \<Rightarrow> bool \<Rightarrow> int \<Rightarrow> int \<Rightarrow> 'k \<Rightarrow> ('k, 'v) entry list \<Rightarrow> 'v option \<times> ('k, 'v) entry list" where
  "s_get stale upd age now k es =
     (case s_find k es of
        None \<Rightarrow> (None, es)
      | Some e \<Rightarrow>
          if \<not> stale \<and> 0 < age \<and> eexpires e \<le> now then (None, s_expire stale age now (s_del k es))
          else (Some (evalue e),
                s_del k es @ [if 0 < age \<and> upd then e\<lparr>eexpires := now + age\<rparr> else e]))"

definition s_set ::
  "bool \<Rightarrow> int \<Rightarrow> int \<Rightarrow> int \<Rightarrow> 'k \<Rightarrow> 'v \<Rightarrow> int \<Rightarrow> ('k, 'v) entry list \<Rightarrow> ('k, 'v) entry list" where
  "s_set stale age sz now k v x es =
     (let e = \<lparr>ekey = k, evalue = v, eexpires = x\<rparr>;
          es1 = s_del k es @ [e]
      in s_expire stale age now
           (if s_find k es = None \<and> 0 < sz \<and> sz < int (length es1) then tl es1 else es1))"

lemma length_lru_view: "length (lru_view h c) = length (lru c)"
  by (simp add: lru_view_def)

lemma sync_find:
  assumes "lru_sync h c"
  shows "s_find k (lru_view h c) = map_option (\<lambda>r. h ! r) (cache c k)"
proof (cases "cache c k")
  case None
  then have "\<forall>r \<in> set (lru c). ekey (h ! r) \<noteq> k"
    using assms by (auto simp: lru_sync_def)
  with None show ?thesis by (auto simp: s_find_def lru_view_def find_None_iff)
next
  case (Some r)
  with assms have r: "r \<in> set (lru c)" "ekey (h ! r) = k" by (auto simp: lru_sync_def lru_wf_def)
  have "find (\<lambda>e. ekey e = k) (map (\<lambda>r. h ! r) rs) = Some (h ! r)"
    if "set rs \<subseteq> set (lru c)" "r \<in> set rs" for rs
    using that
  proof (induction rs)
    case (Cons s rs)
    then show ?case using r sync_key_inj [OF assms, of s r] by auto
  qed simp
  with r Some show ?thesis by (simp add: s_find_def lru_view_def)
qed

lemma view_remove1:
  assumes "lru_sync h c" "r \<in> set (lru c)"
  shows "map (\<lambda>r. h ! r) (remove1 r (lru c)) = s_del (ekey (h ! r)) (lru_view h c)"
proof -
  have d: "distinct (lru c)" using assms by (simp add: lru_sync_def lru_wf_def)
  have "s \<noteq> r \<longleftrightarrow> ekey (h ! s) \<noteq> ekey (h ! r)" if "s \<in> set (lru c)" for s
    using sync_key_inj [OF assms(1) that assms(2)] by auto
  then have "filter (\<lambda>s. s \<noteq> r) (lru c) = filter (\<lambda>s. ekey (h ! s) \<noteq> ekey (h ! r)) (lru c)"
    by (intro filter_cong) auto
  with d show ?thesis
    by (simp add: distinct_remove1_filter s_del_def lru_view_def filter_map o_def)
qed

lemma view_deleteElement:
  "lru_sync h c \<Longrightarrow> r \<in> set (lru c) \<Longrightarrow>
     lru_view h (deleteElement h r c) = s_del (ekey (h ! r)) (lru_view h c)"
  using view_remove1 [of h c r] by (simp add: lru_view_def)

lemma s_del_hd:
  assumes "distinct (map ekey (e # es))"
  shows "s_del (ekey e) (e # es) = es"
  using assms by (auto simp: s_del_def image_iff intro!: filter_True)

lemma sync_distinct_keys:
  assumes "lru_sync h c"
  shows "distinct (map ekey (lru_view h c))"
proof -
  have "inj_on (\<lambda>r. ekey (h ! r)) (set (lru c))"
    using sync_key_inj [OF assms] by (auto intro: inj_onI)
  moreover have "distinct (lru c)" using assms by (simp add: lru_sync_def lru_wf_def)
  ultimately show ?thesis by (simp add: lru_view_def distinct_map o_def)
qed

lemma delete_expired_spec:
  assumes "lru_sync h c" "lru c = rs"
  shows "lru_sync h (delete_expired h now rs c) \<and>
         lru_view h (delete_expired h now rs c) = dropWhile (\<lambda>e. eexpires e \<le> now) (lru_view h c) \<and>
         maxAge (delete_expired h now rs c) = maxAge c \<and>
         maxSize (delete_expired h now rs c) = maxSize c \<and>
         staleReturn (delete_expired h now rs c) = staleReturn c \<and>
         updateAgeOnGet (delete_expired h now rs c) = updateAgeOnGet c"
  using assms
proof (induction rs arbitrary: c)
  case Nil
  then show ?case by (simp add: lru_view_def)
next
  case (Cons r rs)
  show ?case
  proof (cases "eexpires (h ! r) \<le> now")
    case True
    have "lru_sync h (deleteElement h r c)" using Cons.prems by (intro inv_intros) auto
    moreover have "lru (deleteElement h r c) = rs" using Cons.prems by simp
    ultimately show ?thesis using Cons.IH True Cons.prems by (simp add: lru_view_def)
  next
    case False
    with Cons.prems show ?thesis by (simp add: lru_view_def)
  qed
qed

lemma maybeDeleteOldest_spec:
  assumes "lru_sync h c"
  shows "lru_sync h (maybeDeleteOldest h now c)"
    and "lru_view h (maybeDeleteOldest h now c)
           = s_expire (staleReturn c) (maxAge c) now (lru_view h c)"
    and "maxAge (maybeDeleteOldest h now c) = maxAge c"
    and "maxSize (maybeDeleteOldest h now c) = maxSize c"
    and "staleReturn (maybeDeleteOldest h now c) = staleReturn c"
    and "updateAgeOnGet (maybeDeleteOldest h now c) = updateAgeOnGet c"
  using delete_expired_spec [OF assms refl] assms
  by (auto simp: maybeDeleteOldest_def s_expire_def)

text \<open>Configuration is never changed.\<close>

definition same_config :: "('k, 'v) lru_cache \<Rightarrow> ('k, 'v) lru_cache \<Rightarrow> bool" where
  "same_config c d \<longleftrightarrow> maxAge c = maxAge d \<and> maxSize c = maxSize d \<and>
     staleReturn c = staleReturn d \<and> updateAgeOnGet c = updateAgeOnGet d"

lemma sync_heap_update:
  assumes "lru_sync h c" "ekey e = ekey (h ! r)"
  shows "lru_sync (h[r := e]) c"
proof (cases "r < length h")
  case True
  have k: "ekey (h[r := e] ! s) = ekey (h ! s)" for s
    using assms(2) True by (cases "s = r") auto
  show ?thesis using assms(1) by (simp add: lru_sync_def lru_wf_def k)
next
  case False
  with assms show ?thesis by (simp add: list_update_beyond)
qed

lemma sync_move:
  assumes "lru_sync h c" "r \<in> set (lru c)"
  shows "lru_sync h (c\<lparr>lru := MoveToBack r (lru c)\<rparr>)"
  using assms by (auto simp: lru_sync_def lru_wf_def MoveToBack_def distinct_remove1_filter)

lemma view_move_update:
  assumes "lru_sync h c" "r \<in> set (lru c)" "ekey e = ekey (h ! r)"
  shows "lru_view (h[r := e]) (c\<lparr>lru := MoveToBack r (lru c)\<rparr>)
       = s_del (ekey (h ! r)) (lru_view h c) @ [e]"
proof -
  have "distinct (lru c)" "r < length h" using assms by (auto simp: lru_sync_def lru_wf_def)
  then have "map (\<lambda>s. h[r := e] ! s) (remove1 r (lru c)) = map (\<lambda>s. h ! s) (remove1 r (lru c))"
    by (auto simp: distinct_remove1_filter)
  with assms \<open>r < length h\<close> view_remove1 [of h c r] show ?thesis
    by (simp add: lru_view_def MoveToBack_def)
qed

lemma sync_append:
  assumes "lru_sync h c" "cache c k = None" "ekey e = k"
  shows "lru_sync (h @ [e]) (c\<lparr>cache := (cache c)(k \<mapsto> length h), lru := lru c @ [length h]\<rparr>)"
    and "lru_view (h @ [e]) (c\<lparr>cache := (cache c)(k \<mapsto> length h), lru := lru c @ [length h]\<rparr>)
           = lru_view h c @ [e]"
proof -
  have lt: "s < length h" "(h @ [e]) ! s = h ! s" if "s \<in> set (lru c)" for s
    using assms(1) that by (auto simp: lru_sync_def lru_wf_def nth_append)
  have ne: "ekey (h ! s) \<noteq> k" if "s \<in> set (lru c)" for s
    using assms(1,2) that by (auto simp: lru_sync_def)
  show "lru_sync (h @ [e]) (c\<lparr>cache := (cache c)(k \<mapsto> length h), lru := lru c @ [length h]\<rparr>)"
    using assms lt ne by (fastforce simp: lru_sync_def lru_wf_def less_Suc_eq)
  show "lru_view (h @ [e]) (c\<lparr>cache := (cache c)(k \<mapsto> length h), lru := lru c @ [length h]\<rparr>)
           = lru_view h c @ [e]"
    using lt by (simp add: lru_view_def)
qed

lemma s_del_absent: "s_find k es = None \<Longrightarrow> s_del k es = es"
  by (auto simp: s_find_def s_del_def find_None_iff intro!: filter_True)

lemma setWithExpire_refines:
  assumes "lru_sync h c" "lru_setWithExpire now k v x h c = (h', c')"
  shows "lru_sync h' c' \<and> same_config c' c \<and>
         lru_view h' c' = s_set (staleReturn c) (maxAge c) (maxSize c) now k v x (lru_view h c)"
proof (cases "cache c k")
  case (Some r)
  with assms(1) have r: "r \<in> set (lru c)" "ekey (h ! r) = k" "r < length h"
    by (auto dest: sync_wf wf_cacheD)
  let ?e = "(h ! r)\<lparr>evalue := v, eexpires := x\<rparr>"
  let ?c1 = "c\<lparr>lru := MoveToBack r (lru c)\<rparr>"
  have e: "?e = \<lparr>ekey = k, evalue = v, eexpires = x\<rparr>" using r by (cases "h ! r") auto
  have s1: "lru_sync (h[r := ?e]) ?c1"
    using sync_heap_update [OF sync_move [OF assms(1) r(1)], of ?e r] by simp
  have v1: "lru_view (h[r := ?e]) ?c1 = s_del k (lru_view h c) @ [?e]"
    using view_move_update [OF assms(1) r(1), of ?e] r by simp
  show ?thesis
    using assms(2) Some maybeDeleteOldest_spec [OF s1, of now] v1 sync_find [OF assms(1), of k] e
    by (auto simp: lru_setWithExpire_def Let_def s_set_def same_config_def)
next
  case None
  let ?e = "\<lparr>ekey = k, evalue = v, eexpires = x\<rparr>"
  let ?c1 = "c\<lparr>cache := (cache c)(k \<mapsto> length h), lru := lru c @ [length h]\<rparr>"
  let ?h1 = "h @ [?e]"
  let ?c2 = "if 0 < maxSize c \<and> maxSize c < int (length (lru ?c1))
             then deleteElement ?h1 (hd (lru ?c1)) ?c1 else ?c1"
  have s1: "lru_sync ?h1 ?c1" and v1: "lru_view ?h1 ?c1 = lru_view h c @ [?e]"
    using sync_append [OF assms(1) None, of ?e] by auto
  have hd_in: "hd (lru ?c1) \<in> set (lru ?c1)" by (cases "lru c") auto
  have s2: "lru_sync ?h1 ?c2" using s1 deleteElement_sync [OF s1 hd_in] by simp
  have "lru_view ?h1 (deleteElement ?h1 (hd (lru ?c1)) ?c1) = tl (lru_view ?h1 ?c1)"
  proof -
    obtain a as where a: "lru ?c1 = a # as" by (cases "lru ?c1") auto
    then have "lru_view ?h1 ?c1 = ?h1 ! a # map (\<lambda>r. ?h1 ! r) as" by (simp add: lru_view_def)
    with view_deleteElement [OF s1 hd_in] sync_distinct_keys [OF s1] a show ?thesis
      by (simp add: s_del_hd)
  qed
  then have "lru_view ?h1 ?c2 = (if 0 < maxSize c \<and> maxSize c < int (length (lru_view ?h1 ?c1))
      then tl (lru_view ?h1 ?c1) else lru_view ?h1 ?c1)"
    by (simp only: length_lru_view split: if_split) blast
  then have v2: "lru_view ?h1 ?c2 = (if 0 < maxSize c \<and> maxSize c < int (length (lru_view h c @ [?e]))
      then tl (lru_view h c @ [?e]) else lru_view h c @ [?e])"
    unfolding v1 .
  have f: "s_find k (lru_view h c) = None" using sync_find [OF assms(1), of k] None by simp
  have cfg: "maxAge ?c2 = maxAge c" "maxSize ?c2 = maxSize c" "staleReturn ?c2 = staleReturn c"
    "updateAgeOnGet ?c2 = updateAgeOnGet c" by simp_all
  have "h' = ?h1" "c' = maybeDeleteOldest ?h1 now ?c2"
    using assms(2) None by (auto simp: lru_setWithExpire_def Let_def)
  then show ?thesis
    using maybeDeleteOldest_spec [OF s2, of now] v2 f cfg s_del_absent [OF f]
    by (simp add: s_set_def same_config_def Let_def)
qed

lemma get_ref_refines:
  assumes "lru_sync h c" "lru_get_ref now k h c = (ro, h', c')"
  shows "lru_sync h' c' \<and> same_config c' c \<and>
         (map_option (\<lambda>r. evalue (h' ! r)) ro, lru_view h' c')
           = s_get (staleReturn c) (updateAgeOnGet c) (maxAge c) now k (lru_view h c)"
proof (cases "cache c k")
  case None
  with assms sync_find [OF assms(1), of k] show ?thesis
    by (auto simp: lru_get_ref_def s_get_def same_config_def)
next
  case (Some r)
  with assms(1) have r: "r \<in> set (lru c)" "ekey (h ! r) = k" "r < length h"
    by (auto dest: sync_wf wf_cacheD)
  have f: "s_find k (lru_view h c) = Some (h ! r)" using sync_find [OF assms(1), of k] Some by simp
  show ?thesis
  proof (cases "\<not> staleReturn c \<and> 0 < maxAge c \<and> eexpires (h ! r) \<le> now")
    case True
    have s1: "lru_sync h (deleteElement h r c)" using assms(1) r by (intro inv_intros)
    show ?thesis
      using assms(2) Some True f maybeDeleteOldest_spec [OF s1, of now]
        view_deleteElement [OF assms(1) r(1)] r
      by (auto simp: lru_get_ref_def s_get_def same_config_def)
  next
    case False
    let ?e = "if 0 < maxAge c \<and> updateAgeOnGet c then (h ! r)\<lparr>eexpires := now + maxAge c\<rparr> else h ! r"
    have h': "h' = h[r := ?e]" "c' = c\<lparr>lru := MoveToBack r (lru c)\<rparr>" "ro = Some r"
      using assms(2) Some False r by (auto simp: lru_get_ref_def Let_def split: if_splits)
    have "ekey ?e = ekey (h ! r)" by simp
    then show ?thesis
      using h' r f False view_move_update [OF assms(1) r(1), of ?e]
        sync_heap_update [OF sync_move [OF assms(1) r(1)], of ?e r]
      by (auto simp: s_get_def same_config_def)
  qed
qed

subsection \<open>The exported operations\<close>

lemma set_refines:
  assumes "lru_sync h c" "lru_set now k v h c = (h', c')"
  shows "lru_sync h' c' \<and> same_config c' c \<and>
         lru_view h' c' = s_set (staleReturn c) (maxAge c) (maxSize c) now k v
           (if 0 < maxAge c then now + maxAge c else 0) (lru_view h c)"
  using setWithExpire_refines [OF assms(1)] assms(2) by (simp add: lru_set_def)

lemma get_refines:
  assumes "lru_sync h c" "lru_get now k h c = (vo, h', c')"
  shows "lru_sync h' c' \<and> same_config c' c \<and>
         (vo, lru_view h' c') = s_get (staleReturn c) (updateAgeOnGet c) (maxAge c) now k (lru_view h c)"
proof -
  obtain ro where ro: "lru_get_ref now k h c = (ro, h', c')"
    and vo: "vo = map_option (\<lambda>r. evalue (h' ! r)) ro"
    using assms(2) by (auto simp: lru_get_def split: prod.splits option.splits)
  show ?thesis using get_ref_refines [OF assms(1) ro] vo by simp
qed

lemma delete_refines:
  assumes "lru_sync h c"
  shows "lru_sync h (lru_delete k h c) \<and> same_config (lru_delete k h c) c \<and>
         lru_view h (lru_delete k h c) = s_del k (lru_view h c)"
proof (cases "cache c k")
  case None
  with assms sync_find [OF assms, of k] show ?thesis
    by (simp add: lru_delete_def same_config_def s_del_absent)
next
  case (Some r)
  with assms have r: "r \<in> set (lru c)" "ekey (h ! r) = k" by (auto dest: sync_wf wf_cacheD)
  with assms Some show ?thesis
    by (auto simp: lru_delete_def same_config_def view_deleteElement intro: inv_intros)
qed

lemma exist_refines:
  "lru_sync h c \<Longrightarrow> lru_exist k c \<longleftrightarrow> s_find k (lru_view h c) \<noteq> None"
  by (simp add: sync_find lru_exist_def)

text \<open>After \<open>CloneTo\<close> the target holds the entries of the source, in the same order.\<close>

lemma fold_map_upds:
  assumes "inj_on f (set rs)"
  shows "fold (\<lambda>r m. m(f r \<mapsto> r)) rs m k =
     (if \<exists>r \<in> set rs. f r = k then Some (THE r. r \<in> set rs \<and> f r = k) else m k)"
  using assms
proof (induction rs arbitrary: m)
  case (Cons a rs)
  have inj: "inj_on f (set rs)" using Cons.prems by (simp add: inj_on_def)
  show ?case
  proof (cases "\<exists>r \<in> set rs. f r = k")
    case True
    then obtain r where r: "r \<in> set rs" "f r = k" by blast
    have u: "s = r" if "s \<in> set (a # rs)" "f s = k" for s
      using Cons.prems that r by (auto simp: inj_on_def)
    have "(THE s. s \<in> set rs \<and> f s = k) = r" using r u by (intro the_equality) auto
    moreover have "(THE s. s \<in> set (a # rs) \<and> f s = k) = r" using r u by (intro the_equality) auto
    ultimately show ?thesis using True Cons.IH [OF inj] by auto
  next
    case False
    then have "(THE s. s \<in> set (a # rs) \<and> f s = f a) = a" if "f a = k"
      using that by (intro the_equality) auto
    with False Cons.IH [OF inj] show ?thesis by auto
  qed
qed simp

lemma cloneTo_refines:
  assumes "lru_sync h c"
  shows "lru_sync h (lru_cloneTo h c n)" "lru_view h (lru_cloneTo h c n) = lru_view h c"
    "same_config (lru_cloneTo h c n) n"
proof -
  have inj: "inj_on (\<lambda>r. ekey (h ! r)) (set (lru c))"
    using sync_key_inj [OF assms] by (auto intro: inj_onI)
  have "fold (\<lambda>r m. m(ekey (h ! r) \<mapsto> r)) (lru c) Map.empty k = cache c k" for k
  proof (cases "cache c k")
    case None
    with assms have "\<not> (\<exists>r \<in> set (lru c). ekey (h ! r) = k)" by (auto simp: lru_sync_def)
    with None show ?thesis by (simp add: fold_map_upds [OF inj])
  next
    case (Some r)
    then have "r \<in> set (lru c)" "ekey (h ! r) = k" using assms by (auto dest: sync_wf wf_cacheD)
    moreover from this have "(THE s. s \<in> set (lru c) \<and> ekey (h ! s) = k) = r"
      using inj by (intro the_equality) (auto simp: inj_on_def)
    ultimately show ?thesis using Some by (auto simp: fold_map_upds [OF inj])
  qed
  then have "fold (\<lambda>r m. m(ekey (h ! r) \<mapsto> r)) (lru c) Map.empty = cache c" by blast
  with assms show "lru_sync h (lru_cloneTo h c n)" "lru_view h (lru_cloneTo h c n) = lru_view h c"
    by (simp_all add: lru_cloneTo_def lru_sync_def lru_wf_def lru_view_def)
  show "same_config (lru_cloneTo h c n) n" by (simp add: lru_cloneTo_def same_config_def)
qed

subsection \<open>The cache as a list of pairs\<close>

definition lru_items :: "('k, 'v) eheap \<Rightarrow> ('k, 'v) lru_cache \<Rightarrow> ('k \<times> 'v) list" where
  "lru_items h c = map (\<lambda>e. (ekey e, evalue e)) (lru_view h c)"

definition del_key :: "'k \<Rightarrow> ('k \<times> 'v) list \<Rightarrow> ('k \<times> 'v) list" where
  "del_key k xs = filter (\<lambda>p. fst p \<noteq> k) xs"

lemma items_s_del: "map (\<lambda>e. (ekey e, evalue e)) (s_del k es) = del_key k (map (\<lambda>e. (ekey e, evalue e)) es)"
  by (simp add: s_del_def del_key_def filter_map o_def)

lemma length_items_s_del:
  "length (del_key k (map (\<lambda>e. (ekey e, evalue e)) es)) = length (s_del k es)"
  by (simp flip: items_s_del)

lemma items_s_find: "map_option evalue (s_find k es) = map_of (map (\<lambda>e. (ekey e, evalue e)) es) k"
  by (induction es) (auto simp: s_find_def)

lemma s_find_key: "s_find k es = Some e \<Longrightarrow> ekey e = k"
  by (auto simp: s_find_def find_Some_iff)

lemma s_find_append: "s_find k (xs @ ys) = (case s_find k xs of None \<Rightarrow> s_find k ys | Some e \<Rightarrow> Some e)"
  by (induction xs) (auto simp: s_find_def)

lemma s_find_del: "s_find k (s_del k es) = None"
  by (auto simp: s_find_def s_del_def find_None_iff)

lemma s_find_tl: "s_find k xs = None \<Longrightarrow> s_find k (tl xs) = None"
  by (cases xs) (auto simp: s_find_def split: if_splits)

lemma s_find_single: "s_find k [e] = (if ekey e = k then Some e else None)"
  by (simp add: s_find_def)

lemma s_find_dropWhile_None: "s_find k xs = None \<Longrightarrow> s_find k (dropWhile P xs) = None"
  by (auto simp: s_find_def find_None_iff dest: set_dropWhileD)

lemma distinct_items: "lru_sync h c \<Longrightarrow> distinct (map fst (lru_items h c))"
  using sync_distinct_keys by (simp add: lru_items_def o_def)

text \<open>The operations of a cache without ages, as on the list of its pairs.\<close>

lemma get_items:
  assumes "lru_sync h c" "maxAge c \<le> 0" "lru_get now k h c = (vo, h', c')"
  shows "lru_sync h' c' \<and> same_config c' c \<and> vo = map_of (lru_items h c) k \<and>
         lru_items h' c' = (case vo of None \<Rightarrow> lru_items h c
                            | Some v \<Rightarrow> del_key k (lru_items h c) @ [(k, v)])"
  using get_refines [OF assms(1,3)] assms(2) items_s_find [of k "lru_view h c"]
  by (auto simp: s_get_def lru_items_def items_s_del dest: s_find_key split: option.splits if_splits)

lemma set_items:
  assumes "lru_sync h c" "maxAge c \<le> 0" "lru_set now k v h c = (h', c')"
  shows "lru_sync h' c' \<and> same_config c' c \<and>
         lru_items h' c' =
           (let xs = del_key k (lru_items h c) @ [(k, v)]
            in if map_of (lru_items h c) k = None \<and> 0 < maxSize c \<and> maxSize c < int (length xs)
               then tl xs else xs)"
  using set_refines [OF assms(1,3)] assms(2) items_s_find [of k "lru_view h c"]
    items_s_del [of k "lru_view h c"] length_items_s_del [of k "lru_view h c"]
  by (auto simp: s_set_def s_expire_def lru_items_def Let_def map_tl)

lemma delete_items:
  assumes "lru_sync h c"
  shows "lru_sync h (lru_delete k h c) \<and> same_config (lru_delete k h c) c \<and>
         lru_items h (lru_delete k h c) = del_key k (lru_items h c)"
  using delete_refines [OF assms] by (simp add: lru_items_def items_s_del)

lemma exist_items:
  "lru_sync h c \<Longrightarrow> lru_exist k c \<longleftrightarrow> map_of (lru_items h c) k \<noteq> None"
  by (simp add: exist_refines lru_items_def flip: items_s_find)

section \<open>Runs of operations\<close>

text \<open>The exported operations as commands, each with the clock reading it sees.\<close>

datatype ('k, 'v) lru_cmd =
    CGet 'k
  | CGetWithExpire 'k
  | CGetOrStore 'k 'v
  | CSet 'k 'v
  | CSetWithExpire 'k 'v int
  | CDelete 'k
  | CExist 'k

datatype 'v lru_reply = RVal "'v option" | RValExp "('v \<times> int) option" | RStored 'v bool | RBool bool | RUnit

fun lru_exec ::
  "int \<Rightarrow> ('k, 'v) lru_cmd \<Rightarrow> ('k, 'v) eheap \<times> ('k, 'v) lru_cache
    \<Rightarrow> 'v lru_reply \<times> ('k, 'v) eheap \<times> ('k, 'v) lru_cache" where
  "lru_exec now (CGet k) (h, c) = (case lru_get now k h c of (r, s) \<Rightarrow> (RVal r, s))"
| "lru_exec now (CGetWithExpire k) (h, c) = (case lru_GetWithExpire now k h c of (r, s) \<Rightarrow> (RValExp r, s))"
| "lru_exec now (CGetOrStore k v) (h, c) = (case lru_GetOrStore now k v h c of ((w, b), s) \<Rightarrow> (RStored w b, s))"
| "lru_exec now (CSet k v) (h, c) = (RUnit, lru_set now k v h c)"
| "lru_exec now (CSetWithExpire k v x) (h, c) = (RUnit, lru_setWithExpire now k v x h c)"
| "lru_exec now (CDelete k) (h, c) = (RUnit, h, lru_delete k h c)"
| "lru_exec now (CExist k) (h, c) = (RBool (lru_exist k c), h, c)"

fun lru_run ::
  "(int \<times> ('k, 'v) lru_cmd) list \<Rightarrow> ('k, 'v) eheap \<times> ('k, 'v) lru_cache
    \<Rightarrow> 'v lru_reply list \<times> ('k, 'v) eheap \<times> ('k, 'v) lru_cache" where
  "lru_run [] s = ([], s)"
| "lru_run ((now, c) # cs) s =
     (case lru_exec now c s of (r, s1) \<Rightarrow> case lru_run cs s1 of (rs, s2) \<Rightarrow> (r # rs, s2))"

text \<open>The same commands on the list of entries; \<open>a\<close> holds the configuration.\<close>

fun s_exec ::
  "('k, 'v) lru_cache \<Rightarrow> int \<Rightarrow> ('k, 'v) lru_cmd \<Rightarrow> ('k, 'v) entry list
    \<Rightarrow> 'v lru_reply \<times> ('k, 'v) entry list" where
  "s_exec a now (CGet k) es =
     (case s_get (staleReturn a) (updateAgeOnGet a) (maxAge a) now k es of (r, es1) \<Rightarrow> (RVal r, es1))"
| "s_exec a now (CGetWithExpire k) es =
     (case s_get (staleReturn a) (updateAgeOnGet a) (maxAge a) now k es of
        (r, es1) \<Rightarrow> (RValExp (map_option (\<lambda>v. (v, eexpires (last es1))) r), es1))"
| "s_exec a now (CGetOrStore k v) es =
     (case s_get (staleReturn a) (updateAgeOnGet a) (maxAge a) now k es of
        (None, es1) \<Rightarrow> (RStored v False, s_set (staleReturn a) (maxAge a) (maxSize a) now k v
           (if 0 < maxAge a then now + maxAge a else 0) es1)
      | (Some w, es1) \<Rightarrow> (RStored w True, es1))"
| "s_exec a now (CSet k v) es =
     (RUnit, s_set (staleReturn a) (maxAge a) (maxSize a) now k v
        (if 0 < maxAge a then now + maxAge a else 0) es)"
| "s_exec a now (CSetWithExpire k v x) es =
     (RUnit, s_set (staleReturn a) (maxAge a) (maxSize a) now k v x es)"
| "s_exec a now (CDelete k) es = (RUnit, s_del k es)"
| "s_exec a now (CExist k) es = (RBool (s_find k es \<noteq> None), es)"

fun s_run ::
  "('k, 'v) lru_cache \<Rightarrow> (int \<times> ('k, 'v) lru_cmd) list \<Rightarrow> ('k, 'v) entry list
    \<Rightarrow> 'v lru_reply list \<times> ('k, 'v) entry list" where
  "s_run a [] es = ([], es)"
| "s_run a ((now, c) # cs) es =
     (case s_exec a now c es of (r, es1) \<Rightarrow> case s_run a cs es1 of (rs, es2) \<Rightarrow> (r # rs, es2))"

lemma s_exec_config: "same_config c a \<Longrightarrow> s_exec c = s_exec a"
  by (intro ext, rename_tac now cmd es, case_tac cmd) (auto simp: same_config_def cong: prod.case_cong option.case_cong)

lemma GetWithExpire_refines:
  assumes "lru_sync h c" "lru_GetWithExpire now k h c = (r, h', c')"
  shows "lru_sync h' c' \<and> same_config c' c \<and>
    (\<exists>v. s_get (staleReturn c) (updateAgeOnGet c) (maxAge c) now k (lru_view h c) = (v, lru_view h' c')
       \<and> r = map_option (\<lambda>v. (v, eexpires (last (lru_view h' c')))) v)"
proof -
  obtain ro where ro: "lru_get_ref now k h c = (ro, h', c')"
    and r: "r = map_option (\<lambda>s. (evalue (h' ! s), eexpires (h' ! s))) ro"
    using assms(2) by (auto simp: lru_GetWithExpire_def split: prod.splits option.splits)
  have "last (lru_view h' c') = h' ! s" if "ro = Some s" for s
    using ro that assms(1)
    by (auto simp: lru_get_ref_def lru_view_def MoveToBack_def Let_def dest: sync_wf wf_cacheD
        split: option.splits if_splits)
  then have "r = map_option (\<lambda>v. (v, eexpires (last (lru_view h' c')))) (map_option (\<lambda>r. evalue (h' ! r)) ro)"
    using r by (cases ro) auto
  with get_ref_refines [OF assms(1) ro] show ?thesis by metis
qed

lemma exec_refines:
  assumes "lru_sync h c" "lru_exec now cmd (h, c) = (r, h', c')"
  shows "lru_sync h' c' \<and> same_config c' c \<and> s_exec c now cmd (lru_view h c) = (r, lru_view h' c')"
proof (cases cmd)
  case (CGet k)
  with assms show ?thesis
    using get_refines [OF assms(1), of now k] by (auto split: prod.splits)
next
  case (CGetWithExpire k)
  with assms show ?thesis
    using GetWithExpire_refines [OF assms(1), of now k] by (fastforce split: prod.splits)
next
  case (CGetOrStore k v)
  obtain ro h1 c1 where ro: "lru_get_ref now k h c = (ro, h1, c1)" by (metis prod_cases3)
  note R = get_ref_refines [OF assms(1) ro]
  show ?thesis
  proof (cases ro)
    case None
    then have s: "lru_set now k v h1 c1 = (h', c')" "r = RStored v False"
      using assms CGetOrStore ro by (auto simp: lru_GetOrStore_def split: prod.splits)
    have "lru_sync h1 c1" using R by simp
    from set_refines [OF this s(1)] R None CGetOrStore s(2) show ?thesis
      by (auto simp: same_config_def split: prod.splits dest!: sym [of "(_, _)" "s_get _ _ _ _ _ _"])
  next
    case (Some q)
    with assms CGetOrStore ro R show ?thesis
      by (auto simp: lru_GetOrStore_def split: prod.splits dest!: sym [of "(_, _)" "s_get _ _ _ _ _ _"])
  qed
next
  case (CSet k v)
  with assms set_refines [OF assms(1), of now k v] show ?thesis by auto
next
  case (CSetWithExpire k v x)
  with assms setWithExpire_refines [OF assms(1), of now k v x] show ?thesis by auto
next
  case (CDelete k)
  with assms delete_refines [OF assms(1), of k] show ?thesis by auto
next
  case (CExist k)
  with assms exist_refines [OF assms(1), of k] show ?thesis by (auto simp: same_config_def)
qed

lemma same_config_trans: "same_config c b \<Longrightarrow> same_config b a \<Longrightarrow> same_config c a"
  by (simp add: same_config_def)

lemma run_refines:
  assumes "lru_sync h c" "same_config c a" "lru_run cs (h, c) = (rs, h', c')"
  shows "lru_sync h' c' \<and> same_config c' a \<and> s_run a cs (lru_view h c) = (rs, lru_view h' c')"
  using assms
proof (induction cs arbitrary: h c rs)
  case Nil
  then show ?case by simp
next
  case (Cons nc cs)
  obtain now cmd where nc: "nc = (now, cmd)" by (cases nc)
  obtain r h1 c1 where e: "lru_exec now cmd (h, c) = (r, h1, c1)" by (metis prod_cases3)
  obtain rs1 where run: "lru_run cs (h1, c1) = (rs1, h', c')" and rs: "rs = r # rs1"
    using Cons.prems(3) nc e by (auto split: prod.splits)
  note E = exec_refines [OF Cons.prems(1) e]
  then have "same_config c1 a" using Cons.prems(2) same_config_trans by blast
  with Cons.IH [OF _ _ run] E Cons.prems(2) nc rs show ?case
    by (simp add: s_exec_config)
qed

subsection \<open>Bounds\<close>

lemma length_s_expire: "length (s_expire st age now es) \<le> length es"
  by (simp add: s_expire_def length_dropWhile_le)

lemma length_s_del: "length (s_del k es) \<le> length es"
  by (simp add: s_del_def)

lemma length_s_del_found: "s_find k es \<noteq> None \<Longrightarrow> length (s_del k es) < length es"
  by (auto simp: s_find_def s_del_def find_Some_iff intro!: length_filter_less)

lemma length_s_get: "length (snd (s_get st upd age now k es)) \<le> length es"
  using length_s_del_found [of k es] order_trans [OF length_s_expire length_s_del, of st age now k es]
  by (auto simp: s_get_def Suc_le_eq split: option.splits)

lemma length_s_set:
  assumes "0 < sz" "int (length es) \<le> sz"
  shows "int (length (s_set st age sz now k v x es)) \<le> sz"
proof -
  let ?es1 = "s_del k es @ [\<lparr>ekey = k, evalue = v, eexpires = x\<rparr>]"
  have "int (length (if s_find k es = None \<and> 0 < sz \<and> sz < int (length ?es1) then tl ?es1 else ?es1)) \<le> sz"
    using assms length_s_del [of k es] length_s_del_found [of k es] by auto
  then show ?thesis
    unfolding s_set_def Let_def by (meson le_trans length_s_expire of_nat_mono order_trans)
qed

lemma length_s_exec:
  assumes "0 < maxSize a" "int (length es) \<le> maxSize a" "s_exec a now cmd es = (r, es')"
  shows "int (length es') \<le> maxSize a"
proof -
  have g: "int (length (snd (s_get (staleReturn a) (updateAgeOnGet a) (maxAge a) now k es))) \<le> maxSize a" for k
    using length_s_get [of "staleReturn a" "updateAgeOnGet a" "maxAge a" now k es] assms(2) by linarith
  have d: "int (length (s_del k es)) \<le> maxSize a" for k
    using length_s_del [of k es] assms(2) by linarith
  show ?thesis
  proof (cases cmd)
    case (CGetOrStore k v)
    with assms g [of k] length_s_set [OF assms(1)] show ?thesis
      by (auto split: prod.splits option.splits)
  qed (use assms g d length_s_set [OF assms(1,2)] in \<open>auto split: prod.splits\<close>,
       (metis snd_conv)+)
qed

lemma length_s_run:
  "0 < maxSize a \<Longrightarrow> int (length es) \<le> maxSize a \<Longrightarrow> s_run a cs es = (rs, es')
     \<Longrightarrow> int (length es') \<le> maxSize a"
proof (induction cs arbitrary: es rs)
  case (Cons nc cs)
  obtain now cmd where nc: "nc = (now, cmd)" by (cases nc)
  obtain r es1 where e: "s_exec a now cmd es = (r, es1)" by (cases "s_exec a now cmd es")
  with Cons.prems nc show ?case
    using Cons.IH [OF Cons.prems(1) length_s_exec [OF Cons.prems(1,2) e]]
    by (auto split: prod.splits)
qed simp

section \<open>Properties\<close>

text \<open>C2: Any sequence of Get, GetWithExpire, GetOrStore, Set, SetWithExpire, Delete and Exist on
  a new cache returns what the same sequence returns on the plain list of entries ordered
  by last use, and leaves exactly that list in the cache; keys stay distinct and, where a
  size is configured, the cache never holds more entries than it. GetWithExpire is what the code
  does, which is not what its comment says: it drops an entry that has expired and renews its age, as Get
  does (\<open>GetWithExpire_checks_age\<close>).\<close>

theorem lru_run_correct:
  assumes "lru_run cs ([], lru_new age sz upd stale) = (rs, h, c)"
  shows "s_run (lru_new age sz upd stale) cs [] = (rs, lru_view h c)
    \<and> distinct (map ekey (lru_view h c))
    \<and> (0 < sz \<longrightarrow> int (length (lru_view h c)) \<le> sz)"
proof -
  let ?c0 = "lru_new age sz upd stale"
  have cfg: "same_config ?c0 ?c0" by (simp add: same_config_def)
  have v0: "lru_view [] ?c0 = []" by (simp add: lru_view_def lru_new_def)
  note R = run_refines [OF lru_new_sync cfg assms, unfolded v0]
  then have "0 < sz \<Longrightarrow> int (length (lru_view h c)) \<le> sz"
    using length_s_run [of ?c0 "[]" cs rs "lru_view h c"] by (simp add: lru_new_def)
  with R sync_distinct_keys show ?thesis by blast
qed

lemma lru_run_correct_witness:
  "s_run (lru_new 0 2 False False) [(0, CSet 1 10), (0, CSet 2 20), (0, CGet 1), (0, CSet 3 30), (0, CGet (2 :: int))] []
     = ([RUnit, RUnit, RVal (Some (10 :: int)), RUnit, RVal None],
        [\<lparr>ekey = 1, evalue = 10, eexpires = 0\<rparr>, \<lparr>ekey = 3, evalue = 30, eexpires = 0\<rparr>])"
proof -
  let ?cs = "[(0, CSet 1 10), (0, CSet 2 20), (0, CGet 1), (0, CSet 3 30), (0, CGet (2 :: int))]
     :: (int \<times> (int, int) lru_cmd) list"
  have "lru_run ?cs ([], lru_new 0 2 False False) =
    ([RUnit, RUnit, RVal (Some 10), RUnit, RVal None],
     [\<lparr>ekey = 1, evalue = 10, eexpires = 0\<rparr>, \<lparr>ekey = 2, evalue = 20, eexpires = 0\<rparr>,
      \<lparr>ekey = 3, evalue = 30, eexpires = 0\<rparr>],
     (lru_new 0 2 False False)\<lparr>cache := [1 \<mapsto> 0, 3 \<mapsto> 2], lru := [0, 2]\<rparr>)"
    by (simp add: lru_new_def lru_set_def lru_setWithExpire_def lru_get_def lru_get_ref_def
        deleteElement_def maybeDeleteOldest_def MoveToBack_def Let_def fun_eq_iff)
  from lru_run_correct [OF this] show ?thesis by (simp add: lru_view_def)
qed

text \<open>After Clear the list still holds the old elements. If the cache was full, the next
  Set of the key of the oldest of them pushes that stale element out and, with it,
  removes the key from the map again: the value just set is not there.\<close>

theorem lru_set_lost_after_clear:
  assumes "0 < maxSize c" "int (length (lru c)) = maxSize c" "maxAge c \<le> 0"
    and "\<forall>r \<in> set (lru c). r < length h" "ekey (h ! hd (lru c)) = k"
    and "lru_set now k v h (lru_clear c) = (h', c')"
  shows "\<not> lru_exist k c'"
proof -
  obtain r rs where r: "lru c = r # rs" using assms(1,2) by (cases "lru c") auto
  with assms(4) have "r < length h" by simp
  with assms r show ?thesis
    by (auto simp: lru_set_def lru_setWithExpire_def lru_clear_def deleteElement_def lru_exist_def
        maybeDeleteOldest_def Let_def nth_append)
qed

lemma lru_set_lost_after_clear_witness:
  "\<exists>h c. lru_set 0 (7 :: int) (1 :: int) [] (lru_new 0 1 False False) = (h, c) \<and>
     \<not> lru_exist 7 (snd (lru_set 0 7 2 h (lru_clear c)))"
proof -
  let ?c = "(lru_new 0 1 False False)\<lparr>cache := [7 \<mapsto> 0], lru := [0]\<rparr> :: (int, int) lru_cache"
  let ?h = "[\<lparr>ekey = 7, evalue = 1, eexpires = 0\<rparr>] :: (int, int) eheap"
  have s: "lru_set 0 7 1 [] (lru_new 0 1 False False) = (?h, ?c)"
    by (simp add: lru_new_def lru_set_def lru_setWithExpire_def maybeDeleteOldest_def Let_def)
  have "\<not> lru_exist 7 (snd (lru_set 0 7 2 ?h (lru_clear ?c)))"
    by (rule lru_set_lost_after_clear [OF _ _ _ _ _ prod.collapse [symmetric]])
       (simp_all add: lru_new_def)
  with s show ?thesis by blast
qed

section \<open>Caches without an age\<close>

text \<open>Without an age an entry that was just set is found with its expiry, whatever the time is then.\<close>

lemma s_find_set:
  assumes "age \<le> 0"
  shows "s_find k (s_set stale age sz now k v x es) = Some \<lparr>ekey = k, evalue = v, eexpires = x\<rparr>"
proof -
  let ?e = "\<lparr>ekey = k, evalue = v, eexpires = x\<rparr>"
  have f: "s_find k (ys @ [?e]) = Some ?e" if "\<forall>y \<in> set ys. ekey y \<noteq> k" for ys
    using that by (induction ys) (simp_all add: s_find_def)
  have d: "\<forall>y \<in> set (s_del k es). ekey y \<noteq> k" by (simp add: s_del_def)
  show ?thesis
  proof (cases "s_del k es")
    case Nil
    then show ?thesis using assms f [of "[]"] by (auto simp: s_set_def s_expire_def Let_def)
  next
    case (Cons y ys)
    then show ?thesis using assms f [of "s_del k es"] f [of ys] d by (simp add: s_set_def s_expire_def Let_def)
  qed
qed

lemma setWithExpire_found:
  assumes "lru_sync h c" "maxAge c \<le> 0" "lru_setWithExpire now k v x h c = (h', c')"
  shows "lru_sync h' c' \<and> same_config c' c \<and>
    lru_GetWithExpire now' k h' c' = (Some (v, x), h', c'\<lparr>lru := MoveToBack (the (cache c' k)) (lru c')\<rparr>) \<and>
    lru_get now' k h' c' = (Some v, h', c'\<lparr>lru := MoveToBack (the (cache c' k)) (lru c')\<rparr>)"
proof -
  from setWithExpire_refines [OF assms(1,3)] have s: "lru_sync h' c'" "same_config c' c"
    and v: "lru_view h' c' = s_set (staleReturn c) (maxAge c) (maxSize c) now k v x (lru_view h c)" by simp_all
  have "s_find k (lru_view h' c') = Some \<lparr>ekey = k, evalue = v, eexpires = x\<rparr>"
    unfolding v by (rule s_find_set [OF assms(2)])
  with sync_find [OF s(1), of k] obtain r where r: "cache c' k = Some r" "h' ! r = \<lparr>ekey = k, evalue = v, eexpires = x\<rparr>"
    by (cases "cache c' k") auto
  moreover have "maxAge c' \<le> 0" using s(2) assms(2) by (simp add: same_config_def)
  ultimately show ?thesis using s
    by (simp add: lru_GetWithExpire_def lru_get_def lru_get_ref_def Let_def)
qed


section \<open>The age in GetWithExpire\<close>

text \<open>The comment of \<open>GetWithExpire\<close> says that it does not check the age of the entry and does not update the expiry. It does both: it
  gives nothing for an entry that has expired, and on a cache that renews the age it moves the expiry to now plus the age.\<close>

lemma GetWithExpire_checks_age:
  assumes "cache c k = Some r" "r < length h" "0 < maxAge c"
  shows "\<not> staleReturn c \<Longrightarrow> eexpires (h ! r) \<le> now \<Longrightarrow> fst (lru_GetWithExpire now k h c) = None"
    and "now < eexpires (h ! r) \<Longrightarrow> updateAgeOnGet c \<Longrightarrow> fst (lru_GetWithExpire now k h c) = Some (evalue (h ! r), now + maxAge c)"
  using assms by (simp_all add: lru_GetWithExpire_def lru_get_ref_def Let_def)

end
