(* ===== verification/DomainTrie.thy ===== *)
theory DomainTrie
  imports Prelude
begin

text \<open>
  The domain trie of \<open>component/trie/domain.go\<close> and its nodes (\<open>node.go\<close>).

  A node keeps either a single child, with its key, or a map of children. The map is
  modelled as an association list; the order of the list stands for the order in which
  Go iterates over the map, which is not specified. \<open>data\<close> and \<open>inited\<close> are one field of
  type \<open>'a option\<close>. Nodes are changed through pointers, and every node has one parent, so
  a change of a node is a change of the tree. Parts of a domain are stored from the last
  to the first: a path is the reversed list of the parts.
\<close>

section \<open>Nodes\<close>

datatype 'a node =
  Node (childMap: "(string \<times> 'a node) list option") (childNode: "'a node option")
       (childStr: string) (ndata: "'a option")

definition wildcard :: string where "wildcard = ''*''"
definition dotWildcard :: string where "dotWildcard = ''''"
definition complexWildcard :: string where "complexWildcard = ''+''"
definition domainStep :: char where "domainStep = CHR ''.''"

definition newNode :: "'a node" where
  "newNode = Node None None '''' None"

fun getChild :: "'a node \<Rightarrow> string \<Rightarrow> 'a node option" where
  "getChild (Node None cn cs _) s = (if cn \<noteq> None \<and> cs = s then cn else None)"
| "getChild (Node (Some m) _ _ _) s = map_of m s"

definition hasChild :: "'a node \<Rightarrow> string \<Rightarrow> bool" where
  "hasChild n s \<longleftrightarrow> getChild n s \<noteq> None"

fun addChild :: "'a node \<Rightarrow> string \<Rightarrow> 'a node \<Rightarrow> 'a node" where
  "addChild (Node None None cs d) s child = Node None (Some child) s d"
| "addChild (Node None (Some c) cs d) s child =
     Node (Some (AList.update s child (AList.update cs c []))) None '''' d"
| "addChild (Node (Some m) cn cs d) s child = Node (Some (AList.update s child m)) cn cs d"

text \<open>Replacing the child that \<open>getChild\<close> finds: the effect of a change through its pointer.\<close>

fun setChild :: "'a node \<Rightarrow> string \<Rightarrow> 'a node \<Rightarrow> 'a node" where
  "setChild (Node None cn cs d) s child = Node None (Some child) cs d"
| "setChild (Node (Some m) cn cs d) s child = Node (Some (AList.update s child m)) cn cs d"

text \<open>\<open>getOrNewChild\<close>, followed by the change \<open>f\<close> of the child it returns.\<close>

definition getOrNewChild :: "'a node \<Rightarrow> string \<Rightarrow> ('a node \<Rightarrow> 'a node) \<Rightarrow> 'a node" where
  "getOrNewChild n s f =
     (case getChild n s of
        Some c \<Rightarrow> setChild n s (f c)
      | None \<Rightarrow> addChild n s (f newNode))"

fun setData :: "'a node \<Rightarrow> 'a \<Rightarrow> 'a node" where
  "setData (Node m cn cs _) x = Node m cn cs (Some x)"

definition isEmpty :: "'a node option \<Rightarrow> bool" where
  "isEmpty no \<longleftrightarrow> (case no of None \<Rightarrow> True | Some n \<Rightarrow> ndata n = None)"

fun getChildren :: "'a node \<Rightarrow> (string \<times> 'a node) list" where
  "getChildren (Node None None _ _) = []"
| "getChildren (Node None (Some c) cs _) = [(cs, c)]"
| "getChildren (Node (Some m) _ _ _) = m"

lemma size_alist_snd [termination_simp]:
  "p \<in> set m \<Longrightarrow> size (snd p) < Suc (size_list (size_prod (\<lambda>_. 0) size) m)"
proof (induction m)
  case (Cons q m)
  then show ?case by (cases q) (auto simp: less_Suc_eq_le)
qed simp

lemma size_node_map: "cm = Some m \<Longrightarrow> p \<in> set m \<Longrightarrow> size (snd p) < size (Node cm cn cs d)"
  using size_alist_snd [of p m] by auto

lemma size_getChildren [termination_simp]: "(k, c) \<in> set (getChildren n) \<Longrightarrow> size c < size n"
proof (induction n rule: getChildren.induct)
  case (3 m cn cs d)
  then show ?case using size_alist_snd [of "(k, c)" m] by simp
qed auto

function optimize :: "'a node \<Rightarrow> 'a node" where
  "optimize (Node cm cn cs d) =
     (let cn1 = (case cn of None \<Rightarrow> None | Some c \<Rightarrow> Some (optimize c))
      in case cm of
           None \<Rightarrow> Node None cn1 cs d
         | Some [] \<Rightarrow> Node None cn1 cs d
         | Some [(k, c)] \<Rightarrow> optimize (Node None (Some c) k d)
         | Some m \<Rightarrow> Node (Some (map (\<lambda>p. (fst p, optimize (snd p))) m)) cn1 cs d)"
  by pat_completeness auto
termination
proof (relation "measure size", goal_cases)
  case (3 cm cn cs d x z zs q k c)
  then show ?case by auto
next
  case 4
  then show ?case by - (subst in_measure, rule size_node_map, assumption, simp)
qed auto

section \<open>The trie\<close>

definition ValidAndSplitDomain :: "string \<Rightarrow> string list option" where
  "ValidAndSplitDomain domain =
     (if domain \<noteq> '''' \<and> last domain = CHR ''.'' then None
      else
        let parts = split_on domainStep (to_lower domain)
        in if length parts = 1 then (if hd parts = '''' then None else Some parts)
           else if \<exists>part \<in> set (tl parts). part = '''' then None
           else Some parts)"

text \<open>\<open>insert\<close>: the path is the reversed list of parts, as the loop visits them.\<close>

fun insert_path :: "string list \<Rightarrow> 'a \<Rightarrow> 'a node \<Rightarrow> 'a node" where
  "insert_path [] x n = setData n x"
| "insert_path (p # ps) x n = getOrNewChild n p (insert_path ps x)"

definition trie_insert :: "string list \<Rightarrow> 'a \<Rightarrow> 'a node \<Rightarrow> 'a node" where
  "trie_insert parts x root = insert_path (rev parts) x root"

text \<open>The result of \<open>Insert\<close>: \<open>None\<close> for the error \<open>ErrInvalidDomain\<close>.\<close>

definition Insert :: "string \<Rightarrow> 'a \<Rightarrow> 'a node \<Rightarrow> 'a node option" where
  "Insert domain x root =
     (case ValidAndSplitDomain domain of
        None \<Rightarrow> None
      | Some parts \<Rightarrow>
          if hd parts = complexWildcard
          then Some (trie_insert (dotWildcard # tl parts) x (trie_insert (tl parts) x root))
          else Some (trie_insert parts x root))"

fun search_path :: "'a node \<Rightarrow> string list \<Rightarrow> 'a node option" where
  "search_path n [] = Some n"
| "search_path n (p # ps) =
     (let r1 = (case getChild n p of None \<Rightarrow> None | Some c \<Rightarrow> search_path c ps)
      in if \<not> isEmpty r1 then r1
         else
           let r2 = (case getChild n wildcard of None \<Rightarrow> None | Some c \<Rightarrow> search_path c ps)
           in if \<not> isEmpty r2 then r2 else getChild n dotWildcard)"

definition Search :: "'a node \<Rightarrow> string \<Rightarrow> 'a node option" where
  "Search root domain =
     (case ValidAndSplitDomain domain of
        None \<Rightarrow> None
      | Some parts \<Rightarrow>
          if hd parts = '''' then None
          else
            let n = search_path root (rev parts)
            in if isEmpty n then None else n)"

definition joinDomain :: "string list \<Rightarrow> string" where
  "joinDomain items = join_with domainStep items"

text \<open>\<open>recursion\<close> and \<open>Foreach\<close>: the list of the calls of the callback.\<close>

fun recursion :: "string list \<Rightarrow> 'a node \<Rightarrow> (string \<times> 'a) list" where
  "recursion items n =
     concat (map (\<lambda>(key, c).
       let newItems = key # items;
           domain = joinDomain newItems;
           domain' = (if domain \<noteq> [] \<and> hd domain = domainStep then complexWildcard @ domain else domain)
       in (case ndata c of None \<Rightarrow> [] | Some x \<Rightarrow> [(domain', x)]) @ recursion newItems c)
     (getChildren n))"

definition Foreach :: "'a node \<Rightarrow> (string \<times> 'a) list" where
  "Foreach root =
     concat (map (\<lambda>(key, c).
       recursion [key] c @
       (case ndata c of None \<Rightarrow> [] | Some x \<Rightarrow> [(joinDomain [key], x)]))
     (getChildren root))"

section \<open>The trie as a map from paths to data\<close>

fun look :: "'a node \<Rightarrow> string list \<Rightarrow> 'a option" where
  "look n [] = ndata n"
| "look n (p # ps) = (case getChild n p of None \<Rightarrow> None | Some c \<Rightarrow> look c ps)"

lemma getChild_newNode [simp]: "getChild newNode s = None"
  by (simp add: newNode_def)

lemma look_newNode [simp]: "look newNode ps = None"
  by (cases ps) (auto simp: newNode_def)

lemma getChild_setChild:
  "getChild n s \<noteq> None \<Longrightarrow> getChild (setChild n s c) t = (if t = s then Some c else getChild n t)"
  by (cases "(n, s, c)" rule: setChild.cases) (auto simp: update_conv' split: if_splits)

lemma getChild_addChild:
  "getChild n s = None \<Longrightarrow> getChild (addChild n s c) t = (if t = s then Some c else getChild n t)"
  by (cases "(n, s, c)" rule: addChild.cases) (auto simp: update_conv' split: if_splits)

lemma ndata_setChild [simp]: "ndata (setChild n s c) = ndata n"
  by (cases "(n, s, c)" rule: setChild.cases) auto

lemma ndata_addChild [simp]: "ndata (addChild n s c) = ndata n"
  by (cases "(n, s, c)" rule: addChild.cases) auto

lemma ndata_setData [simp]: "ndata (setData n x) = Some x"
  by (cases n) auto

lemma getChild_setData [simp]: "getChild (setData n x) s = getChild n s"
  by (cases "(n, s)" rule: getChild.cases) auto

lemma getChild_getOrNewChild:
  "getChild (getOrNewChild n s f) t =
     (if t = s then Some (f (case getChild n s of None \<Rightarrow> newNode | Some c \<Rightarrow> c)) else getChild n t)"
  by (auto simp: getOrNewChild_def getChild_setChild getChild_addChild split: option.splits)

lemma ndata_getOrNewChild [simp]: "ndata (getOrNewChild n s f) = ndata n"
  by (simp add: getOrNewChild_def split: option.splits)

lemma look_insert_path: "look (insert_path ps x n) qs = (if qs = ps then Some x else look n qs)"
proof (induction ps arbitrary: n qs)
  case Nil
  show ?case by (cases qs) auto
next
  case (Cons p ps)
  show ?case
  proof (cases qs)
    case Nil
    then show ?thesis by simp
  next
    case (Cons q qs')
    with Cons.IH show ?thesis by (auto simp: getChild_getOrNewChild split: option.splits)
  qed
qed

subsection \<open>Well-formed nodes\<close>

fun node_wf :: "'a node \<Rightarrow> bool" where
  "node_wf (Node cm cn cs d) \<longleftrightarrow>
     (cm \<noteq> None \<longrightarrow> cn = None) \<and>
     (case cm of None \<Rightarrow> True | Some m \<Rightarrow> distinct (map fst m) \<and> (\<forall>p \<in> set m. node_wf (snd p))) \<and>
     (case cn of None \<Rightarrow> True | Some c \<Rightarrow> node_wf c)"

lemma node_wf_newNode [inv_intros, simp]: "node_wf newNode"
  by (simp add: newNode_def)

lemma node_wf_getChild: "node_wf n \<Longrightarrow> getChild n s = Some c \<Longrightarrow> node_wf c"
  by (cases "(n, s)" rule: getChild.cases) (auto split: if_splits dest: map_of_SomeD)

lemma node_wf_setChild [inv_intros]: "node_wf n \<Longrightarrow> node_wf c \<Longrightarrow> node_wf (setChild n s c)"
  using set_AList_update
  by (cases "(n, s, c)" rule: setChild.cases) (fastforce simp: distinct_update)+

lemma node_wf_addChild [inv_intros]: "node_wf n \<Longrightarrow> node_wf c \<Longrightarrow> node_wf (addChild n s c)"
  using set_AList_update
  by (cases "(n, s, c)" rule: addChild.cases) (fastforce simp: distinct_update)+

lemma node_wf_setData [inv_intros]: "node_wf n \<Longrightarrow> node_wf (setData n x)"
  by (cases n) auto

lemma node_wf_insert_path [inv_intros]: "node_wf n \<Longrightarrow> node_wf (insert_path ps x n)"
proof (induction ps arbitrary: n)
  case (Cons p ps)
  then show ?case
    by (auto simp: getOrNewChild_def intro!: inv_intros split: option.splits intro: node_wf_getChild)
qed (simp add: inv_intros)

lemma children_iff: "node_wf n \<Longrightarrow> (k, c) \<in> set (getChildren n) \<longleftrightarrow> getChild n k = Some c"
  by (cases n rule: getChildren.cases) auto

subsection \<open>Optimize\<close>

declare optimize.simps [simp del]

lemma optimize_simps:
  "optimize (Node None cn cs d) = Node None (map_option optimize cn) cs d"
  "optimize (Node (Some []) cn cs d) = Node None (map_option optimize cn) cs d"
  "optimize (Node (Some [(k, c)]) cn cs d) = optimize (Node None (Some c) k d)"
  "optimize (Node (Some (p # q # m)) cn cs d) =
     Node (Some (map (\<lambda>p. (fst p, optimize (snd p))) (p # q # m))) (map_option optimize cn) cs d"
proof -
  have m: "(case cn of None \<Rightarrow> None | Some c \<Rightarrow> Some (optimize c)) = map_option optimize cn"
    by (cases cn) auto
  show "optimize (Node None cn cs d) = Node None (map_option optimize cn) cs d"
    by (simp add: optimize.simps [of None] m)
  show "optimize (Node (Some []) cn cs d) = Node None (map_option optimize cn) cs d"
    by (simp add: optimize.simps [of "Some []"] m)
  show "optimize (Node (Some [(k, c)]) cn cs d) = optimize (Node None (Some c) k d)"
    by (simp add: optimize.simps [of "Some [(k, c)]"])
  show "optimize (Node (Some (p # q # m)) cn cs d) =
     Node (Some (map (\<lambda>p. (fst p, optimize (snd p))) (p # q # m))) (map_option optimize cn) cs d"
    by (simp add: optimize.simps [of "Some (p # q # m)"] m case_prod_unfold)
qed

lemma map_of_map_snd: "map_of (map (\<lambda>p. (fst p, f (snd p))) m) k = map_option f (map_of m k)"
  by (induction m) auto

lemma optimize_single:
  assumes "node_wf c \<Longrightarrow> node_wf (optimize c) \<and> (\<forall>ps. look (optimize c) ps = look c ps)"
    and "node_wf (Node None (Some c) k d)"
  shows "node_wf (optimize (Node None (Some c) k d)) \<and>
    (\<forall>ps. look (optimize (Node None (Some c) k d)) ps = look (Node None (Some c) k d) ps)"
proof (intro conjI allI)
  fix ps show "look (optimize (Node None (Some c) k d)) ps = look (Node None (Some c) k d) ps"
    using assms by (cases ps) (auto simp: optimize_simps)
qed (use assms in \<open>simp add: optimize_simps\<close>)

lemma optimize_wf_look:
  "node_wf n \<Longrightarrow> node_wf (optimize n) \<and> (\<forall>ps. look (optimize n) ps = look n ps)"
proof (induction "size n" arbitrary: n rule: less_induct)
  case less
  obtain cm cn cs d where n: "n = Node cm cn cs d" by (cases n)
  show ?case
  proof (cases cm)
    case None
    show ?thesis
    proof (cases cn)
      case None
      with \<open>cm = None\<close> n less.prems show ?thesis by (simp add: optimize_simps)
    next
      case (Some c)
      with \<open>cm = None\<close> n have "size c < size n" by simp
      then have "node_wf c \<Longrightarrow> node_wf (optimize c) \<and> (\<forall>ps. look (optimize c) ps = look c ps)"
        by (rule less.hyps)
      then show ?thesis using optimize_single Some \<open>cm = None\<close> n less.prems by metis
    qed
  next
    case (Some m)
    with n less.prems have wf: "cn = None" "distinct (map fst m)" "\<forall>p \<in> set m. node_wf (snd p)"
      by auto
    have IH: "node_wf (optimize (snd p)) \<and> (\<forall>ps. look (optimize (snd p)) ps = look (snd p) ps)"
      if "p \<in> set m" for p
      using that wf Some n size_node_map [of cm m p cn cs d] less.hyps [of "snd p"] by blast
    consider "m = []" | k c where "m = [(k, c)]" | p q m' where "m = p # q # m'"
      by (metis (no_types, lifting) neq_Nil_conv old.prod.exhaust)
    then show ?thesis
    proof cases
      case 1
      have "look (Node None None cs d) ps = look (Node (Some []) None cs d) ps" for ps by (cases ps) auto
      with 1 Some n wf show ?thesis by (simp add: optimize_simps)
    next
      case 2
      have e: "look (Node (Some [(k, c)]) None cs d) ps = look (Node None (Some c) k d) ps" for ps
        by (cases ps) auto
      from optimize_single [of c k d] IH [of "(k, c)"] 2 wf show ?thesis
        by (simp add: optimize_simps(3) n Some e)
    next
      case 3
      have o: "optimize n = Node (Some (map (\<lambda>p. (fst p, optimize (snd p))) m)) None cs d"
        using 3 Some n wf by (simp add: optimize_simps)
      have "look (optimize n) ps = look n ps" for ps
      proof (cases ps)
        case (Cons x xs)
        have g: "getChild (optimize n) x = map_option optimize (map_of m x)"
          unfolding o by (simp add: map_of_map_snd)
        have g': "getChild n x = map_of m x" using Some n by simp
        show ?thesis
          using IH by (cases "map_of m x") (auto simp: Cons g g' dest!: map_of_SomeD)
      next
        case Nil
        have "ndata (optimize n) = d" "ndata n = d" unfolding o using n by simp_all
        with Nil show ?thesis by simp
      qed
      with IH wf show ?thesis by (simp add: o o_def)
    qed
  qed
qed

lemma look_optimize: "node_wf n \<Longrightarrow> look (optimize n) ps = look n ps"
  using optimize_wf_look by blast

section \<open>What Search finds\<close>

text \<open>The paths under which data for a domain may be stored, in the order of priority of
  \<open>Search\<close>; the second component says how a stored path covers the parts of a domain.\<close>

fun candidates :: "string list \<Rightarrow> string list list" where
  "candidates [] = [[]]"
| "candidates (p # ps) =
     map ((#) p) (candidates ps) @ map ((#) wildcard) (candidates ps) @ [[dotWildcard]]"

fun path_matches :: "string list \<Rightarrow> string list \<Rightarrow> bool" where
  "path_matches [] ps \<longleftrightarrow> ps = []"
| "path_matches (q # qs) [] \<longleftrightarrow> False"
| "path_matches (q # qs) (p # ps) \<longleftrightarrow>
     ((q = p \<or> q = wildcard) \<and> path_matches qs ps) \<or> (q = dotWildcard \<and> qs = [])"

lemma candidates_iff: "qs \<in> set (candidates ps) \<longleftrightarrow> path_matches qs ps"
proof (induction qs ps rule: path_matches.induct)
  case (1 ps)
  show ?case by (cases ps) auto
qed (auto simp: image_iff)

definition node_data :: "'a node option \<Rightarrow> 'a option" where
  "node_data no = (case no of None \<Rightarrow> None | Some n \<Rightarrow> ndata n)"

lemma isEmpty_iff: "isEmpty no \<longleftrightarrow> node_data no = None"
  by (simp add: isEmpty_def node_data_def split: option.splits)

lemma search_path_candidates:
  "node_data (search_path n ps) = first_some (map (look n) (candidates ps))"
proof (induction ps arbitrary: n)
  case Nil
  show ?case by (cases "ndata n") (simp_all add: node_data_def)
next
  case (Cons p ps)
  have sub: "node_data (case getChild n q of None \<Rightarrow> None | Some c \<Rightarrow> search_path c ps) =
      first_some (map (look n) (map ((#) q) (candidates ps)))" for q
    using Cons.IH
    by (cases "getChild n q") (auto simp: node_data_def o_def first_some_None_iff)
  have d: "node_data (getChild n dotWildcard) = first_some [look n [dotWildcard]]"
    by (cases "getChild n dotWildcard"; cases "node_data (getChild n dotWildcard)")
       (auto simp: node_data_def)
  have s: "node_data (search_path n (p # ps)) = first_some
      [node_data (case getChild n p of None \<Rightarrow> None | Some c \<Rightarrow> search_path c ps),
       node_data (case getChild n wildcard of None \<Rightarrow> None | Some c \<Rightarrow> search_path c ps),
       node_data (getChild n dotWildcard)]"
    by (auto simp: Let_def isEmpty_iff split: option.splits)
  show ?case
    unfolding s sub d by (auto simp: first_some_append split: option.splits)
qed

section \<open>Tries built by insertions\<close>

text \<open>The paths one \<open>Insert\<close> sets, and a sequence of calls of \<open>Insert\<close> whose errors the
  caller ignores.\<close>

definition pattern_paths :: "string \<Rightarrow> string list list" where
  "pattern_paths d =
     (case ValidAndSplitDomain d of
        None \<Rightarrow> []
      | Some parts \<Rightarrow>
          if hd parts = complexWildcard then [rev (dotWildcard # tl parts), rev (tl parts)]
          else [rev parts])"

fun insert_all :: "(string \<times> 'a) list \<Rightarrow> 'a node \<Rightarrow> 'a node" where
  "insert_all [] n = n"
| "insert_all ((d, x) # ds) n =
     insert_all ds (case Insert d x n of None \<Rightarrow> n | Some n' \<Rightarrow> n')"

text \<open>What a path holds after the insertions \<open>ds\<close>: the last one that set it.\<close>

definition last_insert :: "(string \<times> 'a) list \<Rightarrow> string list \<Rightarrow> 'a option" where
  "last_insert ds q = first_some (map (\<lambda>(d, x). if q \<in> set (pattern_paths d) then Some x else None) (rev ds))"

lemma Insert_None_iff: "Insert d x n = None \<longleftrightarrow> ValidAndSplitDomain d = None"
  by (simp add: Insert_def split: option.splits)

lemma look_Insert:
  "Insert d x n = Some n' \<Longrightarrow> look n' q = (if q \<in> set (pattern_paths d) then Some x else look n q)"
  by (auto simp: Insert_def pattern_paths_def trie_insert_def look_insert_path
      split: option.splits if_splits)

lemma node_wf_Insert [inv_intros]: "node_wf n \<Longrightarrow> Insert d x n = Some n' \<Longrightarrow> node_wf n'"
  by (auto simp: Insert_def trie_insert_def intro: inv_intros split: option.splits if_splits)

lemma node_wf_insert_all [inv_intros]: "node_wf n \<Longrightarrow> node_wf (insert_all ds n)"
  by (induction ds n rule: insert_all.induct) (auto split: option.splits dest: node_wf_Insert)

lemma look_insert_all:
  "look (insert_all ds n) q = (case last_insert ds q of None \<Rightarrow> look n q | Some x \<Rightarrow> Some x)"
proof (induction ds n rule: insert_all.induct)
  case (2 d x ds n)
  have "pattern_paths d = []" if "ValidAndSplitDomain d = None"
    using that by (simp add: pattern_paths_def)
  with 2 show ?case
    by (auto simp: look_Insert last_insert_def first_some_append Insert_None_iff split: option.splits)
qed (simp add: last_insert_def)

lemma look_built: "look (insert_all ds newNode) = last_insert ds"
  by (rule ext) (simp add: look_insert_all split: option.splits)

lemma last_insert_Some: "last_insert ds q \<noteq> None \<longleftrightarrow> (\<exists>(d, x) \<in> set ds. q \<in> set (pattern_paths d))"
  by (force simp: last_insert_def first_some_None_iff split: if_splits)

section \<open>Patterns\<close>

text \<open>What a pattern means, read from the documentation of \<open>Insert\<close>: a label stands for
  itself, \<open>*\<close> for one label, a leading empty label for one or more labels, and a
  leading \<open>+\<close> for any number of labels.\<close>

definition label_ok :: "string \<Rightarrow> string \<Rightarrow> bool" where
  "label_ok q p \<longleftrightarrow> q = p \<or> q = wildcard"

definition covers :: "string list \<Rightarrow> string list \<Rightarrow> bool" where
  "covers pat ps \<longleftrightarrow>
     list_all2 label_ok pat ps \<and> hd pat \<noteq> complexWildcard \<or>
     (hd pat = dotWildcard \<and> (\<exists>pre suf. ps = pre @ suf \<and> pre \<noteq> [] \<and> list_all2 label_ok (tl pat) suf)) \<or>
     (hd pat = complexWildcard \<and> (\<exists>pre suf. ps = pre @ suf \<and> list_all2 label_ok (tl pat) suf))"

lemma ValidAndSplit_labels:
  assumes "ValidAndSplitDomain d = Some parts"
  shows "parts \<noteq> []" "'''' \<notin> set (tl parts)"
proof -
  let ?s = "split_on domainStep (to_lower d)"
  have p: "parts = ?s" "length ?s = 1 \<or> '''' \<notin> set (tl ?s)"
    using assms by (auto simp: ValidAndSplitDomain_def Let_def split: if_splits)
  from p(1) show "parts \<noteq> []" by simp
  from p show "'''' \<notin> set (tl parts)" by (cases ?s) auto
qed

lemma path_matches_iff:
  assumes "dotWildcard \<notin> set (butlast q)" "dotWildcard \<notin> set p"
  shows "path_matches q p \<longleftrightarrow>
    list_all2 label_ok q p \<or>
    (q \<noteq> [] \<and> last q = dotWildcard \<and>
       (\<exists>suf pre. p = suf @ pre \<and> pre \<noteq> [] \<and> list_all2 label_ok (butlast q) suf))"
  using assms
proof (induction q p rule: path_matches.induct)
  case (3 q qs p ps)
  show ?case
  proof (cases "qs = []")
    case True
    then show ?thesis
      by (auto simp: label_ok_def wildcard_def dotWildcard_def)
  next
    case False
    with "3.prems" have q: "q \<noteq> dotWildcard" "dotWildcard \<notin> set (butlast qs)" "dotWildcard \<notin> set ps"
      by auto
    note IH = "3.IH" [OF q(2,3)]
    show ?thesis (is "?l = ?r")
    proof
      assume ?l
      with q have ok: "label_ok q p" "path_matches qs ps" by (auto simp: label_ok_def)
      with IH False show ?r
        by (auto simp: list_all2_Cons1 intro: exI [of _ "p # _"])
          (metis append_Cons list.rel_intros(2))
    next
      assume ?r
      with False have "label_ok q p \<and> (list_all2 label_ok qs ps \<or>
          last qs = dotWildcard \<and> (\<exists>suf pre. ps = suf @ pre \<and> pre \<noteq> [] \<and> list_all2 label_ok (butlast qs) suf))"
        by (auto simp: list_all2_Cons1) blast
      with IH False show ?l unfolding path_matches.simps label_ok_def by blast
    qed
  qed
qed auto

lemma covers_iff_paths:
  assumes d: "ValidAndSplitDomain d = Some pat" and ps: "dotWildcard \<notin> set ps" "ps \<noteq> []"
  shows "covers pat ps \<longleftrightarrow> (\<exists>q \<in> set (pattern_paths d). path_matches q (rev ps))"
proof -
  obtain h t where pat: "pat = h # t" using ValidAndSplit_labels [OF d] by (cases pat) auto
  have t: "dotWildcard \<notin> set t" using ValidAndSplit_labels(2) [OF d] pat by (simp add: dotWildcard_def)
  have rps: "dotWildcard \<notin> set (rev ps)" using ps by simp
  have split: "(\<exists>suf pre. rev ps = suf @ pre \<and> pre \<noteq> [] \<and> list_all2 label_ok (rev t) suf) \<longleftrightarrow>
      (\<exists>pre suf. ps = pre @ suf \<and> pre \<noteq> [] \<and> list_all2 label_ok t suf)"
    (is "?l \<longleftrightarrow> ?r")
  proof
    assume ?l
    then obtain suf pre where s: "rev ps = suf @ pre" "pre \<noteq> []" "list_all2 label_ok (rev t) suf" by blast
    then have "ps = rev pre @ rev suf" by (metis rev_append rev_rev_ident)
    moreover have "list_all2 label_ok t (rev suf)" using s(3) list_all2_rev [of _ t "rev suf"] by simp
    ultimately show ?r using s(2) by blast
  next
    assume ?r
    then obtain pre suf where "ps = pre @ suf" "pre \<noteq> []" "list_all2 label_ok t suf" by blast
    then have "rev ps = rev suf @ rev pre" "rev pre \<noteq> []" "list_all2 label_ok (rev t) (rev suf)" by auto
    then show ?l by blast
  qed
  have tl: "path_matches (rev t) (rev ps) \<longleftrightarrow> list_all2 label_ok t ps"
  proof -
    have "last (rev t) \<noteq> dotWildcard" if "rev t \<noteq> []"
      using t that last_in_set [of "rev t"] by auto
    moreover have "dotWildcard \<notin> set (butlast (rev t))"
      using t in_set_butlastD [of dotWildcard "rev t"] by auto
    ultimately show ?thesis using rps path_matches_iff [of "rev t" "rev ps"] by auto
  qed
  have whole: "path_matches (rev (x # t)) (rev ps) \<longleftrightarrow> list_all2 label_ok (x # t) ps \<or>
      (x = dotWildcard \<and> (\<exists>pre suf. ps = pre @ suf \<and> pre \<noteq> [] \<and> list_all2 label_ok t suf))" for x
    using t rps split by (subst path_matches_iff) (auto simp: list_all2_rev [of _ "x # t" ps, simplified])
  have none: "\<not> list_all2 label_ok (dotWildcard # t) ps"
    using ps by (cases ps) (auto simp: label_ok_def wildcard_def dotWildcard_def)
  have all: "(\<exists>pre suf. ps = pre @ suf \<and> list_all2 label_ok t suf) \<longleftrightarrow>
      list_all2 label_ok t ps \<or> (\<exists>pre suf. ps = pre @ suf \<and> pre \<noteq> [] \<and> list_all2 label_ok t suf)"
    by (metis append_Nil)
  show ?thesis
  proof (cases "h = complexWildcard")
    case True
    then have "pattern_paths d = [rev (dotWildcard # t), rev t]"
      using d pat by (simp add: pattern_paths_def)
    with True pat tl whole [of dotWildcard] none all show ?thesis
      by (auto simp: covers_def complexWildcard_def dotWildcard_def)
  next
    case False
    then have "pattern_paths d = [rev (h # t)]"
      using d pat by (simp add: pattern_paths_def)
    with False pat whole [of h] show ?thesis by (auto simp: covers_def)
  qed
qed

lemma Search_candidates:
  "node_data (Search n d) =
     (case ValidAndSplitDomain d of
        None \<Rightarrow> None
      | Some ps \<Rightarrow> if hd ps = '''' then None else first_some (map (look n) (candidates (rev ps))))"
  by (auto simp: Search_def Let_def isEmpty_iff search_path_candidates [symmetric] node_data_def
      split: option.splits)

lemma Search_cong: "look n = look n' \<Longrightarrow> node_data (Search n d) = node_data (Search n' d)"
  unfolding Search_candidates by (rule arg_cong [where f = "\<lambda>l. case ValidAndSplitDomain d of
    None \<Rightarrow> None | Some ps \<Rightarrow> if hd ps = [] then None else first_some (map l (candidates (rev ps)))"])

lemma Search_built:
  "ValidAndSplitDomain d = Some ps \<Longrightarrow> hd ps \<noteq> [] \<Longrightarrow>
    node_data (Search (insert_all ds newNode) d) = first_some (map (last_insert ds) (candidates (rev ps)))"
  by (simp add: Search_candidates look_built)

lemma Search_optimize_built:
  "node_data (Search (optimize (insert_all ds newNode)) d) = node_data (Search (insert_all ds newNode) d)"
  by (rule Search_cong, rule ext) (simp add: look_optimize inv_intros)

lemma Search_data_iff: "Search n d \<noteq> None \<longleftrightarrow> node_data (Search n d) \<noteq> None"
  by (auto simp: Search_def Let_def isEmpty_iff node_data_def split: option.splits)

lemma valid_domain_labels:
  "ValidAndSplitDomain d = Some ps \<Longrightarrow> hd ps \<noteq> '''' \<Longrightarrow> dotWildcard \<notin> set ps \<and> ps \<noteq> []"
  using ValidAndSplit_labels [of d ps] by (cases ps) (auto simp: dotWildcard_def)

section \<open>Properties\<close>

text \<open>C1: in a trie built by any sequence of insertions, \<open>Search\<close> finds a node exactly when
  the domain is valid, does not begin with a dot, and is covered by one of the inserted
  patterns, \<open>*\<close>, leading-dot and \<open>+\<close> patterns included.\<close>

theorem Search_iff_covered:
  "Search (insert_all ds newNode) d \<noteq> None \<longleftrightarrow>
     (case ValidAndSplitDomain d of
        None \<Rightarrow> False
      | Some ps \<Rightarrow> hd ps \<noteq> '''' \<and>
          (\<exists>(p, x) \<in> set ds. case ValidAndSplitDomain p of None \<Rightarrow> False | Some pat \<Rightarrow> covers pat ps))"
proof (cases "ValidAndSplitDomain d")
  case None
  then show ?thesis by (simp add: Search_def)
next
  case (Some ps)
  show ?thesis
  proof (cases "hd ps = ''''")
    case True
    with Some show ?thesis by (simp add: Search_def)
  next
    case False
    note ne = valid_domain_labels [OF Some False]
    have "Search (insert_all ds newNode) d \<noteq> None \<longleftrightarrow>
        (\<exists>q. path_matches q (rev ps) \<and> last_insert ds q \<noteq> None)"
      using Some False
      unfolding Search_data_iff
      by (auto simp: Search_candidates first_some_None_iff look_insert_all
          candidates_iff [symmetric] split: option.splits)
    also have "\<dots> \<longleftrightarrow> (\<exists>(p, x) \<in> set ds. \<exists>q \<in> set (pattern_paths p). path_matches q (rev ps))"
      unfolding last_insert_Some by blast
    also have "\<dots> \<longleftrightarrow> (\<exists>(p, x) \<in> set ds.
        case ValidAndSplitDomain p of None \<Rightarrow> False | Some pat \<Rightarrow> covers pat ps)"
    proof -
      have "(\<exists>q \<in> set (pattern_paths p). path_matches q (rev ps)) \<longleftrightarrow>
          (case ValidAndSplitDomain p of None \<Rightarrow> False | Some pat \<Rightarrow> covers pat ps)" for p
        using ne covers_iff_paths [of p _ ps]
        by (cases "ValidAndSplitDomain p") (auto simp: pattern_paths_def)
      then show ?thesis by (intro bex_cong refl) auto
    qed
    finally show ?thesis using Some False by simp
  qed
qed

text \<open>C39: in a trie built by any sequence of insertions, the data \<open>Search\<close> returns for a valid domain that does not begin
  with a dot follows the documented priority: from the last label to the first, the label itself before \<open>*\<close>, both before a
  leading dot; among patterns stored at the same path the last insertion wins.\<close>

theorem Search_priority:
  assumes "ValidAndSplitDomain d = Some ps" and "hd ps \<noteq> ''''"
  shows "node_data (Search (insert_all ds newNode) d) =
    first_some (map (last_insert ds) (candidates (rev ps)))"
proof -
  from assms show ?thesis by (simp add: Search_candidates look_built)
qed

theorem Search_priority_witness:
  "node_data (Search (insert_all [(''+.b.com'', 1), (''*.b.com'', 2), (''A.b.com'', 3::nat)] newNode) ''a.B.com'') = Some 3"
proof -
  have v: "ValidAndSplitDomain ''a.B.com'' = Some [''a'', ''b'', ''com'']" by code_simp
  have "first_some (map (last_insert [(''+.b.com'', 1), (''*.b.com'', 2), (''A.b.com'', 3::nat)])
      (candidates (rev [''a'', ''b'', ''com'']))) = Some 3"
    by code_simp
  with Search_priority [OF v, of "[(''+.b.com'', 1), (''*.b.com'', 2), (''A.b.com'', 3::nat)]"]
  show ?thesis by simp
qed

text \<open>\<open>Optimize\<close>, called after any insertions and followed by any others, never
  changes what \<open>Search\<close> returns.\<close>

theorem Search_after_Optimize:
  "node_data (Search (insert_all ds2 (optimize (insert_all ds1 newNode))) d) =
   node_data (Search (insert_all (ds1 @ ds2) newNode) d)"
proof -
  have "last_insert (ds1 @ ds2) q =
      (case last_insert ds2 q of None \<Rightarrow> last_insert ds1 q | Some x \<Rightarrow> Some x)" for q
    by (simp add: last_insert_def first_some_append split: option.splits)
  then have "look (insert_all ds2 (optimize (insert_all ds1 newNode))) q =
      look (insert_all (ds1 @ ds2) newNode) q" for q
    by (simp add: look_insert_all look_optimize inv_intros split: option.splits)
  then have "look (insert_all ds2 (optimize (insert_all ds1 newNode))) =
      look (insert_all (ds1 @ ds2) newNode)"
    by (rule ext)
  then show ?thesis by (rule Search_cong)
qed

section \<open>Foreach\<close>

definition show_path :: "string list \<Rightarrow> string" where
  "show_path q =
     (let s = joinDomain (rev q)
      in if length q > 1 \<and> s \<noteq> [] \<and> hd s = domainStep then complexWildcard @ s else s)"

lemma joinDomain_two: "items \<noteq> [] \<Longrightarrow> joinDomain (k # items) = k @ domainStep # joinDomain items"
  by (cases items) (simp_all add: joinDomain_def join_with_Cons)

declare recursion.simps [simp del]

lemma recursion_single:
  "recursion items (Node None None k d) = []"
  "recursion items (Node None (Some c) k d) =
     (let dn = joinDomain (k # items)
      in (case ndata c of None \<Rightarrow> []
          | Some x \<Rightarrow> [(if dn \<noteq> [] \<and> hd dn = domainStep then complexWildcard @ dn else dn, x)])) @
     recursion (k # items) c"
  by (subst recursion.simps, simp add: Let_def)+

lemma set_concat_alist:
  "y \<in> set (concat (map f xs)) \<longleftrightarrow> (\<exists>k c. (k, c) \<in> set xs \<and> y \<in> set (f (k, c)))"
  by (auto simp: Bex_def)

lemma ex_children_look:
  assumes "node_wf n"
  shows "(\<exists>k c. (k, c) \<in> set (getChildren n) \<and>
      (ndata c = Some x \<and> P [k] \<or> (\<exists>q. q \<noteq> [] \<and> look c q = Some x \<and> P (k # q)))) \<longleftrightarrow>
    (\<exists>q. q \<noteq> [] \<and> look n q = Some x \<and> P q)" (is "?l \<longleftrightarrow> ?r")
proof
  assume ?l
  then obtain k c where kc: "getChild n k = Some c"
    "ndata c = Some x \<and> P [k] \<or> (\<exists>q. q \<noteq> [] \<and> look c q = Some x \<and> P (k # q))"
    unfolding children_iff [OF assms] by blast
  from kc(2) show ?r
  proof (elim disjE conjE exE)
    assume "ndata c = Some x" "P [k]"
    with kc(1) show ?r by (intro exI [of _ "[k]"]) simp
  next
    fix q assume "q \<noteq> []" "look c q = Some x" "P (k # q)"
    with kc(1) show ?r by (intro exI [of _ "k # q"]) simp
  qed
next
  assume ?r
  then obtain k q' where q: "look n (k # q') = Some x" "P (k # q')" by (auto simp: neq_Nil_conv)
  then obtain c where c: "getChild n k = Some c" "look c q' = Some x" by (auto split: option.splits)
  with q have "ndata c = Some x \<and> P [k] \<or> (\<exists>q. q \<noteq> [] \<and> look c q = Some x \<and> P (k # q))"
    by (cases q') auto
  with c show ?l unfolding children_iff [OF assms] by blast
qed

lemma recursion_set:
  assumes "node_wf n" and "items \<noteq> []"
  shows "(s, x) \<in> set (recursion items n) \<longleftrightarrow>
    (\<exists>q. q \<noteq> [] \<and> look n q = Some x \<and> s = show_path (rev items @ q))"
  using assms
proof (induction items n rule: recursion.induct)
  case (1 items n)
  have c: "node_wf c" if "(k, c) \<in> set (getChildren n)" for k c
    using that "1.prems" children_iff node_wf_getChild by metis
  have IH: "(s, x) \<in> set (recursion (k # items) c) \<longleftrightarrow>
      (\<exists>q. q \<noteq> [] \<and> look c q = Some x \<and> s = show_path (rev items @ k # q))"
    if "(k, c) \<in> set (getChildren n)" for k c
    using "1.IH" [OF that refl refl refl refl c [OF that]] by simp
  have sp: "show_path (rev items @ [k]) =
      (let dn = joinDomain (k # items)
       in if dn \<noteq> [] \<and> hd dn = domainStep then complexWildcard @ dn else dn)" for k
    using "1.prems" by (simp add: show_path_def)
  have "(s, x) \<in> set (recursion items n) \<longleftrightarrow>
      (\<exists>k c. (k, c) \<in> set (getChildren n) \<and>
        (ndata c = Some x \<and> s = show_path (rev items @ [k]) \<or>
         (\<exists>q. q \<noteq> [] \<and> look c q = Some x \<and> s = show_path (rev items @ k # q))))"
    unfolding recursion.simps [of items n] set_concat_alist
  proof (intro ex_cong1 conj_cong refl)
    fix k c assume kc: "(k, c) \<in> set (getChildren n)"
    show "(s, x) \<in> set (case (k, c) of (key, c) \<Rightarrow>
        let newItems = key # items; domain = joinDomain newItems;
            domain' = if domain \<noteq> [] \<and> hd domain = domainStep then complexWildcard @ domain else domain
        in (case ndata c of None \<Rightarrow> [] | Some x \<Rightarrow> [(domain', x)]) @ recursion newItems c) \<longleftrightarrow>
        ndata c = Some x \<and> s = show_path (rev items @ [k]) \<or>
        (\<exists>q. q \<noteq> [] \<and> look c q = Some x \<and> s = show_path (rev items @ k # q))"
      unfolding sp Let_def case_prod_conv set_append Un_iff IH [OF kc] by (cases "ndata c") auto
  qed
  also have "\<dots> \<longleftrightarrow> (\<exists>q. q \<noteq> [] \<and> look n q = Some x \<and> s = show_path (rev items @ q))"
    by (rule ex_children_look [OF "1.prems"(1)])
  finally show ?case .
qed

lemma Foreach_set:
  assumes "node_wf n"
  shows "(s, x) \<in> set (Foreach n) \<longleftrightarrow> (\<exists>q. q \<noteq> [] \<and> look n q = Some x \<and> s = show_path q)"
proof -
  have c: "node_wf c" if "(k, c) \<in> set (getChildren n)" for k c
    using that assms children_iff node_wf_getChild by metis
  have sp: "show_path [k] = joinDomain [k]" for k by (simp add: show_path_def)
  have R: "(s, x) \<in> set (recursion [k] c) \<longleftrightarrow>
      (\<exists>q. q \<noteq> [] \<and> look c q = Some x \<and> s = show_path (k # q))"
    if "(k, c) \<in> set (getChildren n)" for k c
    using recursion_set [OF c [OF that], of "[k]" s x] by simp
  have "(s, x) \<in> set (Foreach n) \<longleftrightarrow>
      (\<exists>k c. (k, c) \<in> set (getChildren n) \<and>
        (ndata c = Some x \<and> s = show_path [k] \<or>
         (\<exists>q. q \<noteq> [] \<and> look c q = Some x \<and> s = show_path (k # q))))"
    unfolding Foreach_def set_concat_alist
  proof (intro ex_cong1 conj_cong refl)
    fix k c assume kc: "(k, c) \<in> set (getChildren n)"
    show "(s, x) \<in> set (case (k, c) of (key, c) \<Rightarrow> recursion [key] c @
        (case ndata c of None \<Rightarrow> [] | Some x \<Rightarrow> [(joinDomain [key], x)])) \<longleftrightarrow>
        ndata c = Some x \<and> s = show_path [k] \<or>
        (\<exists>q. q \<noteq> [] \<and> look c q = Some x \<and> s = show_path (k # q))"
      unfolding sp case_prod_conv set_append Un_iff R [OF kc] by (cases "ndata c") auto
  qed
  also have "\<dots> \<longleftrightarrow> (\<exists>q. q \<noteq> [] \<and> look n q = Some x \<and> s = show_path q)"
    by (rule ex_children_look [OF assms])
  finally show ?thesis .
qed

text \<open>\<open>Foreach\<close> reports exactly what the insertions left stored, each path under
  its printed domain, with \<open>+\<close> put before a leading dot; only data at the root (from the
  pattern \<open>+\<close> alone) is not reported.\<close>

theorem Foreach_lists_stored:
  "(s, x) \<in> set (Foreach (insert_all ds newNode)) \<longleftrightarrow>
     (\<exists>q. q \<noteq> [] \<and> last_insert ds q = Some x \<and> s = show_path q)"
  using Foreach_set [of "insert_all ds newNode" s x]
  by (simp add: look_built inv_intros)

text \<open>\<open>Foreach\<close> prints a leading-dot pattern with \<open>+\<close>, so a set rebuilt from its
  output also covers the bare domain, which the pattern in the trie does not.\<close>

theorem Foreach_dot_pattern_widened:
  "Foreach (insert_all [(''.b.com'', x)] newNode) = [(''+.b.com'', x)] \<and>
   Search (insert_all [(''.b.com'', x)] newNode) ''b.com'' = None \<and>
   node_data (Search (insert_all [(''+.b.com'', x)] newNode) ''b.com'') = Some x"
proof -
  have v: "ValidAndSplitDomain ''.b.com'' = Some ['''', ''b'', ''com'']"
    "ValidAndSplitDomain ''+.b.com'' = Some [''+'', ''b'', ''com'']"
    "ValidAndSplitDomain ''b.com'' = Some [''b'', ''com'']" by code_simp+
  let ?leaf = "Node None None [] (Some x)"
  have b: "insert_all [(''.b.com'', x)] newNode =
      Node None (Some (Node None (Some (Node None (Some ?leaf) [] None)) ''b'' None)) ''com'' None"
    by (simp add: v Insert_def trie_insert_def getOrNewChild_def newNode_def complexWildcard_def)
  have w: "insert_all [(''+.b.com'', x)] newNode =
      Node None (Some (Node None (Some (Node None (Some ?leaf) [] (Some x))) ''b'' None)) ''com'' None"
    by (simp add: v Insert_def trie_insert_def getOrNewChild_def newNode_def complexWildcard_def dotWildcard_def)
  have "Foreach (insert_all [(''.b.com'', x)] newNode) = [(''+.b.com'', x)]"
    unfolding b by (simp add: Foreach_def recursion_single joinDomain_def complexWildcard_def domainStep_def)
  moreover have "Search (insert_all [(''.b.com'', x)] newNode) ''b.com'' = None"
    unfolding b by (simp add: Search_def v isEmpty_def wildcard_def dotWildcard_def)
  moreover have "node_data (Search (insert_all [(''+.b.com'', x)] newNode) ''b.com'') = Some x"
    unfolding w by (simp add: Search_candidates v)
  ultimately show ?thesis by blast
qed

end
