(* ===== verification/IpCidrTrie.thy ===== *)
theory IpCidrTrie
  imports Prelude
begin

text \<open>
  The CIDR trie of \<open>component/trie/ipcidr_trie.go\<close> and its nodes (\<open>ipcidr_node.go\<close>).

  An address is the list of its bytes (\<open>net.IP\<close>); IPv4 addresses are walked byte by byte,
  IPv6 addresses in groups of two bytes. A mask is its number of leading ones, what
  \<open>Mask.Size\<close> returns. A walk of the trie changes nodes through pointers, and every
  node has one parent, so the walk is a recursion that rebuilds the nodes it goes through.
\<close>

section \<open>Nodes\<close>

datatype cidr_node =
  CidrNode (Mark: bool) (child: "(nat \<times> cidr_node) list") (maxValue: nat)

definition NewIpCidrNode :: "bool \<Rightarrow> nat \<Rightarrow> cidr_node" where
  "NewIpCidrNode mark mx = CidrNode mark [] mx"

definition cidr_addChild :: "cidr_node \<Rightarrow> nat \<Rightarrow> cidr_node option" where
  "cidr_addChild n v =
     (if v > maxValue n then None
      else Some (CidrNode (Mark n) (AList.update v (NewIpCidrNode False (maxValue n)) (child n)) (maxValue n)))"

definition cidr_getChild :: "cidr_node \<Rightarrow> nat \<Rightarrow> cidr_node option" where
  "cidr_getChild n v = (if v \<le> maxValue n then map_of (child n) v else None)"

definition cidr_hasChild :: "cidr_node \<Rightarrow> nat \<Rightarrow> bool" where
  "cidr_hasChild n v \<longleftrightarrow> cidr_getChild n v \<noteq> None"

definition cidr_setChild :: "cidr_node \<Rightarrow> nat \<Rightarrow> cidr_node \<Rightarrow> cidr_node" where
  "cidr_setChild n v c = CidrNode (Mark n) (AList.update v c (child n)) (maxValue n)"

text \<open>\<open>cleanChild\<close> deletes the keys from 0 on, below the length of the map, which shrinks.\<close>

function clean_from :: "nat \<Rightarrow> (nat \<times> 'b) list \<Rightarrow> (nat \<times> 'b) list" where
  "clean_from i m = (if i < length m then clean_from (Suc i) (AList.delete i m) else m)"
  by auto
termination
proof (relation "measure (\<lambda>(i, m). length m - i)", goal_cases)
  case (2 i m)
  have "length (AList.delete i m) \<le> length m" by (rule length_delete_le)
  with 2 show ?case by (simp add: diff_less_mono2 less_Suc_eq_le le_less_trans)
qed simp

definition cleanChild :: "cidr_node \<Rightarrow> cidr_node" where
  "cleanChild n = CidrNode (Mark n) (clean_from 0 (child n)) (maxValue n)"

definition set_mark :: "cidr_node \<Rightarrow> cidr_node" where
  "set_mark n = cleanChild (CidrNode True (child n) (maxValue n))"

section \<open>Adding\<close>

record cidr_trie =
  ipv4Trie :: cidr_node
  ipv6Trie :: cidr_node

definition NewIpCidrTrie :: cidr_trie where
  "NewIpCidrTrie = \<lparr>ipv4Trie = NewIpCidrNode False 255, ipv6Trie = NewIpCidrNode False 65535\<rparr>"

definition getIpv6GroupValue :: "u8 \<Rightarrow> u8 \<Rightarrow> nat" where
  "getIpv6GroupValue high low = unat ((push_bit 8 (ucast high) OR ucast low) :: u32)"

fun groups6 :: "u8 list \<Rightarrow> nat list" where
  "groups6 (a # b # bs) = getIpv6GroupValue a b # groups6 bs"
| "groups6 _ = []"

definition groups4 :: "u8 list \<Rightarrow> nat list" where
  "groups4 bs = map unat bs"

text \<open>The loop of \<open>addIpv4Cidr\<close> and \<open>addIpv6Cidr\<close> from the node reached by the group
  \<open>prev\<close>, over the groups that are left.\<close>

fun add_walk :: "cidr_node \<Rightarrow> nat \<Rightarrow> nat list \<Rightarrow> cidr_node" where
  "add_walk n prev [] = set_mark n"
| "add_walk n prev (g # gs) =
     (if Mark n then n
      else
        let n1 = (if cidr_hasChild n g then n else case cidr_addChild n g of None \<Rightarrow> n | Some n1 \<Rightarrow> n1)
        in case cidr_getChild n1 g of
             Some c \<Rightarrow> cidr_setChild n1 g (add_walk c g gs)
           | None \<Rightarrow>
               (case cidr_addChild n1 prev of
                  None \<Rightarrow> n1
                | Some n2 \<Rightarrow>
                    (case cidr_getChild n2 prev of
                       Some c \<Rightarrow> cidr_setChild n2 prev (add_walk c g gs)
                     | None \<Rightarrow> n2)))"

text \<open>The steps before the loop: the child of the root for the first group.\<close>

definition add_groups :: "cidr_node \<Rightarrow> nat \<Rightarrow> nat list \<Rightarrow> cidr_node" where
  "add_groups root g gs =
     (let r1 = (case cidr_getChild root g of
                  Some _ \<Rightarrow> Some root
                | None \<Rightarrow> cidr_addChild root g)
      in case r1 of
           None \<Rightarrow> root
         | Some r1 \<Rightarrow>
             (case cidr_getChild r1 g of
                None \<Rightarrow> r1
              | Some c \<Rightarrow> cidr_setChild r1 g (add_walk c g gs)))"

definition addIpv4Cidr :: "cidr_trie \<Rightarrow> u8 list \<Rightarrow> nat \<Rightarrow> cidr_trie" where
  "addIpv4Cidr t ip groupSize =
     t\<lparr>ipv4Trie := add_groups (ipv4Trie t) (unat (ip ! 0)) (groups4 (drop 1 (take groupSize ip)))\<rparr>"

text \<open>Here \<open>groupSize\<close> counts bytes; the loop steps by two.\<close>

definition addIpv6Cidr :: "cidr_trie \<Rightarrow> u8 list \<Rightarrow> nat \<Rightarrow> cidr_trie" where
  "addIpv6Cidr t ip groupSize =
     t\<lparr>ipv6Trie := add_groups (ipv6Trie t) (getIpv6GroupValue (ip ! 0) (ip ! 1))
        (map (\<lambda>i. getIpv6GroupValue (ip ! i) (ip ! (i + 1)))
          (filter (\<lambda>i. even i) [2..<groupSize]))\<rparr>"

definition addIpCidr :: "cidr_trie \<Rightarrow> bool \<Rightarrow> u8 list \<Rightarrow> nat \<Rightarrow> cidr_trie" where
  "addIpCidr t isIpv4 ip groupSize =
     (if isIpv4 then addIpv4Cidr t ip groupSize else addIpv6Cidr t ip groupSize)"

definition subIpCidr :: "u8 list \<Rightarrow> nat \<Rightarrow> bool \<Rightarrow> u8 list list \<times> nat" where
  "subIpCidr ip maskSize isIpv4 =
     (let groupSize = (if isIpv4 then 8 else 16)
      in if maskSize mod groupSize = 0 then ([ip], maskSize)
         else
           let lastByteMaskSize = maskSize mod 8;
               lastByteMaskIndex = maskSize div 8;
               subIpCidrNum = 255 div 2 ^ lastByteMaskSize;
               subs = map (\<lambda>i. ip[lastByteMaskIndex := ip ! lastByteMaskIndex + of_nat i]) [0..<subIpCidrNum + 1];
               newMaskSize = (if isIpv4 then (lastByteMaskIndex + 1) * 8 else (lastByteMaskIndex div 2 + 1) * 16)
           in (subs, newMaskSize))"

definition ipCidrToSubIpCidr :: "u8 list \<times> nat \<Rightarrow> u8 list list \<times> nat \<times> bool" where
  "ipCidrToSubIpCidr net =
     (let isIpv4 = (length (fst net) = 4);
          (ipList, newMaskSize) = subIpCidr (fst net) (snd net) isIpv4
      in (ipList, newMaskSize, isIpv4))"

definition AddIpCidr :: "cidr_trie \<Rightarrow> u8 list \<times> nat \<Rightarrow> cidr_trie" where
  "AddIpCidr t net =
     (let (subs, subCidr, isIpv4) = ipCidrToSubIpCidr net
      in foldl (\<lambda>t sub. addIpCidr t isIpv4 sub (subCidr div 8)) t subs)"

text \<open>\<open>net.ParseCIDR\<close> is the argument \<open>parse\<close>; \<open>None\<close> is its error.\<close>

definition AddIpCidrForString ::
  "(string \<Rightarrow> (u8 list \<times> nat) option) \<Rightarrow> cidr_trie \<Rightarrow> string \<Rightarrow> cidr_trie option" where
  "AddIpCidrForString parse t s =
     (case parse s of None \<Rightarrow> None | Some net \<Rightarrow> Some (AddIpCidr t net))"

section \<open>Searching\<close>

fun cidr_search :: "cidr_node \<Rightarrow> nat list \<Rightarrow> cidr_node option" where
  "cidr_search n [] = None"
| "cidr_search n (v # vs) =
     (case cidr_getChild n v of
        None \<Rightarrow> None
      | Some c \<Rightarrow> if Mark c then Some c else cidr_search c vs)"

definition IsContain :: "cidr_trie \<Rightarrow> u8 list \<Rightarrow> bool" where
  "IsContain t ip =
     (if ip = [] then False
      else if length ip = 4 then cidr_search (ipv4Trie t) (groups4 ip) \<noteq> None
      else cidr_search (ipv6Trie t) (groups6 ip) \<noteq> None)"

text \<open>\<open>net.ParseIP\<close> is the argument \<open>parse\<close>; \<open>To4\<close> takes an address that is IPv4, mapped
  into IPv6 or not, to its four bytes.\<close>

definition To4 :: "u8 list \<Rightarrow> u8 list option" where
  "To4 ip =
     (if length ip = 4 then Some ip
      else if length ip = 16 \<and> take 12 ip = replicate 10 0 @ [255, 255] then Some (drop 12 ip)
      else None)"

definition IsContainForString :: "(string \<Rightarrow> u8 list) \<Rightarrow> cidr_trie \<Rightarrow> string \<Rightarrow> bool" where
  "IsContainForString parse t s =
     (let ip = parse s in IsContain t (case To4 ip of None \<Rightarrow> ip | Some ip4 \<Rightarrow> ip4))"

section \<open>The walk\<close>

fun cidr_wf :: "nat \<Rightarrow> cidr_node \<Rightarrow> bool" where
  "cidr_wf mx (CidrNode mk m mv) \<longleftrightarrow> mv = mx \<and> (\<forall>p \<in> set m. cidr_wf mx (snd p))"

text \<open>The paths that a node covers when the walk has reached it.\<close>

definition reaches :: "cidr_node \<Rightarrow> nat list \<Rightarrow> bool" where
  "reaches n qs \<longleftrightarrow> Mark n \<or> cidr_search n qs \<noteq> None"

lemma cidr_wf_maxValue: "cidr_wf mx n \<Longrightarrow> maxValue n = mx"
  by (cases n) simp

lemma cidr_wf_New [inv_intros]: "cidr_wf mx (NewIpCidrNode b mx)"
  by (simp add: NewIpCidrNode_def)

lemma cidr_wf_getChild: "cidr_wf mx n \<Longrightarrow> cidr_getChild n v = Some c \<Longrightarrow> cidr_wf mx c"
  by (cases n) (force simp: cidr_getChild_def split: if_splits dest: map_of_SomeD)

lemma cidr_wf_setChild [inv_intros]: "cidr_wf mx n \<Longrightarrow> cidr_wf mx c \<Longrightarrow> cidr_wf mx (cidr_setChild n v c)"
  using set_AList_update by (cases n) (fastforce simp: cidr_setChild_def)

lemma cidr_wf_addChild: "cidr_wf mx n \<Longrightarrow> cidr_addChild n v = Some n' \<Longrightarrow> cidr_wf mx n'"
  using set_AList_update
  by (cases n) (fastforce simp: cidr_addChild_def NewIpCidrNode_def split: if_splits)

declare clean_from.simps [simp del]

lemma clean_from_Nil [simp]: "clean_from i [] = []"
  by (simp add: clean_from.simps)

lemma clean_from_subset: "set (clean_from i m) \<subseteq> set m"
proof (induction i m rule: clean_from.induct)
  case (1 i m)
  have "set (AList.delete i m) \<subseteq> set m" by (auto simp: AList.delete_eq)
  with 1 show ?case by (subst clean_from.simps) auto
qed

lemma cidr_wf_set_mark [inv_intros]: "cidr_wf mx n \<Longrightarrow> cidr_wf mx (set_mark n)"
  using clean_from_subset [of 0 "child n"] by (cases n) (auto simp: set_mark_def cleanChild_def)

lemma Mark_set_mark [simp]: "Mark (set_mark n)"
  by (simp add: set_mark_def cleanChild_def)

lemma getChild_New [simp]: "cidr_getChild (NewIpCidrNode b mx) v = None"
  by (simp add: NewIpCidrNode_def cidr_getChild_def)

lemma Mark_New [simp]: "Mark (NewIpCidrNode b mx) = b"
  by (simp add: NewIpCidrNode_def)

lemma reaches_New [simp]: "reaches (NewIpCidrNode False mx) qs = False"
  by (cases qs) (simp_all add: reaches_def)

lemma cidr_get_set:
  "v \<le> maxValue n \<Longrightarrow> cidr_getChild (cidr_setChild n v c) w = (if w = v then Some c else cidr_getChild n w)"
  by (simp add: cidr_setChild_def cidr_getChild_def update_conv')

lemma Mark_setChild [simp]: "Mark (cidr_setChild n v c) = Mark n"
  by (simp add: cidr_setChild_def)

lemma search_step: "cidr_search n (v # vs) \<noteq> None \<longleftrightarrow>
    (\<exists>c. cidr_getChild n v = Some c \<and> reaches c vs)"
  by (auto simp: reaches_def split: option.splits)

text \<open>Making sure that a child exists, the code shared by every step of a walk.\<close>

lemma ensure_child:
  assumes "g \<le> maxValue n"
  defines "n1 \<equiv> (if cidr_hasChild n g then n else case cidr_addChild n g of None \<Rightarrow> n | Some n1 \<Rightarrow> n1)"
    and "c \<equiv> (case cidr_getChild n g of Some c \<Rightarrow> c | None \<Rightarrow> NewIpCidrNode False (maxValue n))"
  shows "cidr_getChild n1 g = Some c" "Mark n1 = Mark n" "maxValue n1 = maxValue n"
    "w \<noteq> g \<Longrightarrow> cidr_getChild n1 w = cidr_getChild n w"
    "cidr_wf mx n \<Longrightarrow> cidr_wf mx n1"
proof -
  show "cidr_getChild n1 g = Some c" "Mark n1 = Mark n" "maxValue n1 = maxValue n"
    "w \<noteq> g \<Longrightarrow> cidr_getChild n1 w = cidr_getChild n w"
    using assms(1)
    by (auto simp: n1_def c_def cidr_hasChild_def cidr_addChild_def cidr_getChild_def update_conv'
        split: option.splits)
  show "cidr_wf mx n \<Longrightarrow> cidr_wf mx n1"
    using cidr_wf_addChild [of mx n g] by (auto simp: n1_def split: option.splits)
qed

lemma add_walk_Cons:
  assumes "g \<le> maxValue n" and "\<not> Mark n" and "cidr_wf mx n"
  obtains n1 where
    "cidr_getChild n1 g = Some (case cidr_getChild n g of Some c \<Rightarrow> c | None \<Rightarrow> NewIpCidrNode False (maxValue n))"
    "Mark n1 = Mark n" "maxValue n1 = maxValue n"
    "\<And>w. w \<noteq> g \<Longrightarrow> cidr_getChild n1 w = cidr_getChild n w"
    "cidr_wf mx n1"
    "add_walk n prev (g # gs) = cidr_setChild n1 g (add_walk
       (case cidr_getChild n g of Some c \<Rightarrow> c | None \<Rightarrow> NewIpCidrNode False (maxValue n)) g gs)"
proof -
  note e = ensure_child [OF assms(1)]
  show thesis
    by (rule that [OF e(1) e(2) e(3) e(4) e(5) [OF assms(3)]])
      (use assms(2) e(1) in \<open>simp_all add: Let_def\<close>)
qed

lemma add_walk_correct:
  assumes "cidr_wf mx n" and "\<forall>g \<in> set gs. g \<le> mx"
  shows "cidr_wf mx (add_walk n prev gs) \<and>
    (\<forall>qs. reaches (add_walk n prev gs) qs \<longleftrightarrow> reaches n qs \<or> prefix gs qs)"
  using assms
proof (induction gs arbitrary: n prev)
  case Nil
  then show ?case by (simp add: inv_intros reaches_def)
next
  case (Cons g gs)
  show ?case
  proof (cases "Mark n")
    case True
    with Cons.prems show ?thesis by (simp add: reaches_def)
  next
    case False
    let ?c = "case cidr_getChild n g of Some c \<Rightarrow> c | None \<Rightarrow> NewIpCidrNode False (maxValue n)"
    have mv: "maxValue n = mx" using Cons.prems(1) by (rule cidr_wf_maxValue)
    with Cons.prems have g: "g \<le> maxValue n" by simp
    obtain n1 where n1: "cidr_getChild n1 g = Some ?c" "Mark n1 = Mark n" "maxValue n1 = maxValue n"
      "\<And>w. w \<noteq> g \<Longrightarrow> cidr_getChild n1 w = cidr_getChild n w"
      "cidr_wf mx n1"
      "add_walk n prev (g # gs) = cidr_setChild n1 g (add_walk ?c g gs)"
      using add_walk_Cons [OF g False Cons.prems(1), of prev gs] by blast
    have wfc: "cidr_wf mx ?c"
      using Cons.prems(1) mv cidr_wf_getChild by (auto split: option.splits intro: inv_intros)
    have IH: "cidr_wf mx (add_walk ?c g gs)"
      "reaches (add_walk ?c g gs) qs \<longleftrightarrow> reaches ?c qs \<or> prefix gs qs" for qs
      using Cons.IH [OF wfc] Cons.prems(2) by auto
    have "cidr_search (cidr_setChild n1 g (add_walk ?c g gs)) qs \<noteq> None \<longleftrightarrow>
        cidr_search n qs \<noteq> None \<or> prefix (g # gs) qs" for qs
    proof (cases qs)
      case (Cons q qs')
      show ?thesis
        unfolding Cons search_step using g n1(3,4)
        by (auto simp: cidr_get_set IH split: option.splits)
    qed simp
    with False n1 IH(1) Cons.prems(1) show ?thesis
      by (auto simp: reaches_def inv_intros)
  qed
qed

lemma add_groups_correct:
  assumes "cidr_wf mx n" and "g \<le> mx" "\<forall>g \<in> set gs. g \<le> mx"
  shows "cidr_wf mx (add_groups n g gs) \<and>
    (\<forall>qs. cidr_search (add_groups n g gs) qs \<noteq> None \<longleftrightarrow> cidr_search n qs \<noteq> None \<or> prefix (g # gs) qs)"
proof -
  let ?c = "case cidr_getChild n g of Some c \<Rightarrow> c | None \<Rightarrow> NewIpCidrNode False (maxValue n)"
  let ?n1 = "if cidr_hasChild n g then n else case cidr_addChild n g of None \<Rightarrow> n | Some n1 \<Rightarrow> n1"
  have mv: "maxValue n = mx" using assms(1) by (rule cidr_wf_maxValue)
  with assms have g: "g \<le> maxValue n" by simp
  note n1 = ensure_child [OF g]
  have a: "add_groups n g gs = cidr_setChild ?n1 g (add_walk ?c g gs)"
    using n1(1) g by (auto simp: add_groups_def Let_def cidr_hasChild_def cidr_addChild_def split: option.splits)
  have wfc: "cidr_wf mx ?c"
    using assms(1) mv cidr_wf_getChild by (auto split: option.splits intro: inv_intros)
  note IH = add_walk_correct [OF wfc assms(3), of g]
  have "cidr_search (cidr_setChild ?n1 g (add_walk ?c g gs)) qs \<noteq> None \<longleftrightarrow>
      cidr_search n qs \<noteq> None \<or> prefix (g # gs) qs" for qs
  proof (cases qs)
    case (Cons q qs')
    show ?thesis
      unfolding Cons search_step using g n1(3,4) IH
      by (auto simp: cidr_get_set split: option.splits)
  qed simp
  with a n1(5) [OF assms(1)] IH show ?thesis by (simp add: inv_intros)
qed

section \<open>Networks as sets of addresses\<close>

definition byte_bits :: "u8 \<Rightarrow> bool list" where
  "byte_bits b = map (bit b) [7, 6, 5, 4, 3, 2, 1, 0]"

definition ip_bits :: "u8 list \<Rightarrow> bool list" where
  "ip_bits bs = concat (map byte_bits bs)"

text \<open>A network as \<open>net.ParseCIDR\<close> returns it: its address has no bits after the mask.\<close>

definition net_wf :: "u8 list \<times> nat \<Rightarrow> bool" where
  "net_wf net \<longleftrightarrow> length (fst net) \<in> {4, 16} \<and> snd net \<le> 8 * length (fst net) \<and>
     True \<notin> set (drop (snd net) (ip_bits (fst net)))"

definition in_net :: "u8 list \<times> nat \<Rightarrow> u8 list \<Rightarrow> bool" where
  "in_net net q \<longleftrightarrow> length q = length (fst net) \<and> take (snd net) (ip_bits q) = take (snd net) (ip_bits (fst net))"

lemma length_byte_bits [simp]: "length (byte_bits b) = 8"
  by (simp add: byte_bits_def)

lemma length_ip_bits [simp]: "length (ip_bits bs) = 8 * length bs"
  by (induction bs) (simp_all add: ip_bits_def)

lemma take_byte_bits:
  assumes "r \<le> 8"
  shows "take r (byte_bits b) = map (bit b) (map (\<lambda>i. 7 - i) [0..<r])"
proof -
  have "[7, 6, 5, 4, 3, 2, 1, 0] = map (\<lambda>i. 7 - i :: nat) [0..<8]" by (simp add: upt_rec)
  with assms show ?thesis by (simp add: byte_bits_def take_map)
qed

lemma take_byte_bits_eq:
  fixes b c :: u8
  assumes "r \<le> 8"
  shows "take r (byte_bits c) = take r (byte_bits b) \<longleftrightarrow> drop_bit (8 - r) c = drop_bit (8 - r) b"
proof
  assume "take r (byte_bits c) = take r (byte_bits b)"
  then have e: "bit c (7 - i) = bit b (7 - i)" if "i < r" for i
    using that assms by (simp add: take_byte_bits)
  show "drop_bit (8 - r) c = drop_bit (8 - r) b"
  proof (rule bit_word_eqI)
    fix n assume "n < LENGTH(8)"
    show "bit (drop_bit (8 - r) c) n = bit (drop_bit (8 - r) b) n"
    proof (cases "n < r")
      case True
      then have "8 - r + n = 7 - (r - 1 - n)" using assms by linarith
      with e [of "r - 1 - n"] True show ?thesis by (simp add: bit_drop_bit_eq)
    next
      case False
      then show ?thesis using assms bit_imp_le_length [of c "8 - r + n"] bit_imp_le_length [of b "8 - r + n"]
        by (auto simp: bit_drop_bit_eq)
    qed
  qed
next
  assume d: "drop_bit (8 - r) c = drop_bit (8 - r) b"
  have "bit c (7 - i) = bit b (7 - i)" if "i < r" for i
  proof -
    have "7 - i = 8 - r + (r - 1 - i)" using that assms by linarith
    then show ?thesis using d by (metis bit_drop_bit_eq o_apply)
  qed
  then show "take r (byte_bits c) = take r (byte_bits b)" using assms by (simp add: take_byte_bits)
qed

lemma byte_bits_inject: "byte_bits c = byte_bits b \<longleftrightarrow> c = b"
  using take_byte_bits_eq [of 8 c b] by simp

lemma ip_bits_inject: "length p = length q \<Longrightarrow> ip_bits p = ip_bits q \<longleftrightarrow> p = q"
  by (induction p q rule: list_induct2) (simp_all add: ip_bits_def byte_bits_inject)

lemma ip_bits_append: "ip_bits (p @ q) = ip_bits p @ ip_bits q"
  by (simp add: ip_bits_def)

lemma take_ip_bits:
  assumes "k < length q" and "r \<le> 8"
  shows "take (8 * k + r) (ip_bits q) = ip_bits (take k q) @ take r (byte_bits (q ! k))"
    and "drop (8 * k + r) (ip_bits q) = drop r (byte_bits (q ! k)) @ ip_bits (drop (Suc k) q)"
proof -
  have "q = take k q @ q ! k # drop (Suc k) q" using assms by (simp add: id_take_nth_drop)
  then have "ip_bits q = ip_bits (take k q) @ byte_bits (q ! k) @ ip_bits (drop (Suc k) q)"
    by (metis append_Cons append_Nil ip_bits_append concat.simps list.simps(8,9) ip_bits_def append_Nil2)
  with assms show "take (8 * k + r) (ip_bits q) = ip_bits (take k q) @ take r (byte_bits (q ! k))"
    "drop (8 * k + r) (ip_bits q) = drop r (byte_bits (q ! k)) @ ip_bits (drop (Suc k) q)"
    by simp_all
qed

lemma take_ip_bits_bytes: "take (8 * k) (ip_bits q) = ip_bits (take k q)"
proof (cases "k < length q")
  case True
  then show ?thesis using take_ip_bits(1) [of k q 0] by simp
qed simp

lemma in_net_bytes:
  "m = 8 * k \<Longrightarrow> in_net (p, m) q \<longleftrightarrow> length q = length p \<and> take k q = take k p"
  by (auto simp: in_net_def take_ip_bits_bytes) (metis ip_bits_inject length_take)

lemma in_net_split:
  assumes "k < length p" and "r \<le> 8" and "m = 8 * k + r"
  shows "in_net (p, m) q \<longleftrightarrow> length q = length p \<and> take k q = take k p \<and>
    drop_bit (8 - r) (q ! k) = drop_bit (8 - r) (p ! k)"
proof -
  have "ip_bits (take k q) = ip_bits (take k p) \<longleftrightarrow> take k q = take k p" if "length q = length p"
    using that ip_bits_inject [of "take k q" "take k p"] by simp
  with assms show ?thesis by (auto simp: in_net_def take_ip_bits take_byte_bits_eq)
qed

section \<open>The bytes a network spreads over\<close>

lemma byte_range:
  fixes b c :: u8
  assumes "take_bit (8 - r) b = 0" and "r \<le> 8"
  shows "(\<exists>i < 255 div 2 ^ r + 1. c = b + of_nat i) \<longleftrightarrow> drop_bit (8 - r) c = drop_bit (8 - r) b"
proof -
  let ?m = "2 ^ (8 - r) :: nat"
  have num: "255 div 2 ^ r + 1 = ?m"
  proof -
    have "r \<in> {0, 1, 2, 3, 4, 5, 6, 7, 8}" using assms(2) by auto
    then show ?thesis by auto
  qed
  have b0: "unat b mod ?m = 0"
  proof -
    have "unat (take_bit (8 - r) b) = 0" using assms(1) by simp
    then show ?thesis unfolding unsigned_take_bit_eq by (simp only: take_bit_eq_mod)
  qed
  have b256: "unat b < 256" using unat_u8_less [of b] by simp
  have pow: "256 = ?m * 2 ^ r" using assms(2) by (simp flip: power_add)
  have top: "drop_bit (8 - r) c = drop_bit (8 - r) b \<longleftrightarrow> unat c div ?m = unat b div ?m"
  proof -
    have "unat (drop_bit (8 - r) x) = unat x div ?m" for x :: u8
      unfolding unat_drop_bit_eq by (simp only: drop_bit_eq_div)
    then show ?thesis by (simp only: word_unat_eq_iff)
  qed
  have plus: "unat (b + of_nat i) = unat b + i" if "i < ?m" for i
  proof -
    have "unat b div ?m < 2 ^ r" using b256 pow by (metis less_mult_imp_div_less mult.commute)
    then have "unat b div ?m + 1 \<le> 2 ^ r" by simp
    then have "(unat b div ?m + 1) * ?m \<le> 256" unfolding pow by (metis mult.commute mult_le_mono1)
    then have "unat b + ?m \<le> 256" using b0 by (metis add_mult_distrib div_mult_mod_eq add.right_neutral mult_1)
    with that have "unat b + i < 256" "i < 256" by linarith+
    then show ?thesis by (simp add: unat_word_ariths unat_of_nat)
  qed
  show ?thesis unfolding num top
  proof
    assume "\<exists>i < ?m. c = b + of_nat i"
    then obtain i where i: "i < ?m" "c = b + of_nat i" by blast
    then have "unat c = unat b + i" using plus by simp
    moreover from b0 obtain k where "unat b = ?m * k" by (metis mod_0_imp_dvd dvdE)
    ultimately show "unat c div ?m = unat b div ?m" using i(1) by simp
  next
    assume d: "unat c div ?m = unat b div ?m"
    have "unat c = unat b + unat c mod ?m"
      using d b0 by (metis add.right_neutral div_mult_mod_eq)
    moreover have lt: "unat c mod ?m < ?m" by simp
    ultimately have "c = b + of_nat (unat c mod ?m)"
      using plus [OF lt] by (simp add: word_unat_eq_iff)
    with lt show "\<exists>i < ?m. c = b + of_nat i" by blast
  qed
qed

lemma prefix_list_update:
  assumes "j < length p"
  shows "take (Suc j) (p[j := x]) = take (Suc j) q \<longleftrightarrow> (length q > j \<and> take j q = take j p \<and> q ! j = x)"
  using assms by (cases "j < length q")
    (auto simp: take_Suc_conv_app_nth take_update_swap list_update_append dest: arg_cong [of _ _ length])

lemma masked_tail:
  assumes "net_wf (p, m)" and "m = 8 * k + r" "r \<le> 8" "k < length p"
  shows "take_bit (8 - r) (p ! k) = 0"
proof -
  have "drop m (ip_bits p) = drop r (byte_bits (p ! k)) @ ip_bits (drop (Suc k) p)"
    using take_ip_bits(2) [of k p r] assms by simp
  with assms(1) have F: "True \<notin> set (drop r (byte_bits (p ! k)))" by (auto simp: net_wf_def)
  have "\<not> bit (p ! k) n" if n: "n < 8 - r" for n
  proof -
    have "drop r (byte_bits (p ! k)) ! (7 - n - r) = byte_bits (p ! k) ! (7 - n)" using n by simp
    also have "\<dots> = take 8 (byte_bits (p ! k)) ! (7 - n)" by simp
    also have "\<dots> = bit (p ! k) (7 - (7 - n))"
      unfolding take_byte_bits [OF order_refl] using n by (simp add: less_Suc_eq_le)
    also have "7 - (7 - n) = n" using n by simp
    finally have "drop r (byte_bits (p ! k)) ! (7 - n - r) = bit (p ! k) n" .
    moreover have "7 - n - r < length (drop r (byte_bits (p ! k)))" using n by simp
    ultimately show ?thesis using F by (metis nth_mem)
  qed
  then show ?thesis by (intro bit_word_eqI) (auto simp: bit_take_bit_iff)
qed

section \<open>Adding one address\<close>

definition trie_wf :: "cidr_trie \<Rightarrow> bool" where
  "trie_wf t \<longleftrightarrow> cidr_wf 255 (ipv4Trie t) \<and> cidr_wf 65535 (ipv6Trie t)"

lemma trie_wf_New [inv_intros]: "trie_wf NewIpCidrTrie"
  by (simp add: trie_wf_def NewIpCidrTrie_def NewIpCidrNode_def)

lemma group6_eq: "getIpv6GroupValue a b = 256 * unat a + unat b"
proof -
  have "push_bit 8 (ucast a :: u32) AND ucast b = 0"
    by (rule bit_word_eqI) (auto simp: bit_simps dest: bit_imp_le_length)
  then have "(push_bit 8 (ucast a) OR ucast b :: u32) = push_bit 8 (ucast a) + ucast b"
    by (simp add: disjunctive_add_eq_or)
  moreover have "unat (push_bit 8 (ucast a) + ucast b :: u32) = 256 * unat a + unat b"
    using unat_u8_less [of a] unat_u8_less [of b]
    by (simp add: unat_word_ariths push_bit_eq_mult unsigned_ucast_eq take_bit_nat_eq_self)
  ultimately show ?thesis by (simp add: getIpv6GroupValue_def)
qed

lemma group6_bounds: "getIpv6GroupValue a b \<le> 65535"
  using unat_u8_less [of a] unat_u8_less [of b] by (simp add: group6_eq)

lemma group6_inject: "getIpv6GroupValue a b = getIpv6GroupValue c d \<longleftrightarrow> a = c \<and> b = d"
proof -
  have "256 * x + y = 256 * z + w \<longleftrightarrow> x = z \<and> y = w" if "y < 256" "w < 256" for x y z w :: nat
  proof
    assume e: "256 * x + y = 256 * z + w"
    with that have "x = z" by linarith
    with e show "x = z \<and> y = w" by simp
  qed simp
  then have "256 * unat a + unat b = 256 * unat c + unat d \<longleftrightarrow> unat a = unat c \<and> unat b = unat d"
    by (simp add: unat_u8_less)
  then show ?thesis by (simp add: group6_eq word_unat_eq_iff)
qed

lemma groups6_nth: "even (length p) \<Longrightarrow>
    groups6 p = map (\<lambda>i. getIpv6GroupValue (p ! (2 * i)) (p ! (2 * i + 1))) [0..<length p div 2]"
proof (induction p rule: groups6.induct)
  case (1 a b bs)
  have "[0..<Suc (length bs div 2)] = 0 # map Suc [0..<length bs div 2]"
    by (simp add: upt_conv_Cons map_Suc_upt del: upt_Suc)
  with 1 show ?case by (simp add: o_def del: upt_Suc)
qed auto

lemma filter_even_upt: "filter even [2..<2 * k] = map (\<lambda>i. 2 * i) [1..<k]"
proof (induction k)
  case (Suc k)
  show ?case
  proof (cases k)
    case (Suc j)
    with Suc.IH show ?thesis by simp
  qed simp
qed simp

lemma prefix_take_iff: "prefix xs ys \<longleftrightarrow> take (length xs) ys = xs"
  by (metis append_eq_conv_conj prefixE take_is_prefix)

lemma groups6_prefix:
  assumes "length p = 16" "length q = 16" "j \<le> 8"
  shows "prefix (map (\<lambda>i. getIpv6GroupValue (p ! (2 * i)) (p ! (2 * i + 1))) [0..<j]) (groups6 q) \<longleftrightarrow>
    take (2 * j) q = take (2 * j) p"
proof -
  have "prefix (map (\<lambda>i. getIpv6GroupValue (p ! (2 * i)) (p ! (2 * i + 1))) [0..<j]) (groups6 q) \<longleftrightarrow>
      (\<forall>i < j. q ! (2 * i) = p ! (2 * i) \<and> q ! (2 * i + 1) = p ! (2 * i + 1))"
    using assms by (auto simp: prefix_take_iff groups6_nth take_map list_eq_iff_nth_eq group6_inject)
  also have "\<dots> \<longleftrightarrow> (\<forall>i < 2 * j. q ! i = p ! i)"
  proof
    assume a: "\<forall>i < j. q ! (2 * i) = p ! (2 * i) \<and> q ! (2 * i + 1) = p ! (2 * i + 1)"
    show "\<forall>i < 2 * j. q ! i = p ! i"
    proof (intro allI impI)
      fix i assume "i < 2 * j"
      with a show "q ! i = p ! i"
        by (cases "even i") (auto elim!: evenE oddE)
    qed
  qed auto
  also have "\<dots> \<longleftrightarrow> take (2 * j) q = take (2 * j) p"
    using assms by (auto simp: list_eq_iff_nth_eq)
  finally show ?thesis .
qed

lemma addIpv4Cidr_correct:
  assumes "trie_wf t" and "length p = 4" and k: "1 \<le> k" "k \<le> 4" and q: "length q \<in> {4, 16}"
  shows "trie_wf (addIpv4Cidr t p k)"
    "IsContain (addIpv4Cidr t p k) q \<longleftrightarrow> IsContain t q \<or> length q = 4 \<and> take k q = take k p"
proof -
  have g: "unat (p ! 0) # groups4 (drop 1 (take k p)) = groups4 (take k p)"
    using assms by (cases p; cases k) (auto simp: groups4_def)
  have b: "unat (p ! 0) \<le> 255" "\<forall>g \<in> set (groups4 (drop 1 (take k p))). g \<le> 255"
  proof -
    have "unat (a :: u8) \<le> 255" for a using unat_u8_less [of a] by simp
    then show "unat (p ! 0) \<le> 255" "\<forall>g \<in> set (groups4 (drop 1 (take k p))). g \<le> 255"
      by (auto simp: groups4_def)
  qed
  have wf: "cidr_wf 255 (ipv4Trie t)" "cidr_wf 65535 (ipv6Trie t)" using assms by (auto simp: trie_wf_def)
  note a = add_groups_correct [OF wf(1) b, unfolded g]
  from a wf(2) show "trie_wf (addIpv4Cidr t p k)" by (simp add: trie_wf_def addIpv4Cidr_def)
  have "prefix (groups4 (take k p)) (groups4 q) \<longleftrightarrow> take k q = take k p" if "length q = 4"
    using that assms by (auto simp: prefix_take_iff groups4_def take_map dest: map_inj_on)
  with a q show "IsContain (addIpv4Cidr t p k) q \<longleftrightarrow> IsContain t q \<or> length q = 4 \<and> take k q = take k p"
    by (auto simp: IsContain_def addIpv4Cidr_def)
qed

lemma addIpv6Cidr_correct:
  assumes "trie_wf t" and "length p = 16" and k: "1 \<le> j" "j \<le> 8" and q: "length q \<in> {4, 16}"
  shows "trie_wf (addIpv6Cidr t p (2 * j))"
    "IsContain (addIpv6Cidr t p (2 * j)) q \<longleftrightarrow>
       IsContain t q \<or> length q = 16 \<and> take (2 * j) q = take (2 * j) p"
proof -
  let ?f = "\<lambda>i. getIpv6GroupValue (p ! (2 * i)) (p ! (2 * i + 1))"
  let ?gs = "map (\<lambda>i. getIpv6GroupValue (p ! i) (p ! (i + 1))) (filter (\<lambda>i. even i) [2..<2 * j])"
  have gs: "?gs = map ?f [1..<j]" by (simp add: filter_even_upt)
  have g: "getIpv6GroupValue (p ! 0) (p ! 1) # ?gs = map ?f [0..<j]"
    unfolding gs using k by (simp add: upt_conv_Cons)
  have b: "getIpv6GroupValue (p ! 0) (p ! 1) \<le> 65535" "\<forall>g \<in> set ?gs. g \<le> 65535"
    using group6_bounds by auto
  have wf: "cidr_wf 255 (ipv4Trie t)" "cidr_wf 65535 (ipv6Trie t)" using assms by (auto simp: trie_wf_def)
  note a = add_groups_correct [OF wf(2) b, unfolded g]
  from a wf(1) show "trie_wf (addIpv6Cidr t p (2 * j))" by (simp add: trie_wf_def addIpv6Cidr_def)
  have "prefix (map ?f [0..<j]) (groups6 q) \<longleftrightarrow> take (2 * j) q = take (2 * j) p" if "length q = 16"
    by (rule groups6_prefix) (use that assms in auto)
  with a q show "IsContain (addIpv6Cidr t p (2 * j)) q \<longleftrightarrow>
       IsContain t q \<or> length q = 16 \<and> take (2 * j) q = take (2 * j) p"
    by (auto simp: IsContain_def addIpv6Cidr_def)
qed

text \<open>The masks whose networks the trie stores exactly.\<close>

definition exact_mask :: "nat \<Rightarrow> nat \<Rightarrow> bool" where
  "exact_mask len m \<longleftrightarrow> m > 0 \<and> (len = 16 \<longrightarrow> m mod 16 = 0 \<or> m mod 16 \<ge> 8)"

lemma foldl_cover:
  assumes step: "\<And>t p. p \<in> set ps \<Longrightarrow> Q t \<Longrightarrow> Q (f t p) \<and> (C (f t p) \<longleftrightarrow> C t \<or> D p)"
    and "Q t"
  shows "Q (foldl f t ps) \<and> (C (foldl f t ps) \<longleftrightarrow> C t \<or> (\<exists>p \<in> set ps. D p))"
  using assms
proof (induction ps arbitrary: t)
  case (Cons p ps)
  have "Q (f t p)" "C (f t p) \<longleftrightarrow> C t \<or> D p" using Cons.prems by auto
  with Cons.IH [of "f t p"] Cons.prems(1) show ?case by auto
qed simp

lemma addIpCidr_correct:
  assumes "trie_wf t" and "length p = len" "len \<in> {4, 16}" and q: "length q \<in> {4, 16}"
    and k: "1 \<le> k" "k \<le> len" "len = 16 \<longrightarrow> even k"
  shows "trie_wf (addIpCidr t (len = 4) p k) \<and>
    (IsContain (addIpCidr t (len = 4) p k) q \<longleftrightarrow> IsContain t q \<or> length q = len \<and> take k q = take k p)"
proof (cases "len = 4")
  case True
  with assms addIpv4Cidr_correct [of t p k q] show ?thesis by (simp add: addIpCidr_def)
next
  case False
  with assms obtain j where "k = 2 * j" "1 \<le> j" "j \<le> 8" by (auto elim!: evenE)
  with False assms addIpv6Cidr_correct [of t p j q] show ?thesis by (simp add: addIpCidr_def)
qed

lemma subIpCidr_cover:
  assumes net: "net_wf (p, m)" and len: "length p = len" and m: "exact_mask len m"
    and s: "subIpCidr p m (len = 4) = (subs, m')"
  shows "1 \<le> m' div 8" "m' div 8 \<le> len" "len = 16 \<longrightarrow> even (m' div 8)" "\<forall>s \<in> set subs. length s = len"
    "(length q = len \<and> (\<exists>s \<in> set subs. take (m' div 8) q = take (m' div 8) s)) \<longleftrightarrow> in_net (p, m) q"
proof -
  have l: "len \<in> {4, 16}" "m \<le> 8 * len" "m > 0" using net len m by (auto simp: net_wf_def exact_mask_def)
  let ?j = "m div 8" and ?r = "m mod 8"
  have "1 \<le> m' div 8 \<and> m' div 8 \<le> len \<and> (len = 16 \<longrightarrow> even (m' div 8)) \<and> (\<forall>s \<in> set subs. length s = len) \<and>
    ((length q = len \<and> (\<exists>s \<in> set subs. take (m' div 8) q = take (m' div 8) s)) \<longleftrightarrow> in_net (p, m) q)"
  proof (cases "m mod (if len = 4 then 8 else 16) = 0")
    case True
    then have sub: "subs = [p]" "m' = m" using s by (auto simp: subIpCidr_def)
    obtain k where k: "m = 8 * k" "len = 16 \<longrightarrow> even k"
      using True l(1) by (auto simp: mod_eq_0_iff_dvd elim!: dvdE split: if_splits)
    with sub l len in_net_bytes [OF k(1), of p q] show ?thesis by auto
  next
    case False
    have j: "?j < len"
    proof (cases "m = 8 * len")
      case True
      with False l(1) show ?thesis by (auto split: if_splits)
    qed (use l(2) in simp)
    have m': "m' div 8 = Suc ?j"
    proof (cases "len = 4")
      case True
      with False s show ?thesis by (auto simp: subIpCidr_def Let_def)
    next
      case F: False
      with False s have "m' = (?j div 2 + 1) * 16" by (simp add: subIpCidr_def Let_def)
      then have d: "m' div 8 = 2 * (?j div 2) + 2" by simp
      have "m mod 16 \<ge> 8" using F False m l(1) by (auto simp: exact_mask_def)
      then have "odd ?j" by presburger
      then obtain i where i: "?j = 2 * i + 1" by (elim oddE)
      show ?thesis using d unfolding i by simp
    qed
    have subs: "subs = map (\<lambda>i. p[?j := p ! ?j + of_nat i]) [0..<255 div 2 ^ ?r + 1]"
      using False s by (auto simp: subIpCidr_def Let_def)
    have ev: "len = 16 \<longrightarrow> even (Suc ?j)"
      using False m by (auto simp: exact_mask_def) presburger+
    have mm: "m = 8 * ?j + ?r" "?r \<le> 8" by auto
    have t0: "take_bit (8 - ?r) (p ! ?j) = 0"
      using masked_tail [OF net mm] j len by simp
    have "(\<exists>s \<in> set subs. take (Suc ?j) q = take (Suc ?j) s) \<longleftrightarrow>
        (\<exists>i < 255 div 2 ^ ?r + 1. take ?j q = take ?j p \<and> q ! ?j = p ! ?j + of_nat i)" if "length q = len"
    proof -
      have "take (Suc ?j) q = take (Suc ?j) (p[?j := x]) \<longleftrightarrow> take ?j q = take ?j p \<and> q ! ?j = x" for x
        using prefix_list_update [of ?j p x q] that j len by (metis (no_types))
      moreover have "(\<exists>s \<in> set (map f [0..<N]). P s) \<longleftrightarrow> (\<exists>i < N. P (f i))"
        for f :: "nat \<Rightarrow> u8 list" and P N by auto
      ultimately show ?thesis unfolding subs by (simp only:)
    qed
    then have "(length q = len \<and> (\<exists>s \<in> set subs. take (Suc ?j) q = take (Suc ?j) s)) \<longleftrightarrow> in_net (p, m) q"
      using byte_range [OF t0 mm(2), of "q ! ?j"] in_net_split [OF _ mm(2) mm(1), of p q] j len by auto
    with m' ev j len subs show ?thesis by auto
  qed
  then show "1 \<le> m' div 8" "m' div 8 \<le> len" "len = 16 \<longrightarrow> even (m' div 8)" "\<forall>s \<in> set subs. length s = len"
    "(length q = len \<and> (\<exists>s \<in> set subs. take (m' div 8) q = take (m' div 8) s)) \<longleftrightarrow> in_net (p, m) q"
    by blast+
qed

lemma AddIpCidr_correct:
  assumes t: "trie_wf t" and net: "net_wf net" "exact_mask (length (fst net)) (snd net)"
    and q: "length q \<in> {4, 16}"
  shows "trie_wf (AddIpCidr t net) \<and> (IsContain (AddIpCidr t net) q \<longleftrightarrow> IsContain t q \<or> in_net net q)"
proof -
  obtain p m where pm: "net = (p, m)" by (cases net)
  obtain subs m' where s: "subIpCidr p m (length p = 4) = (subs, m')"
    by (cases "subIpCidr p m (length p = 4)")
  have len: "length p \<in> {4, 16}" using net pm by (simp add: net_wf_def)
  have n: "net_wf (p, m)" "exact_mask (length p) m" using net pm by auto
  note c = subIpCidr_cover [OF n(1) refl n(2) s]
  let ?f = "\<lambda>t sub. addIpCidr t (length p = 4) sub (m' div 8)"
  have "trie_wf (foldl ?f t subs) \<and> (IsContain (foldl ?f t subs) q \<longleftrightarrow>
      IsContain t q \<or> (\<exists>s \<in> set subs. length q = length p \<and> take (m' div 8) q = take (m' div 8) s))"
  proof (rule foldl_cover [where Q = trie_wf and C = "\<lambda>t. IsContain t q", OF _ t])
    fix t s assume "s \<in> set subs" "trie_wf t"
    with c(1-4) have "length s = length p" "1 \<le> m' div 8" "m' div 8 \<le> length p" "length p = 16 \<longrightarrow> even (m' div 8)"
      by auto
    with addIpCidr_correct [OF \<open>trie_wf t\<close> this(1) len q this(2-4)]
    show "trie_wf (?f t s) \<and> (IsContain (?f t s) q \<longleftrightarrow>
        IsContain t q \<or> length q = length p \<and> take (m' div 8) q = take (m' div 8) s)" by simp
  qed
  with c(5) [of q] pm s show ?thesis by (auto simp: AddIpCidr_def ipCidrToSubIpCidr_def)
qed

section \<open>Properties\<close>

text \<open>C24: a trie filled with any list of masked networks, IPv4 of length 1 to 32 and IPv6 of length 8 to 128 whose remainder modulo
  16 is 0 or at least 8, contains exactly the addresses of these networks. For others it need not: not for
  length 0 of either family, nor for 23 (\<open>AddIpCidr_inexact\<close>).\<close>

theorem IsContain_iff_in_net:
  assumes "\<forall>net \<in> set nets. net_wf net \<and> exact_mask (length (fst net)) (snd net)"
    and "length q \<in> {4, 16}"
  shows "IsContain (foldl AddIpCidr NewIpCidrTrie nets) q \<longleftrightarrow> (\<exists>net \<in> set nets. in_net net q)"
proof -
  have "\<not> IsContain NewIpCidrTrie q"
    by (cases q; cases "groups6 q")
      (auto simp: IsContain_def NewIpCidrTrie_def NewIpCidrNode_def groups4_def cidr_getChild_def)
  moreover have "trie_wf (foldl AddIpCidr NewIpCidrTrie nets) \<and>
      (IsContain (foldl AddIpCidr NewIpCidrTrie nets) q \<longleftrightarrow>
       IsContain NewIpCidrTrie q \<or> (\<exists>net \<in> set nets. in_net net q))"
    using assms by (intro foldl_cover trie_wf_New AddIpCidr_correct) auto
  ultimately show ?thesis by blast
qed

theorem IsContain_iff_in_net_witness:
  "IsContain (foldl AddIpCidr NewIpCidrTrie [([10, 64, 0, 0], 10), ([192, 168, 1, 0], 24)]) [10, 100, 7, 7] \<longleftrightarrow>
   (\<exists>net \<in> set [([10, 64, 0, 0], 10), ([192, 168, 1, 0], 24)]. in_net net [10, 100, 7, 7])"
  by (rule IsContain_iff_in_net) code_simp+

text \<open>Outside these masks the trie is not exact: \<open>0.0.0.0/0\<close> covers only the addresses
  whose first byte is 0, \<open>::/0\<close> does not cover \<open>2001::\<close>, and an IPv6 network such as \<open>2001:200::/23\<close> loses the addresses
  of the network whose fourth byte is not 0, such as \<open>2001:201::\<close>.\<close>

theorem AddIpCidr_inexact:
  "in_net ([0, 0, 0, 0], 0) [8, 8, 8, 8] \<and>
   \<not> IsContain (AddIpCidr NewIpCidrTrie ([0, 0, 0, 0], 0)) [8, 8, 8, 8] \<and>
   in_net ([0x20, 1, 2, 0, 0, 0, 0, 0, 0, 0, 0, 0, 0, 0, 0, 0], 23) [0x20, 1, 2, 1, 0, 0, 0, 0, 0, 0, 0, 0, 0, 0, 0, 0] \<and>
   \<not> IsContain (AddIpCidr NewIpCidrTrie ([0x20, 1, 2, 0, 0, 0, 0, 0, 0, 0, 0, 0, 0, 0, 0, 0], 23))
       [0x20, 1, 2, 1, 0, 0, 0, 0, 0, 0, 0, 0, 0, 0, 0, 0] \<and>
   in_net ([0, 0, 0, 0, 0, 0, 0, 0, 0, 0, 0, 0, 0, 0, 0, 0], 0) [0x20, 1, 0, 0, 0, 0, 0, 0, 0, 0, 0, 0, 0, 0, 0, 0] \<and>
   \<not> IsContain (AddIpCidr NewIpCidrTrie ([0, 0, 0, 0, 0, 0, 0, 0, 0, 0, 0, 0, 0, 0, 0, 0], 0)) [0x20, 1, 0, 0, 0, 0, 0, 0, 0, 0, 0, 0, 0, 0, 0, 0]"
proof (intro conjI)
  show "in_net ([0, 0, 0, 0], 0) [8, 8, 8, 8]" by (simp add: in_net_def)
  note defs = AddIpCidr_def ipCidrToSubIpCidr_def subIpCidr_def addIpCidr_def addIpv4Cidr_def
    addIpv6Cidr_def NewIpCidrTrie_def NewIpCidrNode_def add_groups_def cidr_getChild_def
    cidr_addChild_def cidr_setChild_def cidr_hasChild_def groups4_def IsContain_def set_mark_def
    cleanChild_def group6_eq
  show "\<not> IsContain (AddIpCidr NewIpCidrTrie ([0, 0, 0, 0], 0)) [8, 8, 8, 8]"
    by (simp add: defs)
  show "in_net ([0x20, 1, 2, 0, 0, 0, 0, 0, 0, 0, 0, 0, 0, 0, 0, 0], 23) [0x20, 1, 2, 1, 0, 0, 0, 0, 0, 0, 0, 0, 0, 0, 0, 0]"
    by code_simp
  show "\<not> IsContain (AddIpCidr NewIpCidrTrie ([0x20, 1, 2, 0, 0, 0, 0, 0, 0, 0, 0, 0, 0, 0, 0, 0], 23))
       [0x20, 1, 2, 1, 0, 0, 0, 0, 0, 0, 0, 0, 0, 0, 0, 0]"
    by (simp add: defs upt_rec)
  show "in_net ([0, 0, 0, 0, 0, 0, 0, 0, 0, 0, 0, 0, 0, 0, 0, 0], 0) [0x20, 1, 0, 0, 0, 0, 0, 0, 0, 0, 0, 0, 0, 0, 0, 0]" by code_simp
  show "\<not> IsContain (AddIpCidr NewIpCidrTrie ([0, 0, 0, 0, 0, 0, 0, 0, 0, 0, 0, 0, 0, 0, 0, 0], 0)) [0x20, 1, 0, 0, 0, 0, 0, 0, 0, 0, 0, 0, 0, 0, 0, 0]"
    by (simp add: defs upt_rec)
qed

end
