(* ===== verification/NetIP.thy ===== *)
theory NetIP
  imports Prelude "HOL-Library.Product_Lexorder"
begin

text \<open>
  The address types of Go's package \<open>net/netip\<close> that the sources use, and the two
  conversions of \<open>common/nnip/netip.go\<close>.

  A \<open>netip.Addr\<close> is the invalid zero address, an IPv4 address or an IPv6 address with
  its zone. The invalid values that \<open>Addr.Next\<close> and \<open>Addr.Prev\<close> can produce from an
  invalid address are all the one \<open>NoAddr\<close>. A \<open>netip.Prefix\<close> is an address with a number
  of bits, negative for the invalid prefix. The 16-byte array of \<open>Addr.As16\<close> is
  represented by the 128-bit number it encodes big-endian.
\<close>

datatype addr = NoAddr | Addr4 u32 | Addr6 "128 word" string

text \<open>\<open>Addr.Compare\<close>: first the bit length, then the address, then the zone.\<close>

fun addr_key :: "addr \<Rightarrow> nat \<times> nat \<times> string" where
  "addr_key NoAddr = (0, 0, [])"
| "addr_key (Addr4 a) = (32, unat a, [])"
| "addr_key (Addr6 a z) = (128, unat a, z)"

lemma inj_addr_key: "inj addr_key"
proof (rule injI)
  fix a b assume "addr_key a = addr_key b"
  then show "a = b" by (cases a; cases b) (auto simp: word_unat_eq_iff)
qed

instantiation addr :: linorder
begin

definition less_eq_addr :: "addr \<Rightarrow> addr \<Rightarrow> bool" where
  "less_eq_addr a b \<longleftrightarrow> addr_key a \<le> addr_key b"

definition less_addr :: "addr \<Rightarrow> addr \<Rightarrow> bool" where
  "less_addr a b \<longleftrightarrow> addr_key a < addr_key b"

instance
proof
  fix a b c :: addr
  show "a < b \<longleftrightarrow> a \<le> b \<and> \<not> b \<le> a"
    unfolding less_addr_def less_eq_addr_def by auto
  show "a \<le> a" unfolding less_eq_addr_def by simp
  show "a \<le> b \<Longrightarrow> b \<le> c \<Longrightarrow> a \<le> c" unfolding less_eq_addr_def by (rule order_trans)
  show "a \<le> b \<Longrightarrow> b \<le> a \<Longrightarrow> a = b"
    unfolding less_eq_addr_def using inj_addr_key by (auto dest: injD)
  show "a \<le> b \<or> b \<le> a" unfolding less_eq_addr_def by (rule linear)
qed

end

lemma addr_less_simps [simp]:
  "Addr4 a < Addr4 b \<longleftrightarrow> a < b"
  "Addr6 x z < Addr6 y z \<longleftrightarrow> x < y"
  "Addr4 a < Addr6 y z"
  "\<not> Addr6 y z < Addr4 a"
  by (auto simp: less_addr_def word_less_nat_alt)

lemma addr_le_simps [simp]:
  "Addr4 a \<le> Addr4 b \<longleftrightarrow> a \<le> b"
  "Addr6 x z \<le> Addr6 y z \<longleftrightarrow> x \<le> y"
  by (auto simp: less_eq_addr_def word_le_nat_alt)

section \<open>Operations of netip.Addr\<close>

fun addr_valid :: "addr \<Rightarrow> bool" where
  "addr_valid NoAddr = False"
| "addr_valid _ = True"

fun addr_is4 :: "addr \<Rightarrow> bool" where
  "addr_is4 (Addr4 _) = True"
| "addr_is4 _ = False"

fun addr_is4in6 :: "addr \<Rightarrow> bool" where
  "addr_is4in6 (Addr6 a _) = (drop_bit 32 a = mask 16)"
| "addr_is4in6 _ = False"

fun addr_bitlen :: "addr \<Rightarrow> nat" where
  "addr_bitlen NoAddr = 0"
| "addr_bitlen (Addr4 _) = 32"
| "addr_bitlen (Addr6 _ _) = 128"

fun addr_unmap :: "addr \<Rightarrow> addr" where
  "addr_unmap (Addr6 a z) = (if addr_is4in6 (Addr6 a z) then Addr4 (ucast a) else Addr6 a z)"
| "addr_unmap a = a"

fun addr_next :: "addr \<Rightarrow> addr" where
  "addr_next NoAddr = NoAddr"
| "addr_next (Addr4 a) = (if a + 1 = 0 then NoAddr else Addr4 (a + 1))"
| "addr_next (Addr6 a z) = (if a + 1 = 0 then NoAddr else Addr6 (a + 1) z)"

fun addr_prev :: "addr \<Rightarrow> addr" where
  "addr_prev NoAddr = NoAddr"
| "addr_prev (Addr4 a) = (if a = 0 then NoAddr else Addr4 (a - 1))"
| "addr_prev (Addr6 a z) = (if a = 0 then NoAddr else Addr6 (a - 1) z)"

text \<open>\<open>Addr.As16\<close>: an IPv4 address is mapped into \<open>::ffff:0:0/96\<close>.\<close>

fun addr_as16 :: "addr \<Rightarrow> 128 word" where
  "addr_as16 NoAddr = 0"
| "addr_as16 (Addr4 a) = push_bit 32 (mask 16) OR ucast a"
| "addr_as16 (Addr6 a _) = a"

definition addr_from16 :: "128 word \<Rightarrow> addr" where
  "addr_from16 w = Addr6 w []"

text \<open>The bytes of a word, most significant first, and back.\<close>

definition be_bytes :: "nat \<Rightarrow> 'a::len word \<Rightarrow> bytes" where
  "be_bytes n w = map (\<lambda>i. ucast (drop_bit (8 * i) w)) (rev [0..<n])"

definition be_word :: "bytes \<Rightarrow> 'a::len word" where
  "be_word bs = foldl (\<lambda>acc b. push_bit 8 acc OR ucast b) 0 bs"

fun addr_as_slice :: "addr \<Rightarrow> bytes" where
  "addr_as_slice NoAddr = []"
| "addr_as_slice (Addr4 a) = be_bytes 4 a"
| "addr_as_slice (Addr6 a _) = be_bytes 16 a"

text \<open>\<open>netip.AddrFromSlice\<close>; the boolean it returns is \<open>addr_valid\<close> of the result.\<close>

definition addr_from_slice :: "bytes \<Rightarrow> addr" where
  "addr_from_slice bs =
     (if length bs = 4 then Addr4 (be_word bs)
      else if length bs = 16 then addr_from16 (be_word bs)
      else NoAddr)"

lemma length_be_bytes [simp]: "length (be_bytes n w) = n"
  by (simp add: be_bytes_def)

lemma length_addr_as_slice:
  "length (addr_as_slice a) = (case a of NoAddr \<Rightarrow> 0 | Addr4 _ \<Rightarrow> 4 | Addr6 _ _ \<Rightarrow> 16)"
  by (cases a) auto

text \<open>Package \<open>net\<close>: \<open>IP.To4\<close> on a byte slice; \<open>None\<close> is the nil slice.\<close>

definition ip_to4 :: "bytes \<Rightarrow> bytes option" where
  "ip_to4 ip =
     (if length ip = 4 then Some ip
      else if length ip = 16 \<and> take 10 ip = replicate 10 0 \<and> ip ! 10 = 0xff \<and> ip ! 11 = 0xff
      then Some (drop 12 ip)
      else None)"

section \<open>Prefixes\<close>

record prefix =
  pfx_addr :: addr
  pfx_bits :: int

definition no_prefix :: prefix where
  "no_prefix = \<lparr>pfx_addr = NoAddr, pfx_bits = -1\<rparr>"

text \<open>\<open>netip.PrefixFrom\<close>: the zone is dropped, bits out of range give an invalid prefix.\<close>

definition prefix_from :: "addr \<Rightarrow> int \<Rightarrow> prefix" where
  "prefix_from a b =
     (let a' = (case a of Addr6 w _ \<Rightarrow> Addr6 w [] | _ \<Rightarrow> a)
      in if addr_valid a \<and> 0 \<le> b \<and> b \<le> int (addr_bitlen a)
         then \<lparr>pfx_addr = a', pfx_bits = b\<rparr>
         else \<lparr>pfx_addr = a', pfx_bits = -1\<rparr>)"

definition prefix_valid :: "prefix \<Rightarrow> bool" where
  "prefix_valid p \<longleftrightarrow> 0 \<le> pfx_bits p"

text \<open>What every prefix built by \<open>PrefixFrom\<close> or \<open>ParsePrefix\<close> satisfies when it is valid.\<close>

definition prefix_wf :: "prefix \<Rightarrow> bool" where
  "prefix_wf p \<longleftrightarrow> prefix_valid p \<and> addr_valid (pfx_addr p) \<and>
     pfx_bits p \<le> int (addr_bitlen (pfx_addr p)) \<and> (\<forall>w z. pfx_addr p = Addr6 w z \<longrightarrow> z = [])"

text \<open>The word whose upper \<open>n\<close> bits are set.\<close>

definition high_mask :: "nat \<Rightarrow> 'a::len word" where
  "high_mask n = NOT (mask (LENGTH('a) - n))"

fun prefix_masked_addr :: "addr \<Rightarrow> nat \<Rightarrow> addr" where
  "prefix_masked_addr NoAddr _ = NoAddr"
| "prefix_masked_addr (Addr4 a) n = Addr4 (a AND high_mask n)"
| "prefix_masked_addr (Addr6 a z) n = Addr6 (a AND high_mask n) []"

definition prefix_masked :: "prefix \<Rightarrow> prefix" where
  "prefix_masked p =
     (if pfx_bits p < 0 \<or> int (addr_bitlen (pfx_addr p)) < pfx_bits p then no_prefix
      else prefix_from (prefix_masked_addr (pfx_addr p) (nat (pfx_bits p))) (pfx_bits p))"

fun same_net :: "addr \<Rightarrow> addr \<Rightarrow> nat \<Rightarrow> bool" where
  "same_net (Addr4 a) (Addr4 b) n = (drop_bit (32 - n) (a XOR b) = 0)"
| "same_net (Addr6 a _) (Addr6 b z) n = (z = [] \<and> (a XOR b) AND high_mask n = 0)"
| "same_net _ _ _ = False"

definition prefix_contains :: "prefix \<Rightarrow> addr \<Rightarrow> bool" where
  "prefix_contains p a \<longleftrightarrow> prefix_valid p \<and> same_net (pfx_addr p) a (nat (pfx_bits p))"

section \<open>common/nnip\<close>

definition IpToAddr :: "bytes \<Rightarrow> addr" where
  "IpToAddr bs =
     (let ip = (if length bs \<noteq> 4
                then (case ip_to4 bs of None \<Rightarrow> bs | Some ip4 \<Rightarrow> ip4) else bs);
          a = addr_from_slice ip
      in if addr_valid a then a else NoAddr)"

definition UnMasked :: "prefix \<Rightarrow> addr" where
  "UnMasked p =
     (if \<not> prefix_valid p then NoAddr
      else
        let buf = addr_as16 (pfx_addr p);
            hi = (ucast (drop_bit 64 buf) :: u64);
            lo = (ucast buf :: u64);
            bits = (if pfx_bits p \<le> 32 then pfx_bits p + 96 else pfx_bits p);
            hi' = hi OR drop_bit (nat bits) (NOT 0);
            lo' = lo OR NOT (push_bit (nat (128 - bits)) (NOT 0));
            buf' = push_bit 64 (ucast hi') OR (ucast lo' :: 128 word);
            a = addr_from16 buf'
        in if addr_is4 (pfx_addr p) then addr_unmap a else a)"

subsection \<open>Membership and the last address of a prefix\<close>

lemma bit_high_mask [simp]:
  "bit (high_mask n :: 'a::len word) i \<longleftrightarrow> i < LENGTH('a) \<and> LENGTH('a) - n \<le> i"
  by (auto simp: high_mask_def bit_simps)

text \<open>The word a prefix ends with: all bits below the prefix length set.\<close>

definition fill_low :: "nat \<Rightarrow> 'a::len word \<Rightarrow> 'a word" where
  "fill_low n w = w OR mask (LENGTH('a) - n)"

lemma bit_fill_low:
  "bit (fill_low n w :: 'a::len word) i \<longleftrightarrow>
     bit w i \<or> (i < LENGTH('a) - n \<and> i < LENGTH('a))"
  by (auto simp: fill_low_def bit_simps)

text \<open>Two words that agree above bit \<open>k\<close> compare like their lower parts; a word with all its
  lower bits set is the greatest of them.\<close>

lemma le_fill_low:
  assumes "drop_bit (LENGTH('a) - n) a = drop_bit (LENGTH('a) - n) (b :: 'a::len word)"
  shows "b \<le> fill_low n a"
proof -
  have "b OR fill_low n a = fill_low n a"
  proof (rule bit_word_eqI)
    fix i assume "i < LENGTH('a)"
    have "bit a i = bit b i" if "LENGTH('a) - n \<le> i"
      using arg_cong [OF assms, of "\<lambda>w. bit w (i - (LENGTH('a) - n))"] that
      by (simp add: bit_simps)
    with \<open>i < LENGTH('a)\<close> show "bit (b OR fill_low n a) i = bit (fill_low n a) i"
      by (cases "LENGTH('a) - n \<le> i") (auto simp: bit_simps bit_fill_low)
  qed
  then show ?thesis by (metis word_bw_comms(2) le_word_or2)
qed

lemma drop_bit_fill_low: "drop_bit (LENGTH('a) - n) (fill_low n a) = drop_bit (LENGTH('a) - n) (a :: 'a::len word)"
  by (rule bit_word_eqI) (auto simp: bit_simps bit_fill_low)

lemma xor_high_mask_0_iff:
  "(a XOR b) AND high_mask n = 0 \<longleftrightarrow> drop_bit (LENGTH('a) - n) a = drop_bit (LENGTH('a) - n) (b :: 'a::len word)"
proof
  assume h: "(a XOR b) AND high_mask n = 0"
  show "drop_bit (LENGTH('a) - n) a = drop_bit (LENGTH('a) - n) b"
  proof (rule bit_word_eqI)
    fix i assume "i < LENGTH('a)"
    from arg_cong [OF h, of "\<lambda>w. bit w (LENGTH('a) - n + i)"]
    show "bit (drop_bit (LENGTH('a) - n) a) i = bit (drop_bit (LENGTH('a) - n) b) i"
      by (auto simp: bit_simps dest: bit_imp_le_length)
  qed
next
  assume h: "drop_bit (LENGTH('a) - n) a = drop_bit (LENGTH('a) - n) b"
  show "(a XOR b) AND high_mask n = 0"
  proof (rule bit_word_eqI)
    fix i assume "i < LENGTH('a)"
    with arg_cong [OF h, of "\<lambda>w. bit w (i - (LENGTH('a) - n))"]
    show "bit ((a XOR b) AND high_mask n) i = bit 0 i"
      by (auto simp: bit_simps)
  qed
qed

lemma word_xor_0_iff: "a XOR b = 0 \<longleftrightarrow> a = (b :: 'a::len word)"
proof
  assume h: "a XOR b = 0"
  show "a = b"
    using arg_cong [OF h, of "\<lambda>w. bit w i" for i] by (intro bit_word_eqI) (simp add: bit_simps)
qed simp

lemma same_net_simps:
  "same_net (Addr4 a) (Addr4 b) n \<longleftrightarrow> drop_bit (32 - n) a = drop_bit (32 - n) b"
  "same_net (Addr6 c y) (Addr6 d z) n \<longleftrightarrow> z = [] \<and> drop_bit (128 - n) c = drop_bit (128 - n) d"
  using xor_high_mask_0_iff [of c d n]
  by (simp_all add: drop_bit_xor word_xor_0_iff)

lemma same_net_Addr4D: "same_net (Addr4 a) c n \<Longrightarrow> \<exists>b. c = Addr4 b \<and> drop_bit (32 - n) a = drop_bit (32 - n) b"
  by (cases c) (auto simp: same_net_simps simp del: same_net.simps(1))

lemma same_net_Addr6D:
  "same_net (Addr6 a y) c n \<Longrightarrow> \<exists>b. c = Addr6 b [] \<and> drop_bit (128 - n) a = drop_bit (128 - n) b"
  by (cases c) (auto simp: same_net_simps simp del: same_net.simps(2))

lemma unmask_word:
  fixes buf :: "128 word"
  assumes "n \<le> 128"
  shows "push_bit 64 (ucast ((ucast (drop_bit 64 buf) :: u64) OR drop_bit n (NOT 0))) OR
         ucast ((ucast buf :: u64) OR NOT (push_bit (128 - n) (NOT 0))) = fill_low n buf"
  using assms by (intro bit_word_eqI) (auto simp: bit_simps bit_fill_low)

lemma UnMasked_Addr6:
  assumes "pfx_addr p = Addr6 a z" "0 \<le> pfx_bits p" "pfx_bits p \<le> 128"
  shows "UnMasked p =
    Addr6 (fill_low (nat (if pfx_bits p \<le> 32 then pfx_bits p + 96 else pfx_bits p)) a) []"
proof -
  define b where "b = (if pfx_bits p \<le> 32 then pfx_bits p + 96 else pfx_bits p)"
  have b: "0 \<le> b" "b \<le> 128" using assms by (auto simp: b_def)
  then have "nat (128 - b) = 128 - nat b" by simp
  then show ?thesis
    using unmask_word [of "nat b" a] b assms
    by (simp add: UnMasked_def prefix_valid_def Let_def b_def [symmetric] addr_from16_def)
qed

lemma unmap_fill_low:
  assumes "n \<le> 32"
  shows "addr_unmap (Addr6 (fill_low (n + 96) (push_bit 32 (mask 16) OR ucast (a :: u32))) [])
       = Addr4 (fill_low n a)"
proof -
  let ?w = "fill_low (n + 96) (push_bit 32 (mask 16) OR ucast a) :: 128 word"
  have low: "ucast ?w = fill_low n a"
    using assms by (intro bit_word_eqI) (auto simp: bit_simps bit_fill_low)
  have "drop_bit 32 ?w = drop_bit 32 (push_bit 32 (mask 16) OR ucast a)"
    using assms by (intro bit_word_eqI) (auto simp: bit_simps bit_fill_low)
  also have "\<dots> = mask 16"
    by (intro bit_word_eqI) (auto simp: bit_simps dest: bit_imp_le_length)
  finally show ?thesis using low by simp
qed

lemma UnMasked_Addr4:
  assumes "pfx_addr p = Addr4 a" "0 \<le> pfx_bits p" "pfx_bits p \<le> 32"
  shows "UnMasked p = Addr4 (fill_low (nat (pfx_bits p)) a)"
proof -
  define n where "n = nat (pfx_bits p)"
  have n: "n \<le> 32" "nat (pfx_bits p + 96) = n + 96" "nat (32 - pfx_bits p) = 128 - (n + 96)"
    using assms by (auto simp: n_def)
  show ?thesis
    using unmap_fill_low [of n a] unmask_word [of "n + 96" "push_bit 32 (mask 16) OR ucast a"] assms n
    by (simp add: UnMasked_def prefix_valid_def Let_def addr_from16_def n_def [symmetric]
        del: addr_unmap.simps)
qed

text \<open>For an IPv4 prefix, and for an IPv6 prefix longer than 32 bits, \<open>UnMasked\<close> is the greatest
  address of the prefix.\<close>

lemma UnMasked_greatest:
  assumes "prefix_wf p" and "addr_is4 (pfx_addr p) \<or> 32 < pfx_bits p"
  shows "prefix_contains p (UnMasked p) \<and> (\<forall>a. prefix_contains p a \<longrightarrow> a \<le> UnMasked p)"
proof (cases "pfx_addr p")
  case NoAddr
  with assms show ?thesis by (simp add: prefix_wf_def)
next
  case (Addr4 w)
  with assms have b: "0 \<le> pfx_bits p" "pfx_bits p \<le> 32"
    by (auto simp: prefix_wf_def prefix_valid_def)
  let ?n = "nat (pfx_bits p)"
  have u: "UnMasked p = Addr4 (fill_low ?n w)" using Addr4 b by (rule UnMasked_Addr4)
  have "drop_bit (32 - ?n) w = drop_bit (32 - ?n) (fill_low ?n w)"
    using drop_bit_fill_low [of ?n w] by simp
  moreover have "c \<le> fill_low ?n w" if "drop_bit (32 - ?n) w = drop_bit (32 - ?n) c" for c
    using le_fill_low [of ?n w c] that by simp
  ultimately show ?thesis
    using Addr4 b u
    by (auto simp: prefix_contains_def prefix_valid_def same_net_simps simp del: same_net.simps
        dest!: same_net_Addr4D)
next
  case (Addr6 w z)
  with assms have b: "32 < pfx_bits p" "pfx_bits p \<le> 128"
    by (auto simp: prefix_wf_def)
  let ?n = "nat (pfx_bits p)"
  have u: "UnMasked p = Addr6 (fill_low ?n w) []" using UnMasked_Addr6 [OF Addr6] b by simp
  have "drop_bit (128 - ?n) w = drop_bit (128 - ?n) (fill_low ?n w)"
    using drop_bit_fill_low [of ?n w] by simp
  moreover have "c \<le> fill_low ?n w" if "drop_bit (128 - ?n) w = drop_bit (128 - ?n) c" for c
    using le_fill_low [of ?n w c] that by simp
  ultimately show ?thesis
    using Addr6 b u
    by (auto simp: prefix_contains_def prefix_valid_def same_net_simps simp del: same_net.simps
        dest!: same_net_Addr6D)
qed

section \<open>Address classes\<close>

text \<open>The \<open>Is...\<close> methods of \<open>netip.Addr\<close>; an IPv4-mapped address counts as its IPv4 address.\<close>

fun addr_is_unspecified :: "addr \<Rightarrow> bool" where
  "addr_is_unspecified NoAddr = False"
| "addr_is_unspecified (Addr4 a) = (a = 0)"
| "addr_is_unspecified (Addr6 a z) = (a = 0 \<and> z = [])"

definition addr_is_loopback :: "addr \<Rightarrow> bool" where
  "addr_is_loopback a =
     (case addr_unmap a of NoAddr \<Rightarrow> False | Addr4 x \<Rightarrow> drop_bit 24 x = 127 | Addr6 x z \<Rightarrow> x = 1)"

definition addr_is_multicast :: "addr \<Rightarrow> bool" where
  "addr_is_multicast a =
     (case addr_unmap a of NoAddr \<Rightarrow> False | Addr4 x \<Rightarrow> drop_bit 28 x = 0xe | Addr6 x z \<Rightarrow> drop_bit 120 x = 0xff)"

definition addr_is_link_local_unicast :: "addr \<Rightarrow> bool" where
  "addr_is_link_local_unicast a =
     (case addr_unmap a of NoAddr \<Rightarrow> False | Addr4 x \<Rightarrow> drop_bit 16 x = 0xa9fe
      | Addr6 x z \<Rightarrow> drop_bit 118 x = 0x3fa)"

definition addr_is_private :: "addr \<Rightarrow> bool" where
  "addr_is_private a =
     (case addr_unmap a of NoAddr \<Rightarrow> False
      | Addr4 x \<Rightarrow> drop_bit 24 x = 10 \<or> drop_bit 20 x = 0xac1 \<or> drop_bit 16 x = 0xc0a8
      | Addr6 x z \<Rightarrow> drop_bit 121 x = 0x7e)"

end
