(* ===== verification/GoBytes.thy ===== *)
theory GoBytes
  imports NetIP
begin

text \<open>
  Bytes as the codecs of the program use them: strings and their bytes, numbers in network order, and the slice
  expressions of Go, which panic when an index is out of range.
\<close>

section \<open>Strings\<close>

definition str_bytes :: "string \<Rightarrow> bytes" where
  "str_bytes s = map (\<lambda>c. of_nat (of_char c)) s"

definition bytes_str :: "bytes \<Rightarrow> string" where
  "bytes_str bs = map (\<lambda>b. char_of (unat b)) bs"

lemma bytes_str_bytes [simp]: "bytes_str (str_bytes s) = s"
proof -
  have "char_of (unat (of_nat (of_char c) :: u8)) = c" for c :: char
    by (simp add: unat_of_nat take_bit_eq_mod)
  then show ?thesis by (simp add: bytes_str_def str_bytes_def o_def)
qed

lemma str_bytes_inject [simp]: "str_bytes s = str_bytes t \<longleftrightarrow> s = t"
  by (metis bytes_str_bytes)

lemma length_str_bytes [simp]: "length (str_bytes s) = length s"
  by (simp add: str_bytes_def)

lemma str_bytes_append [simp]: "str_bytes (s @ t) = str_bytes s @ str_bytes t"
  by (simp add: str_bytes_def)

section \<open>Numbers\<close>

lemma be_bytes_Suc: "be_bytes (Suc n) w = ucast (drop_bit (8 * n) w) # be_bytes n w"
  by (simp add: be_bytes_def)

lemma push_byte:
  fixes acc w :: "'a::len word"
  shows "push_bit k (push_bit 8 acc OR ucast (ucast (drop_bit k w) :: u8)) OR take_bit k w =
    push_bit (k + 8) acc OR take_bit (k + 8) w"
proof (rule bit_word_eqI)
  fix n assume "n < LENGTH('a)"
  then show "bit (push_bit k (push_bit 8 acc OR ucast (ucast (drop_bit k w) :: u8)) OR take_bit k w) n =
      bit (push_bit (k + 8) acc OR take_bit (k + 8) w) n"
    by (cases "n < k"; cases "n < k + 8") (auto simp: bit_simps)
qed

lemma foldl_be_bytes:
  fixes acc w :: "'a::len word"
  shows "foldl (\<lambda>acc b. push_bit 8 acc OR ucast b) acc (be_bytes n w) = push_bit (8 * n) acc OR take_bit (8 * n) w"
proof (induction n arbitrary: acc)
  case (Suc n)
  have "8 * Suc n = 8 * n + 8" by simp
  then show ?case by (simp only: be_bytes_Suc foldl_Cons Suc.IH push_byte)
qed (simp add: be_bytes_def)

lemma be_word_be_bytes: "LENGTH('a) = 8 * n \<Longrightarrow> be_word (be_bytes n (w :: 'a::len word)) = w"
  using take_bit_length_eq [of w] by (simp add: be_word_def foldl_be_bytes)

text \<open>\<open>int(b[i])<<8 | int(b[i+1])\<close>, and the two bytes of a number below 65536.\<close>

definition be16_of :: "u8 \<Rightarrow> u8 \<Rightarrow> nat" where
  "be16_of a b = 256 * unat a + unat b"

definition be16 :: "nat \<Rightarrow> bytes" where
  "be16 n = [of_nat (n div 256), of_nat n]"

lemma length_be16 [simp]: "length (be16 n) = 2"
  by (simp add: be16_def)

lemma be16_of_be16: "n < 65536 \<Longrightarrow> be16_of (of_nat (n div 256)) (of_nat n) = n"
  by (simp add: be16_of_def unat_of_nat take_bit_eq_mod)

lemma be16_of_less: "be16_of a b < 65536"
  using unsigned_less [of a, where ?'a = nat] unsigned_less [of b, where ?'a = nat] by (simp add: be16_of_def)

section \<open>Slices\<close>

definition at_idx :: "bytes \<Rightarrow> nat \<Rightarrow> u8 outcome" where
  "at_idx bs i = (if i < length bs then Done (bs ! i) else Panicked)"

definition from_idx :: "bytes \<Rightarrow> nat \<Rightarrow> bytes outcome" where
  "from_idx bs n = (if n \<le> length bs then Done (drop n bs) else Panicked)"

definition upto_idx :: "bytes \<Rightarrow> nat \<Rightarrow> bytes outcome" where
  "upto_idx bs n = (if n \<le> length bs then Done (take n bs) else Panicked)"

text \<open>\<open>b[i:j]\<close>.\<close>

definition sub_idx :: "bytes \<Rightarrow> nat \<Rightarrow> nat \<Rightarrow> bytes outcome" where
  "sub_idx bs i j = (if i \<le> j \<and> j \<le> length bs then Done (take (j - i) (drop i bs)) else Panicked)"

text \<open>The number in network order at \<open>i\<close>.\<close>

definition u16_at :: "bytes \<Rightarrow> nat \<Rightarrow> nat outcome" where
  "u16_at bs i = obind (at_idx bs i) (\<lambda>a. obind (at_idx bs (i + 1)) (\<lambda>b. Done (be16_of a b)))"

lemma idx_Done [go_simps]:
  "i < length bs \<Longrightarrow> at_idx bs i = Done (bs ! i)"
  "n \<le> length bs \<Longrightarrow> from_idx bs n = Done (drop n bs)"
  "n \<le> length bs \<Longrightarrow> upto_idx bs n = Done (take n bs)"
  "m \<le> n \<Longrightarrow> n \<le> length bs \<Longrightarrow> sub_idx bs m n = Done (take (n - m) (drop m bs))"
  "i + 1 < length bs \<Longrightarrow> u16_at bs i = Done (be16_of (bs ! i) (bs ! (i + 1)))"
  by (simp_all add: at_idx_def from_idx_def upto_idx_def sub_idx_def u16_at_def)

lemma from_idx_eq: "from_idx bs n = Done r \<longleftrightarrow> n \<le> length bs \<and> r = drop n bs"
  by (auto simp: from_idx_def)

end
