(* ===== verification/Strconv.thy ===== *)
theory Strconv
  imports Prelude
begin

text \<open>
  The functions of Go's standard library on decimal numbers and host-port strings that the
  sources call: \<open>strconv.FormatUint\<close>, \<open>ParseUint\<close> and \<open>ParseInt\<close> in base 10,
  \<open>net.JoinHostPort\<close> and \<open>net.SplitHostPort\<close>. Errors are \<open>None\<close>.
\<close>

section \<open>Decimal numbers\<close>

definition digit_char :: "nat \<Rightarrow> char" where
  "digit_char n = char_of (48 + n mod 10)"

definition is_digit :: "char \<Rightarrow> bool" where
  "is_digit c \<longleftrightarrow> 48 \<le> (of_char c :: nat) \<and> (of_char c :: nat) \<le> 57"

definition digit_val :: "char \<Rightarrow> nat" where
  "digit_val c = (of_char c :: nat) - 48"

fun format_uint :: "nat \<Rightarrow> string" where
  "format_uint n = (if n < 10 then [digit_char n] else format_uint (n div 10) @ [digit_char n])"

declare format_uint.simps [simp del]

definition digits_val :: "string \<Rightarrow> nat" where
  "digits_val s = foldl (\<lambda>a c. 10 * a + digit_val c) 0 s"

definition parse_uint :: "nat \<Rightarrow> string \<Rightarrow> nat option" where
  "parse_uint bits s =
     (if s = [] \<or> \<not> list_all is_digit s then None
      else if digits_val s < 2 ^ bits then Some (digits_val s) else None)"

definition parse_int :: "nat \<Rightarrow> string \<Rightarrow> int option" where
  "parse_int bits s =
     (let neg = (s \<noteq> [] \<and> hd s = CHR ''-'');
          t = (if s \<noteq> [] \<and> (hd s = CHR ''-'' \<or> hd s = CHR ''+'') then tl s else s)
      in if t = [] \<or> \<not> list_all is_digit t then None
         else if neg then (if digits_val t \<le> 2 ^ (bits - 1) then Some (- int (digits_val t)) else None)
         else (if digits_val t < 2 ^ (bits - 1) then Some (int (digits_val t)) else None))"

lemma digit_char_simps [simp]: "is_digit (digit_char n)" "digit_val (digit_char n) = n mod 10"
  by (simp_all add: is_digit_def digit_val_def digit_char_def of_char_of)

lemma digits_val_snoc [simp]: "digits_val (s @ [c]) = 10 * digits_val s + digit_val c"
  by (simp add: digits_val_def)

lemma format_uint_digits: "list_all is_digit (format_uint n) \<and> format_uint n \<noteq> [] \<and> digits_val (format_uint n) = n"
proof (induction n rule: format_uint.induct)
  case (1 n)
  show ?case
  proof (cases "n < 10")
    case True
    then show ?thesis by (simp add: format_uint.simps [of n] digits_val_def)
  next
    case False
    with 1 show ?thesis by (simp add: format_uint.simps [of n])
  qed
qed

lemma parse_format_uint: "n < 2 ^ bits \<Longrightarrow> parse_uint bits (format_uint n) = Some n"
  using format_uint_digits [of n] by (simp add: parse_uint_def)

lemma digit_not: "is_digit c \<Longrightarrow> c \<notin> {CHR ''-'', CHR ''+'', CHR ''['', CHR '']'', CHR '':'', CHR ''.'', CHR '' '', CHR ''/''}"
  by (auto simp: is_digit_def)

lemma parse_int_format_uint: "n < 2 ^ (bits - 1) \<Longrightarrow> parse_int bits (format_uint n) = Some (int n)"
proof -
  assume n: "n < 2 ^ (bits - 1)"
  have d: "list_all is_digit (format_uint n)" "format_uint n \<noteq> []" "digits_val (format_uint n) = n"
    using format_uint_digits [of n] by auto
  then have "hd (format_uint n) \<noteq> CHR ''-''" "hd (format_uint n) \<noteq> CHR ''+''"
    using digit_not [of "hd (format_uint n)"] by (auto simp: list_all_iff)
  with d n show ?thesis by (simp add: parse_int_def)
qed

lemma format_uint_chars: "c \<in> {CHR ''-'', CHR ''+'', CHR ''['', CHR '']'', CHR '':'', CHR ''.'', CHR '' '', CHR ''/''} \<Longrightarrow>
    c \<notin> set (format_uint n)"
  using format_uint_digits [of n] digit_not by (fastforce simp: list_all_iff)

section \<open>Hosts and ports\<close>

definition index_byte :: "string \<Rightarrow> char \<Rightarrow> nat option" where
  "index_byte s c = (let n = length (takeWhile (\<lambda>x. x \<noteq> c) s) in if n < length s then Some n else None)"

definition last_byte :: "string \<Rightarrow> char \<Rightarrow> nat option" where
  "last_byte s c = (case index_byte (rev s) c of None \<Rightarrow> None | Some n \<Rightarrow> Some (length s - 1 - n))"

definition JoinHostPort :: "string \<Rightarrow> string \<Rightarrow> string" where
  "JoinHostPort host port =
     (if CHR '':'' \<in> set host then ''['' @ host @ '']:'' @ port else host @ '':'' @ port)"

definition SplitHostPort :: "string \<Rightarrow> (string \<times> string) option" where
  "SplitHostPort s =
     (case last_byte s (CHR '':'') of
        None \<Rightarrow> None
      | Some i \<Rightarrow>
          let r = (if hd s = CHR ''['' then
                     (case index_byte s (CHR '']'') of
                        None \<Rightarrow> None
                      | Some e \<Rightarrow> if e + 1 = i then Some (drop 1 (take e s), 1, e + 1) else None)
                   else
                     let host = take i s
                     in if CHR '':'' \<in> set host then None else Some (host, 0, 0))
          in case r of
               None \<Rightarrow> None
             | Some (host, j, k) \<Rightarrow>
                 if CHR ''['' \<in> set (drop j s) \<or> CHR '']'' \<in> set (drop k s) then None
                 else Some (host, drop (i + 1) s))"

lemma index_byte_None: "index_byte s c = None \<longleftrightarrow> c \<notin> set s"
proof -
  have "length (takeWhile (\<lambda>x. x \<noteq> c) s) \<le> length s" by (rule length_takeWhile_le)
  moreover have "length (takeWhile (\<lambda>x. x \<noteq> c) s) = length s \<longleftrightarrow> c \<notin> set s"
    by (metis (mono_tags, lifting) takeWhile_eq_all_conv takeWhile_eq_take take_all_iff order_refl)
  ultimately show ?thesis by (auto simp: index_byte_def Let_def)
qed

lemma index_byte_append: "c \<notin> set s \<Longrightarrow> index_byte (s @ c # t) c = Some (length s)"
proof -
  assume "c \<notin> set s"
  then have "takeWhile (\<lambda>x. x \<noteq> c) (s @ c # t) = s" by (induction s) auto
  then show ?thesis by (simp add: index_byte_def)
qed

lemma last_byte_append: "c \<notin> set t \<Longrightarrow> last_byte (s @ c # t) c = Some (length s)"
proof -
  assume "c \<notin> set t"
  then have "index_byte (rev t @ c # rev s) c = Some (length (rev t))"
    by (intro index_byte_append) simp
  then show ?thesis by (simp add: last_byte_def)
qed

lemma Split_JoinHostPort:
  assumes h: "CHR ''['' \<notin> set h" "CHR '']'' \<notin> set h"
    and p: "CHR '':'' \<notin> set p" "CHR ''['' \<notin> set p" "CHR '']'' \<notin> set p"
  shows "SplitHostPort (JoinHostPort h p) = Some (h, p)"
proof (cases "CHR '':'' \<in> set h")
  case True
  let ?s = "CHR ''['' # h @ CHR '']'' # CHR '':'' # p"
  have j: "JoinHostPort h p = ?s" using True by (simp add: JoinHostPort_def)
  have l: "last_byte ?s (CHR '':'') = Some (length h + 2)"
    using last_byte_append [of "CHR '':''" p "CHR ''['' # h @ [CHR '']'']"] p by simp
  have i: "index_byte ?s (CHR '']'') = Some (length h + 1)"
    using index_byte_append [of "CHR '']''" "CHR ''['' # h" "CHR '':'' # p"] h by simp
  show ?thesis unfolding j using h p by (simp add: SplitHostPort_def l i)
next
  case False
  let ?s = "h @ CHR '':'' # p"
  have j: "JoinHostPort h p = ?s" using False by (simp add: JoinHostPort_def)
  have l: "last_byte ?s (CHR '':'') = Some (length h)"
    using last_byte_append p by simp
  have "hd ?s \<noteq> CHR ''[''" using h by (cases h) auto
  then show ?thesis unfolding j using h p False by (simp add: SplitHostPort_def l)
qed

end
