(* ===== verification/Metadata.thy ===== *)
theory Metadata
  imports NetIP Strconv
begin

text \<open>
  The enumerations and the connection metadata of \<open>constant/\<close> (\<open>metadata.go\<close>,
  \<open>rule.go\<close>, \<open>adapters.go\<close>, \<open>dns.go\<close>) and of \<open>tunnel/mode.go\<close> and \<open>tunnel/status.go\<close>.

  An integer enumeration is a datatype of its named values. \<open>netip.Addr.String\<close> and
  \<open>netip.ParseAddr\<close> are arguments (\<open>addr_str\<close>, \<open>parse_addr\<close>). A method that changes the
  metadata through its pointer returns the new metadata with its error flag.
\<close>

section \<open>Enumerations\<close>

datatype NetWork = TCP | UDP | ALLNet | InvalidNet

fun NetWork_String :: "NetWork \<Rightarrow> string" where
  "NetWork_String TCP = ''tcp''"
| "NetWork_String UDP = ''udp''"
| "NetWork_String ALLNet = ''all''"
| "NetWork_String InvalidNet = ''invalid''"

datatype MType = T_HTTP | T_HTTPS | T_SOCKS4 | T_SOCKS5 | T_SHADOWSOCKS | T_VMESS | T_REDIR
  | T_TPROXY | T_TUNNEL | T_TUN | T_TUIC | T_HYSTERIA2 | T_INNER

fun Type_String :: "MType \<Rightarrow> string" where
  "Type_String T_HTTP = ''HTTP''"
| "Type_String T_HTTPS = ''HTTPS''"
| "Type_String T_SOCKS4 = ''Socks4''"
| "Type_String T_SOCKS5 = ''Socks5''"
| "Type_String T_SHADOWSOCKS = ''ShadowSocks''"
| "Type_String T_VMESS = ''Vmess''"
| "Type_String T_REDIR = ''Redir''"
| "Type_String T_TPROXY = ''TProxy''"
| "Type_String T_TUNNEL = ''Tunnel''"
| "Type_String T_TUN = ''Tun''"
| "Type_String T_TUIC = ''Tuic''"
| "Type_String T_HYSTERIA2 = ''Hysteria2''"
| "Type_String T_INNER = ''Inner''"

definition ParseType :: "string \<Rightarrow> MType option" where
  "ParseType t =
     map_of [(''HTTP'', T_HTTP), (''HTTPS'', T_HTTPS), (''SOCKS4'', T_SOCKS4), (''SOCKS5'', T_SOCKS5),
       (''SHADOWSOCKS'', T_SHADOWSOCKS), (''VMESS'', T_VMESS), (''REDIR'', T_REDIR), (''TPROXY'', T_TPROXY),
       (''TUNNEL'', T_TUNNEL), (''TUN'', T_TUN), (''TUIC'', T_TUIC), (''HYSTERIA2'', T_HYSTERIA2),
       (''INNER'', T_INNER)] t"

datatype DNSMode = DNSNormal | DNSFakeIP | DNSMapping | DNSHosts

fun DNSMode_String :: "DNSMode \<Rightarrow> string" where
  "DNSMode_String DNSNormal = ''normal''"
| "DNSMode_String DNSFakeIP = ''fake-ip''"
| "DNSMode_String DNSMapping = ''redir-host''"
| "DNSMode_String DNSHosts = ''hosts''"

definition DNSModeMapping :: "string \<Rightarrow> DNSMode option" where
  "DNSModeMapping = map_of (map (\<lambda>m. (DNSMode_String m, m)) [DNSNormal, DNSFakeIP, DNSMapping])"

text \<open>The unmarshallers, on the string that the YAML or JSON decoder has read.\<close>

definition DNSMode_Unmarshal :: "string \<Rightarrow> DNSMode option" where
  "DNSMode_Unmarshal tp = DNSModeMapping tp"

datatype DNSPrefer = DualStack | IPv4Only | IPv6Only | IPv4Prefer | IPv6Prefer

fun DNSPrefer_String :: "DNSPrefer \<Rightarrow> string" where
  "DNSPrefer_String DualStack = ''dual''"
| "DNSPrefer_String IPv4Only = ''ipv4''"
| "DNSPrefer_String IPv6Only = ''ipv6''"
| "DNSPrefer_String IPv4Prefer = ''ipv4-prefer''"
| "DNSPrefer_String IPv6Prefer = ''ipv6-prefer''"

definition dnsPreferMap :: "string \<Rightarrow> DNSPrefer option" where
  "dnsPreferMap = map_of (map (\<lambda>m. (DNSPrefer_String m, m)) [DualStack, IPv4Only, IPv6Only, IPv4Prefer, IPv6Prefer])"

definition NewDNSPrefer :: "string \<Rightarrow> DNSPrefer" where
  "NewDNSPrefer s = (case dnsPreferMap s of Some p \<Rightarrow> p | None \<Rightarrow> DualStack)"

datatype TunnelMode = M_Global | M_Rule | M_Direct

fun TunnelMode_String :: "TunnelMode \<Rightarrow> string" where
  "TunnelMode_String M_Global = ''global''"
| "TunnelMode_String M_Rule = ''rule''"
| "TunnelMode_String M_Direct = ''direct''"

definition ModeMapping :: "string \<Rightarrow> TunnelMode option" where
  "ModeMapping = map_of (map (\<lambda>m. (TunnelMode_String m, m)) [M_Global, M_Rule, M_Direct])"

definition TunnelMode_Unmarshal :: "string \<Rightarrow> TunnelMode option" where
  "TunnelMode_Unmarshal tp = ModeMapping (to_lower tp)"

datatype TunnelStatus = S_Suspend | S_Inner | S_Running

fun TunnelStatus_String :: "TunnelStatus \<Rightarrow> string" where
  "TunnelStatus_String S_Suspend = ''suspend''"
| "TunnelStatus_String S_Inner = ''inner''"
| "TunnelStatus_String S_Running = ''running''"

definition StatusMapping :: "string \<Rightarrow> TunnelStatus option" where
  "StatusMapping = map_of (map (\<lambda>m. (TunnelStatus_String m, m)) [S_Suspend, S_Inner, S_Running])"

definition TunnelStatus_Unmarshal :: "string \<Rightarrow> TunnelStatus option" where
  "TunnelStatus_Unmarshal tp = StatusMapping (to_lower tp)"

datatype FindProcessMode = FP_Always | FP_Strict | FP_Off

definition FindProcess_Set :: "string \<Rightarrow> FindProcessMode option" where
  "FindProcess_Set v =
     map_of [(''always'', FP_Always), (''off'', FP_Off), (''strict'', FP_Strict)] (to_lower v)"

datatype RuleType = RT_Domain | RT_DomainSuffix | RT_DomainKeyword | RT_GEOSITE | RT_GEOIP
  | RT_IPCIDR | RT_SrcIPCIDR | RT_IPSuffix | RT_SrcIPSuffix | RT_SrcPort | RT_DstPort | RT_InPort
  | RT_InUser | RT_InName | RT_InType | RT_Process | RT_ProcessPath | RT_RuleSet | RT_Network
  | RT_Uid | RT_SubRules | RT_MATCH | RT_AND | RT_OR | RT_NOT

fun RuleType_String :: "RuleType \<Rightarrow> string" where
  "RuleType_String RT_Domain = ''Domain''"
| "RuleType_String RT_DomainSuffix = ''DomainSuffix''"
| "RuleType_String RT_DomainKeyword = ''DomainKeyword''"
| "RuleType_String RT_GEOSITE = ''GeoSite''"
| "RuleType_String RT_GEOIP = ''GeoIP''"
| "RuleType_String RT_IPCIDR = ''IPCIDR''"
| "RuleType_String RT_SrcIPCIDR = ''SrcIPCIDR''"
| "RuleType_String RT_IPSuffix = ''IPSuffix''"
| "RuleType_String RT_SrcIPSuffix = ''SrcIPSuffix''"
| "RuleType_String RT_SrcPort = ''SrcPort''"
| "RuleType_String RT_DstPort = ''DstPort''"
| "RuleType_String RT_InPort = ''InPort''"
| "RuleType_String RT_InUser = ''InUser''"
| "RuleType_String RT_InName = ''InName''"
| "RuleType_String RT_InType = ''InType''"
| "RuleType_String RT_Process = ''Process''"
| "RuleType_String RT_ProcessPath = ''ProcessPath''"
| "RuleType_String RT_MATCH = ''Match''"
| "RuleType_String RT_RuleSet = ''RuleSet''"
| "RuleType_String RT_Network = ''Network''"
| "RuleType_String RT_Uid = ''Uid''"
| "RuleType_String RT_SubRules = ''SubRules''"
| "RuleType_String RT_AND = ''AND''"
| "RuleType_String RT_OR = ''OR''"
| "RuleType_String RT_NOT = ''NOT''"

datatype AdapterType = A_Direct | A_Reject | A_Compatible | A_Pass | A_Relay | A_Selector
  | A_Fallback | A_URLTest | A_LoadBalance | A_Shadowsocks | A_ShadowsocksR | A_Snell | A_Socks5
  | A_Http | A_Vmess | A_Vless | A_Trojan | A_Hysteria | A_Hysteria2 | A_WireGuard | A_Tuic | A_AnyTLS

fun AdapterType_String :: "AdapterType \<Rightarrow> string" where
  "AdapterType_String A_Direct = ''Direct''"
| "AdapterType_String A_Reject = ''Reject''"
| "AdapterType_String A_Compatible = ''Compatible''"
| "AdapterType_String A_Pass = ''Pass''"
| "AdapterType_String A_Shadowsocks = ''Shadowsocks''"
| "AdapterType_String A_ShadowsocksR = ''ShadowsocksR''"
| "AdapterType_String A_Snell = ''Snell''"
| "AdapterType_String A_Socks5 = ''Socks5''"
| "AdapterType_String A_Http = ''Http''"
| "AdapterType_String A_Vmess = ''Vmess''"
| "AdapterType_String A_Vless = ''Vless''"
| "AdapterType_String A_Trojan = ''Trojan''"
| "AdapterType_String A_Hysteria = ''Hysteria''"
| "AdapterType_String A_Hysteria2 = ''Hysteria2''"
| "AdapterType_String A_WireGuard = ''WireGuard''"
| "AdapterType_String A_Tuic = ''Tuic''"
| "AdapterType_String A_AnyTLS = ''AnyTLS''"
| "AdapterType_String A_Relay = ''Relay''"
| "AdapterType_String A_Selector = ''Selector''"
| "AdapterType_String A_Fallback = ''Fallback''"
| "AdapterType_String A_URLTest = ''URLTest''"
| "AdapterType_String A_LoadBalance = ''LoadBalance''"

text \<open>\<open>Chain\<close>: the proxies of a connection, the last of the chain first.\<close>

definition Chain_String :: "string list \<Rightarrow> string" where
  "Chain_String c =
     (case c of [] \<Rightarrow> '''' | [x] \<Rightarrow> x | _ \<Rightarrow> last c @ ''['' @ hd c @ '']'')"

definition Chain_Last :: "string list \<Rightarrow> string" where
  "Chain_Last c = (case c of [] \<Rightarrow> '''' | x # _ \<Rightarrow> x)"

section \<open>Metadata\<close>

record metadata =
  mNetWork :: NetWork
  mType :: MType
  mSrcIP :: addr
  mDstIP :: addr
  mSrcPort :: u16
  mDstPort :: u16
  mInIP :: addr
  mInPort :: u16
  mInName :: string
  mInUser :: string
  mHost :: string
  mDNSMode :: DNSMode
  mUid :: u32
  mProcess :: string
  mProcessPath :: string
  mSpecialProxy :: string
  mSpecialRules :: string
  mRemoteDst :: string
  mSniffHost :: string

text \<open>Go's zero value of the struct.\<close>

definition metadata0 :: metadata where
  "metadata0 = \<lparr>mNetWork = TCP, mType = T_HTTP, mSrcIP = NoAddr, mDstIP = NoAddr, mSrcPort = 0,
     mDstPort = 0, mInIP = NoAddr, mInPort = 0, mInName = '''', mInUser = '''', mHost = '''',
     mDNSMode = DNSNormal, mUid = 0, mProcess = '''', mProcessPath = '''', mSpecialProxy = '''',
     mSpecialRules = '''', mRemoteDst = '''', mSniffHost = ''''\<rparr>"

definition meta_String :: "(addr \<Rightarrow> string) \<Rightarrow> metadata \<Rightarrow> string" where
  "meta_String addr_str m =
     (if mHost m \<noteq> '''' then mHost m
      else if addr_valid (mDstIP m) then addr_str (mDstIP m)
      else ''<nil>'')"

definition RemoteAddress :: "(addr \<Rightarrow> string) \<Rightarrow> metadata \<Rightarrow> string" where
  "RemoteAddress addr_str m = JoinHostPort (meta_String addr_str m) (format_uint (unat (mDstPort m)))"

definition SourceAddress :: "(addr \<Rightarrow> string) \<Rightarrow> metadata \<Rightarrow> string" where
  "SourceAddress addr_str m = JoinHostPort (addr_str (mSrcIP m)) (format_uint (unat (mSrcPort m)))"

definition ClashName :: string where
  "ClashName = ''clash.meta''"

definition SourceDetail :: "(addr \<Rightarrow> string) \<Rightarrow> metadata \<Rightarrow> string" where
  "SourceDetail addr_str m =
     (if mType m = T_INNER then ClashName
      else if mProcess m \<noteq> '''' \<and> mUid m \<noteq> 0 then
        SourceAddress addr_str m @ ''('' @ mProcess m @ '', uid='' @ format_uint (unat (mUid m)) @ '')''
      else if mUid m \<noteq> 0 then SourceAddress addr_str m @ ''(uid='' @ format_uint (unat (mUid m)) @ '')''
      else if mProcess m \<noteq> '''' then SourceAddress addr_str m @ ''('' @ mProcess m @ '')''
      else SourceAddress addr_str m)"

definition SourceValid :: "metadata \<Rightarrow> bool" where
  "SourceValid m \<longleftrightarrow> mSrcPort m \<noteq> 0 \<and> addr_valid (mSrcIP m)"

text \<open>The SOCKS address types (\<open>transport/socks5\<close>).\<close>

definition AtypIPv4 :: nat where "AtypIPv4 = 1"
definition AtypDomainName :: nat where "AtypDomainName = 3"
definition AtypIPv6 :: nat where "AtypIPv6 = 4"

definition AddrType :: "metadata \<Rightarrow> nat" where
  "AddrType m =
     (if mHost m \<noteq> '''' \<or> \<not> addr_valid (mDstIP m) then AtypDomainName
      else if addr_is4 (mDstIP m) then AtypIPv4
      else AtypIPv6)"

definition Resolved :: "metadata \<Rightarrow> bool" where
  "Resolved m \<longleftrightarrow> addr_valid (mDstIP m)"

definition RuleHost :: "metadata \<Rightarrow> string" where
  "RuleHost m = (if mSniffHost m = '''' then mHost m else mSniffHost m)"

definition Pure :: "metadata \<Rightarrow> metadata" where
  "Pure m =
     (if (mDNSMode m = DNSMapping \<or> mDNSMode m = DNSHosts) \<and> addr_valid (mDstIP m)
      then m\<lparr>mHost := ''''\<rparr> else m)"

definition AddrPort :: "metadata \<Rightarrow> addr \<times> u16" where
  "AddrPort m = (addr_unmap (mDstIP m), mDstPort m)"

definition UDPAddr :: "metadata \<Rightarrow> (addr \<times> u16) option" where
  "UDPAddr m = (if mNetWork m \<noteq> UDP \<or> \<not> addr_valid (mDstIP m) then None else Some (AddrPort m))"

definition meta_Valid :: "metadata \<Rightarrow> bool" where
  "meta_Valid m \<longleftrightarrow> mHost m \<noteq> '''' \<or> addr_valid (mDstIP m)"

definition SetRemoteAddress :: "(string \<Rightarrow> addr option) \<Rightarrow> string \<Rightarrow> metadata \<Rightarrow> metadata \<times> bool" where
  "SetRemoteAddress parse_addr raw m =
     (case SplitHostPort raw of
        None \<Rightarrow> (m, False)
      | Some (host, port) \<Rightarrow>
          let uint16Port = (case parse_uint 16 port of Some p \<Rightarrow> of_nat p | None \<Rightarrow> 0);
              m1 = (case parse_addr host of
                      None \<Rightarrow> m\<lparr>mHost := host, mDstIP := NoAddr\<rparr>
                    | Some ip \<Rightarrow> m\<lparr>mHost := '''', mDstIP := addr_unmap ip\<rparr>)
          in (m1\<lparr>mDstPort := uint16Port\<rparr>, True))"

text \<open>A \<open>net.Addr\<close> and the methods that \<open>SetRemoteAddr\<close> looks for in it: \<open>RawAddr\<close> (\<open>None\<close> where it is
  missing or returns nil), \<open>AddrPort\<close>, \<open>AddrString\<close>, and \<open>String\<close>.\<close>

datatype go_addr =
  GoAddr (ga_raw: "go_addr option") (ga_addrport: "(addr \<times> u16) option")
    (ga_addrstring: "string option") (ga_string: string)

fun SetRemoteAddr :: "(string \<Rightarrow> addr option) \<Rightarrow> go_addr \<Rightarrow> metadata \<Rightarrow> metadata \<times> bool" where
  "SetRemoteAddr parse_addr (GoAddr raw ap astr str) m =
     (let (m1, fin) = (case raw of None \<Rightarrow> (m, False) | Some r \<Rightarrow> SetRemoteAddr parse_addr r m)
      in if fin then (m1, True)
         else
           (case ap of
              Some (a, p) \<Rightarrow>
                if p \<noteq> 0 then
                  let m2 = m1\<lparr>mDstPort := p\<rparr>
                  in if addr_valid a then (m2\<lparr>mDstIP := addr_unmap a\<rparr>, True)
                     else (case astr of
                             Some s \<Rightarrow> (m2\<lparr>mHost := s\<rparr>, True)
                           | None \<Rightarrow> SetRemoteAddress parse_addr str m2)
                else SetRemoteAddress parse_addr str m1
            | None \<Rightarrow> SetRemoteAddress parse_addr str m1))"

text \<open>A nil address is left as it is.\<close>

definition SetRemoteAddr_opt :: "(string \<Rightarrow> addr option) \<Rightarrow> go_addr option \<Rightarrow> metadata \<Rightarrow> metadata \<times> bool" where
  "SetRemoteAddr_opt parse_addr a m = (case a of None \<Rightarrow> (m, True) | Some a \<Rightarrow> SetRemoteAddr parse_addr a m)"

section \<open>Properties\<close>

lemma ParseType_upper: "ParseType (to_upper (Type_String t)) = Some t"
  by (cases t; hypsubst; code_simp)

lemma unmarshal_strings:
  "TunnelMode_Unmarshal (TunnelMode_String m) = Some m"
  "TunnelStatus_Unmarshal (TunnelStatus_String s) = Some s"
  "NewDNSPrefer (DNSPrefer_String p) = p"
proof -
  show "TunnelMode_Unmarshal (TunnelMode_String m) = Some m" by (cases m; hypsubst; code_simp)
  show "TunnelStatus_Unmarshal (TunnelStatus_String s) = Some s" by (cases s; hypsubst; code_simp)
  show "NewDNSPrefer (DNSPrefer_String p) = p" by (cases p; hypsubst; code_simp)
qed

lemma addr_unmap_valid [simp]: "addr_valid (addr_unmap a) = addr_valid a"
  by (cases a) auto

lemma unat_u16_less: "unat (p :: u16) < 2 ^ 16"
  by (rule order_less_le_trans [OF unsigned_less]) simp

text \<open>\<open>SetRemoteAddress\<close> reads back the text that \<open>RemoteAddress\<close> writes: the host (one
  without brackets that is not an IP address) or the unmapped address, and the port.\<close>

theorem SetRemoteAddress_RemoteAddress:
  assumes ip: "mHost m = [] \<Longrightarrow> parse_addr (addr_str (mDstIP m)) = Some (mDstIP m) \<and>
      CHR ''['' \<notin> set (addr_str (mDstIP m)) \<and> CHR '']'' \<notin> set (addr_str (mDstIP m))"
    and host: "mHost m \<noteq> '''' \<Longrightarrow> parse_addr (mHost m) = None \<and> CHR ''['' \<notin> set (mHost m) \<and> CHR '']'' \<notin> set (mHost m)"
    and valid: "meta_Valid m"
  shows "SetRemoteAddress parse_addr (RemoteAddress addr_str m) m0 =
    (m0\<lparr>mHost := mHost m, mDstIP := (if mHost m \<noteq> '''' then NoAddr else addr_unmap (mDstIP m)),
        mDstPort := mDstPort m\<rparr>, True)"
proof -
  let ?h = "meta_String addr_str m" and ?p = "format_uint (unat (mDstPort m))"
  have "CHR ''['' \<notin> set ?h" "CHR '']'' \<notin> set ?h"
    using host ip by (auto simp: meta_String_def)
  then have s: "SplitHostPort (RemoteAddress addr_str m) = Some (?h, ?p)"
    unfolding RemoteAddress_def by (intro Split_JoinHostPort) (simp_all add: format_uint_chars)
  have p: "parse_uint 16 ?p = Some (unat (mDstPort m))"
    by (rule parse_format_uint) (rule unat_u16_less)
  show ?thesis
    using valid host ip
    by (auto simp: SetRemoteAddress_def s p meta_String_def meta_Valid_def)
qed

theorem SetRemoteAddress_RemoteAddress_witness:
  "SetRemoteAddress (\<lambda>s. if s = ''1::2'' then Some (Addr6 5 []) else None)
     (RemoteAddress (\<lambda>a. ''1::2'') (metadata0\<lparr>mDstIP := Addr6 5 [], mDstPort := 443\<rparr>)) metadata0 =
   (metadata0\<lparr>mDstIP := Addr6 5 [], mDstPort := 443\<rparr>, True)"
  using SetRemoteAddress_RemoteAddress
    [of "metadata0\<lparr>mDstIP := Addr6 5 [], mDstPort := 443\<rparr>"
        "\<lambda>s. if s = ''1::2'' then Some (Addr6 5 []) else None" "\<lambda>a. ''1::2''" metadata0]
  by (simp add: metadata0_def meta_Valid_def)

end
