(* ===== verification/IntRanges.thy ===== *)
theory IntRanges
  imports Strconv
begin

text \<open>
  Ranges of integers (\<open>common/utils/range.go\<close>, \<open>ranges.go\<close>): the notation of ports, user ids and
  status codes. The type parameter \<open>T\<close> of the sources is an unsigned integer at both of its uses
  (\<open>uint16\<close>, \<open>uint32\<close>), here a word of any width; a conversion \<open>T(n)\<close> wraps around.
\<close>

datatype 'a range = Range (rstart: 'a) (rend: 'a)

definition NewRange :: "'a::linorder \<Rightarrow> 'a \<Rightarrow> 'a range" where
  "NewRange s e = (if s > e then Range e s else Range s e)"

definition Range_Contains :: "'a::linorder range \<Rightarrow> 'a \<Rightarrow> bool" where
  "Range_Contains r t \<longleftrightarrow> t \<ge> rstart r \<and> t \<le> rend r"

definition Range_LeftContains :: "'a::linorder range \<Rightarrow> 'a \<Rightarrow> bool" where
  "Range_LeftContains r t \<longleftrightarrow> t \<ge> rstart r \<and> t < rend r"

definition Range_RightContains :: "'a::linorder range \<Rightarrow> 'a \<Rightarrow> bool" where
  "Range_RightContains r t \<longleftrightarrow> t > rstart r \<and> t \<le> rend r"

text \<open>One item of the list; the empty item is skipped, and \<open>None\<close> is \<open>errIntRanges\<close>.\<close>

definition parse_range :: "string \<Rightarrow> 'a::len word range list option" where
  "parse_range s =
     (if s = [] then Some []
      else
        let status = split_on (CHR ''-'') s
        in if length status > 2 then None
           else
             (case parse_int 64 (trim_set ''[ ]'' (status ! 0)) of
                None \<Rightarrow> None
              | Some start \<Rightarrow>
                  if length status = 1 then Some [NewRange (word_of_int start) (word_of_int start)]
                  else
                    (case parse_uint 64 (trim_set ''[ ]'' (status ! 1)) of
                       None \<Rightarrow> None
                     | Some e \<Rightarrow> Some [NewRange (word_of_int start) (of_nat e)])))"

fun NewIntRangesFromList :: "string list \<Rightarrow> 'a::len word range list option" where
  "NewIntRangesFromList [] = Some []"
| "NewIntRangesFromList (s # list) =
     (case parse_range s of
        None \<Rightarrow> None
      | Some r \<Rightarrow> (case NewIntRangesFromList list of None \<Rightarrow> None | Some rs \<Rightarrow> Some (r @ rs)))"

definition NewIntRanges :: "string \<Rightarrow> 'a::len word range list option" where
  "NewIntRanges expected =
     (let expected = trim_space expected
      in if expected = [] \<or> expected = ''*'' then Some []
         else
           let list = split_on (CHR ''/'') expected
           in if length list > 28 then None else NewIntRangesFromList list)"

definition IntRanges_Check :: "'a::linorder range list \<Rightarrow> 'a \<Rightarrow> bool" where
  "IntRanges_Check ranges status \<longleftrightarrow> (if ranges = [] then True else \<exists>r \<in> set ranges. Range_Contains r status)"

section \<open>The notation\<close>

text \<open>How a list of ranges is written: \<open>a\<close> for a single number, \<open>a-b\<close> for a range, joined by slashes.\<close>

definition show_range :: "nat \<times> nat option \<Rightarrow> string" where
  "show_range r = (case r of (a, None) \<Rightarrow> format_uint a | (a, Some b) \<Rightarrow> format_uint a @ ''-'' @ format_uint b)"

definition show_ranges :: "(nat \<times> nat option) list \<Rightarrow> string" where
  "show_ranges rs = join_with (CHR ''/'') (map show_range rs)"

text \<open>The numbers it stands for; the bounds of a range may be in either order.\<close>

definition in_range :: "nat \<Rightarrow> nat \<times> nat option \<Rightarrow> bool" where
  "in_range n r = (case r of (a, None) \<Rightarrow> n = a | (a, Some b) \<Rightarrow> min a b \<le> n \<and> n \<le> max a b)"

lemma trim_id:
  assumes "s \<noteq> []" "hd s \<notin> set cs" "last s \<notin> set cs"
  shows "trim_set cs s = s"
proof -
  have "dropWhile (\<lambda>c. c \<in> set cs) s = s" using assms by (cases s) auto
  moreover have "dropWhile (\<lambda>c. c \<in> set cs) (rev s) = rev s"
    using assms by (cases "rev s") (auto simp: last_rev hd_rev[symmetric])
  ultimately show ?thesis by (simp add: trim_set_def)
qed

lemma digits_not_in:
  assumes "\<forall>c \<in> set cs. \<not> is_digit c"
  shows "hd (format_uint n) \<notin> set cs" "last (format_uint n) \<notin> set cs"
proof -
  have "list_all is_digit (format_uint n)" "format_uint n \<noteq> []"
    using format_uint_digits [of n] by auto
  then have "is_digit (hd (format_uint n))" "is_digit (last (format_uint n))"
    by (auto simp: list_all_iff)
  with assms show "hd (format_uint n) \<notin> set cs" "last (format_uint n) \<notin> set cs" by auto
qed

lemma trim_format_uint:
  assumes "\<forall>c \<in> set cs. \<not> is_digit c"
  shows "trim_set cs (format_uint n) = format_uint n"
  using digits_not_in [OF assms] format_uint_digits [of n] by (intro trim_id) auto

lemma parse_show_range:
  assumes "a < 2 ^ 63" and "\<And>b'. b = Some b' \<Longrightarrow> b' < 2 ^ 64"
  shows "parse_range (show_range (a, b)) =
    Some [NewRange (of_nat a) (of_nat (case b of None \<Rightarrow> a | Some b' \<Rightarrow> b'))]"
proof -
  have nd: "\<forall>c \<in> set ''[ ]''. \<not> is_digit c" by (simp add: is_digit_def)
  have sa: "CHR ''-'' \<notin> set (format_uint n)" for n using format_uint_chars by simp
  have pa: "parse_int 64 (format_uint a) = Some (int a)"
    by (rule parse_int_format_uint) (use assms in simp)
  show ?thesis
  proof (cases b)
    case None
    then have "split_on (CHR ''-'') (show_range (a, b)) = [format_uint a]"
      using sa by (simp add: show_range_def split_on_id)
    moreover have "show_range (a, b) \<noteq> []"
      using None format_uint_digits [of a] by (simp add: show_range_def)
    ultimately show ?thesis using None pa nd by (simp add: parse_range_def trim_format_uint)
  next
    case (Some b')
    then have "split_on (CHR ''-'') (show_range (a, b)) = [format_uint a, format_uint b']"
      using sa by (simp add: show_range_def split_on_append split_on_id)
    moreover have "show_range (a, b) \<noteq> []" using Some by (simp add: show_range_def)
    moreover have "parse_uint 64 (format_uint b') = Some b'"
      by (rule parse_format_uint) (use assms Some in simp)
    ultimately show ?thesis using Some pa nd by (simp add: parse_range_def trim_format_uint)
  qed
qed

lemma show_range_no_slash: "CHR ''/'' \<notin> set (show_range r)"
  using format_uint_chars by (auto simp: show_range_def split: prod.splits option.splits)

lemma NewIntRangesFromList_show:
  assumes "\<forall>(a, b) \<in> set rs. a < 2 ^ 63 \<and> (\<forall>b'. b = Some b' \<longrightarrow> b' < 2 ^ 64)"
  shows "NewIntRangesFromList (map show_range rs) =
    Some (map (\<lambda>(a, b). NewRange (of_nat a) (of_nat (case b of None \<Rightarrow> a | Some b' \<Rightarrow> b'))) rs)"
  using assms
proof (induction rs)
  case (Cons r rs)
  obtain a b where r: "r = (a, b)" by (cases r)
  with Cons show ?case by (simp add: parse_show_range)
qed simp

lemma trim_show_ranges:
  assumes "rs \<noteq> []"
  shows "trim_space (show_ranges rs) = show_ranges rs \<and> show_ranges rs \<noteq> [] \<and> show_ranges rs \<noteq> ''*''"
proof -
  have nd: "\<forall>c \<in> set (''*'' @ space_chars). \<not> is_digit c" by (simp add: is_digit_def space_chars_def)
  have one: "show_range r \<noteq> []" "hd (show_range r) \<notin> set (''*'' @ space_chars)"
      "last (show_range r) \<notin> set (''*'' @ space_chars)" for r
    using digits_not_in [OF nd] format_uint_digits
    by (auto simp: show_range_def hd_append split: prod.splits option.splits)
  have "show_ranges rs \<noteq> [] \<and> hd (show_ranges rs) \<notin> set (''*'' @ space_chars) \<and>
      last (show_ranges rs) \<notin> set (''*'' @ space_chars)"
    using assms
  proof (induction rs)
    case (Cons r rs)
    show ?case
    proof (cases rs)
      case Nil
      with one show ?thesis by (simp add: show_ranges_def)
    next
      case (Cons r' rs')
      then have "show_ranges (r # rs) = show_range r @ CHR ''/'' # show_ranges rs"
        by (simp add: show_ranges_def)
      moreover have "show_ranges rs \<noteq> []" "last (show_ranges rs) \<notin> set (''*'' @ space_chars)"
        using Cons.IH Cons by auto
      ultimately show ?thesis using one [of r] by (simp add: hd_append)
    qed
  qed simp
  then show ?thesis using trim_id [of "show_ranges rs" space_chars] by (auto simp: trim_space_def)
qed

lemma NewRange_word_Contains:
  fixes x :: "'a::len word"
  assumes "a < 2 ^ LENGTH('a)" "b < 2 ^ LENGTH('a)"
  shows "Range_Contains (NewRange (of_nat a) (of_nat b)) x \<longleftrightarrow> min a b \<le> unat x \<and> unat x \<le> max a b"
  using assms
  by (auto simp: NewRange_def Range_Contains_def word_less_nat_alt word_le_nat_alt unat_of_nat take_bit_nat_eq_self)

section \<open>Properties\<close>

text \<open>C38: for unsigned numbers of at most 63 bits, as those of ports, status codes and user ids: a list of one to 28 ranges,
  written in the notation with decimal numbers that fit the type, is parsed, and \<open>Check\<close> accepts exactly the numbers of the
  ranges, bounds included, in either order.\<close>

theorem IntRanges_show_Check:
  fixes x :: "'a::len word"
  assumes "rs \<noteq> []" "length rs \<le> 28" and w: "LENGTH('a) \<le> 63"
    and fit: "\<forall>(a, b) \<in> set rs. a < 2 ^ LENGTH('a) \<and> (\<forall>b'. b = Some b' \<longrightarrow> b' < 2 ^ LENGTH('a))"
  shows "\<exists>ranges. NewIntRanges (show_ranges rs) = Some ranges \<and>
    (IntRanges_Check ranges x \<longleftrightarrow> (\<exists>r \<in> set rs. in_range (unat x) r))"
proof -
  let ?f = "\<lambda>(a, b). NewRange (of_nat a) (of_nat (case b of None \<Rightarrow> a | Some b' \<Rightarrow> b')) :: 'a word range"
  have p: "(2::nat) ^ LENGTH('a) \<le> 2 ^ 63" "(2::nat) ^ LENGTH('a) \<le> 2 ^ 64"
    using w by (intro power_increasing; simp)+
  have "split_on (CHR ''/'') (show_ranges rs) = map show_range rs"
    unfolding show_ranges_def using assms(1) show_range_no_slash by (intro split_join) auto
  moreover have "NewIntRangesFromList (map show_range rs) = Some (map ?f rs)"
    using fit p by (intro NewIntRangesFromList_show) fastforce
  ultimately have n: "NewIntRanges (show_ranges rs) = Some (map ?f rs)"
    using trim_show_ranges [OF assms(1)] assms(2) by (simp add: NewIntRanges_def)
  have "Range_Contains (?f r) x \<longleftrightarrow> in_range (unat x) r" if "r \<in> set rs" for r
  proof -
    obtain a b where r: "r = (a, b)" by (cases r)
    with fit that have "a < 2 ^ LENGTH('a)" "\<forall>b'. b = Some b' \<longrightarrow> b' < 2 ^ LENGTH('a)" by auto
    with r show ?thesis by (cases b) (auto simp: NewRange_word_Contains in_range_def)
  qed
  then have "IntRanges_Check (map ?f rs) x \<longleftrightarrow> (\<exists>r \<in> set rs. in_range (unat x) r)"
    using assms(1) by (auto simp: IntRanges_Check_def)
  with n show ?thesis by blast
qed

theorem IntRanges_show_Check_witness:
  "\<exists>ranges. NewIntRanges (show_ranges [(80, None), (8000, Some 7000)]) = Some ranges \<and>
    (IntRanges_Check ranges (7500 :: u16) \<longleftrightarrow> (\<exists>r \<in> set [(80, None), (8000, Some 7000)]. in_range (unat (7500 :: u16)) r))"
  by (rule IntRanges_show_Check) simp_all

text \<open>A number too big for the type is not refused but wraps around: every such number below \<open>2^63\<close> is read as its
  remainder, so the port 65616 stands for port 80.\<close>

theorem IntRanges_wraps:
  assumes "n < 2 ^ 63"
  shows "NewIntRanges (show_ranges [(n, None)]) = Some [Range (of_nat n :: u16) (of_nat n)]"
proof -
  have "split_on (CHR ''/'') (show_range (n, None)) = [show_range (n, None)]"
    using show_range_no_slash by (rule split_on_id)
  moreover have "parse_range (show_range (n, None)) = Some [NewRange (of_nat n :: u16) (of_nat n)]"
    using parse_show_range [of n None] assms by simp
  ultimately show ?thesis
    using trim_show_ranges [of "[(n, None)]"]
    by (simp add: NewIntRanges_def NewRange_def show_ranges_def)
qed

theorem IntRanges_wraps_witness:
  "NewIntRanges (show_ranges [(65616, None)]) = Some [Range (80 :: u16) 80]"
  using IntRanges_wraps [of 65616] by simp

end
