(* ===== verification/RuleMatch.thy ===== *)
theory RuleMatch
  imports Metadata IntRanges DomainTrie IpCidrTrie
begin

text \<open>
  The rules (\<open>rules/common/\<close>, \<open>rules/logic/logic.go\<close>, \<open>rules/provider/\<close>) and how they match.

  A rule is a value of one datatype, a constructor per Go type with its fields. The fields that point to
  loaded data (a GeoIP or GeoSite matcher, a domain set) are functions. A \<open>SUB-RULE\<close> and a
  \<open>RULE-SET\<close> refer by name to state outside the rule: the environment \<open>rule_env\<close>. Following
  these names may not end, so matching has fuel, spent by every step through a name and by
  nothing else; \<open>NoFuel\<close> is the outcome of running out, and \<open>Panicked\<close> that of a run-time panic.
\<close>

section \<open>Rules\<close>

datatype rule =
  R_Domain string string
| R_DomainSuffix string string
| R_DomainKeyword string string
| R_GEOSITE string string "string \<Rightarrow> bool"
| R_GEOIP string string bool "bytes \<Rightarrow> bool"
| R_IPCIDR prefix string bool bool
| R_IPSuffix bytes int string string bool bool
| R_Port string string RuleType "u16 range list"
| R_InName "string list" string string
| R_InUser "string list" string string
| R_InType "MType list" string string
| R_Process string string bool
| R_NetworkType NetWork string
| R_Uid "u32 range list" string string
| R_Match string
| R_RuleSet string string bool
| R_Logic string string RuleType "rule list" bool bool

text \<open>Field order: \<open>Domain\<close>, \<open>DomainSuffix\<close>, \<open>DomainKeyword\<close>: text, adapter; \<open>GEOSITE\<close>: country, adapter, matcher;
  \<open>GEOIP\<close>: country, adapter, noResolveIP, matcher; \<open>IPCIDR\<close>: ipnet, adapter, isSourceIP, noResolveIP;
  \<open>IPSuffix\<close>: ipBytes, bits, payload, adapter, isSourceIP, noResolveIP; \<open>Port\<close>: adapter, port, ruleType,
  portRanges; \<open>InName\<close>, \<open>InUser\<close>, \<open>InType\<close>: names, adapter, payload; \<open>Process\<close>: adapter, process, nameOnly;
  \<open>NetworkType\<close>: network, adapter; \<open>Uid\<close>: uids, oUid, adapter; \<open>RuleSet\<close>: provider name, adapter, noResolveIP;
  \<open>Logic\<close>: payload, adapter, ruleType, rules, needIP, needProcess.\<close>

fun rule_type :: "rule \<Rightarrow> RuleType" where
  "rule_type (R_Domain d a) = RT_Domain"
| "rule_type (R_DomainSuffix d a) = RT_DomainSuffix"
| "rule_type (R_DomainKeyword d a) = RT_DomainKeyword"
| "rule_type (R_GEOSITE c a mt) = RT_GEOSITE"
| "rule_type (R_GEOIP c a nr mt) = RT_GEOIP"
| "rule_type (R_IPCIDR p a src nr) = (if src then RT_SrcIPCIDR else RT_IPCIDR)"
| "rule_type (R_IPSuffix bs bits p a src nr) = (if src then RT_SrcIPSuffix else RT_IPSuffix)"
| "rule_type (R_Port a p rt rs) = rt"
| "rule_type (R_InName ns a p) = RT_InName"
| "rule_type (R_InUser us a p) = RT_InUser"
| "rule_type (R_InType ts a p) = RT_InType"
| "rule_type (R_Process a p nameOnly) = (if nameOnly then RT_Process else RT_ProcessPath)"
| "rule_type (R_NetworkType n a) = RT_Network"
| "rule_type (R_Uid us p a) = RT_Uid"
| "rule_type (R_Match a) = RT_MATCH"
| "rule_type (R_RuleSet n a nr) = RT_RuleSet"
| "rule_type (R_Logic p a rt rs ip pr) = rt"

fun rule_adapter :: "rule \<Rightarrow> string" where
  "rule_adapter (R_Domain d a) = a"
| "rule_adapter (R_DomainSuffix d a) = a"
| "rule_adapter (R_DomainKeyword d a) = a"
| "rule_adapter (R_GEOSITE c a mt) = a"
| "rule_adapter (R_GEOIP c a nr mt) = a"
| "rule_adapter (R_IPCIDR p a src nr) = a"
| "rule_adapter (R_IPSuffix bs bits p a src nr) = a"
| "rule_adapter (R_Port a p rt rs) = a"
| "rule_adapter (R_InName ns a p) = a"
| "rule_adapter (R_InUser us a p) = a"
| "rule_adapter (R_InType ts a p) = a"
| "rule_adapter (R_Process a p nameOnly) = a"
| "rule_adapter (R_NetworkType n a) = a"
| "rule_adapter (R_Uid us p a) = a"
| "rule_adapter (R_Match a) = a"
| "rule_adapter (R_RuleSet n a nr) = a"
| "rule_adapter (R_Logic p a rt rs ip pr) = a"

text \<open>\<open>Prefix.String\<close> is the argument \<open>prefix_str\<close>.\<close>

fun rule_payload :: "(prefix \<Rightarrow> string) \<Rightarrow> rule \<Rightarrow> string" where
  "rule_payload prefix_str (R_Domain d a) = d"
| "rule_payload prefix_str (R_DomainSuffix d a) = d"
| "rule_payload prefix_str (R_DomainKeyword d a) = d"
| "rule_payload prefix_str (R_GEOSITE c a mt) = c"
| "rule_payload prefix_str (R_GEOIP c a nr mt) = c"
| "rule_payload prefix_str (R_IPCIDR p a src nr) = prefix_str p"
| "rule_payload prefix_str (R_IPSuffix bs bits p a src nr) = p"
| "rule_payload prefix_str (R_Port a p rt rs) = p"
| "rule_payload prefix_str (R_InName ns a p) = p"
| "rule_payload prefix_str (R_InUser us a p) = p"
| "rule_payload prefix_str (R_InType ts a p) = p"
| "rule_payload prefix_str (R_Process a p nameOnly) = p"
| "rule_payload prefix_str (R_NetworkType n a) = NetWork_String n"
| "rule_payload prefix_str (R_Uid us p a) = p"
| "rule_payload prefix_str (R_Match a) = ''''"
| "rule_payload prefix_str (R_RuleSet n a nr) = n"
| "rule_payload prefix_str (R_Logic p a rt rs ip pr) = p"

section \<open>Rule providers\<close>

text \<open>\<open>classicalStrategy\<close>, \<open>domainStrategy\<close> (its set is a predicate, \<open>None\<close> for nil) and \<open>ipcidrStrategy\<close>.\<close>

datatype strategy =
  ClassicalStrategy "rule list" nat bool bool
| DomainStrategy "(string \<Rightarrow> bool) option" nat
| IpcidrStrategy "cidr_trie option" nat bool

fun strategy_resolve :: "strategy \<Rightarrow> bool" where
  "strategy_resolve (ClassicalStrategy rs n ip pr) = ip"
| "strategy_resolve (DomainStrategy s n) = False"
| "strategy_resolve (IpcidrStrategy t n ip) = ip"

fun strategy_process :: "strategy \<Rightarrow> bool" where
  "strategy_process (ClassicalStrategy rs n ip pr) = pr"
| "strategy_process (DomainStrategy s n) = False"
| "strategy_process (IpcidrStrategy t n ip) = False"

fun strategy_count :: "strategy \<Rightarrow> nat" where
  "strategy_count (ClassicalStrategy rs n ip pr) = n"
| "strategy_count (DomainStrategy s n) = n"
| "strategy_count (IpcidrStrategy t n ip) = n"

text \<open>The state that rules refer to: \<open>C.GeodataMode\<close>, the country codes of an address in the MMDB, the broadcast
  test of the fake IP pool, the sub-rules and the rule providers. A nil provider is missing.\<close>

record rule_env =
  geodataMode :: bool
  mmdbLookupCode :: "bytes \<Rightarrow> string list"
  isFakeBroadcastIP :: "addr \<Rightarrow> bool"
  envSubRules :: "(string \<times> rule list) list"
  ruleProviders :: "string \<Rightarrow> strategy option"

definition sub_rules :: "rule_env \<Rightarrow> string \<Rightarrow> rule list" where
  "sub_rules e name = (case map_of (envSubRules e) name of None \<Rightarrow> [] | Some rs \<Rightarrow> rs)"

fun should_resolve_ip :: "rule_env \<Rightarrow> rule \<Rightarrow> bool" where
  "should_resolve_ip e (R_GEOIP c a nr mt) = (\<not> nr)"
| "should_resolve_ip e (R_IPCIDR p a src nr) = (\<not> nr)"
| "should_resolve_ip e (R_IPSuffix bs bits p a src nr) = (\<not> nr)"
| "should_resolve_ip e (R_RuleSet n a nr) =
     (\<not> nr \<and> (case ruleProviders e n of None \<Rightarrow> False | Some s \<Rightarrow> strategy_resolve s))"
| "should_resolve_ip e (R_Logic p a rt rs ip pr) = ip"
| "should_resolve_ip e r = False"

fun should_find_process :: "rule_env \<Rightarrow> rule \<Rightarrow> bool" where
  "should_find_process e (R_Process a p nameOnly) = True"
| "should_find_process e (R_Uid us p a) = True"
| "should_find_process e (R_RuleSet n a nr) =
     (case ruleProviders e n of None \<Rightarrow> False | Some s \<Rightarrow> strategy_process s)"
| "should_find_process e (R_Logic p a rt rs ip pr) = pr"
| "should_find_process e r = False"

section \<open>Matching one rule\<close>

definition GEOIP_Match :: "rule_env \<Rightarrow> string \<Rightarrow> string \<Rightarrow> (bytes \<Rightarrow> bool) \<Rightarrow> metadata \<Rightarrow> bool \<times> string" where
  "GEOIP_Match e country adapter matcher m =
     (let ip = mDstIP m
      in if \<not> addr_valid ip then (False, '''')
         else if equal_fold country ''LAN'' then
           (addr_is_private ip \<or> addr_is_unspecified ip \<or> addr_is_loopback ip \<or> addr_is_multicast ip \<or>
            addr_is_link_local_unicast ip \<or> isFakeBroadcastIP e ip, adapter)
         else if \<not> geodataMode e then
           (list_ex (\<lambda>code. equal_fold code country) (mmdbLookupCode e (addr_as_slice ip)), adapter)
         else (matcher (addr_as_slice ip), adapter))"

text \<open>\<open>IPSuffix.Match\<close>; the last comparison indexes the byte before the whole bytes of the suffix.\<close>

definition IPSuffix_Match :: "bytes \<Rightarrow> int \<Rightarrow> string \<Rightarrow> bool \<Rightarrow> metadata \<Rightarrow> (bool \<times> string) outcome" where
  "IPSuffix_Match ipBytes bits0 adapter isSourceIP m =
     (let mIPBytes = addr_as_slice (if isSourceIP then mSrcIP m else mDstIP m);
          size = length mIPBytes;
          bits = nat bits0
      in if length ipBytes \<noteq> size then Done (False, '''')
         else if \<exists>i \<in> set [1..<bits div 8 + 1]. ipBytes ! (size - i) \<noteq> mIPBytes ! (size - i) then Done (False, '''')
         else if size < bits div 8 + 1 then Panicked
         else
           let j = size - bits div 8 - 1; s = 8 - bits mod 8
           in if push_bit s (ipBytes ! j) \<noteq> push_bit s (mIPBytes ! j) then Done (False, '''')
              else Done (True, adapter))"

definition Port_target :: "RuleType \<Rightarrow> metadata \<Rightarrow> u16" where
  "Port_target rt m = (if rt = RT_InPort then mInPort m else if rt = RT_SrcPort then mSrcPort m else mDstPort m)"

text \<open>The other rules that look only at the metadata; a result is whether the rule matches, and its target.\<close>

definition Domain_Match :: "string \<Rightarrow> string \<Rightarrow> metadata \<Rightarrow> bool \<times> string" where
  [simp]: "Domain_Match d a m = (RuleHost m = d, a)"

definition DomainSuffix_Match :: "string \<Rightarrow> string \<Rightarrow> metadata \<Rightarrow> bool \<times> string" where
  [simp]: "DomainSuffix_Match d a m = (has_suffix (RuleHost m) (CHR ''.'' # d) \<or> RuleHost m = d, a)"

definition DomainKeyword_Match :: "string \<Rightarrow> string \<Rightarrow> metadata \<Rightarrow> bool \<times> string" where
  [simp]: "DomainKeyword_Match d a m = (contains_str (RuleHost m) d, a)"

definition GEOSITE_Match :: "(string \<Rightarrow> bool) \<Rightarrow> string \<Rightarrow> metadata \<Rightarrow> bool \<times> string" where
  [simp]: "GEOSITE_Match matcher a m = (if RuleHost m = '''' then (False, '''') else (matcher (RuleHost m), a))"

definition IPCIDR_Match :: "prefix \<Rightarrow> string \<Rightarrow> bool \<Rightarrow> metadata \<Rightarrow> bool \<times> string" where
  [simp]: "IPCIDR_Match ipnet a isSourceIP m =
     (let ip = (if isSourceIP then mSrcIP m else mDstIP m) in (addr_valid ip \<and> prefix_contains ipnet ip, a))"

definition Port_Match :: "RuleType \<Rightarrow> u16 range list \<Rightarrow> string \<Rightarrow> metadata \<Rightarrow> bool \<times> string" where
  [simp]: "Port_Match rt portRanges a m = (IntRanges_Check portRanges (Port_target rt m), a)"

definition InName_Match :: "string list \<Rightarrow> string \<Rightarrow> metadata \<Rightarrow> bool \<times> string" where
  [simp]: "InName_Match names a m = (if mInName m \<in> set names then (True, a) else (False, ''''))"

definition InUser_Match :: "string list \<Rightarrow> string \<Rightarrow> metadata \<Rightarrow> bool \<times> string" where
  [simp]: "InUser_Match users a m = (if mInUser m \<in> set users then (True, a) else (False, ''''))"

definition InType_Match :: "MType list \<Rightarrow> string \<Rightarrow> metadata \<Rightarrow> bool \<times> string" where
  [simp]: "InType_Match types a m = (if mType m \<in> set types then (True, a) else (False, ''''))"

definition Process_Match :: "string \<Rightarrow> bool \<Rightarrow> string \<Rightarrow> metadata \<Rightarrow> bool \<times> string" where
  [simp]: "Process_Match process nameOnly a m =
     (equal_fold (if nameOnly then mProcess m else mProcessPath m) process, a)"

definition NetworkType_Match :: "NetWork \<Rightarrow> string \<Rightarrow> metadata \<Rightarrow> bool \<times> string" where
  [simp]: "NetworkType_Match network a m = (network = mNetWork m, a)"

definition Uid_Match :: "u32 range list \<Rightarrow> string \<Rightarrow> metadata \<Rightarrow> bool \<times> string" where
  [simp]: "Uid_Match uids a m =
     (if mUid m \<noteq> 0 \<and> IntRanges_Check uids (mUid m) then (True, a) else (False, ''''))"

definition Match_Match :: "string \<Rightarrow> metadata \<Rightarrow> bool \<times> string" where
  [simp]: "Match_Match a m = (True, a)"

fun leaf_match :: "rule_env \<Rightarrow> metadata \<Rightarrow> rule \<Rightarrow> (bool \<times> string) outcome" where
  "leaf_match e m (R_Domain d a) = Done (Domain_Match d a m)"
| "leaf_match e m (R_DomainSuffix d a) = Done (DomainSuffix_Match d a m)"
| "leaf_match e m (R_DomainKeyword d a) = Done (DomainKeyword_Match d a m)"
| "leaf_match e m (R_GEOSITE c a mt) = Done (GEOSITE_Match mt a m)"
| "leaf_match e m (R_GEOIP c a nr mt) = Done (GEOIP_Match e c a mt m)"
| "leaf_match e m (R_IPCIDR p a src nr) = Done (IPCIDR_Match p a src m)"
| "leaf_match e m (R_IPSuffix bs bits p a src nr) = IPSuffix_Match bs bits a src m"
| "leaf_match e m (R_Port a p rt rs) = Done (Port_Match rt rs a m)"
| "leaf_match e m (R_InName ns a p) = Done (InName_Match ns a m)"
| "leaf_match e m (R_InUser us a p) = Done (InUser_Match us a m)"
| "leaf_match e m (R_InType ts a p) = Done (InType_Match ts a m)"
| "leaf_match e m (R_Process a p nameOnly) = Done (Process_Match p nameOnly a m)"
| "leaf_match e m (R_NetworkType n a) = Done (NetworkType_Match n a m)"
| "leaf_match e m (R_Uid us p a) = Done (Uid_Match us a m)"
| "leaf_match e m (R_Match a) = Done (Match_Match a m)"
| "leaf_match e m r = Done (False, '''')"

section \<open>Matching through names\<close>

text \<open>\<open>rule_match\<close> is \<open>Match\<close>; \<open>match_or\<close> and \<open>match_and\<close> are the loops of \<open>Logic.Match\<close> and of \<open>classicalStrategy.Match\<close>;
  \<open>matchSubRules\<close> is the loop of the function of that name over a list of sub-rules. The inner call of \<open>matchSubRules\<close> is made and its
  result dropped, as in the source.\<close>

function (sequential) rule_match :: "rule_env \<Rightarrow> nat \<Rightarrow> metadata \<Rightarrow> rule \<Rightarrow> (bool \<times> string) outcome"
  and match_or :: "rule_env \<Rightarrow> nat \<Rightarrow> metadata \<Rightarrow> rule list \<Rightarrow> bool outcome"
  and match_and :: "rule_env \<Rightarrow> nat \<Rightarrow> metadata \<Rightarrow> rule list \<Rightarrow> bool outcome"
  and matchSubRules :: "rule_env \<Rightarrow> nat \<Rightarrow> metadata \<Rightarrow> rule list \<Rightarrow> (bool \<times> string) outcome" where
  "rule_match e n m (R_RuleSet name a nr) =
     (case ruleProviders e name of
        None \<Rightarrow> Panicked
      | Some (ClassicalStrategy rs c ip pr) \<Rightarrow>
          (case n of 0 \<Rightarrow> NoFuel | Suc n' \<Rightarrow> obind (match_or e n' m rs) (\<lambda>b. Done (b, a)))
      | Some (DomainStrategy s c) \<Rightarrow>
          Done ((case s of None \<Rightarrow> False | Some has \<Rightarrow> has (RuleHost m)), a)
      | Some (IpcidrStrategy t c ip) \<Rightarrow>
          Done ((case t of None \<Rightarrow> False | Some t \<Rightarrow> IsContain t (addr_as_slice (mDstIP m))), a))"
| "rule_match e n m (R_Logic p a rt rs ip pr) =
     (if rt = RT_SubRules then
        (case rs of
           [] \<Rightarrow> Panicked
         | r # _ \<Rightarrow>
             obind (rule_match e n m r) (\<lambda>(b, _).
               if b then (case n of 0 \<Rightarrow> NoFuel | Suc n' \<Rightarrow> matchSubRules e n' m (sub_rules e a))
               else Done (False, '''')))
      else if rt = RT_NOT then
        (case rs of
           [] \<Rightarrow> Panicked
         | r # _ \<Rightarrow> obind (rule_match e n m r) (\<lambda>(b, _). Done (if b then (False, '''') else (True, a))))
      else if rt = RT_OR then
        obind (match_or e n m rs) (\<lambda>b. Done (if b then (True, a) else (False, '''')))
      else if rt = RT_AND then
        obind (match_and e n m rs) (\<lambda>b. Done (b, a))
      else Done (False, ''''))"
| "rule_match e n m r = leaf_match e m r"
| "match_or e n m [] = Done False"
| "match_or e n m (r # rs) =
     obind (rule_match e n m r) (\<lambda>(b, _). if b then Done True else match_or e n m rs)"
| "match_and e n m [] = Done True"
| "match_and e n m (r # rs) =
     obind (rule_match e n m r) (\<lambda>(b, _). if b then match_and e n m rs else Done False)"
| "matchSubRules e n m [] = Done (False, '''')"
| "matchSubRules e n m (r # rs) =
     obind (rule_match e n m r) (\<lambda>(b, a).
       if b then
         (if rule_type r = RT_SubRules then
            obind (case n of 0 \<Rightarrow> NoFuel | Suc n' \<Rightarrow> matchSubRules e n' m (sub_rules e (rule_adapter r)))
              (\<lambda>_. matchSubRules e n m rs)
          else Done (b, a))
       else matchSubRules e n m rs)"
  by pat_completeness auto
termination
  by (relation "measures [\<lambda>x. case x of
        Inl (Inl (e, n, m, r)) \<Rightarrow> n | Inl (Inr (e, n, m, rs)) \<Rightarrow> n
      | Inr (Inl (e, n, m, rs)) \<Rightarrow> n | Inr (Inr (e, n, m, rs)) \<Rightarrow> n,
      \<lambda>x. case x of
        Inl (Inl (e, n, m, r)) \<Rightarrow> size r | Inl (Inr (e, n, m, rs)) \<Rightarrow> size_list size rs
      | Inr (Inl (e, n, m, rs)) \<Rightarrow> size_list size rs | Inr (Inr (e, n, m, rs)) \<Rightarrow> size_list size rs]") auto

section \<open>Fuel\<close>

text \<open>More fuel never changes an outcome other than \<open>NoFuel\<close>.\<close>

definition le_out :: "'a outcome \<Rightarrow> 'a outcome \<Rightarrow> bool" where
  "le_out x y \<longleftrightarrow> x = NoFuel \<or> x = y"

lemma le_out_refl [simp]: "le_out x x"
  by (simp add: le_out_def)

lemma le_out_NoFuel [simp]: "le_out NoFuel y"
  by (simp add: le_out_def)

lemma le_out_bind:
  assumes "le_out x x'" and "\<And>z. x = Done z \<Longrightarrow> le_out (f z) (f' z)"
  shows "le_out (obind x f) (obind x' f')"
  using assms by (cases x) (fastforce simp: le_out_def)+

lemma match_mono:
  "n \<le> n' \<Longrightarrow> le_out (rule_match e n m r) (rule_match e n' m r)"
  "n \<le> n' \<Longrightarrow> le_out (match_or e n m rs) (match_or e n' m rs)"
  "n \<le> n' \<Longrightarrow> le_out (match_and e n m rs) (match_and e n' m rs)"
  "n \<le> n' \<Longrightarrow> le_out (matchSubRules e n m rs) (matchSubRules e n' m rs)"
proof (induction e n m r and e n m rs and e n m rs and e n m rs arbitrary: n' and n' and n' and n'
    rule: rule_match_match_or_match_and_matchSubRules.induct)
  case (1 e n m name a nr)
  then show ?case
    by (cases n; cases n') (auto split: option.split strategy.split intro!: le_out_bind)
next
  case (2 e n m p a rt rs ip pr)
  show ?case
  proof (cases "rt = RT_SubRules \<or> rt = RT_NOT")
    case True
    with 2 show ?thesis
      by (cases n; cases n'; cases rs) (auto intro!: le_out_bind)
  next
    case False
    with 2 show ?thesis by (auto intro!: le_out_bind)
  qed
next
  case (9 e n m r rs)
  then show ?case
    by (cases n; cases n') (auto intro!: le_out_bind)
qed (auto intro!: le_out_bind)

lemma fuel_enough: "rule_match e n m r = Done x \<Longrightarrow> n \<le> n' \<Longrightarrow> rule_match e n' m r = Done x"
  using match_mono(1) [of n n' e m r] by (auto simp: le_out_def)

section \<open>Logic rules\<close>

text \<open>A suffix that is a whole address makes \<open>IPSuffix.Match\<close> index out of range; \<open>safe_leaf\<close> excludes it.\<close>

fun safe_leaf :: "rule \<Rightarrow> bool" where
  "safe_leaf (R_IPSuffix bs bits p a src nr) \<longleftrightarrow> nat bits < 8 * length bs"
| "safe_leaf r \<longleftrightarrow> True"

text \<open>Rules built from leaves with \<open>AND\<close>, \<open>OR\<close> and \<open>NOT\<close> only, and what they mean.\<close>

fun plain_rule :: "rule \<Rightarrow> bool" where
  "plain_rule (R_Logic p a rt rs ip pr) \<longleftrightarrow>
     (rt = RT_AND \<or> rt = RT_OR \<or> (rt = RT_NOT \<and> length rs = 1)) \<and> (\<forall>r \<in> set rs. plain_rule r)"
| "plain_rule (R_RuleSet n a nr) \<longleftrightarrow> False"
| "plain_rule r \<longleftrightarrow> safe_leaf r"

definition leaf_holds :: "rule_env \<Rightarrow> metadata \<Rightarrow> rule \<Rightarrow> bool" where
  "leaf_holds e m r = (case leaf_match e m r of Done (b, _) \<Rightarrow> b | _ \<Rightarrow> False)"

fun holds :: "rule_env \<Rightarrow> metadata \<Rightarrow> rule \<Rightarrow> bool" where
  "holds e m (R_Logic p a rt rs ip pr) =
     (if rt = RT_AND then (\<forall>r \<in> set rs. holds e m r)
      else if rt = RT_OR then (\<exists>r \<in> set rs. holds e m r)
      else (\<exists>r \<in> set rs. \<not> holds e m r))"
| "holds e m r = leaf_holds e m r"

lemma IPSuffix_no_panic:
  "nat bits < 8 * length bs \<Longrightarrow> \<exists>b a'. IPSuffix_Match bs bits a src m = Done (b, a') \<and> (b \<longrightarrow> a' = a)"
proof -
  assume "nat bits < 8 * length bs"
  then have "nat bits div 8 < length bs" by simp
  then show ?thesis by (auto simp: IPSuffix_Match_def Let_def)
qed

lemma GEOIP_adapter: "GEOIP_Match e c a mt m = (b, a') \<Longrightarrow> b \<Longrightarrow> a' = a"
  by (auto simp: GEOIP_Match_def Let_def split: if_splits)

fun is_leaf :: "rule \<Rightarrow> bool" where
  "is_leaf (R_Logic p a rt rs ip pr) = False"
| "is_leaf (R_RuleSet n a nr) = False"
| "is_leaf r = True"

lemma leaf_match_Done:
  assumes "safe_leaf r" and "is_leaf r"
  shows "\<exists>a. leaf_match e m r = Done (leaf_holds e m r, a) \<and> (leaf_holds e m r \<longrightarrow> a = rule_adapter r)"
proof (cases r)
  case (R_IPSuffix bs bits p a src nr)
  then show ?thesis using assms(1) IPSuffix_no_panic [of bits bs a src m] by (auto simp: leaf_holds_def)
next
  case (R_GEOIP c a nr mt)
  then show ?thesis
    by (cases "GEOIP_Match e c a mt m") (auto simp: leaf_holds_def dest: GEOIP_adapter)
qed (use assms in \<open>auto simp: leaf_holds_def Let_def\<close>)

lemma leaf_rule:
  assumes "is_leaf r"
  shows "rule_match e n m r = leaf_match e m r" "holds e m r = leaf_holds e m r" "plain_rule r = safe_leaf r"
  using assms by (cases r; simp)+

lemma leaf_match_holds:
  assumes "is_leaf r" "plain_rule r"
  shows "\<exists>a. rule_match e n m r = Done (holds e m r, a) \<and> (holds e m r \<longrightarrow> a = rule_adapter r)"
  using leaf_match_Done [of r e m] assms leaf_rule [OF assms(1)] by simp

text \<open>C3: a rule built from leaves with \<open>AND\<close>, \<open>OR\<close> and \<open>NOT\<close> always returns, without fuel, and
  matches exactly when its Boolean expression holds; a match names the rule's own adapter. Its leaves are all the rules
  except \<open>RULE-SET\<close> and \<open>SUB-RULE\<close>, and an \<open>IP-SUFFIX\<close> leaf names fewer bits than its address has: one that names all of them
  panics on that address (\<open>IPSuffix_full_length_panics\<close>).\<close>

theorem logic_match_holds:
  assumes "plain_rule r"
  shows "\<exists>a. rule_match e n m r = Done (holds e m r, a) \<and> (holds e m r \<longrightarrow> a = rule_adapter r)"
  using assms
proof (induction r)
  case (R_Logic p a rt rs ip pr)
  have IH: "\<exists>a. rule_match e n m q = Done (holds e m q, a)" if "q \<in> set rs" for q
    using R_Logic.IH [OF that] R_Logic.prems that by auto
  have or: "match_or e n m qs = Done (\<exists>r \<in> set qs. holds e m r)" if "set qs \<subseteq> set rs" for qs
    using that
  proof (induction qs)
    case (Cons q qs)
    then show ?case using IH [of q] by auto
  qed simp
  have "and": "match_and e n m qs = Done (\<forall>r \<in> set qs. holds e m r)" if "set qs \<subseteq> set rs" for qs
    using that
  proof (induction qs)
    case (Cons q qs)
    then show ?case using IH [of q] by auto
  qed simp
  from R_Logic.prems consider "rt = RT_AND" | "rt = RT_OR" | r where "rt = RT_NOT" "rs = [r]"
    by (auto simp: length_Suc_conv)
  then show ?case
  proof cases
    case 3
    with IH [of r] show ?thesis by auto
  qed (auto simp: or "and")
next
  case (R_RuleSet name a nr)
  then show ?case by simp
qed (rule leaf_match_holds; simp)+

theorem logic_match_holds_witness:
  "\<forall>e m. \<exists>a. rule_match e 0 m (R_Logic [] ''P'' RT_OR [R_Logic [] ''Q'' RT_NOT [R_Match ''A''] False False, R_Match ''B''] False False)
     = Done (True, a) \<and> a = ''P''"
  using logic_match_holds
    [of "R_Logic [] ''P'' RT_OR [R_Logic [] ''Q'' RT_NOT [R_Match ''A''] False False, R_Match ''B''] False False" _ 0]
  by (simp add: leaf_holds_def)

text \<open>A nested \<open>SUB-RULE\<close> has no effect: the result of a sub-rule list is the result of the same list without the
  \<open>SUB-RULE\<close> entries in it, because the source drops the result of the inner search.\<close>

theorem nested_sub_rules_ignored:
  assumes "matchSubRules e n m rs = Done x"
  shows "matchSubRules e n m (filter (\<lambda>r. rule_type r \<noteq> RT_SubRules) rs) = Done x"
  using assms
proof (induction rs)
  case (Cons r rs)
  show ?case
  proof (cases "rule_match e n m r")
    case (Done y)
    obtain b a where y: "y = (b, a)" by (cases y)
    show ?thesis
    proof (cases "b \<and> rule_type r = RT_SubRules")
      case True
      with Cons.prems Done y have "matchSubRules e n m rs = Done x" by (simp add: obind_Done)
      with Cons.IH True show ?thesis by simp
    next
      case False
      with Cons Done y show ?thesis by (cases b) auto
    qed
  qed (use Cons.prems in simp_all)
qed simp

theorem nested_sub_rules_ignored_witness:
  "\<forall>e m. matchSubRules e 0 m [R_Match ''B''] = Done (True, ''B'')"
proof (intro allI)
  fix e m
  have "matchSubRules e 0 m [R_Logic [] ''S'' RT_SubRules [R_Logic [] ''Q'' RT_NOT [R_Match ''A''] False False] False False, R_Match ''B'']
      = Done (True, ''B'')" by simp
  from nested_sub_rules_ignored [OF this] show "matchSubRules e 0 m [R_Match ''B''] = Done (True, ''B'')"
    by simp
qed

section \<open>Address suffixes\<close>

lemma drop_byte_bits:
  "drop s (byte_bits b) = map (bit b) (map (\<lambda>i. 7 - i) [s..<8])"
proof -
  have "byte_bits b = map (bit b) (map (\<lambda>i. 7 - i) [0..<8])"
    using take_byte_bits [of 8 b] by simp
  then show ?thesis by (simp add: drop_map)
qed

lemma drop_byte_bits_eq:
  fixes b c :: u8
  shows "drop s (byte_bits c) = drop s (byte_bits b) \<longleftrightarrow> push_bit s c = push_bit s b"
proof
  assume d: "drop s (byte_bits c) = drop s (byte_bits b)"
  have e: "bit c (7 - i) = bit b (7 - i)" if "s \<le> i" "i < 8" for i
    using d that unfolding drop_byte_bits by (auto simp: map_eq_conv)
  show "push_bit s c = push_bit s b"
  proof (rule bit_word_eqI)
    fix n assume n: "n < LENGTH(8)"
    show "bit (push_bit s c) n = bit (push_bit s b) n"
    proof (cases "s \<le> n")
      case True
      with n have "7 - (7 - (n - s)) = n - s" "s \<le> 7 - (n - s)" "7 - (n - s) < 8" by auto
      with e [of "7 - (n - s)"] n True show ?thesis by (auto simp: bit_push_bit_iff)
    qed (auto simp: bit_push_bit_iff)
  qed
next
  assume p: "push_bit s c = push_bit s b"
  have "bit c (7 - i) = bit b (7 - i)" if i: "s \<le> i" "i < 8" for i
  proof -
    have "bit (push_bit s c) (s + (7 - i)) = bit (push_bit s b) (s + (7 - i))" using p by simp
    moreover have "s \<le> s + (7 - i)" "s + (7 - i) < 8" "s + (7 - i) - s = 7 - i" using i by auto
    ultimately show ?thesis by (simp only: bit_push_bit_iff) simp
  qed
  then show "drop s (byte_bits c) = drop s (byte_bits b)" unfolding drop_byte_bits by auto
qed

text \<open>The last \<open>n\<close> bits of an address.\<close>

definition last_bits :: "nat \<Rightarrow> bytes \<Rightarrow> bool list" where
  "last_bits n bs = drop (8 * length bs - n) (ip_bits bs)"

lemma last_bits_split:
  assumes "n < 8 * length q"
  shows "last_bits n q = drop (8 - n mod 8) (byte_bits (q ! (length q - n div 8 - 1))) @
    ip_bits (drop (length q - n div 8) q)"
proof -
  let ?j = "length q - n div 8 - 1"
  have k: "n div 8 < length q" using assms by simp
  then have "8 * length q - n = 8 * ?j + (8 - n mod 8)" "Suc ?j = length q - n div 8"
    by (simp_all add: algebra_simps)
  moreover have "?j < length q" using k by simp
  moreover have "8 - n mod 8 \<le> 8" by simp
  ultimately show ?thesis unfolding last_bits_def using take_ip_bits(2) [of ?j q "8 - n mod 8"] by simp
qed

lemma drop_eq_from_end:
  assumes "length p = length q" "k \<le> length q"
  shows "drop (length q - k) p = drop (length q - k) q \<longleftrightarrow> (\<forall>i \<in> {1..k}. p ! (length q - i) = q ! (length q - i))"
proof
  assume d: "drop (length q - k) p = drop (length q - k) q"
  show "\<forall>i \<in> {1..k}. p ! (length q - i) = q ! (length q - i)"
  proof
    fix i assume "i \<in> {1..k}"
    with assms have "length q - i = length q - k + (k - i)" "k - i < k" by auto
    with d assms show "p ! (length q - i) = q ! (length q - i)"
      by (metis nth_drop diff_le_self length_drop less_imp_le_nat)
  qed
next
  assume a: "\<forall>i \<in> {1..k}. p ! (length q - i) = q ! (length q - i)"
  show "drop (length q - k) p = drop (length q - k) q"
  proof (rule nth_equalityI)
    fix n assume "n < length (drop (length q - k) p)"
    with assms have n: "n < k" by simp
    then have "length q - k + n = length q - (k - n)" using assms by simp
    moreover have "k - n \<in> {1..k}" using n by simp
    ultimately have "p ! (length q - k + n) = q ! (length q - k + n)" using a by metis
    with assms show "drop (length q - k) p ! n = drop (length q - k) q ! n" by (simp only: nth_drop diff_le_self)
  qed (use assms in simp)
qed

text \<open>An \<open>IP-SUFFIX\<close> rule shorter than the address matches exactly the addresses of the same family whose last bits
  are those of the rule.\<close>

theorem IPSuffix_Match_iff:
  assumes "nat bits < 8 * length bs"
  shows "IPSuffix_Match bs bits a src m =
    (let ip = addr_as_slice (if src then mSrcIP m else mDstIP m);
         b = (length ip = length bs \<and> last_bits (nat bits) ip = last_bits (nat bits) bs)
     in Done (b, if b then a else ''''))"
proof -
  let ?ip = "addr_as_slice (if src then mSrcIP m else mDstIP m)" and ?n = "nat bits"
  show ?thesis
  proof (cases "length bs = length ?ip")
    case True
    have k: "?n div 8 < length bs" using assms by simp
    have iff: "last_bits ?n ?ip = last_bits ?n bs \<longleftrightarrow>
        push_bit (8 - ?n mod 8) (bs ! (length bs - ?n div 8 - 1)) = push_bit (8 - ?n mod 8) (?ip ! (length bs - ?n div 8 - 1)) \<and>
        (\<forall>i \<in> {1..?n div 8}. bs ! (length bs - i) = ?ip ! (length bs - i))"
      using assms True drop_eq_from_end [of bs ?ip "?n div 8"] k
        ip_bits_inject [of "drop (length bs - ?n div 8) ?ip" "drop (length bs - ?n div 8) bs"]
      by (auto simp: last_bits_split drop_byte_bits_eq)
    have set: "set [1..<?n div 8 + 1] = {1..?n div 8}" by auto
    show ?thesis
      unfolding IPSuffix_Match_def Let_def set iff using True k by auto
  next
    case False
    then show ?thesis by (simp add: IPSuffix_Match_def)
  qed
qed

theorem IPSuffix_Match_iff_witness:
  "IPSuffix_Match [8, 8, 8, 8] 24 ''P'' False (metadata0\<lparr>mDstIP := Addr4 0x01080808\<rparr>) = Done (True, ''P'')"
proof -
  have s: "addr_as_slice (Addr4 0x01080808) = [1, 8, 8, 8]" by code_simp
  have "last_bits 24 [1, 8, 8, 8 :: u8] = last_bits 24 [8, 8, 8, 8]"
    by (simp add: last_bits_def ip_bits_def byte_bits_def)
  then show ?thesis
    using IPSuffix_Match_iff [of 24 "[8, 8, 8, 8]" "''P''" False "metadata0\<lparr>mDstIP := Addr4 0x01080808\<rparr>"]
    by (simp add: s metadata0_def del: addr_as_slice.simps)
qed

text \<open>An \<open>IP-SUFFIX\<close> rule as long as the address, such as \<open>8.8.8.8/32\<close>, panics on the address it names.\<close>

theorem IPSuffix_full_length_panics:
  assumes "nat bits = 8 * length bs" and "addr_as_slice (if src then mSrcIP m else mDstIP m) = bs"
  shows "IPSuffix_Match bs bits a src m = Panicked"
  using assms by (simp add: IPSuffix_Match_def)

theorem IPSuffix_full_length_panics_witness:
  "IPSuffix_Match [8, 8, 8, 8] 32 ''P'' False (metadata0\<lparr>mDstIP := Addr4 0x08080808\<rparr>) = Panicked"
proof -
  have "addr_as_slice (Addr4 0x08080808) = [8, 8, 8, 8]" by code_simp
  then show ?thesis
    by (intro IPSuffix_full_length_panics) (simp_all add: metadata0_def del: addr_as_slice.simps)
qed

end
