(* ===== verification/RuleParse.thy ===== *)
theory RuleParse
  imports RuleMatch
begin

text \<open>
  Reading rules: the constructors of \<open>rules/common/\<close>, the logic payloads of \<open>rules/logic/logic.go\<close>,
  \<open>ParseRule\<close> (\<open>rules/parser.go\<close>), the strategies of \<open>rules/provider/\<close> and, in \<open>config/config.go\<close>,
  \<open>parseRules\<close> and the check of the sub-rules.

  \<open>None\<close> is an error of the sources (its text is not modelled). What the constructors take from outside the
  sources or from loaded data is in \<open>parse_env\<close>: \<open>netip.ParsePrefix\<close>, \<open>Prefix.String\<close>, the GeoIP and GeoSite
  loaders, and whether the system is linux or android.
\<close>

section \<open>Constructors\<close>

record parse_env =
  pe_env :: rule_env
  pe_ParsePrefix :: "string \<Rightarrow> prefix option"
  pe_PrefixString :: "prefix \<Rightarrow> string"
  pe_InitGeoIP :: bool
  pe_LoadGeoIPMatcher :: "string \<Rightarrow> (bytes \<Rightarrow> bool) option"
  pe_InitGeoSite :: bool
  pe_LoadGeoSiteMatcher :: "string \<Rightarrow> (string \<Rightarrow> bool) option"
  pe_unix :: bool

definition HasNoResolve :: "string list \<Rightarrow> bool" where
  "HasNoResolve params \<longleftrightarrow> ''no-resolve'' \<in> set params"

definition NewDomain :: "string \<Rightarrow> string \<Rightarrow> rule" where
  "NewDomain d a = R_Domain (to_lower d) a"

definition NewDomainSuffix :: "string \<Rightarrow> string \<Rightarrow> rule" where
  "NewDomainSuffix d a = R_DomainSuffix (to_lower d) a"

definition NewDomainKeyword :: "string \<Rightarrow> string \<Rightarrow> rule" where
  "NewDomainKeyword d a = R_DomainKeyword (to_lower d) a"

definition NewGEOSITE :: "parse_env \<Rightarrow> string \<Rightarrow> string \<Rightarrow> rule option" where
  "NewGEOSITE pe c a =
     (if \<not> pe_InitGeoSite pe then None
      else case pe_LoadGeoSiteMatcher pe c of None \<Rightarrow> None | Some mt \<Rightarrow> Some (R_GEOSITE c a mt))"

text \<open>Without a matcher the field is nil, which \<open>GEOIP.Match\<close> does not reach.\<close>

definition NewGEOIP :: "parse_env \<Rightarrow> string \<Rightarrow> string \<Rightarrow> bool \<Rightarrow> rule option" where
  "NewGEOIP pe c a nr =
     (if \<not> pe_InitGeoIP pe then None
      else if \<not> geodataMode (pe_env pe) \<or> equal_fold c ''LAN'' then Some (R_GEOIP c a nr (\<lambda>_. False))
      else case pe_LoadGeoIPMatcher pe c of None \<Rightarrow> None | Some mt \<Rightarrow> Some (R_GEOIP c a nr mt))"

definition NewIPCIDR :: "parse_env \<Rightarrow> string \<Rightarrow> string \<Rightarrow> bool \<Rightarrow> bool \<Rightarrow> rule option" where
  "NewIPCIDR pe s a src nr =
     (case pe_ParsePrefix pe s of None \<Rightarrow> None | Some p \<Rightarrow> Some (R_IPCIDR p a src nr))"

definition NewIPSuffix :: "parse_env \<Rightarrow> string \<Rightarrow> string \<Rightarrow> bool \<Rightarrow> bool \<Rightarrow> rule option" where
  "NewIPSuffix pe s a src nr =
     (case pe_ParsePrefix pe s of
        None \<Rightarrow> None
      | Some p \<Rightarrow> Some (R_IPSuffix (addr_as_slice (pfx_addr p)) (pfx_bits p) s a src nr))"

definition NewPort :: "string \<Rightarrow> string \<Rightarrow> RuleType \<Rightarrow> rule option" where
  "NewPort p a rt =
     (case NewIntRanges p of
        None \<Rightarrow> None
      | Some rs \<Rightarrow> if rs = [] then None else Some (R_Port a p rt rs))"

definition NewUid :: "parse_env \<Rightarrow> string \<Rightarrow> string \<Rightarrow> rule option" where
  "NewUid pe u a =
     (if \<not> pe_unix pe then None
      else case NewIntRanges u of
             None \<Rightarrow> None
           | Some rs \<Rightarrow> if rs = [] then None else Some (R_Uid rs u a))"

definition NewProcess :: "string \<Rightarrow> string \<Rightarrow> bool \<Rightarrow> rule" where
  "NewProcess p a nameOnly = R_Process a p nameOnly"

definition NewNetworkType :: "string \<Rightarrow> string \<Rightarrow> rule option" where
  "NewNetworkType n a =
     (if to_upper n = ''TCP'' then Some (R_NetworkType TCP a)
      else if to_upper n = ''UDP'' then Some (R_NetworkType UDP a)
      else None)"

fun parseInTypes :: "string list \<Rightarrow> MType list option" where
  "parseInTypes [] = Some []"
| "parseInTypes (tp # tps) =
     (let utp = to_upper tp
      in if utp = ''SOCKS'' then map_option (\<lambda>ts. T_SOCKS4 # T_SOCKS5 # ts) (parseInTypes tps)
         else case ParseType utp of
                None \<Rightarrow> None
              | Some t \<Rightarrow> map_option (\<lambda>ts. t # ts) (parseInTypes tps))"

definition NewInType :: "string \<Rightarrow> string \<Rightarrow> rule option" where
  "NewInType s a =
     (case parseInTypes (split_on (CHR ''/'') s) of
        None \<Rightarrow> None
      | Some ts \<Rightarrow> Some (R_InType ts a (to_upper s)))"

definition NewInUser :: "string \<Rightarrow> string \<Rightarrow> rule option" where
  "NewInUser s a = Some (R_InUser (split_on (CHR ''/'') s) a s)"

definition NewInName :: "string \<Rightarrow> string \<Rightarrow> rule option" where
  "NewInName s a = Some (R_InName (split_on (CHR ''/'') s) a s)"

definition NewMatch :: "string \<Rightarrow> rule" where
  "NewMatch a = R_Match a"

definition NewRuleSet :: "parse_env \<Rightarrow> string \<Rightarrow> string \<Rightarrow> bool \<Rightarrow> rule option" where
  "NewRuleSet pe name a nr =
     (if ruleProviders (pe_env pe) name = None then None else Some (R_RuleSet name a nr))"

section \<open>Logic payloads\<close>

datatype srange = SRange (sr_start: nat) (sr_end: nat) (sr_index: nat)

definition containRange :: "srange \<Rightarrow> nat \<Rightarrow> nat \<Rightarrow> bool" where
  "containRange r preStart preEnd \<longleftrightarrow> preStart < sr_start r \<and> preEnd > sr_end r"

text \<open>The loop of \<open>format\<close>: position, next index, stack of open ranges (top first), closed ranges.\<close>

fun format_loop :: "nat \<Rightarrow> nat \<Rightarrow> srange list \<Rightarrow> srange list \<Rightarrow> string \<Rightarrow> (srange list \<times> srange list) option" where
  "format_loop i num stack acc [] = Some (stack, acc)"
| "format_loop i num stack acc (c # cs) =
     (if c = CHR ''('' then format_loop (Suc i) (Suc num) (SRange i 0 num # stack) acc cs
      else if c = CHR '')'' then
        (case stack of
           [] \<Rightarrow> None
         | sr # stack' \<Rightarrow>
             format_loop (Suc i) num stack' (acc @ [SRange (sr_start sr) i (sr_index sr)]) cs)
      else format_loop (Suc i) num stack acc cs)"

definition logic_format :: "string \<Rightarrow> srange list option" where
  "logic_format payload =
     (case format_loop 0 0 [] [] payload of
        None \<Rightarrow> None
      | Some (stack, subRanges) \<Rightarrow>
          if stack \<noteq> [] then None
          else Some (foldl (\<lambda>l sr. l[sr_index sr := sr]) (replicate (length subRanges) (SRange 0 0 0)) subRanges))"

definition findSubRuleRange :: "string \<Rightarrow> srange list \<Rightarrow> srange list" where
  "findSubRuleRange payload ruleRanges =
     foldl (\<lambda>subs rr.
       if sr_start rr = 0 \<and> int (sr_end rr) = int (length payload) - 1 then subs
       else if \<exists>r \<in> set subs. containRange rr (sr_start r) (sr_end r) then subs
       else subs @ [rr]) [] ruleRanges"

text \<open>The regular expression \<open>\(.*\)\<close>: an opening parenthesis and a later closing one with no newline between them.\<close>

definition paren_regex :: "string \<Rightarrow> bool" where
  "paren_regex s \<longleftrightarrow>
     list_ex (\<lambda>l. CHR '')'' \<in> set (dropWhile (\<lambda>c. c \<noteq> CHR ''('') l)) (split_on (CHR 0x0A) s)"

text \<open>The sub-payloads that \<open>parsePayload\<close> reads, in order.\<close>

definition sub_payloads :: "string \<Rightarrow> string list option" where
  "sub_payloads payload =
     (if paren_regex payload then
        (case logic_format payload of
           None \<Rightarrow> None
         | Some subAllRanges \<Rightarrow>
             Some (map (\<lambda>r. drop (sr_start r + 1) (take (sr_end r) payload))
               (findSubRuleRange payload subAllRanges)))
      else None)"

text \<open>\<open>payloadToRule\<close>: the type, payload and parameters of the call of \<open>parseRule\<close> it makes.\<close>

definition split2 :: "string \<Rightarrow> (string \<times> string) option" where
  "split2 s = (case index_byte s (CHR '','') of None \<Rightarrow> None | Some i \<Rightarrow> Some (take i s, drop (Suc i) s))"

definition payload_args :: "string \<Rightarrow> (string \<times> string \<times> string list) option" where
  "payload_args s =
     (case split2 s of
        None \<Rightarrow> None
      | Some (tp, payload) \<Rightarrow>
          if tp = ''MATCH'' \<or> tp = ''SUB-RULE'' then None
          else if tp = ''NOT'' \<or> tp = ''OR'' \<or> tp = ''AND'' then Some (tp, payload, [])
          else let param = split_on (CHR '','') payload in Some (tp, hd param, tl param))"

fun opt_all :: "'a option list \<Rightarrow> 'a list option" where
  "opt_all [] = Some []"
| "opt_all (None # xs) = None"
| "opt_all (Some x # xs) = map_option (\<lambda>ys. x # ys) (opt_all xs)"

fun join_str :: "string \<Rightarrow> string list \<Rightarrow> string" where
  "join_str sep [] = []"
| "join_str sep [w] = w"
| "join_str sep (w # v # ws) = w @ sep @ join_str sep (v # ws)"

definition rule_text :: "parse_env \<Rightarrow> rule \<Rightarrow> string" where
  "rule_text pe r = RuleType_String (rule_type r) @ '','' @ rule_payload (pe_PrefixString pe) r"

text \<open>What \<open>NewAND\<close>, \<open>NewOR\<close>, \<open>NewNOT\<close> and \<open>NewSubRule\<close> build from the rules of their payload.\<close>

definition mk_logic :: "parse_env \<Rightarrow> RuleType \<Rightarrow> string \<Rightarrow> string \<Rightarrow> rule list \<Rightarrow> rule" where
  "mk_logic pe rt sep target rs =
     R_Logic (''('' @ join_str sep (map (\<lambda>r. ''('' @ rule_text pe r @ '')'') rs) @ '')'') target rt rs
       (\<exists>r \<in> set rs. should_resolve_ip (pe_env pe) r) (\<exists>r \<in> set rs. should_find_process (pe_env pe) r)"

definition mk_not :: "parse_env \<Rightarrow> string \<Rightarrow> rule list \<Rightarrow> rule option" where
  "mk_not pe target rs =
     (case rs of
        [r] \<Rightarrow> Some (R_Logic (''(!('' @ rule_text pe r @ ''))'') target RT_NOT rs
                (should_resolve_ip (pe_env pe) r) (should_find_process (pe_env pe) r))
      | _ \<Rightarrow> None)"

definition mk_sub_rule :: "parse_env \<Rightarrow> (string \<times> rule list) list \<Rightarrow> string \<Rightarrow> string \<Rightarrow> rule list \<Rightarrow> rule option" where
  "mk_sub_rule pe subRules payload target rs =
     (let subs = (case map_of subRules target of None \<Rightarrow> [] | Some l \<Rightarrow> l)
      in if length rs \<noteq> 1 then None
         else Some (R_Logic payload target RT_SubRules rs
                (\<exists>r \<in> set subs. should_resolve_ip (pe_env pe) r) (\<exists>r \<in> set subs. should_find_process (pe_env pe) r)))"

text \<open>The rules that are read without recursion.\<close>

definition parse_leaf :: "parse_env \<Rightarrow> string \<Rightarrow> string \<Rightarrow> string \<Rightarrow> string list \<Rightarrow> rule option" where
  "parse_leaf pe tp payload target params =
     (if tp = ''DOMAIN'' then Some (NewDomain payload target)
      else if tp = ''DOMAIN-SUFFIX'' then Some (NewDomainSuffix payload target)
      else if tp = ''DOMAIN-KEYWORD'' then Some (NewDomainKeyword payload target)
      else if tp = ''GEOSITE'' then NewGEOSITE pe payload target
      else if tp = ''GEOIP'' then NewGEOIP pe payload target (HasNoResolve params)
      else if tp = ''IP-CIDR'' \<or> tp = ''IP-CIDR6'' then NewIPCIDR pe payload target False (HasNoResolve params)
      else if tp = ''SRC-IP-CIDR'' then NewIPCIDR pe payload target True True
      else if tp = ''IP-SUFFIX'' then NewIPSuffix pe payload target False (HasNoResolve params)
      else if tp = ''SRC-IP-SUFFIX'' then NewIPSuffix pe payload target True True
      else if tp = ''SRC-PORT'' then NewPort payload target RT_SrcPort
      else if tp = ''DST-PORT'' then NewPort payload target RT_DstPort
      else if tp = ''IN-PORT'' then NewPort payload target RT_InPort
      else if tp = ''PROCESS-NAME'' then Some (NewProcess payload target True)
      else if tp = ''PROCESS-PATH'' then Some (NewProcess payload target False)
      else if tp = ''NETWORK'' then NewNetworkType payload target
      else if tp = ''UID'' then NewUid pe payload target
      else if tp = ''IN-TYPE'' then NewInType payload target
      else if tp = ''IN-USER'' then NewInUser payload target
      else if tp = ''IN-NAME'' then NewInName payload target
      else if tp = ''RULE-SET'' then NewRuleSet pe payload target (HasNoResolve params)
      else if tp = ''MATCH'' then Some (NewMatch target)
      else None)"

section \<open>ParseRule\<close>

lemma format_loop_bound:
  "format_loop i num stack acc cs = Some (st, acc') \<Longrightarrow> \<forall>r \<in> set acc. sr_end r < i + length cs \<Longrightarrow>
   \<forall>r \<in> set acc'. sr_end r < i + length cs"
proof (induction cs arbitrary: i num stack acc)
  case (Cons c cs)
  let ?n = "i + length (c # cs)"
  have n: "?n = Suc i + length cs" by simp
  from Cons.prems(1) consider
      stack' num' where "format_loop (Suc i) num' stack' acc cs = Some (st, acc')"
    | stack' sr where "format_loop (Suc i) num stack' (acc @ [SRange (sr_start sr) i (sr_index sr)]) cs = Some (st, acc')"
    by (auto split: if_splits list.splits)
  then show ?case
  proof cases
    case 1
    from Cons.IH [OF 1] Cons.prems(2) show ?thesis unfolding n by blast
  next
    case 2
    from Cons.IH [OF 2] Cons.prems(2) show ?thesis unfolding n by auto
  qed
qed simp

lemma foldl_update_set:
  "set (foldl (\<lambda>l sr. l[f sr := sr]) l srs) \<subseteq> set l \<union> set srs"
proof (induction srs arbitrary: l)
  case (Cons sr srs)
  have "set (l[f sr := sr]) \<subseteq> insert sr (set l)" by (rule set_update_subset_insert)
  with Cons [of "l[f sr := sr]"] show ?case by auto
qed simp

lemma logic_format_bound:
  assumes "logic_format p = Some rs" and r: "r \<in> set rs"
  shows "sr_end r < length p"
proof -
  from assms(1) obtain subs where f: "format_loop 0 0 [] [] p = Some ([], subs)"
    and rs: "rs = foldl (\<lambda>l sr. l[sr_index sr := sr]) (replicate (length subs) (SRange 0 0 0)) subs"
    by (auto simp: logic_format_def split: option.splits if_splits)
  have subs: "\<forall>r \<in> set subs. sr_end r < length p" using format_loop_bound [OF f] by simp
  from r rs foldl_update_set [of sr_index "replicate (length subs) (SRange 0 0 0)" subs]
  have "r \<in> set (replicate (length subs) (SRange 0 0 0)) \<union> set subs" by auto
  moreover have "0 < length p" if "subs \<noteq> []" using that subs by (cases subs) auto
  ultimately show ?thesis using subs by (cases "subs = []") auto
qed

lemma findSub_subset: "set (findSubRuleRange p rs) \<subseteq> set rs"
proof -
  have "set (foldl (\<lambda>subs rr. if g rr then subs else if h rr subs then subs else subs @ [rr]) ss rs)
      \<subseteq> set ss \<union> set rs" for g :: "srange \<Rightarrow> bool" and h ss
  proof (induction rs arbitrary: ss)
    case (Cons a rs)
    let ?ss = "if g a then ss else if h a ss then ss else ss @ [a]"
    have "set ?ss \<subseteq> insert a (set ss)" by auto
    moreover note Cons [of ?ss]
    ultimately show ?case unfolding foldl_Cons list.set by blast
  qed simp
  from this [of "\<lambda>rr. sr_start rr = 0 \<and> int (sr_end rr) = int (length p) - 1"
      "\<lambda>rr subs. \<exists>r \<in> set subs. containRange rr (sr_start r) (sr_end r)" "[]"]
  show ?thesis by (simp add: findSubRuleRange_def)
qed

lemma sub_payloads_length:
  assumes "sub_payloads p = Some subs" and "s \<in> set subs"
  shows "length s + 2 \<le> length p \<or> s = []"
proof -
  from assms obtain rs r where "logic_format p = Some rs" "r \<in> set (findSubRuleRange p rs)"
    "s = drop (sr_start r + 1) (take (sr_end r) p)"
    by (auto simp: sub_payloads_def split: if_splits option.splits)
  with findSub_subset logic_format_bound have "sr_end r < length p" by blast
  with \<open>s = _\<close> show ?thesis by auto
qed

lemma length_hd_split: "length (hd (split_on c s)) \<le> length s"
  by (induction s) auto

lemma payload_args_length: "payload_args s = Some (tp, p, ps) \<Longrightarrow> length p < length s"
proof -
  assume a: "payload_args s = Some (tp, p, ps)"
  then obtain i q where i: "index_byte s (CHR '','') = Some i" and q: "q = drop (Suc i) s" "p = q \<or> p = hd (split_on (CHR '','') q)"
    by (auto simp: payload_args_def split2_def Let_def split: option.splits if_splits)
  have "i < length s" using i by (auto simp: index_byte_def Let_def split: if_splits)
  with q length_hd_split [of "CHR '',''" q] show ?thesis by auto
qed

function parse_rule ::
  "parse_env \<Rightarrow> (string \<times> rule list) list \<Rightarrow> string \<Rightarrow> string \<Rightarrow> string \<Rightarrow> string list \<Rightarrow> rule option" where
  "parse_rule pe subRules tp payload target params =
     (if tp = ''SUB-RULE'' then
        (case sub_payloads (''('' @ payload @ '')'') of
           None \<Rightarrow> None
         | Some subs \<Rightarrow>
             (case opt_all (map (\<lambda>s. case payload_args s of
                       None \<Rightarrow> None
                     | Some (tp', payload', params') \<Rightarrow> parse_rule pe [] tp' payload' '''' params') subs) of
                None \<Rightarrow> None
              | Some rs \<Rightarrow> mk_sub_rule pe subRules payload target rs))
      else if tp = ''AND'' \<or> tp = ''OR'' \<or> tp = ''NOT'' then
        (case sub_payloads payload of
           None \<Rightarrow> None
         | Some subs \<Rightarrow>
             (case opt_all (map (\<lambda>s. case payload_args s of
                       None \<Rightarrow> None
                     | Some (tp', payload', params') \<Rightarrow> parse_rule pe [] tp' payload' '''' params') subs) of
                None \<Rightarrow> None
              | Some rs \<Rightarrow>
                  if tp = ''AND'' then Some (mk_logic pe RT_AND '' && '' target rs)
                  else if tp = ''OR'' then Some (mk_logic pe RT_OR '' || '' target rs)
                  else mk_not pe target rs))
      else parse_leaf pe tp payload target params)"
  by pat_completeness auto
termination
proof (relation "measure (\<lambda>(pe, subs, tp, payload, target, params). length payload)", goal_cases)
  case (2 pe subRules tp payload target params subs s x tp' y payload' params')
  then have "length payload' < length s" using payload_args_length [of s] by auto
  with 2 sub_payloads_length [of "''('' @ payload @ '')''" subs s] show ?case by auto
next
  case (3 pe subRules tp payload target params subs s x tp' y payload' params')
  then have "length payload' < length s" using payload_args_length [of s] by auto
  with 3 sub_payloads_length [of payload subs s] show ?case by auto
qed simp

declare parse_rule.simps [simp del]

section \<open>Nested parentheses\<close>

text \<open>A text with balanced parentheses as a forest: characters and parenthesized groups.\<close>

datatype ptree = PC char | PG "ptree list"

fun pr :: "ptree \<Rightarrow> string" where
  "pr (PC c) = [c]"
| "pr (PG ts) = CHR ''('' # concat (map pr ts) @ '')''"

abbreviation prs :: "ptree list \<Rightarrow> string" where
  "prs ts \<equiv> concat (map pr ts)"

text \<open>Characters other than parentheses and newlines.\<close>

fun pok :: "ptree \<Rightarrow> bool" where
  "pok (PC c) \<longleftrightarrow> c \<noteq> CHR ''('' \<and> c \<noteq> CHR '')'' \<and> c \<noteq> CHR 0x0A"
| "pok (PG ts) \<longleftrightarrow> (\<forall>t \<in> set ts. pok t)"

fun ngroups :: "ptree \<Rightarrow> nat" where
  "ngroups (PC c) = 0"
| "ngroups (PG ts) = Suc (sum_list (map ngroups ts))"

text \<open>The ranges of the groups in the order in which they open, and in the order in which they close, for a text at
  position \<open>o\<close> whose first group has index \<open>k\<close>.\<close>

function ranges_open :: "nat \<Rightarrow> nat \<Rightarrow> ptree list \<Rightarrow> srange list" where
  "ranges_open p k [] = []"
| "ranges_open p k (PC c # ts) = ranges_open (Suc p) k ts"
| "ranges_open p k (PG us # ts) =
     SRange p (p + length (prs us) + 1) k # ranges_open (Suc p) (Suc k) us @
     ranges_open (p + length (prs us) + 2) (Suc k + sum_list (map ngroups us)) ts"
  by pat_completeness auto
termination by (relation "measure (\<lambda>(p, k, ts). size_list size ts)") auto

function ranges_close :: "nat \<Rightarrow> nat \<Rightarrow> ptree list \<Rightarrow> srange list" where
  "ranges_close p k [] = []"
| "ranges_close p k (PC c # ts) = ranges_close (Suc p) k ts"
| "ranges_close p k (PG us # ts) =
     ranges_close (Suc p) (Suc k) us @ [SRange p (p + length (prs us) + 1) k] @
     ranges_close (p + length (prs us) + 2) (Suc k + sum_list (map ngroups us)) ts"
  by pat_completeness auto
termination by (relation "measure (\<lambda>(p, k, ts). size_list size ts)") auto

lemma format_loop_prs:
  assumes "\<forall>t \<in> set ts. pok t"
  shows "format_loop p k stack acc (prs ts @ cs) =
    format_loop (p + length (prs ts)) (k + sum_list (map ngroups ts)) stack (acc @ ranges_close p k ts) cs"
  using assms
proof (induction p k ts arbitrary: stack acc cs rule: ranges_close.induct)
  case (3 p k us ts)
  then have us: "\<forall>t \<in> set us. pok t" and ts: "\<forall>t \<in> set ts. pok t" by auto
  show ?case
    using "3.IH"(1) [OF us, of "SRange p 0 k # stack" acc "CHR '')'' # prs ts @ cs"]
      "3.IH"(2) [OF ts, of stack "acc @ ranges_close (Suc p) (Suc k) us @ [SRange p (p + length (prs us) + 1) k]" cs]
    by (simp add: ac_simps)
qed auto

lemma ranges_open_index: "map sr_index (ranges_open p k ts) = [k..<k + sum_list (map ngroups ts)]"
proof (induction p k ts rule: ranges_open.induct)
  case (3 p k us ts)
  let ?n = "sum_list (map ngroups us)" and ?m = "sum_list (map ngroups ts)"
  have "[k..<k + (Suc ?n + ?m)] = k # [Suc k..<Suc k + ?n] @ [Suc k + ?n..<Suc k + ?n + ?m]"
    using upt_add_eq_append [of "Suc k" "Suc k + ?n" ?m] upt_conv_Cons [of k "k + (Suc ?n + ?m)"]
    by (simp add: ac_simps del: upt_Suc)
  with 3 show ?case by (simp del: upt_Suc)
qed auto

lemma ranges_close_set: "set (ranges_close p k ts) = set (ranges_open p k ts) \<and>
    length (ranges_close p k ts) = length (ranges_open p k ts)"
  by (induction p k ts rule: ranges_close.induct) auto

lemma foldl_update_nth:
  assumes "i < length l" "\<forall>sr \<in> set srs. f sr = i \<longrightarrow> sr = x" "l ! i = x \<or> (\<exists>sr \<in> set srs. f sr = i)"
  shows "foldl (\<lambda>l sr. l[f sr := sr]) l srs ! i = x"
  using assms
proof (induction srs arbitrary: l)
  case (Cons sr srs)
  show ?case
    using Cons.prems Cons.IH [of "l[f sr := sr]"] by (cases "f sr = i") auto
qed auto

lemma length_foldl_update: "length (foldl (\<lambda>l sr. l[f sr := sr]) l srs) = length l"
  by (induction srs arbitrary: l) auto

lemma logic_format_prs:
  assumes "\<forall>t \<in> set ts. pok t"
  shows "logic_format (prs ts) = Some (ranges_open 0 0 ts)"
proof -
  let ?o = "ranges_open 0 0 ts" and ?c = "ranges_close 0 0 ts"
  let ?l = "foldl (\<lambda>l sr. l[sr_index sr := sr]) (replicate (length ?c) (SRange 0 0 0)) ?c"
  have f: "format_loop 0 0 [] [] (prs ts) = Some ([], ?c)"
    using format_loop_prs [OF assms, of 0 0 "[]" "[]" "[]"] by simp
  have len: "length ?c = length ?o" "set ?c = set ?o" using ranges_close_set by auto
  have ix: "sr_index (?o ! i) = i" if "i < length ?o" for i
    using ranges_open_index [of 0 0 ts] that
    by (metis add_0 length_map length_upt minus_nat.diff_0 nth_map nth_upt)
  have "?l ! i = ?o ! i" if i: "i < length ?o" for i
  proof (rule foldl_update_nth)
    show "i < length (replicate (length ?c) (SRange 0 0 0))" using i len by simp
    show "\<forall>sr \<in> set ?c. sr_index sr = i \<longrightarrow> sr = ?o ! i"
      unfolding len(2) using ix by (auto simp: in_set_conv_nth)
    show "replicate (length ?c) (SRange 0 0 0) ! i = ?o ! i \<or> (\<exists>sr \<in> set ?c. sr_index sr = i)"
      unfolding len(2) using ix i nth_mem by blast
  qed
  then have "?l = ?o" using len by (intro nth_equalityI) (auto simp: length_foldl_update)
  with f show ?thesis by (simp add: logic_format_def)
qed

lemma ranges_open_bounds:
  "r \<in> set (ranges_open p k ts) \<Longrightarrow> p \<le> sr_start r \<and> sr_start r < sr_end r \<and> sr_end r < p + length (prs ts)"
  by (induction p k ts rule: ranges_open.induct) fastforce+

text \<open>The ranges of the groups at the top of a text, and the texts inside them.\<close>

fun top_ranges :: "nat \<Rightarrow> nat \<Rightarrow> ptree list \<Rightarrow> srange list" where
  "top_ranges p k [] = []"
| "top_ranges p k (PC c # ts) = top_ranges (Suc p) k ts"
| "top_ranges p k (PG us # ts) =
     SRange p (p + length (prs us) + 1) k #
     top_ranges (p + length (prs us) + 2) (Suc k + sum_list (map ngroups us)) ts"

fun top_groups :: "ptree list \<Rightarrow> ptree list list" where
  "top_groups [] = []"
| "top_groups (PC c # ts) = top_groups ts"
| "top_groups (PG us # ts) = us # top_groups ts"

definition find_step :: "srange list \<Rightarrow> srange \<Rightarrow> srange list" where
  "find_step subs rr = (if \<exists>r \<in> set subs. containRange rr (sr_start r) (sr_end r) then subs else subs @ [rr])"

lemma find_step_inside:
  assumes "\<forall>rr \<in> set rs. \<exists>r \<in> set subs. containRange rr (sr_start r) (sr_end r)"
  shows "foldl find_step subs rs = subs"
  using assms by (induction rs) (auto simp: find_step_def)

lemma find_step_top:
  assumes "\<forall>r \<in> set subs. sr_end r < p"
  shows "foldl find_step subs (ranges_open p k ts) = subs @ top_ranges p k ts"
  using assms
proof (induction p k ts arbitrary: subs rule: ranges_open.induct)
  case (3 p k us ts)
  let ?r = "SRange p (p + length (prs us) + 1) k"
  have 1: "find_step subs ?r = subs @ [?r]"
    using "3.prems" by (force simp: find_step_def containRange_def)
  have 2: "foldl find_step (subs @ [?r]) (ranges_open (Suc p) (Suc k) us) = subs @ [?r]"
    by (rule find_step_inside) (auto simp: containRange_def dest: ranges_open_bounds)
  have 3: "foldl find_step (subs @ [?r]) (ranges_open (p + length (prs us) + 2) (Suc k + sum_list (map ngroups us)) ts) =
      (subs @ [?r]) @ top_ranges (p + length (prs us) + 2) (Suc k + sum_list (map ngroups us)) ts"
    using "3.prems" by (intro "3.IH"(2)) auto
  show ?case using 1 2 3 by simp
next
  case (2 p k c ts)
  then show ?case by (simp add: less_SucI)
qed simp

lemma top_ranges_text:
  assumes "length pre = p"
  shows "map (\<lambda>r. drop (sr_start r + 1) (take (sr_end r) (pre @ prs ts @ suf))) (top_ranges p k ts) =
    map prs (top_groups ts)"
  using assms
proof (induction p k ts arbitrary: pre rule: top_ranges.induct)
  case (2 p k c ts)
  then show ?case using "2.IH" [of "pre @ [c]"] by simp
next
  case (3 p k us ts)
  have "drop (p + 1) (take (p + length (prs us) + 1) (pre @ CHR ''('' # prs us @ CHR '')'' # prs ts @ suf)) = prs us"
    using "3.prems" by simp
  then show ?case
    using "3.IH" [of "pre @ CHR ''('' # prs us @ '')''"] "3.prems" by simp
qed simp

lemma prs_no_newline: "\<forall>t \<in> set ts. pok t \<Longrightarrow> CHR 0x0A \<notin> set (prs ts)"
proof -
  have "CHR 0x0A \<notin> set (pr t)" if "pok t" for t
    using that by (induction t) auto
  then show "\<forall>t \<in> set ts. pok t \<Longrightarrow> CHR 0x0A \<notin> set (prs ts)" by auto
qed

lemma sub_payloads_group:
  assumes "\<forall>t \<in> set ts. pok t"
  shows "sub_payloads (prs [PG ts]) = Some (map prs (top_groups ts))"
proof -
  let ?p = "prs [PG ts]"
  have p: "?p = CHR ''('' # prs ts @ '')''" by simp
  have "CHR 0x0A \<notin> set ?p" using prs_no_newline [OF assms] by simp
  then have rx: "paren_regex ?p" unfolding paren_regex_def by (simp add: split_on_id)
  have fmt: "logic_format ?p = Some (SRange 0 (length (prs ts) + 1) 0 # ranges_open 1 1 ts)"
    using logic_format_prs [of "[PG ts]"] assms by simp
  have "foldl (\<lambda>subs rr. if sr_start rr = 0 \<and> int (sr_end rr) = int (length ?p) - 1 then subs
        else if \<exists>r \<in> set subs. containRange rr (sr_start r) (sr_end r) then subs else subs @ [rr]) ss rs =
      foldl find_step ss rs" if "\<forall>r \<in> set rs. sr_start r > 0" for ss rs
    using that by (induction rs arbitrary: ss) (auto simp: find_step_def)
  moreover have "\<forall>r \<in> set (ranges_open 1 1 ts). sr_start r > 0" using ranges_open_bounds by force
  ultimately have "findSubRuleRange ?p (SRange 0 (length (prs ts) + 1) 0 # ranges_open 1 1 ts) =
      foldl find_step [] (ranges_open 1 1 ts)"
    by (simp add: findSubRuleRange_def)
  also have "\<dots> = top_ranges 1 1 ts" by (subst find_step_top) simp_all
  finally show ?thesis
    using rx fmt top_ranges_text [of "''(''" 1 ts "'')''" 1] unfolding p by (simp add: sub_payloads_def)
qed

section \<open>Logic expressions\<close>

text \<open>The text of a logic expression: a leaf is \<open>TYPE,payload,params\<close>; an operator is its name with the
  group of its parenthesized operands.\<close>

datatype lexpr = LLeaf string string "string list" | LAnd "lexpr list" | LOr "lexpr list" | LNot lexpr

fun comma_sep :: "ptree list \<Rightarrow> ptree list" where
  "comma_sep [] = []"
| "comma_sep [t] = [t]"
| "comma_sep (t # u # ts) = t # PC (CHR '','') # comma_sep (u # ts)"

fun expr_tp :: "lexpr \<Rightarrow> string" where
  "expr_tp (LLeaf tp p ps) = tp"
| "expr_tp (LAnd es) = ''AND''"
| "expr_tp (LOr es) = ''OR''"
| "expr_tp (LNot e) = ''NOT''"

fun expr_forest :: "lexpr \<Rightarrow> ptree list" where
  "expr_forest (LLeaf tp p ps) = map PC (tp @ '','' @ join_with (CHR '','') (p # ps))"
| "expr_forest (LAnd es) = map PC ''AND,'' @ [PG (comma_sep (map (\<lambda>e. PG (expr_forest e)) es))]"
| "expr_forest (LOr es) = map PC ''OR,'' @ [PG (comma_sep (map (\<lambda>e. PG (expr_forest e)) es))]"
| "expr_forest (LNot e) = map PC ''NOT,'' @ [PG [PG (expr_forest e)]]"

fun expr_payload :: "lexpr \<Rightarrow> string" where
  "expr_payload (LLeaf tp p ps) = p"
| "expr_payload (LAnd es) = prs [PG (comma_sep (map (\<lambda>e. PG (expr_forest e)) es))]"
| "expr_payload (LOr es) = prs [PG (comma_sep (map (\<lambda>e. PG (expr_forest e)) es))]"
| "expr_payload (LNot e) = prs [PG [PG (expr_forest e)]]"

fun expr_params :: "lexpr \<Rightarrow> string list" where
  "expr_params (LLeaf tp p ps) = ps"
| "expr_params e = []"

definition plain_text :: "string \<Rightarrow> bool" where
  "plain_text s \<longleftrightarrow> (\<forall>c \<in> set s. c \<notin> {CHR ''('', CHR '')'', CHR '','', CHR 0x0A})"

fun expr_ok :: "lexpr \<Rightarrow> bool" where
  "expr_ok (LLeaf tp p ps) \<longleftrightarrow> tp \<notin> {''MATCH'', ''SUB-RULE'', ''NOT'', ''OR'', ''AND''} \<and>
     plain_text tp \<and> (\<forall>s \<in> set (p # ps). plain_text s)"
| "expr_ok (LAnd es) \<longleftrightarrow> (\<forall>e \<in> set es. expr_ok e)"
| "expr_ok (LOr es) \<longleftrightarrow> (\<forall>e \<in> set es. expr_ok e)"
| "expr_ok (LNot e) \<longleftrightarrow> expr_ok e"

text \<open>The rule of an expression.\<close>

fun compile :: "parse_env \<Rightarrow> string \<Rightarrow> lexpr \<Rightarrow> rule option" where
  "compile pe target (LLeaf tp p ps) = parse_leaf pe tp p target ps"
| "compile pe target (LAnd es) =
     map_option (mk_logic pe RT_AND '' && '' target) (opt_all (map (compile pe '''') es))"
| "compile pe target (LOr es) =
     map_option (mk_logic pe RT_OR '' || '' target) (opt_all (map (compile pe '''') es))"
| "compile pe target (LNot e) =
     (case compile pe '''' e of None \<Rightarrow> None | Some r \<Rightarrow> mk_not pe target [r])"

lemma comma_sep_pok: "\<forall>t \<in> set ts. pok t \<Longrightarrow> \<forall>t \<in> set (comma_sep ts). pok t"
  by (induction ts rule: comma_sep.induct) auto

lemma comma_sep_groups: "top_groups (comma_sep (map (\<lambda>e. PG (f e)) es)) = map f es"
proof (induction es)
  case (Cons e es)
  then show ?case by (cases es) auto
qed simp

lemma set_join_with: "set (join_with c ws) \<subseteq> insert c (\<Union> (set ` set ws))"
  by (induction c ws rule: join_with.induct) auto

lemma expr_forest_pok: "expr_ok e \<Longrightarrow> \<forall>t \<in> set (expr_forest e). pok t"
proof (induction e)
  case (LLeaf tp p ps)
  then show ?case
    using set_join_with [of "CHR '',''" "p # ps"] by (fastforce simp: plain_text_def)
next
  case (LAnd es)
  then show ?case using comma_sep_pok [of "map (\<lambda>e. PG (expr_forest e)) es"] by auto
next
  case (LOr es)
  then show ?case using comma_sep_pok [of "map (\<lambda>e. PG (expr_forest e)) es"] by auto
qed auto

lemma prs_map_PC [simp]: "prs (map PC s) = s"
  by (induction s) auto

lemma split2_append: "CHR '','' \<notin> set a \<Longrightarrow> split2 (a @ CHR '','' # b) = Some (a, b)"
  by (simp add: split2_def index_byte_append)

lemma payload_args_expr:
  assumes "expr_ok e"
  shows "payload_args (prs (expr_forest e)) = Some (expr_tp e, expr_payload e, expr_params e)"
proof (cases e)
  case (LLeaf tp p ps)
  with assms have a: "tp \<notin> {''MATCH'', ''SUB-RULE'', ''NOT'', ''OR'', ''AND''}" "plain_text tp"
    "\<forall>s \<in> set (p # ps). plain_text s" unfolding LLeaf expr_ok.simps by blast+
  have pt: "CHR '','' \<notin> set s" if "plain_text s" for s using that by (auto simp: plain_text_def)
  have tp: "CHR '','' \<notin> set tp" "tp \<notin> {''MATCH'', ''SUB-RULE'', ''NOT'', ''OR'', ''AND''}"
    and p: "\<forall>s \<in> set (p # ps). CHR '','' \<notin> set s" using a pt by blast+
  let ?q = "join_with (CHR '','') (p # ps)"
  have s: "split_on (CHR '','') ?q = p # ps"
    using p by (intro split_join) auto
  have t: "prs (expr_forest e) = tp @ CHR '','' # ?q"
    unfolding LLeaf expr_forest.simps prs_map_PC by (simp del: join_with.simps)
  have n: "(tp = ''MATCH'' \<or> tp = ''SUB-RULE'') = False" "(tp = ''NOT'' \<or> tp = ''OR'' \<or> tp = ''AND'') = False"
    using tp(2) by blast+
  have "payload_args (tp @ CHR '','' # ?q) = Some (tp, p, ps)"
    unfolding payload_args_def split2_append [OF tp(1)] option.case prod.case n if_False Let_def s by simp
  with t LLeaf show ?thesis by simp
next
  case (LAnd es)
  then show ?thesis
    using split2_append [of "''AND''"] by (simp add: payload_args_def)
next
  case (LOr es)
  then show ?thesis
    using split2_append [of "''OR''"] by (simp add: payload_args_def)
next
  case (LNot e')
  then show ?thesis
    using split2_append [of "''NOT''"] by (simp add: payload_args_def)
qed

text \<open>C19: \<open>ParseRule\<close> reads the text of a logic expression, however deeply nested, as the rule of
  that expression: every operand is found, in order, and operators nest as the parentheses do.\<close>

theorem parse_rule_expr:
  assumes "expr_ok e"
  shows "parse_rule pe subRules (expr_tp e) (expr_payload e) target (expr_params e) = compile pe target e"
  using assms
proof (induction e arbitrary: subRules target)
  case (LLeaf tp p ps)
  then show ?case by (simp add: parse_rule.simps)
next
  case (LAnd es)
  have sub: "sub_payloads (expr_payload (LAnd es)) = Some (map (\<lambda>e. prs (expr_forest e)) es)"
    using sub_payloads_group [of "comma_sep (map (\<lambda>e. PG (expr_forest e)) es)"] LAnd.prems
      comma_sep_pok [of "map (\<lambda>e. PG (expr_forest e)) es"] expr_forest_pok
    by (auto simp: comma_sep_groups o_def)
  have m: "map (\<lambda>s. case payload_args s of None \<Rightarrow> None
        | Some (tp', payload', params') \<Rightarrow> parse_rule pe [] tp' payload' '''' params')
        (map (\<lambda>e. prs (expr_forest e)) es) = map (compile pe '''') es"
    using LAnd by (auto simp: payload_args_expr)
  show ?case
    unfolding parse_rule.simps [of pe subRules "expr_tp (LAnd es)"] sub option.case m
    by (simp split: option.split)
next
  case (LOr es)
  have sub: "sub_payloads (expr_payload (LOr es)) = Some (map (\<lambda>e. prs (expr_forest e)) es)"
    using sub_payloads_group [of "comma_sep (map (\<lambda>e. PG (expr_forest e)) es)"] LOr.prems
      comma_sep_pok [of "map (\<lambda>e. PG (expr_forest e)) es"] expr_forest_pok
    by (auto simp: comma_sep_groups o_def)
  have m: "map (\<lambda>s. case payload_args s of None \<Rightarrow> None
        | Some (tp', payload', params') \<Rightarrow> parse_rule pe [] tp' payload' '''' params')
        (map (\<lambda>e. prs (expr_forest e)) es) = map (compile pe '''') es"
    using LOr by (auto simp: payload_args_expr)
  show ?case
    unfolding parse_rule.simps [of pe subRules "expr_tp (LOr es)"] sub option.case m
    by (simp split: option.split)
next
  case (LNot e)
  have sub: "sub_payloads (expr_payload (LNot e)) = Some [prs (expr_forest e)]"
    using sub_payloads_group [of "[PG (expr_forest e)]"] LNot.prems expr_forest_pok by simp
  have m: "map (\<lambda>s. case payload_args s of None \<Rightarrow> None
        | Some (tp', payload', params') \<Rightarrow> parse_rule pe [] tp' payload' '''' params')
        [prs (expr_forest e)] = [compile pe '''' e]"
    using LNot by (simp add: payload_args_expr)
  show ?case
    unfolding parse_rule.simps [of pe subRules "expr_tp (LNot e)"] sub option.case m
    by (cases "compile pe '''' e") simp_all
qed

theorem parse_rule_expr_witness:
  "\<forall>pe. parse_rule pe [] ''AND'' ''((DOMAIN,a.com),(NOT,((NETWORK,udp))))'' ''P'' [] =
     Some (mk_logic pe RT_AND '' && '' ''P''
       [R_Domain ''a.com'' '''', R_Logic ''(!(Network,udp))'' '''' RT_NOT [R_NetworkType UDP ''''] False False])"
proof
  fix pe
  let ?e = "LAnd [LLeaf ''DOMAIN'' ''a.com'' [], LNot (LLeaf ''NETWORK'' ''udp'' [])]"
  have ok: "expr_ok ?e" by (simp add: plain_text_def)
  have c: "compile pe ''P'' ?e = Some (mk_logic pe RT_AND '' && '' ''P''
       [R_Domain ''a.com'' '''', R_Logic ''(!(Network,udp))'' '''' RT_NOT [R_NetworkType UDP ''''] False False])"
    by (simp add: parse_leaf_def NewDomain_def NewNetworkType_def mk_not_def rule_text_def to_lower_def
        to_upper_def ascii_lower_def ascii_upper_def char_of_def bit_0)
  from parse_rule_expr [OF ok, of pe "[]" "''P''"] show
    "parse_rule pe [] ''AND'' ''((DOMAIN,a.com),(NOT,((NETWORK,udp))))'' ''P'' [] =
     Some (mk_logic pe RT_AND '' && '' ''P''
       [R_Domain ''a.com'' '''', R_Logic ''(!(Network,udp))'' '''' RT_NOT [R_NetworkType UDP ''''] False False])"
    unfolding c by simp
qed

section \<open>The rules of a configuration\<close>

definition trimArr :: "string list \<Rightarrow> string list" where
  "trimArr arr = map (trim_set '' '') arr"

text \<open>One line of \<open>parseRules\<close>; \<open>proxies\<close> holds the names of the known proxies. \<open>Done None\<close> is an error; the
  slice \<open>rule[1:l-1]\<close> of a logic rule without arguments panics.\<close>

definition parse_rule_line ::
  "parse_env \<Rightarrow> string list \<Rightarrow> (string \<times> rule list) list \<Rightarrow> string \<Rightarrow> rule option outcome" where
  "parse_rule_line pe proxies subRules line =
     (let rule = trimArr (split_on (CHR '','') line);
          ruleName = to_upper (rule ! 0);
          l = length rule;
          fields =
            (if ruleName \<in> {''NOT'', ''OR'', ''AND'', ''SUB-RULE''} then
               (if l < 2 then Panicked
                else Done (Some (rule ! (l - 1), join_with (CHR '','') (drop 1 (take (l - 1) rule)), [])))
             else if l < 2 then Done None
             else
               let rule' = rule @ replicate (4 - l) [];
                   l1 = (if ruleName = ''MATCH'' then 2 else l);
                   (l2, payload) = (if l1 \<ge> 3 then (3, rule' ! 1) else (l1, []))
               in Done (Some (rule' ! (l2 - 1), payload, drop l2 rule')))
      in obind fields (\<lambda>f. case f of
           None \<Rightarrow> Done None
         | Some (target, payload, params) \<Rightarrow>
             if target \<notin> set proxies \<and> (ruleName \<noteq> ''SUB-RULE'' \<or> target \<notin> fst ` set subRules) then Done None
             else Done (parse_rule pe subRules ruleName payload target (trimArr params))))"

fun parseRules :: "parse_env \<Rightarrow> string list \<Rightarrow> (string \<times> rule list) list \<Rightarrow> string list \<Rightarrow> rule list option outcome" where
  "parseRules pe proxies subRules [] = Done (Some [])"
| "parseRules pe proxies subRules (line # lines) =
     obind (parse_rule_line pe proxies subRules line) (\<lambda>r. case r of
       None \<Rightarrow> Done None
     | Some r \<Rightarrow> obind (parseRules pe proxies subRules lines) (\<lambda>rs. Done (map_option (\<lambda>rs. r # rs) rs)))"

text \<open>The names that a path has not visited.\<close>

definition unvisited :: "(string \<times> 'b) list \<Rightarrow> string list \<Rightarrow> nat" where
  "unvisited subRules arr = card (fst ` set subRules - set arr)"

lemma unvisited_less: "k \<in> fst ` set subRules \<Longrightarrow> k \<notin> set arr \<Longrightarrow> unvisited subRules (arr @ [k]) < unvisited subRules arr"
proof -
  assume k: "k \<in> fst ` set subRules" "k \<notin> set arr"
  have "fst ` set subRules - set (arr @ [k]) \<subset> fst ` set subRules - set arr" using k by auto
  then show ?thesis unfolding unvisited_def by (intro psubset_card_mono) simp_all
qed

text \<open>The circular reference check; \<open>arr\<close> is the path of names. \<open>True\<close> for no error.\<close>

function (sequential) verify_name :: "(string \<times> rule list) list \<Rightarrow> string \<Rightarrow> string list \<Rightarrow> bool"
  and verify_rules :: "(string \<times> rule list) list \<Rightarrow> string list \<Rightarrow> rule list \<Rightarrow> bool" where
  "verify_name subRules n arr =
     verify_rules subRules (arr @ [n]) (case map_of subRules n of None \<Rightarrow> [] | Some rs \<Rightarrow> rs)"
| "verify_rules subRules arr [] = True"
| "verify_rules subRules arr (r # rs) =
     (if rule_type r = RT_SubRules then
        (if rule_adapter r \<notin> fst ` set subRules then False
         else if rule_adapter r \<in> set arr then False
         else if \<not> verify_name subRules (rule_adapter r) arr then False
         else verify_rules subRules arr rs)
      else verify_rules subRules arr rs)"
  by pat_completeness auto

termination
proof (relation "measures [\<lambda>x. case x of
      Inl (s, n, arr) \<Rightarrow> unvisited s (arr @ [n]) | Inr (s, arr, rs) \<Rightarrow> unvisited s arr,
      \<lambda>x. case x of Inl (s, n, arr) \<Rightarrow> Suc (length (case map_of s n of None \<Rightarrow> [] | Some rs \<Rightarrow> rs)) | Inr (s, arr, rs) \<Rightarrow> length rs]",
    goal_cases)
  case (3 subRules arr r rs)
  with unvisited_less [of "rule_adapter r" subRules arr] show ?case by simp
qed auto

definition verifySubRule :: "(string \<times> rule list) list \<Rightarrow> bool" where
  "verifySubRule subRules \<longleftrightarrow> list_all (\<lambda>(n, rs). verify_name subRules n []) subRules"

text \<open>\<open>parseSubRules\<close>: every name is known from the start, with an empty list; the lists are read in the
  order \<open>raw\<close> of Go's iteration over the map.\<close>

fun parse_sub_lists ::
  "parse_env \<Rightarrow> string list \<Rightarrow> (string \<times> string list) list \<Rightarrow> (string \<times> rule list) list \<Rightarrow>
   (string \<times> rule list) list option outcome" where
  "parse_sub_lists pe proxies [] subRules = Done (Some subRules)"
| "parse_sub_lists pe proxies ((name, lines) # raw) subRules =
     (if name = [] then Done None
      else obind (parseRules pe proxies subRules lines) (\<lambda>rs. case rs of
        None \<Rightarrow> Done None
      | Some rs \<Rightarrow> parse_sub_lists pe proxies raw (AList.update name rs subRules)))"

definition parseSubRules ::
  "parse_env \<Rightarrow> string list \<Rightarrow> (string \<times> string list) list \<Rightarrow> (string \<times> rule list) list option outcome" where
  "parseSubRules pe proxies raw =
     obind (parse_sub_lists pe proxies raw (map (\<lambda>(n, _). (n, [])) raw)) (\<lambda>s. case s of
       None \<Rightarrow> Done None
     | Some subRules \<Rightarrow> Done (if verifySubRule subRules then Some subRules else None))"

section \<open>Termination of matching\<close>

text \<open>Rules as \<open>ParseRule\<close> builds them: \<open>SUB-RULE\<close> only at the top, over one condition. \<open>flat\<close> also excludes rule sets of
  the classical behavior, which may refer to themselves.\<close>

fun no_names :: "rule_env \<Rightarrow> rule \<Rightarrow> bool" where
  "no_names e (R_Logic p a rt rs ip fp) \<longleftrightarrow> rt \<noteq> RT_SubRules \<and> (\<forall>r \<in> set rs. no_names e r)"
| "no_names e (R_RuleSet n a nr) \<longleftrightarrow> (case ruleProviders e n of Some (ClassicalStrategy rs c ip fp) \<Rightarrow> False | _ \<Rightarrow> True)"
| "no_names e (R_Port a p rt rs) \<longleftrightarrow> rt \<in> {RT_SrcPort, RT_DstPort, RT_InPort}"
| "no_names e r \<longleftrightarrow> True"

fun flat_rule :: "rule_env \<Rightarrow> rule \<Rightarrow> bool" where
  "flat_rule e (R_Logic p a rt rs ip fp) \<longleftrightarrow>
     (if rt = RT_SubRules then (\<exists>r. rs = [r] \<and> no_names e r) else (\<forall>r \<in> set rs. no_names e r))"
| "flat_rule e r \<longleftrightarrow> no_names e r"

lemma leaf_NoFuel: "leaf_match e m r \<noteq> NoFuel"
  by (cases "(e, m, r)" rule: leaf_match.cases)
    (auto simp: IPSuffix_Match_def Let_def)

lemma no_names_fuel:
  "no_names e r \<Longrightarrow> rule_match e n m r \<noteq> NoFuel"
  "(\<forall>r \<in> set rs. no_names e r) \<Longrightarrow> match_or e n m rs \<noteq> NoFuel"
  "(\<forall>r \<in> set rs. no_names e r) \<Longrightarrow> match_and e n m rs \<noteq> NoFuel"
  "True"
proof (induction e n m r and e n m rs and e n m rs and e n m rs
    rule: rule_match_match_or_match_and_matchSubRules.induct)
  case (1 e n m name a nr)
  then show ?case by (auto split: option.splits strategy.splits)
next
  case (2 e n m p a rt rs ip fp)
  show ?case
  proof (cases "rt = RT_NOT")
    case True
    with 2 show ?thesis by (cases rs) (auto simp: obind_NoFuel)
  next
    case False
    with 2 show ?thesis by (auto simp: obind_NoFuel)
  qed
qed (auto simp: obind_NoFuel leaf_NoFuel simp del: leaf_match.simps)

lemma sub_rules_fuel:
  assumes "\<forall>r \<in> set rs. flat_rule e r"
    and "\<forall>r \<in> set rs. rule_type r = RT_SubRules \<longrightarrow>
      0 < n \<and> matchSubRules e (n - 1) m (sub_rules e (rule_adapter r)) \<noteq> NoFuel"
  shows "matchSubRules e n m rs \<noteq> NoFuel"
  using assms
proof (induction rs)
  case (Cons r rs)
  have IH: "matchSubRules e n m rs \<noteq> NoFuel" using Cons by auto
  have r: "rule_match e n m r \<noteq> NoFuel"
  proof (cases "rule_type r = RT_SubRules")
    case True
    with Cons.prems obtain n' where n': "n = Suc n'" by (cases n) auto
    from True Cons.prems(1) show ?thesis
    proof (cases r)
      case (R_Logic p a rt rs' ip fp)
      with True Cons.prems(1) obtain c where "rs' = [c]" "no_names e c" "rt = RT_SubRules" by auto
      moreover have "matchSubRules e n' m (sub_rules e a) \<noteq> NoFuel"
        using Cons.prems(2) True R_Logic n' by auto
      ultimately show ?thesis using R_Logic n' no_names_fuel(1) by (auto simp: obind_NoFuel)
    qed (auto split: if_splits)
  next
    case False
    with Cons.prems(1) have "no_names e r" by (cases r) auto
    then show ?thesis by (rule no_names_fuel)
  qed
  show ?case
    using r IH Cons.prems(2) by (cases n) (auto simp: obind_NoFuel)
qed simp

lemma verify_fuel:
  assumes flat: "\<forall>(name, rs) \<in> set (envSubRules e). \<forall>r \<in> set rs. flat_rule e r"
  shows "s = envSubRules e \<Longrightarrow> verify_name s name arr \<Longrightarrow>
      \<forall>k \<ge> unvisited s (arr @ [name]). matchSubRules e k m (sub_rules e name) \<noteq> NoFuel"
    and "s = envSubRules e \<Longrightarrow> verify_rules s arr rs \<Longrightarrow>
      \<forall>r \<in> set rs. rule_type r = RT_SubRules \<longrightarrow>
        (\<forall>k \<ge> unvisited s arr. 0 < k \<and> matchSubRules e (k - 1) m (sub_rules e (rule_adapter r)) \<noteq> NoFuel)"
proof (induction s name arr and s arr rs rule: verify_name_verify_rules.induct)
  case (1 s name arr)
  have sr: "(case map_of s name of None \<Rightarrow> [] | Some rs \<Rightarrow> rs) = sub_rules e name"
    using "1.prems"(1) by (simp add: sub_rules_def)
  have F: "\<forall>r \<in> set (sub_rules e name). flat_rule e r"
  proof (cases "map_of (envSubRules e) name")
    case (Some rs)
    with flat map_of_SomeD [OF Some] show ?thesis by (auto simp: sub_rules_def)
  qed (simp add: sub_rules_def)
  have v: "verify_rules s (arr @ [name]) (sub_rules e name)"
    using "1.prems"(2) unfolding verify_name.simps sr .
  note IH = "1.IH" [unfolded sr, OF "1.prems"(1) v]
  show ?case
  proof (intro allI impI)
    fix k assume "unvisited s (arr @ [name]) \<le> k"
    with IH show "matchSubRules e k m (sub_rules e name) \<noteq> NoFuel"
      by (intro sub_rules_fuel [OF F]) blast
  qed
next
  case (3 s arr r rs)
  show ?case
  proof (intro ballI impI allI)
    fix r' k assume r': "r' \<in> set (r # rs)" "rule_type r' = RT_SubRules" and k: "unvisited s arr \<le> k"
    show "0 < k \<and> matchSubRules e (k - 1) m (sub_rules e (rule_adapter r')) \<noteq> NoFuel"
    proof (cases "r' = r")
      case True
      with 3 r' have a: "rule_adapter r \<in> fst ` set s" "rule_adapter r \<notin> set arr"
        "verify_name s (rule_adapter r) arr" by (auto split: if_splits)
      with unvisited_less [of "rule_adapter r" s arr] k
      have "unvisited s (arr @ [rule_adapter r]) < k" by simp
      moreover from this have "unvisited s (arr @ [rule_adapter r]) \<le> k - 1" by simp
      ultimately show ?thesis using "3.IH"(1) True r' a "3.prems"(1) by auto
    next
      case False
      have "verify_rules s arr rs" using "3.prems"(2) by (auto split: if_splits)
      with 3 False r' k show ?thesis by (auto split: if_splits)
    qed
  qed
qed simp

lemma verified_fuel:
  assumes "verifySubRule (envSubRules e)"
    and "\<forall>(name, rs) \<in> set (envSubRules e). \<forall>r \<in> set rs. flat_rule e r"
    and "flat_rule e r" "n > length (envSubRules e)"
  shows "rule_match e n m r \<noteq> NoFuel"
proof (cases "rule_type r = RT_SubRules")
  case False
  with assms(3) have "no_names e r" by (cases r) auto
  then show ?thesis by (rule no_names_fuel)
next
  case True
  with assms(3) obtain p a c ip fp where r: "r = R_Logic p a RT_SubRules [c] ip fp" "no_names e c"
    by (cases r) (auto split: if_splits)
  obtain n' where n: "n = Suc n'" "length (envSubRules e) \<le> n'" using assms(4) by (cases n) auto
  have "matchSubRules e n' m (sub_rules e a) \<noteq> NoFuel"
  proof (cases "map_of (envSubRules e) a")
    case None
    then show ?thesis by (simp add: sub_rules_def)
  next
    case (Some rs)
    then have "verify_name (envSubRules e) a []"
      using assms(1) map_of_SomeD [OF Some] unfolding verifySubRule_def list_all_iff by blast
    moreover have "unvisited (envSubRules e) ([] @ [a]) \<le> n'"
    proof -
      have "unvisited (envSubRules e) [a] \<le> card (fst ` set (envSubRules e))"
        unfolding unvisited_def by (intro card_mono) auto
      also have "\<dots> \<le> length (envSubRules e)"
        using card_image_le [of "set (envSubRules e)" fst] card_length [of "envSubRules e"] by simp
      finally show ?thesis using n(2) by simp
    qed
    ultimately show ?thesis using verify_fuel(1) [OF assms(2) refl] by blast
  qed
  with r n no_names_fuel(1) show ?thesis by (auto simp: obind_NoFuel)
qed

text \<open>Nothing in the rule can panic: no \<open>IP-SUFFIX\<close> names a whole address, \<open>NOT\<close> and \<open>SUB-RULE\<close> have an argument, and the provider of
  every \<open>RULE-SET\<close> exists and is of the domain or of the IP behavior.\<close>

fun panic_free :: "rule_env \<Rightarrow> rule \<Rightarrow> bool" where
  "panic_free e (R_Logic p a rt rs ip fp) \<longleftrightarrow> (rs = [] \<longrightarrow> rt \<noteq> RT_NOT \<and> rt \<noteq> RT_SubRules) \<and> (\<forall>r \<in> set rs. panic_free e r)"
| "panic_free e (R_RuleSet n a nr) \<longleftrightarrow>
     (case ruleProviders e n of None \<Rightarrow> False | Some (ClassicalStrategy rs c ip fp) \<Rightarrow> False | _ \<Rightarrow> True)"
| "panic_free e r \<longleftrightarrow> safe_leaf r"

lemma obind_Panicked: "obind x f = Panicked \<longleftrightarrow> x = Panicked \<or> (\<exists>y. x = Done y \<and> f y = Panicked)"
  by (cases x) auto

lemma leaf_no_panic: "safe_leaf r \<Longrightarrow> is_leaf r \<Longrightarrow> leaf_match e m r \<noteq> Panicked"
  using leaf_match_Done [of r e m] by auto

lemma panic_free_sub_rules:
  assumes "\<forall>(name, rs) \<in> set (envSubRules e). \<forall>r \<in> set rs. panic_free e r"
  shows "\<forall>r \<in> set (sub_rules e name). panic_free e r"
proof (cases "map_of (envSubRules e) name")
  case (Some rs)
  with assms map_of_SomeD [OF Some] show ?thesis by (auto simp: sub_rules_def)
qed (simp add: sub_rules_def)

lemma panic_free_match:
  assumes sub: "\<forall>(name, rs) \<in> set (envSubRules e'). \<forall>r \<in> set rs. panic_free e' r"
  shows "e = e' \<Longrightarrow> panic_free e r \<Longrightarrow> rule_match e n m r \<noteq> Panicked"
    "e = e' \<Longrightarrow> \<forall>r \<in> set rs. panic_free e r \<Longrightarrow> match_or e n m rs \<noteq> Panicked"
    "e = e' \<Longrightarrow> \<forall>r \<in> set rs. panic_free e r \<Longrightarrow> match_and e n m rs \<noteq> Panicked"
    "e = e' \<Longrightarrow> \<forall>r \<in> set rs. panic_free e r \<Longrightarrow> matchSubRules e n m rs \<noteq> Panicked"
proof (induction e n m r and e n m rs and e n m rs and e n m rs
    rule: rule_match_match_or_match_and_matchSubRules.induct)
  case (1 e n m name a nr)
  then show ?case by (auto split: option.splits strategy.splits)
next
  case (2 e n m p a rt rs ip fp)
  have S: "\<forall>r \<in> set (sub_rules e name). panic_free e r" for name using panic_free_sub_rules [OF sub] "2.prems"(1) by blast
  show ?case
  proof (cases "rt = RT_SubRules \<or> rt = RT_NOT")
    case True
    with 2 S show ?thesis by (cases rs) (auto simp: obind_Panicked split: nat.splits if_splits)
  next
    case False
    with 2 show ?thesis by (auto simp: obind_Panicked)
  qed
next
  case (9 e n m r rs)
  have S: "\<forall>r \<in> set (sub_rules e name). panic_free e r" for name using panic_free_sub_rules [OF sub] "9.prems"(1) by blast
  have r: "rule_match e n m r \<noteq> Panicked" using "9.IH"(1) "9.prems" by simp
  show ?case
  proof (cases "rule_match e n m r")
    case (Done y)
    obtain b a where y: "y = (b, a)" by (cases y)
    show ?thesis
    proof (cases "b \<and> rule_type r = RT_SubRules")
      case True
      then show ?thesis using Done y S "9.prems" "9.IH"(2,3) [of y b a] by (cases n) (auto simp: obind_Panicked)
    next
      case False
      then show ?thesis using Done y S "9.prems" "9.IH"(4) [of y b a] by (cases b) (auto simp: obind_Panicked)
    qed
  qed (use r in simp_all)
qed (auto simp: obind_Panicked leaf_no_panic split: if_splits simp del: leaf_match.simps)

lemma verified_match_done:
  assumes "verifySubRule (envSubRules e)"
    and "\<forall>(name, rs) \<in> set (envSubRules e). \<forall>r \<in> set rs. flat_rule e r \<and> panic_free e r"
    and "flat_rule e r" "panic_free e r" "n > length (envSubRules e)"
  shows "\<exists>x. rule_match e n m r = Done x"
proof -
  have "\<forall>(name, rs) \<in> set (envSubRules e). \<forall>r \<in> set rs. flat_rule e r"
    "\<forall>(name, rs) \<in> set (envSubRules e). \<forall>r \<in> set rs. panic_free e r" using assms(2) by blast+
  with verified_fuel [OF assms(1) _ assms(3,5)] panic_free_match(1) [OF _ refl assms(4)]
  show ?thesis by (cases "rule_match e n m r") blast+
qed

text \<open>C18: once \<open>verifySubRule\<close> has accepted the sub-rules of a configuration, matching any of its rules returns a result, whatever the
  metadata: it neither runs on nor panics, and fuel of one more than the number of sub-rules is enough. The rules are of the form that
  \<open>ParseRule\<close> builds, with \<open>SUB-RULE\<close> only outermost, and without what the development shows to go wrong: an \<open>IP-SUFFIX\<close> that names a
  whole address (it panics), and a \<open>RULE-SET\<close> of the classical behavior (it may refer to itself) or without a provider.\<close>

theorem verified_match_terminates:
  assumes "verifySubRule (envSubRules e)"
    and "\<forall>(name, rs) \<in> set (envSubRules e). \<forall>r \<in> set rs. flat_rule e r \<and> panic_free e r"
    and "flat_rule e r" "panic_free e r" "n > length (envSubRules e)"
  shows "\<exists>x. rule_match e n m r = Done x"
  using assms by (rule verified_match_done)

theorem verified_match_terminates_witness:
  "\<exists>x. rule_match \<lparr>geodataMode = False, mmdbLookupCode = \<lambda>_. [], isFakeBroadcastIP = \<lambda>_. False,
      envSubRules = [(''a'', [R_Logic [] ''b'' RT_SubRules [R_Match []] False False]), (''b'', [R_Match ''P''])],
      ruleProviders = \<lambda>_. None\<rparr> 3 metadata0 (R_Logic [] ''a'' RT_SubRules [R_Match []] False False) = Done x"
  by (rule verified_match_terminates) (simp_all add: verifySubRule_def)

section \<open>Rule providers\<close>

text \<open>\<open>ruleParse\<close> of \<open>classical_strategy.go\<close>: type, payload and parameters of a line.\<close>

definition ruleParse :: "string \<Rightarrow> string \<times> string \<times> string list" where
  "ruleParse ruleRaw =
     (let item = split_on (CHR '','') ruleRaw
      in case item of
           [x] \<Rightarrow> ('''', x, [])
         | [x, y] \<Rightarrow> (x, y, [])
         | x # y # zs \<Rightarrow>
             if x \<in> {''NOT'', ''OR'', ''AND'', ''SUB-RULE''} then (x, join_with (CHR '','') (y # zs), [])
             else (x, y, zs)
         | [] \<Rightarrow> ('''', '''', []))"

definition NewClassicalStrategy :: strategy where
  "NewClassicalStrategy = ClassicalStrategy [] 0 False False"

definition NewDomainStrategy :: "unit node option \<times> strategy" where
  "NewDomainStrategy = (None, DomainStrategy None 0)"

definition NewIPCidrStrategy :: strategy where
  "NewIPCidrStrategy = IpcidrStrategy None 0 False"

definition classical_Reset :: "strategy \<Rightarrow> strategy" where
  "classical_Reset s = ClassicalStrategy [] 0 False False"

text \<open>\<open>classicalStrategy.Insert\<close>, with the \<open>parse\<close> function that \<open>NewClassicalStrategy\<close> wraps around
  \<open>ParseRule\<close>: only \<open>MATCH\<close> is refused.\<close>

definition classical_parse :: "parse_env \<Rightarrow> string \<Rightarrow> string \<Rightarrow> string list \<Rightarrow> rule option" where
  "classical_parse pe tp payload params =
     (if tp = ''MATCH'' then None else parse_rule pe [] tp payload '''' params)"

fun classical_Insert :: "parse_env \<Rightarrow> string \<Rightarrow> strategy \<Rightarrow> strategy" where
  "classical_Insert pe line (ClassicalStrategy rs n ip fp) =
     (let (ruleType, payload, params) = ruleParse line;
          fp1 = (fp \<or> ruleType = ''PROCESS-NAME'')
      in case classical_parse pe ruleType payload params of
           None \<Rightarrow> ClassicalStrategy rs n ip fp1
         | Some r \<Rightarrow>
             ClassicalStrategy (rs @ [r]) (Suc n) (ip \<or> should_resolve_ip (pe_env pe) r)
               (fp1 \<or> should_find_process (pe_env pe) r))"
| "classical_Insert pe line s = s"

text \<open>\<open>domainStrategy\<close> keeps a trie while lines are inserted; \<open>FinishInsert\<close> builds the set from it. The
  set is the predicate \<open>new_set\<close> makes from the domains that \<open>Foreach\<close> lists (\<open>None\<close> for no domain).\<close>

definition domain_Reset :: "unit node option \<times> strategy \<Rightarrow> unit node option \<times> strategy" where
  "domain_Reset s = (Some newNode, DomainStrategy None 0)"

fun domain_Insert :: "string \<Rightarrow> unit node option \<times> strategy \<Rightarrow> unit node option \<times> strategy" where
  "domain_Insert rule (Some t, DomainStrategy s n) =
     (case Insert rule () t of
        None \<Rightarrow> (Some t, DomainStrategy s n)
      | Some t' \<Rightarrow> (Some t', DomainStrategy s (Suc n)))"
| "domain_Insert rule s = s"

definition new_domain_set :: "(string list \<Rightarrow> string \<Rightarrow> bool) \<Rightarrow> unit node \<Rightarrow> (string \<Rightarrow> bool) option" where
  "new_domain_set new_set t =
     (let keys = map fst (Foreach t) in if keys = [] then None else Some (new_set keys))"

fun domain_FinishInsert ::
  "(string list \<Rightarrow> string \<Rightarrow> bool) \<Rightarrow> unit node option \<times> strategy \<Rightarrow> unit node option \<times> strategy" where
  "domain_FinishInsert new_set (Some t, DomainStrategy s n) = (None, DomainStrategy (new_domain_set new_set t) n)"
| "domain_FinishInsert new_set s = s"

definition ipcidr_Reset :: "strategy \<Rightarrow> strategy" where
  "ipcidr_Reset s = IpcidrStrategy (Some NewIpCidrTrie) 0 False"

fun ipcidr_Insert :: "(string \<Rightarrow> (u8 list \<times> nat) option) \<Rightarrow> string \<Rightarrow> strategy \<Rightarrow> strategy" where
  "ipcidr_Insert parse rule (IpcidrStrategy (Some t) n ip) =
     (case AddIpCidrForString parse t rule of
        None \<Rightarrow> IpcidrStrategy (Some t) n ip
      | Some t' \<Rightarrow> IpcidrStrategy (Some t') (Suc n) True)"
| "ipcidr_Insert parse rule s = s"

text \<open>The lines of a text rule file that are inserted: \<open>rulesParse\<close> for the format \<open>text\<close>. \<open>None\<close> is
  \<open>ErrNoPayload\<close>, for a file without any newline.\<close>

definition rulesParse_text :: "string \<Rightarrow> string list option" where
  "rulesParse_text buf =
     (let lines = split_on (CHR 0x0A) buf;
          keep = (\<lambda>l. l \<noteq> [] \<and> hd l \<noteq> CHR ''#'' \<and> \<not> has_prefix l ''//'')
      in if length lines = 1 \<and> buf \<noteq> [] then None
         else Some (filter keep (map trim_space lines)))"

text \<open>A classical rule set that names itself, which \<open>Insert\<close> accepts, makes matching it recurse without end:
  no amount of fuel is enough.\<close>

theorem self_rule_set_diverges:
  assumes "ruleProviders (pe_env pe) ''s'' \<noteq> None"
    and p: "ruleProviders e ''s'' = Some (classical_Insert pe ''RULE-SET,s'' NewClassicalStrategy)"
  shows "rule_match e n m (R_RuleSet ''s'' a nr) = NoFuel"
proof -
  have "classical_Insert pe ''RULE-SET,s'' NewClassicalStrategy = ClassicalStrategy [R_RuleSet ''s'' '''' False] 1
      (should_resolve_ip (pe_env pe) (R_RuleSet ''s'' '''' False)) (should_find_process (pe_env pe) (R_RuleSet ''s'' '''' False))"
    using assms(1)
    by (simp add: NewClassicalStrategy_def ruleParse_def classical_parse_def parse_rule.simps parse_leaf_def
        NewRuleSet_def HasNoResolve_def)
  with p obtain ip fp where s: "ruleProviders e ''s'' = Some (ClassicalStrategy [R_RuleSet ''s'' '''' False] 1 ip fp)"
    by auto
  show ?thesis
  proof (induction n arbitrary: a nr)
    case (Suc n)
    then show ?case by (simp add: s)
  qed (simp add: s)
qed

theorem self_rule_set_diverges_witness:
  "let e = \<lparr>geodataMode = False, mmdbLookupCode = \<lambda>_. [], isFakeBroadcastIP = \<lambda>_. False,
        envSubRules = [], ruleProviders = \<lambda>_. Some NewClassicalStrategy\<rparr>;
      pe = \<lparr>pe_env = e, pe_ParsePrefix = \<lambda>_. None, pe_PrefixString = \<lambda>_. [], pe_InitGeoIP = True,
        pe_LoadGeoIPMatcher = \<lambda>_. None, pe_InitGeoSite = True, pe_LoadGeoSiteMatcher = \<lambda>_. None, pe_unix = True\<rparr>
    in rule_match (e\<lparr>ruleProviders := (\<lambda>_. Some (classical_Insert pe ''RULE-SET,s'' NewClassicalStrategy))\<rparr>) 7 metadata0
       (R_RuleSet ''s'' ''P'' False) = NoFuel"
  unfolding Let_def by (rule self_rule_set_diverges) simp_all

end
