(* ===== verification/Hosts.thy ===== *)
theory Hosts
  imports Metadata DomainTrie
begin

text \<open>
  The hosts table: \<open>component/resolver/host.go\<close> and \<open>parseHosts\<close> of \<open>config/config.go\<close>.

  The table is a domain trie of host values. Two loops follow host values from domain to domain, and they may
  not end: they are partial functions, whose value \<open>None\<close> is a loop that never returns.
  \<open>netip.ParseAddr\<close>, \<open>Addr.String\<close> and the system's static hosts are arguments; so is the random index of \<open>RandIP\<close>.
\<close>

record HostValue =
  IsDomain :: bool
  IPs :: "addr list"
  hvDomain :: string

definition NewHostValueByIPs :: "addr list \<Rightarrow> HostValue option" where
  "NewHostValueByIPs ips = (if ips = [] then None else Some \<lparr>IsDomain = False, IPs = ips, hvDomain = []\<rparr>)"

definition NewHostValueByDomain :: "string \<Rightarrow> HostValue option" where
  "NewHostValueByDomain domain =
     (let domain = trim_set ''.'' domain;
          item = split_on (CHR ''.'') domain
      in if length item < 2 then None
         else Some \<lparr>IsDomain = True, IPs = [], hvDomain = domain\<rparr>)"

text \<open>A value of the configuration: a string, a list (of strings or anything printed as one), or something else.\<close>

datatype host_cfg = HStr string | HList "string list" | HOther

fun ToStringSlice :: "host_cfg \<Rightarrow> string list option" where
  "ToStringSlice (HStr s) = Some [s]"
| "ToStringSlice (HList ss) = Some ss"
| "ToStringSlice HOther = None"

fun parse_all :: "(string \<Rightarrow> addr option) \<Rightarrow> string list \<Rightarrow> addr list option" where
  "parse_all parse_addr [] = Some []"
| "parse_all parse_addr (s # ss) =
     (case parse_addr s of None \<Rightarrow> None | Some a \<Rightarrow> map_option (\<lambda>as. a # as) (parse_all parse_addr ss))"

definition NewHostValue :: "(string \<Rightarrow> addr option) \<Rightarrow> host_cfg \<Rightarrow> HostValue option" where
  "NewHostValue parse_addr v =
     (case ToStringSlice v of
        None \<Rightarrow> None
      | Some valueArr \<Rightarrow>
          if length valueArr > 1 then
            (case parse_all parse_addr valueArr of None \<Rightarrow> None | Some ips \<Rightarrow> NewHostValueByIPs ips)
          else if length valueArr = 1 then
            (case parse_addr (hd valueArr) of
               Some ip \<Rightarrow> NewHostValueByIPs [ip]
             | None \<Rightarrow> NewHostValueByDomain (hd valueArr))
          else NewHostValueByDomain [])"

text \<open>\<open>RandIP\<close>: \<open>rnd n\<close> stands for \<open>fastrand.Intn(n)\<close>.\<close>

definition RandIP :: "(nat \<Rightarrow> nat) \<Rightarrow> HostValue \<Rightarrow> addr option" where
  "RandIP rnd hv = (if IsDomain hv then None else Some (IPs hv ! rnd (length (IPs hv))))"

section \<open>Search\<close>

partial_function (option) hosts_follow :: "HostValue node \<Rightarrow> bool \<Rightarrow> HostValue \<Rightarrow> (HostValue \<times> bool) option" where
  "hosts_follow t isDomain hostValue =
     (if isDomain \<and> IsDomain hostValue then Some (hostValue, True)
      else case node_data (Search t (hvDomain hostValue)) of
             Some hv \<Rightarrow> hosts_follow t isDomain hv
           | None \<Rightarrow> Some (hostValue, isDomain = IsDomain hostValue))"

text \<open>The result of \<open>Hosts.Search\<close>: a host value (\<open>None\<close> for nil) and the flag; \<open>None\<close> if it does not return.\<close>

definition Hosts_Search ::
  "(string \<Rightarrow> string list) \<Rightarrow> (string \<Rightarrow> addr option) \<Rightarrow> HostValue node \<Rightarrow> string \<Rightarrow> bool \<Rightarrow>
   (HostValue option \<times> bool) option" where
  "Hosts_Search static parse_addr t domain isDomain =
     (case node_data (Search t domain) of
        Some hv \<Rightarrow> map_option (\<lambda>(hv, b). (Some hv, b)) (hosts_follow t isDomain hv)
      | None \<Rightarrow>
          if \<not> isDomain then
            (case NewHostValue parse_addr (HList (static domain)) of
               Some hv \<Rightarrow> Some (Some hv, True)
             | None \<Rightarrow> Some (None, False))
          else Some (None, False))"

section \<open>parseHosts\<close>

text \<open>The loop that looks for a cycle: \<open>Some True\<close> if it finds one through \<open>domain\<close>.\<close>

partial_function (option) find_cycle :: "HostValue node \<Rightarrow> string \<Rightarrow> HostValue option \<Rightarrow> bool option" where
  "find_cycle t domain nd =
     (case nd of
        None \<Rightarrow> Some False
      | Some hv \<Rightarrow>
          if \<not> IsDomain hv then Some False
          else if hvDomain hv = domain then Some True
          else find_cycle t domain (node_data (Search t (hvDomain hv))))"

text \<open>The entries come in the order of Go's iteration over the map; \<open>ifaces\<close> are the addresses of the interfaces, without
  loopback and link-local ones (\<open>None\<close> for an error), that the value \<open>clash\<close> stands for. The result is \<open>None\<close> if the loop does not
  return, and \<open>Some None\<close> for an error.\<close>

fun parse_host_entries ::
  "(string \<Rightarrow> addr option) \<Rightarrow> (addr \<Rightarrow> string) \<Rightarrow> addr list option \<Rightarrow> (string \<times> host_cfg) list \<Rightarrow> HostValue node \<Rightarrow>
   HostValue node option option" where
  "parse_host_entries parse_addr addr_str ifaces [] t = Some (Some t)"
| "parse_host_entries parse_addr addr_str ifaces ((domain, v) # es) t =
     (let v' = (case (v, ifaces) of
                  (HStr s, Some ips) \<Rightarrow> if s = ''clash'' then HList (map addr_str ips) else v
                | _ \<Rightarrow> v)
      in case NewHostValue parse_addr v' of
           None \<Rightarrow> Some None
         | Some hv \<Rightarrow>
             (case (if IsDomain hv then find_cycle t domain (node_data (Search t (hvDomain hv))) else Some False) of
                None \<Rightarrow> None
              | Some True \<Rightarrow> Some None
              | Some False \<Rightarrow>
                  parse_host_entries parse_addr addr_str ifaces es
                    (case Insert domain hv t of None \<Rightarrow> t | Some t' \<Rightarrow> t')))"

definition parseHosts ::
  "(string \<Rightarrow> addr option) \<Rightarrow> (addr \<Rightarrow> string) \<Rightarrow> addr list option \<Rightarrow> (string \<times> host_cfg) list \<Rightarrow>
   HostValue node option option" where
  "parseHosts parse_addr addr_str ifaces es =
     (let hv = \<lparr>IsDomain = False, IPs = [Addr4 0x7f000001], hvDomain = []\<rparr>;
          t = (case Insert ''localhost'' hv newNode of None \<Rightarrow> newNode | Some t \<Rightarrow> t)
      in case parse_host_entries parse_addr addr_str ifaces es t of
           None \<Rightarrow> None
         | Some None \<Rightarrow> Some None
         | Some (Some t') \<Rightarrow> Some (Some (optimize t')))"

section \<open>Properties\<close>

text \<open>A table without cycles: the domain a value maps to has a smaller rank than the domain that finds the value.\<close>

definition ranked :: "HostValue node \<Rightarrow> (string \<Rightarrow> nat) \<Rightarrow> bool" where
  "ranked t rk \<longleftrightarrow> (\<forall>d hv. node_data (Search t d) = Some hv \<longrightarrow>
     (\<exists>hv'. node_data (Search t (hvDomain hv)) = Some hv') \<longrightarrow> rk (hvDomain hv) < rk d)"

text \<open>The chain of host values from a domain to its end.\<close>

inductive resolves :: "HostValue node \<Rightarrow> string \<Rightarrow> HostValue \<Rightarrow> bool" for t where
  last: "node_data (Search t d) = Some hv \<Longrightarrow> node_data (Search t (hvDomain hv)) = None \<Longrightarrow> resolves t d hv"
| step: "node_data (Search t d) = Some hv \<Longrightarrow> resolves t (hvDomain hv) hv' \<Longrightarrow> resolves t d hv'"

lemma resolves_end: "resolves t d hv \<Longrightarrow> node_data (Search t (hvDomain hv)) = None"
  by (induction rule: resolves.induct) auto

lemma hosts_follow_resolves:
  assumes "resolves t d hv'" and "node_data (Search t d) = Some hv"
  shows "hosts_follow t False hv = Some (hv', \<not> IsDomain hv')"
  using assms
proof (induction arbitrary: hv rule: resolves.induct)
  case (last d hv1)
  then show ?case by (subst hosts_follow.simps) simp
next
  case (step d hv1 hv')
  then have hv: "hv = hv1" by simp
  from step.hyps(2) obtain hv2 where "node_data (Search t (hvDomain hv1)) = Some hv2"
    by (auto elim: resolves.cases)
  with step.IH [of hv2] show ?case unfolding hv by (subst hosts_follow.simps) simp
qed

lemma ranked_resolves:
  assumes "ranked t rk" and "node_data (Search t d) = Some hv"
  shows "\<exists>hv'. resolves t d hv'"
  using assms(2)
proof (induction "rk d" arbitrary: d hv rule: less_induct)
  case less
  show ?case
  proof (cases "node_data (Search t (hvDomain hv))")
    case None
    with less.prems show ?thesis by (blast intro: resolves.last)
  next
    case (Some hv1)
    with assms(1) less.prems have "rk (hvDomain hv) < rk d" unfolding ranked_def by blast
    from less.hyps [OF this Some] obtain hv' where "resolves t (hvDomain hv) hv'" by blast
    with less.prems show ?thesis by (blast intro: resolves.step)
  qed
qed

lemma Hosts_Search_returns: "ranked t rk \<Longrightarrow> Hosts_Search static parse_addr t d False \<noteq> None"
  using ranked_resolves [of t rk d] hosts_follow_resolves [of t d]
  by (cases "node_data (Search t d)") (fastforce simp: Hosts_Search_def split: option.split)+

text \<open>C34: in a table without cycles the lookup of addresses returns for every domain of the table, with the value at the
  end of the chain of names, and reports whether that value holds addresses.\<close>

theorem Hosts_Search_follows_chain:
  assumes "ranked t rk" and "node_data (Search t d) = Some hv"
  shows "\<exists>hv'. resolves t d hv' \<and> Hosts_Search static parse_addr t d False = Some (Some hv', \<not> IsDomain hv')"
  using ranked_resolves [OF assms] hosts_follow_resolves [OF _ assms(2)] assms(2)
  by (auto simp: Hosts_Search_def)

theorem Hosts_Search_follows_chain_witness:
  "\<exists>t hv. Hosts_Search (\<lambda>_. []) (\<lambda>_. None) t ''a.b'' False = Some (Some hv, True) \<and> IPs hv = [Addr4 1]"
proof -
  let ?hv = "\<lparr>IsDomain = False, IPs = [Addr4 1], hvDomain = []\<rparr>"
  define t where "t = insert_all [(''a.b'', ?hv)] newNode"
  have v: "ValidAndSplitDomain ''a.b'' = Some [''a'', ''b'']" "ValidAndSplitDomain [] = None" by code_simp+
  have s: "node_data (Search t ''a.b'') = Some ?hv" unfolding t_def
    by (subst Search_built [OF v(1)]) (simp_all add: last_insert_def pattern_paths_def v complexWildcard_def dotWildcard_def wildcard_def del: insert_all.simps)
  have e: "node_data (Search t []) = None"
    by (simp add: Search_candidates v)
  have val: "hv = ?hv" if "node_data (Search t d) = Some hv" for d hv
  proof -
    from that obtain ps where
      "first_some (map (last_insert [(''a.b'', ?hv)]) (candidates (rev ps))) = Some hv"
      unfolding t_def Search_candidates look_built by (auto split: option.splits if_splits)
    from first_some_SomeD [OF this] obtain q where "last_insert [(''a.b'', ?hv)] q = Some hv"
      by (metis (no_types, lifting) ex_map_conv)
    then show ?thesis by (auto simp: last_insert_def split: if_splits)
  qed
  have r: "ranked t (\<lambda>_. 0)" unfolding ranked_def using val e by fastforce
  show ?thesis using Hosts_Search_follows_chain [OF r s, of "\<lambda>_. []" "\<lambda>_. None"]
  proof (elim exE conjE)
    fix hv' assume h: "resolves t ''a.b'' hv'" "Hosts_Search (\<lambda>_. []) (\<lambda>_. None) t ''a.b'' False = Some (Some hv', \<not> IsDomain hv')"
    from h(1) have "hv' = ?hv" by (cases rule: resolves.cases) (use s e in \<open>auto elim: resolves.cases\<close>)
    with h(2) show ?thesis by (intro exI [of _ t] exI [of _ ?hv]) simp
  qed
qed

lemma hosts_follow_self:
  assumes "node_data (Search t (hvDomain hv)) = Some hv"
  shows "hosts_follow t False hv = None"
proof (cases "hosts_follow t False hv")
  case (Some r)
  have "\<not> False \<longrightarrow> node_data (Search t (hvDomain hv)) = Some hv \<longrightarrow> False"
  proof (rule hosts_follow.raw_induct
      [of "\<lambda>t b (hv :: HostValue) (r :: HostValue \<times> bool). \<not> b \<longrightarrow> node_data (Search t (hvDomain hv)) = Some hv \<longrightarrow> False", OF _ Some])
    fix f and t :: "HostValue node" and b and hv :: HostValue and r :: "HostValue \<times> bool"
    assume IH: "\<And>t b hv r. f t b hv = Some r \<Longrightarrow> \<not> b \<longrightarrow> node_data (Search t (hvDomain hv)) = Some hv \<longrightarrow> False"
      and body: "(if b \<and> IsDomain hv then Some (hv, True)
        else case node_data (Search t (hvDomain hv)) of
               Some hv \<Rightarrow> f t b hv
             | None \<Rightarrow> Some (hv, b = IsDomain hv)) = Some r"
    show "\<not> b \<longrightarrow> node_data (Search t (hvDomain hv)) = Some hv \<longrightarrow> False"
    proof (intro impI)
      assume b: "\<not> b" and s: "node_data (Search t (hvDomain hv)) = Some hv"
      with body have "f t b hv = Some r" by simp
      from IH [OF this] b s show False by blast
    qed
  qed
  with assms show ?thesis by blast
qed

text \<open>A name mapped to itself is accepted by \<open>parseHosts\<close>, whose cycle check looks the target up before
  the entry is inserted, and the lookup of its addresses then never returns.\<close>

theorem self_host_hangs:
  assumes "parse_addr ''a.b'' = None"
  shows "\<exists>t. parseHosts parse_addr addr_str ifaces [(''a.b'', HStr ''a.b'')] = Some (Some t) \<and>
    Hosts_Search static parse_addr t ''a.b'' False = None"
proof -
  let ?lo = "\<lparr>IsDomain = False, IPs = [Addr4 0x7f000001], hvDomain = []\<rparr>"
  let ?hv = "\<lparr>IsDomain = True, IPs = [], hvDomain = ''a.b''\<rparr>"
  define t where "t = insert_all [(''localhost'', ?lo), (''a.b'', ?hv)] newNode"
  have v: "ValidAndSplitDomain ''a.b'' = Some [''a'', ''b'']"
    "ValidAndSplitDomain ''localhost'' = Some [''localhost'']" by code_simp+
  have c: "(if s = ''clash'' then x else HStr s) = HStr s" if "s = ''a.b''" for s x using that by simp
  have hv: "NewHostValue parse_addr (HStr ''a.b'') = Some ?hv"
    using assms by (simp add: NewHostValue_def NewHostValueByDomain_def trim_set_def)
  have s0: "node_data (Search (insert_all [(''localhost'', ?lo)] newNode) ''a.b'') = None"
    by (subst Search_built [OF v(1)]) (simp_all add: last_insert_def pattern_paths_def v complexWildcard_def dotWildcard_def wildcard_def del: insert_all.simps)
  have s: "node_data (Search (optimize t) ''a.b'') = Some ?hv"
    unfolding t_def Search_optimize_built
    by (subst Search_built [OF v(1)]) (simp_all add: last_insert_def pattern_paths_def v complexWildcard_def dotWildcard_def wildcard_def del: insert_all.simps)
  have i: "(case Insert ''localhost'' ?lo newNode of None \<Rightarrow> newNode | Some t \<Rightarrow> t) = insert_all [(''localhost'', ?lo)] newNode"
    by simp
  have t: "(case Insert ''a.b'' ?hv (insert_all [(''localhost'', ?lo)] newNode) of
      None \<Rightarrow> insert_all [(''localhost'', ?lo)] newNode | Some t' \<Rightarrow> t') = t"
    unfolding t_def insert_all.simps ..
  have "parseHosts parse_addr addr_str ifaces [(''a.b'', HStr ''a.b'')] = Some (Some (optimize t))"
    unfolding parseHosts_def Let_def i
    by (cases ifaces) (simp_all add: hv s0 t find_cycle.simps del: insert_all.simps)
  moreover have "Hosts_Search static parse_addr (optimize t) ''a.b'' False = None"
    using s hosts_follow_self [of "optimize t" ?hv] by (simp add: Hosts_Search_def)
  ultimately show ?thesis by blast
qed

theorem self_host_hangs_witness:
  "\<exists>t. parseHosts (\<lambda>_. None) (\<lambda>_. []) None [(''a.b'', HStr ''a.b'')] = Some (Some t) \<and>
    Hosts_Search (\<lambda>_. []) (\<lambda>_. None) t ''a.b'' False = None"
  by (rule self_host_hangs) simp

end
