(* ===== verification/Tunnel.thy ===== *)
theory Tunnel
  imports RuleParse Hosts
begin

text \<open>
  The tunnel (\<open>tunnel/tunnel.go\<close>) and the host mapper it asks (\<open>component/resolver/enhancer.go\<close>): what
  happens to the metadata of a connection, which rule and proxy it gets, and how often a dial is retried.

  A proxy is its name, its type, whether it supports UDP, and the proxy it unwraps to for given
  metadata; the nesting of groups is well founded, as the configuration admits no cycle of groups. The
  tunnel's global variables are the record \<open>tunnel\<close>; the functions of other packages and of the outside
  world are the record \<open>tunnel_ext\<close>: \<open>netip.ParseAddr\<close>, the static hosts of the system, the random index of
  \<open>RandIP\<close> (one function for a run), the resolver, the process finder and the sniffer. Locks, logging and the
  copying of data are not modelled here; the handling of UDP sessions is in theory \<open>NatTable\<close>.
\<close>

section \<open>The host mapper\<close>

text \<open>An \<open>Enhancer\<close> at one moment: what each of its queries answers.\<close>

record host_mapper =
  hm_FakeIPEnabled :: bool
  hm_MappingEnabled :: bool
  hm_IsFakeIP :: "addr \<Rightarrow> bool"
  hm_IsFakeBroadcastIP :: "addr \<Rightarrow> bool"
  hm_IsExistFakeIP :: "addr \<Rightarrow> bool"
  hm_FindHostByIP :: "addr \<Rightarrow> string option"

definition FakeIPEnabled :: "host_mapper option \<Rightarrow> bool" where
  "FakeIPEnabled mapper = (case mapper of Some h \<Rightarrow> hm_FakeIPEnabled h | None \<Rightarrow> False)"

definition MappingEnabled :: "host_mapper option \<Rightarrow> bool" where
  "MappingEnabled mapper = (case mapper of Some h \<Rightarrow> hm_MappingEnabled h | None \<Rightarrow> False)"

definition IsFakeIP :: "host_mapper option \<Rightarrow> addr \<Rightarrow> bool" where
  "IsFakeIP mapper ip = (case mapper of Some h \<Rightarrow> hm_IsFakeIP h ip | None \<Rightarrow> False)"

definition IsFakeBroadcastIP :: "host_mapper option \<Rightarrow> addr \<Rightarrow> bool" where
  "IsFakeBroadcastIP mapper ip = (case mapper of Some h \<Rightarrow> hm_IsFakeBroadcastIP h ip | None \<Rightarrow> False)"

definition IsExistFakeIP :: "host_mapper option \<Rightarrow> addr \<Rightarrow> bool" where
  "IsExistFakeIP mapper ip = (case mapper of Some h \<Rightarrow> hm_IsExistFakeIP h ip | None \<Rightarrow> False)"

definition FindHostByIP :: "host_mapper option \<Rightarrow> addr \<Rightarrow> string option" where
  "FindHostByIP mapper ip = (case mapper of Some h \<Rightarrow> hm_FindHostByIP h ip | None \<Rightarrow> None)"

section \<open>The state of the tunnel\<close>

datatype proxy =
  Proxy (px_name: string) (px_type: AdapterType) (px_udp: bool) (px_unwrap: "metadata \<Rightarrow> proxy option")

record tunnel =
  tRules :: "rule list"
  tEnv :: rule_env
  tProxies :: "string \<Rightarrow> proxy option"
  tMode :: TunnelMode
  tStatus :: TunnelStatus
  tFindProcess :: FindProcessMode
  tHosts :: "HostValue node"
  tMapper :: "host_mapper option"
  tFakeIPRange :: prefix

text \<open>\<open>xSniff\<close> is \<open>None\<close> when sniffing is not enabled, otherwise what \<open>TCPSniff\<close> does to the metadata and returns.\<close>

record tunnel_ext =
  xParseAddr :: "string \<Rightarrow> addr option"
  xStaticHost :: "string \<Rightarrow> string list"
  xRnd :: "nat \<Rightarrow> nat"
  xResolveIP :: "string \<Rightarrow> addr option"
  xFindProcess :: "string \<Rightarrow> addr \<Rightarrow> u16 \<Rightarrow> (u32 \<times> string) option"
  xSniff :: "(metadata \<Rightarrow> bool \<times> metadata) option"

definition isHandle :: "tunnel \<Rightarrow> MType \<Rightarrow> bool" where
  "isHandle t ty \<longleftrightarrow> tStatus t = S_Running \<or> (tStatus t = S_Inner \<and> ty = T_INNER)"

definition UpdateRules ::
  "rule list \<Rightarrow> (string \<times> rule list) list \<Rightarrow> (string \<Rightarrow> strategy option) \<Rightarrow> tunnel \<Rightarrow> tunnel" where
  "UpdateRules newRules newSubRule rp t =
     t\<lparr>tRules := newRules, tEnv := (tEnv t)\<lparr>envSubRules := newSubRule, ruleProviders := rp\<rparr>\<rparr>"

text \<open>The table of hosts; a lookup that does not return is \<open>NoFuel\<close>.\<close>

definition hosts_lookup ::
  "tunnel \<Rightarrow> tunnel_ext \<Rightarrow> string \<Rightarrow> bool \<Rightarrow> (HostValue option \<times> bool) outcome" where
  "hosts_lookup t x domain isDomain =
     (case Hosts_Search (xStaticHost x) (xParseAddr x) (tHosts t) domain isDomain of
        None \<Rightarrow> NoFuel | Some r \<Rightarrow> Done r)"

text \<open>\<open>ip, _ = node.RandIP()\<close>.\<close>

definition rand_ip :: "tunnel_ext \<Rightarrow> HostValue \<Rightarrow> addr" where
  "rand_ip x hv = (case RandIP (xRnd x) hv of Some ip \<Rightarrow> ip | None \<Rightarrow> NoAddr)"

section \<open>Preprocessing\<close>

definition needLookupIP :: "tunnel \<Rightarrow> metadata \<Rightarrow> bool" where
  "needLookupIP t m \<longleftrightarrow> MappingEnabled (tMapper t) \<and> mHost m = '''' \<and> addr_valid (mDstIP m)"

text \<open>The flag is \<open>False\<close> for the error of a missing fake DNS record.\<close>

definition preHandleMetadata :: "tunnel \<Rightarrow> tunnel_ext \<Rightarrow> metadata \<Rightarrow> (bool \<times> metadata) outcome" where
  "preHandleMetadata t x m =
     (let m1 = (case xParseAddr x (mHost m) of Some ip \<Rightarrow> m\<lparr>mDstIP := ip, mHost := ''''\<rparr> | None \<Rightarrow> m)
      in if needLookupIP t m1 then
           (case FindHostByIP (tMapper t) (mDstIP m1) of
              Some host \<Rightarrow>
                let m2 = m1\<lparr>mHost := host, mDNSMode := DNSMapping\<rparr>
                in if FakeIPEnabled (tMapper t) then Done (True, m2\<lparr>mDstIP := NoAddr, mDNSMode := DNSFakeIP\<rparr>)
                   else obind (hosts_lookup t x host False) (\<lambda>(node, ok). Done (True,
                     case node of
                       None \<Rightarrow> m2
                     | Some hv \<Rightarrow>
                         if ok then m2\<lparr>mDstIP := rand_ip x hv\<rparr>
                         else if IsDomain hv then m2\<lparr>mHost := hvDomain hv\<rparr>
                         else m2))
            | None \<Rightarrow>
                if IsFakeIP (tMapper t) (mDstIP m1) then Done (False, m1) else Done (True, m1))
         else obind (hosts_lookup t x (mHost m1) True) (\<lambda>(node, ok). Done (True,
           case node of Some hv \<Rightarrow> if ok then m1\<lparr>mHost := hvDomain hv\<rparr> else m1 | None \<Rightarrow> m1)))"

section \<open>Choosing a rule\<close>

definition shouldResolveIP :: "rule_env \<Rightarrow> rule \<Rightarrow> metadata \<Rightarrow> bool" where
  "shouldResolveIP e r m \<longleftrightarrow> should_resolve_ip e r \<and> mHost m \<noteq> '''' \<and> \<not> addr_valid (mDstIP m)"

text \<open>\<open>filepath.Base\<close> on unix.\<close>

definition filepath_base :: "string \<Rightarrow> string" where
  "filepath_base path =
     (if path = '''' then ''.''
      else let p = trim_right_set ''/'' path
           in if p = '''' then ''/'' else rev (takeWhile (\<lambda>c. c \<noteq> CHR ''/'') (rev p)))"

text \<open>What the loop of \<open>match\<close> does before it asks a rule, with the variables \<open>resolved\<close> and \<open>attemptProcessLookup\<close>.\<close>

type_synonym match_state = "bool \<times> bool \<times> metadata"

definition match_prepare :: "tunnel \<Rightarrow> tunnel_ext \<Rightarrow> rule \<Rightarrow> match_state \<Rightarrow> match_state" where
  "match_prepare t x r st =
     (let (resolved, attempt, m) = st;
          (resolved1, m1) =
            (if \<not> resolved \<and> shouldResolveIP (tEnv t) r m
             then (True, case xResolveIP x (mHost m) of Some ip \<Rightarrow> m\<lparr>mDstIP := ip\<rparr> | None \<Rightarrow> m)
             else (resolved, m))
      in if attempt \<and> tFindProcess t \<noteq> FP_Off \<and> (tFindProcess t = FP_Always \<or> should_find_process (tEnv t) r)
         then (resolved1, False,
           case xFindProcess x (NetWork_String (mNetWork m1)) (mSrcIP m1) (mSrcPort m1) of
             Some (uid, path) \<Rightarrow> m1\<lparr>mProcess := filepath_base path, mProcessPath := path, mUid := uid\<rparr>
           | None \<Rightarrow> m1)
         else (resolved1, attempt, m1))"

primrec passes :: "metadata \<Rightarrow> proxy \<Rightarrow> bool" where
  "passes m (Proxy name ty udp unwrap) =
     (ty = A_Pass \<or> (case map_option (passes m) (unwrap m) of None \<Rightarrow> False | Some b \<Rightarrow> b))"

definition usable :: "metadata \<Rightarrow> proxy \<Rightarrow> bool" where
  "usable m p \<longleftrightarrow> \<not> passes m p \<and> \<not> (mNetWork m = UDP \<and> \<not> px_udp p)"

fun match_rules ::
  "tunnel \<Rightarrow> tunnel_ext \<Rightarrow> nat \<Rightarrow> match_state \<Rightarrow> rule list \<Rightarrow> (proxy option \<times> rule option \<times> metadata) outcome" where
  "match_rules t x n st [] = Done (tProxies t ''DIRECT'', None, snd (snd st))"
| "match_rules t x n st (r # rs) =
     (let st' = match_prepare t x r st; m = snd (snd st')
      in obind (rule_match (tEnv t) n m r) (\<lambda>(matched, ada).
           if \<not> matched then match_rules t x n st' rs
           else case tProxies t ada of
                  None \<Rightarrow> match_rules t x n st' rs
                | Some p \<Rightarrow> if usable m p then Done (Some p, Some r, m) else match_rules t x n st' rs))"

definition getRules :: "tunnel \<Rightarrow> metadata \<Rightarrow> rule list" where
  "getRules t m =
     (case map_of (envSubRules (tEnv t)) (mSpecialRules m) of Some sr \<Rightarrow> sr | None \<Rightarrow> tRules t)"

definition tunnel_match ::
  "tunnel \<Rightarrow> tunnel_ext \<Rightarrow> nat \<Rightarrow> metadata \<Rightarrow> (proxy option \<times> rule option \<times> metadata) outcome" where
  "tunnel_match t x n m =
     obind (hosts_lookup t x (mHost m) False) (\<lambda>(node, ok).
       match_rules t x n
         (case node of
            Some hv \<Rightarrow> if ok then (True, True, m\<lparr>mDstIP := rand_ip x hv\<rparr>) else (False, True, m)
          | None \<Rightarrow> (False, True, m))
         (getRules t m))"

definition resolveMetadata ::
  "tunnel \<Rightarrow> tunnel_ext \<Rightarrow> nat \<Rightarrow> metadata \<Rightarrow> (string, proxy option \<times> rule option \<times> metadata) go_result outcome" where
  "resolveMetadata t x n m =
     (if mSpecialProxy m \<noteq> '''' then
        Done (case tProxies t (mSpecialProxy m) of
                None \<Rightarrow> Err (''proxy '' @ mSpecialProxy m @ '' not found'')
              | Some p \<Rightarrow> Ok (Some p, None, m))
      else case tMode t of
             M_Direct \<Rightarrow> Done (Ok (tProxies t ''DIRECT'', None, m))
           | M_Global \<Rightarrow> Done (Ok (tProxies t ''GLOBAL'', None, m))
           | M_Rule \<Rightarrow> obind (tunnel_match t x n m) (\<lambda>r. Done (Ok r)))"

section \<open>A TCP connection\<close>

text \<open>What \<open>handleTCPConn\<close> does up to the dial: close at once, return, or dial with the given proxy. The metadata and the
  metadata for the dial share the record until \<open>Pure\<close> copies it, so the address found in the hosts is in both.\<close>

datatype tcp_plan =
  TcpClose
| TcpInvalid
| TcpGiveUp
| TcpNoProxy string
| TcpDial "proxy option" "rule option" metadata metadata

definition dial_metadata :: "tunnel \<Rightarrow> tunnel_ext \<Rightarrow> metadata \<Rightarrow> (metadata \<times> metadata) outcome" where
  "dial_metadata t x m =
     (if mHost m = '''' then Done (m, m)
      else obind (hosts_lookup t x (mHost m) False) (\<lambda>(node, ok). Done (
        case node of
          None \<Rightarrow> (m, m)
        | Some hv \<Rightarrow>
            if ok \<and> \<not> prefix_contains (tFakeIPRange t) (rand_ip x hv)
            then let m1 = m\<lparr>mDstIP := rand_ip x hv, mDNSMode := DNSHosts\<rparr> in (m1, Pure m1)
            else (m, m))))"

definition handleTCPConn :: "tunnel \<Rightarrow> tunnel_ext \<Rightarrow> nat \<Rightarrow> metadata \<Rightarrow> tcp_plan outcome" where
  "handleTCPConn t x n m =
     (if \<not> isHandle t (mType m) then Done TcpClose
      else if \<not> meta_Valid m then Done TcpInvalid
      else obind (preHandleMetadata t x m) (\<lambda>(ok, m1).
        let (sniffed, m2) = (case xSniff x of None \<Rightarrow> (False, m1) | Some f \<Rightarrow> f m1)
        in if \<not> ok \<and> \<not> sniffed then Done TcpGiveUp
           else obind (resolveMetadata t x n m2) (\<lambda>r. case r of
             Err e \<Rightarrow> Done (TcpNoProxy e)
           | Ok (p, ru, m3) \<Rightarrow> obind (dial_metadata t x m3) (\<lambda>(m4, dm). Done (TcpDial p ru m4 dm)))))"

section \<open>Retry\<close>

text \<open>\<open>retry\<close>: attempt \<open>i\<close> gives \<open>ft i\<close>; \<open>cancelled i\<close> says that the context ends during the pause after attempt \<open>i\<close>. The
  result of the last attempt made, and the number of attempts.\<close>

fun retry_loop :: "nat \<Rightarrow> nat \<Rightarrow> (nat \<Rightarrow> ('e, 'a) go_result) \<Rightarrow> (nat \<Rightarrow> bool) \<Rightarrow> ('e, 'a) go_result \<Rightarrow> ('e, 'a) go_result \<times> nat" where
  "retry_loop 0 i ft cancelled r = (r, i)"
| "retry_loop (Suc k) i ft cancelled r =
     (case ft i of
        Ok v \<Rightarrow> (Ok v, Suc i)
      | Err e \<Rightarrow> if cancelled i then (Err e, Suc i) else retry_loop k (Suc i) ft cancelled (Err e))"

definition retry :: "(nat \<Rightarrow> ('e, 'a) go_result) \<Rightarrow> (nat \<Rightarrow> bool) \<Rightarrow> ('e, 'a) go_result \<times> nat" where
  "retry ft cancelled = retry_loop 10 0 ft cancelled (ft 0)"

section \<open>The rule that is chosen\<close>

text \<open>The metadata that each rule of the list is asked with: it does not depend on the answers.\<close>

fun seen :: "tunnel \<Rightarrow> tunnel_ext \<Rightarrow> match_state \<Rightarrow> rule list \<Rightarrow> metadata list" where
  "seen t x st [] = []"
| "seen t x st (r # rs) = (let st' = match_prepare t x r st in snd (snd st') # seen t x st' rs)"

definition final_meta :: "tunnel \<Rightarrow> tunnel_ext \<Rightarrow> match_state \<Rightarrow> rule list \<Rightarrow> metadata" where
  "final_meta t x st rs = snd (snd (foldl (\<lambda>st r. match_prepare t x r st) st rs))"

text \<open>Rule \<open>r\<close>, asked with \<open>m\<close>, gives the proxy \<open>p\<close>.\<close>

definition offers :: "tunnel \<Rightarrow> nat \<Rightarrow> rule \<Rightarrow> metadata \<Rightarrow> proxy \<Rightarrow> bool" where
  "offers t n r m p \<longleftrightarrow> (\<exists>a. rule_match (tEnv t) n m r = Done (True, a) \<and> tProxies t a = Some p \<and> usable m p)"

lemma length_seen [simp]: "length (seen t x st rs) = length rs"
  by (induction rs arbitrary: st) (auto simp: Let_def)

lemma match_rules_Cons_cases:
  assumes "match_rules t x n st (r # rs) = Done (p, ro, m')"
  obtains q where "offers t n r (snd (snd (match_prepare t x r st))) q" "p = Some q" "ro = Some r"
      "m' = snd (snd (match_prepare t x r st))"
  | "\<not> (\<exists>q. offers t n r (snd (snd (match_prepare t x r st))) q)"
    "match_rules t x n (match_prepare t x r st) rs = Done (p, ro, m')"
proof -
  let ?m = "snd (snd (match_prepare t x r st))"
  from assms obtain b a where r: "rule_match (tEnv t) n ?m r = Done (b, a)"
    by (auto simp: obind_Done Let_def)
  show thesis
  proof (cases "b \<and> (\<exists>q. tProxies t a = Some q \<and> usable ?m q)")
    case True
    then obtain q where q: "tProxies t a = Some q" "usable ?m q" and b by blast
    with r have "offers t n r ?m q" by (auto simp: offers_def)
    moreover from assms r q \<open>b\<close> have "p = Some q" "ro = Some r" "m' = ?m" by (auto simp: Let_def)
    ultimately show thesis by (rule that(1))
  next
    case False
    with r have "\<not> (\<exists>q. offers t n r ?m q)" by (auto simp: offers_def)
    moreover from assms r False have "match_rules t x n (match_prepare t x r st) rs = Done (p, ro, m')"
      by (auto simp: Let_def split: if_splits option.splits)
    ultimately show thesis by (rule that(2))
  qed
qed

lemma match_rules_first:
  "match_rules t x n st rs = Done (p, ro, m') \<Longrightarrow>
   (ro = None \<and> p = tProxies t ''DIRECT'' \<and> m' = final_meta t x st rs \<and>
      (\<forall>j < length rs. \<not> (\<exists>q. offers t n (rs ! j) (seen t x st rs ! j) q))) \<or>
   (\<exists>i q. i < length rs \<and> ro = Some (rs ! i) \<and> p = Some q \<and> m' = seen t x st rs ! i \<and> offers t n (rs ! i) m' q \<and>
      (\<forall>j < i. \<not> (\<exists>q. offers t n (rs ! j) (seen t x st rs ! j) q)))"
proof (induction rs arbitrary: st)
  case Nil
  then show ?case by (simp add: final_meta_def)
next
  case (Cons r rs)
  let ?st = "match_prepare t x r st"
  from Cons.prems show ?case
  proof (cases rule: match_rules_Cons_cases)
    case (1 q)
    then show ?thesis by (intro disjI2 exI [of _ 0] exI [of _ q]) (simp add: Let_def)
  next
    case 2
    have f: "final_meta t x st (r # rs) = final_meta t x ?st rs" by (simp add: final_meta_def)
    from Cons.IH [OF 2(2)] show ?thesis
    proof (elim disjE exE conjE)
      assume "ro = None" "p = tProxies t ''DIRECT''" "m' = final_meta t x ?st rs"
        and "\<forall>j < length rs. \<not> (\<exists>q. offers t n (rs ! j) (seen t x ?st rs ! j) q)"
      with 2(1) show ?thesis by (intro disjI1) (auto simp: f Let_def less_Suc_eq_0_disj)
    next
      fix i q
      assume "i < length rs" "ro = Some (rs ! i)" "p = Some q" "m' = seen t x ?st rs ! i" "offers t n (rs ! i) m' q"
        and "\<forall>j < i. \<not> (\<exists>q. offers t n (rs ! j) (seen t x ?st rs ! j) q)"
      with 2(1) show ?thesis
        by (intro disjI2 exI [of _ "Suc i"] exI [of _ q]) (auto simp: Let_def less_Suc_eq_0_disj)
    qed
  qed
qed

text \<open>The state in which the loop starts.\<close>

definition match_start :: "tunnel_ext \<Rightarrow> metadata \<Rightarrow> HostValue option \<times> bool \<Rightarrow> match_state" where
  "match_start x m found =
     (case found of
        (Some hv, True) \<Rightarrow> (True, True, m\<lparr>mDstIP := rand_ip x hv\<rparr>)
      | _ \<Rightarrow> (False, True, m))"

lemma tunnel_match_alt:
  "tunnel_match t x n m =
     obind (hosts_lookup t x (mHost m) False) (\<lambda>f. match_rules t x n (match_start x m f) (getRules t m))"
  unfolding tunnel_match_def match_start_def
  by (rule arg_cong [where f = "obind _"], rule ext) (auto split: option.split)

text \<open>C6: \<open>match\<close> returns the first rule of the list in force that matches, names an existing proxy, does not
  lead to a \<open>Pass\<close> adapter and can carry the traffic; without one it returns \<open>DIRECT\<close> and no rule. Each rule is asked with the
  metadata as the lookups for the rules before it have left it.\<close>

theorem match_first_usable:
  assumes "hosts_lookup t x (mHost m) False = Done found" and "tunnel_match t x n m = Done (p, ro, m')"
  shows "let rs = getRules t m; ms = seen t x (match_start x m found) rs in
     (ro = None \<and> p = tProxies t ''DIRECT'' \<and> (\<forall>j < length rs. \<not> (\<exists>q. offers t n (rs ! j) (ms ! j) q))) \<or>
     (\<exists>i q. i < length rs \<and> ro = Some (rs ! i) \<and> p = Some q \<and> m' = ms ! i \<and> offers t n (rs ! i) m' q \<and>
        (\<forall>j < i. \<not> (\<exists>q. offers t n (rs ! j) (ms ! j) q)))"
  using match_rules_first [of t x n "match_start x m found" "getRules t m" p ro m'] assms
  by (auto simp: tunnel_match_alt Let_def)

section \<open>What match changes\<close>

text \<open>The loop changes only the destination address and the process, looks a name up at most once and only for a
  connection without an address.\<close>

definition resolved_from :: "tunnel_ext \<Rightarrow> match_state \<Rightarrow> match_state \<Rightarrow> bool" where
  "resolved_from x st st' \<longleftrightarrow>
     (let (res, att, m) = st; (res', att', m') = st' in
      m' = m\<lparr>mDstIP := mDstIP m', mProcess := mProcess m', mProcessPath := mProcessPath m', mUid := mUid m'\<rparr> \<and>
      (res \<longrightarrow> res') \<and> (att' \<longrightarrow> att) \<and>
      (mDstIP m' = mDstIP m \<or>
       (\<not> res \<and> res' \<and> mHost m \<noteq> '''' \<and> \<not> addr_valid (mDstIP m) \<and> xResolveIP x (mHost m) = Some (mDstIP m'))))"

lemma resolved_from_refl [simp]: "resolved_from x st st"
  by (cases st) (simp add: resolved_from_def)

lemma resolved_from_prepare: "resolved_from x st (match_prepare t x r st)"
  by (cases st)
    (auto simp: resolved_from_def match_prepare_def shouldResolveIP_def Let_def split: option.splits prod.splits if_splits)

lemma resolved_from_trans [trans]:
  assumes "resolved_from x a b" and "resolved_from x b c"
  shows "resolved_from x a c"
proof -
  obtain r1 t1 m1 r2 t2 m2 r3 t3 m3 where [simp]: "a = (r1, t1, m1)" "b = (r2, t2, m2)" "c = (r3, t3, m3)"
    by (metis prod_cases3)
  from assms(1) have h: "mHost m2 = mHost m1"
    unfolding resolved_from_def by simp (metis metadata.ext_inject metadata.surjective metadata.update_convs(4,14,15,13))
  have "m3 = m1\<lparr>mDstIP := mDstIP m3, mProcess := mProcess m3, mProcessPath := mProcessPath m3, mUid := mUid m3\<rparr>"
    using assms unfolding resolved_from_def by (cases m1, cases m2, cases m3) simp
  with assms h show ?thesis unfolding resolved_from_def by auto
qed

lemma match_rules_changes:
  "match_rules t x n st rs = Done (p, ro, m') \<Longrightarrow> \<exists>res att. resolved_from x st (res, att, m')"
proof (induction rs arbitrary: st)
  case Nil
  then show ?case by (cases st) (auto intro: resolved_from_refl)
next
  case (Cons r rs)
  let ?st = "match_prepare t x r st"
  have s: "resolved_from x st ?st" by (rule resolved_from_prepare)
  from Cons.prems show ?case
  proof (cases rule: match_rules_Cons_cases)
    case (1 q)
    with s show ?thesis by (cases ?st) auto
  next
    case 2
    from Cons.IH [OF 2(2)] s show ?thesis by (blast intro: resolved_from_trans)
  qed
qed

text \<open>Choosing a rule changes nothing of the metadata but the destination address and the process information; the
  address changes only for a connection that has none, and then it is the one the resolver gives for its host name.\<close>

theorem match_keeps_metadata:
  assumes "hosts_lookup t x (mHost m) False = Done (node, False)" and "tunnel_match t x n m = Done (p, ro, m')"
  shows "m' = m\<lparr>mDstIP := mDstIP m', mProcess := mProcess m', mProcessPath := mProcessPath m', mUid := mUid m'\<rparr> \<and>
    (mDstIP m' = mDstIP m \<or>
     (mHost m \<noteq> '''' \<and> \<not> addr_valid (mDstIP m) \<and> xResolveIP x (mHost m) = Some (mDstIP m')))"
proof -
  have s: "match_start x m (node, False) = (False, True, m)" by (simp add: match_start_def split: option.split)
  from assms have "match_rules t x n (False, True, m) (getRules t m) = Done (p, ro, m')"
    by (simp add: tunnel_match_alt s)
  from match_rules_changes [OF this] show ?thesis by (auto simp: resolved_from_def)
qed

section \<open>Matching returns\<close>

lemma match_rules_done:
  assumes "\<And>r m. r \<in> set rs \<Longrightarrow> \<exists>x. rule_match (tEnv t) n m r = Done x"
  shows "\<exists>y. match_rules t x n st rs = Done y"
  using assms
proof (induction rs arbitrary: st)
  case (Cons r rs)
  have IH: "\<exists>y. match_rules t x n st rs = Done y" for st using Cons.IH [of st] Cons.prems by simp
  obtain b a where "rule_match (tEnv t) n (snd (snd (match_prepare t x r st))) r = Done (b, a)"
    using Cons.prems [of r "snd (snd (match_prepare t x r st))"] by auto
  with IH show ?case by (auto simp: Let_def split: option.split)
qed simp


section \<open>Fake addresses\<close>

lemma obind_split_Done: "obind r f = Done y \<Longrightarrow> (\<And>z. r = Done z \<Longrightarrow> f z = Done y \<Longrightarrow> thesis) \<Longrightarrow> thesis"
  by (cases r) auto

text \<open>C16: in fake IP mode, when preprocessing succeeds for a connection that names its destination by a valid address, in the
  host or in the address of the metadata, a fake address does not stay in the metadata: either the mapper knows the host name
  of the address, and the metadata has that name and no address, or the address stays and is not a fake one.\<close>

theorem preHandle_no_fake:
  assumes "FakeIPEnabled (tMapper t)" "MappingEnabled (tMapper t)"
    and "xParseAddr x (mHost m) = Some ip \<or> (mHost m = '''' \<and> xParseAddr x '''' = None \<and> mDstIP m = ip)"
    and "addr_valid ip" and "preHandleMetadata t x m = Done (True, m')"
  shows "(FindHostByIP (tMapper t) ip = Some (mHost m') \<and> mDstIP m' = NoAddr \<and> mDNSMode m' = DNSFakeIP) \<or>
    (mDstIP m' = ip \<and> \<not> IsFakeIP (tMapper t) ip)"
  using assms
  by (auto simp: preHandleMetadata_def needLookupIP_def Let_def split: option.splits if_splits)

section \<open>Retrying\<close>

lemma retry_loop_result:
  "retry_loop k i ft cancelled r = (res, c) \<Longrightarrow> 0 < k \<Longrightarrow>
    i < c \<and> c \<le> i + k \<and> res = ft (c - 1) \<and> (\<forall>j. i \<le> j \<and> j < c - 1 \<longrightarrow> (\<exists>e. ft j = Err e) \<and> \<not> cancelled j) \<and>
    ((\<exists>v. res = Ok v) \<or> cancelled (c - 1) \<or> c = i + k)"
proof (induction k i ft cancelled r rule: retry_loop.induct)
  case (2 k i ft cancelled r)
  show ?case
  proof (cases "ft i")
    case (Ok v)
    with "2.prems" have "res = Ok v" "c = Suc i" by simp_all
    with Ok "2.prems"(2) show ?thesis by auto
  next
    case (Err e)
    show ?thesis
    proof (cases "cancelled i \<or> k = 0")
      case True
      with 2 Err show ?thesis by (auto split: if_splits)
    next
      case False
      with 2 Err have IH: "Suc i < c \<and> c \<le> Suc i + k \<and> res = ft (c - 1) \<and>
        (\<forall>j. Suc i \<le> j \<and> j < c - 1 \<longrightarrow> (\<exists>e. ft j = Err e) \<and> \<not> cancelled j) \<and>
        ((\<exists>v. res = Ok v) \<or> cancelled (c - 1) \<or> c = Suc i + k)" by auto
      have "(\<exists>e. ft j = Err e) \<and> \<not> cancelled j" if "i \<le> j" "j < c - 1" for j
        using IH that Err False by (cases "j = i") auto
      with IH show ?thesis by auto
    qed
  qed
qed simp

text \<open>\<open>retry\<close> makes between one and ten attempts and returns the result of the last one; all before it failed. It stops
  early only on success or because the context has ended.\<close>

theorem retry_bounded:
  assumes "retry ft cancelled = (res, c)"
  shows "0 < c \<and> c \<le> 10 \<and> res = ft (c - 1) \<and> (\<forall>j < c - 1. (\<exists>e. ft j = Err e) \<and> \<not> cancelled j) \<and>
    ((\<exists>v. res = Ok v) \<or> cancelled (c - 1) \<or> c = 10)"
proof -
  from assms have r: "retry_loop 10 0 ft cancelled (ft 0) = (res, c)" by (simp add: retry_def)
  from retry_loop_result [OF r] show ?thesis by auto
qed

theorem retry_bounded_witness:
  "retry (\<lambda>i. if i < 3 then Err ''refused'' else Ok i) (\<lambda>i. False) = (Ok 3, 4) \<and> (4::nat) \<le> 10"
proof -
  have r: "retry (\<lambda>i. if i < 3 then Err ''refused'' else Ok i) (\<lambda>i. False) = (Ok 3, 4)"
    by (simp add: retry_def numeral_eq_Suc)
  from retry_bounded [OF r] r show ?thesis by simp
qed

section \<open>An example\<close>

text \<open>Two rules, one through a group that passes; a host name that the resolver knows. The witnesses below evaluate the
  properties on it.\<close>

definition example_tunnel :: tunnel where
  "example_tunnel = \<lparr>tRules = [R_Match ''PASS'', R_IPCIDR \<lparr>pfx_addr = Addr4 0x01000000, pfx_bits = 8\<rparr> ''A'' False False],
     tEnv = \<lparr>geodataMode = False, mmdbLookupCode = (\<lambda>_. []), isFakeBroadcastIP = (\<lambda>_. False), envSubRules = [], ruleProviders = (\<lambda>_. None)\<rparr>,
     tProxies = [''DIRECT'' \<mapsto> Proxy ''DIRECT'' A_Direct True (\<lambda>_. None), ''A'' \<mapsto> Proxy ''A'' A_Direct True (\<lambda>_. None),
       ''PASS'' \<mapsto> Proxy ''PASS'' A_Selector True (\<lambda>_. Some (Proxy ''P'' A_Pass True (\<lambda>_. None)))],
     tMode = M_Rule, tStatus = S_Running, tFindProcess = FP_Off, tHosts = newNode,
     tMapper = Some \<lparr>hm_FakeIPEnabled = True, hm_MappingEnabled = True, hm_IsFakeIP = (\<lambda>ip. ip = Addr4 9 \<or> ip = Addr4 8),
       hm_IsFakeBroadcastIP = (\<lambda>_. False), hm_IsExistFakeIP = (\<lambda>ip. ip = Addr4 9),
       hm_FindHostByIP = (\<lambda>ip. if ip = Addr4 9 then Some ''a.b'' else None)\<rparr>,
     tFakeIPRange = \<lparr>pfx_addr = Addr4 0, pfx_bits = 24\<rparr>\<rparr>"

definition example_ext :: tunnel_ext where
  "example_ext = \<lparr>xParseAddr = (\<lambda>s. None), xStaticHost = (\<lambda>s. []), xRnd = (\<lambda>n. 0),
     xResolveIP = (\<lambda>h. if h = ''a.b'' then Some (Addr4 0x01020304) else None), xFindProcess = (\<lambda>n ip p. None), xSniff = None\<rparr>"

definition example_meta :: metadata where
  "example_meta = metadata0\<lparr>mHost := ''a.b''\<rparr>"

lemma Search_newNode: "node_data (Search newNode d) = None"
proof -
  have l: "last_insert [] = (\<lambda>q. None :: 'a option)" by (rule ext) (simp add: last_insert_def)
  show ?thesis by (simp add: Search_candidates look_built [of "[]", simplified] l split: option.split)
qed

lemma example_hosts: "hosts_lookup example_tunnel example_ext d False = Done (None, False)"
proof -
  have "NewHostValueByDomain [] = None" by code_simp
  then show ?thesis
    by (simp add: hosts_lookup_def Hosts_Search_def Search_newNode example_tunnel_def example_ext_def NewHostValue_def)
qed

lemma example_match:
  "tunnel_match example_tunnel example_ext 1 example_meta =
     Done (Some (Proxy ''A'' A_Direct True (\<lambda>_. None)), Some (R_IPCIDR \<lparr>pfx_addr = Addr4 0x01000000, pfx_bits = 8\<rparr> ''A'' False False),
       example_meta\<lparr>mDstIP := Addr4 0x01020304\<rparr>)"
proof -
  have h: "hosts_lookup example_tunnel example_ext ''a.b'' False = Done (None, False)" by (rule example_hosts)
  have c: "prefix_contains \<lparr>pfx_addr = Addr4 0x01000000, pfx_bits = 8\<rparr> (Addr4 0x01020304)" by code_simp
  show ?thesis
    by (simp add: tunnel_match_alt h example_meta_def metadata0_def)
      (simp add: match_start_def getRules_def example_tunnel_def example_ext_def match_prepare_def shouldResolveIP_def
        usable_def c Let_def)
qed

theorem match_first_usable_witness:
  "let rs = tRules example_tunnel; ms = seen example_tunnel example_ext (False, True, example_meta) rs in
     \<exists>q. offers example_tunnel 1 (rs ! 1) (ms ! 1) q \<and> \<not> (\<exists>q. offers example_tunnel 1 (rs ! 0) (ms ! 0) q)"
proof -
  have g: "getRules example_tunnel example_meta = tRules example_tunnel" "length (tRules example_tunnel) = 2"
    by (simp_all add: getRules_def example_tunnel_def)
  have s: "match_start example_ext example_meta (None, False) = (False, True, example_meta)" by (simp add: match_start_def)
  have l: "(tRules example_tunnel ! 0) \<noteq> R_IPCIDR \<lparr>pfx_addr = Addr4 0x01000000, pfx_bits = 8\<rparr> ''A'' False False"
    by (simp add: example_tunnel_def)
  show ?thesis
    using match_first_usable [OF example_hosts example_match] l
    unfolding g s Let_def by (auto simp: less_Suc_eq numeral_2_eq_2)
qed

theorem match_keeps_metadata_witness:
  "\<not> addr_valid (mDstIP example_meta) \<and> xResolveIP example_ext (mHost example_meta) = Some (Addr4 0x01020304)"
  using match_keeps_metadata [OF example_hosts example_match]
  by (auto simp: example_meta_def metadata0_def)


theorem preHandle_no_fake_witness:
  "preHandleMetadata example_tunnel example_ext (metadata0\<lparr>mDstIP := Addr4 9\<rparr>) =
     Done (True, metadata0\<lparr>mHost := ''a.b'', mDNSMode := DNSFakeIP\<rparr>) \<and>
   FindHostByIP (tMapper example_tunnel) (Addr4 9) = Some ''a.b''"
proof -
  have p: "preHandleMetadata example_tunnel example_ext (metadata0\<lparr>mDstIP := Addr4 9\<rparr>) =
      Done (True, metadata0\<lparr>mHost := ''a.b'', mDNSMode := DNSFakeIP\<rparr>)"
    by (simp add: preHandleMetadata_def needLookupIP_def MappingEnabled_def FakeIPEnabled_def FindHostByIP_def
        example_tunnel_def example_ext_def metadata0_def)
  have "FindHostByIP (tMapper example_tunnel) (Addr4 9) = Some (mHost (metadata0\<lparr>mHost := ''a.b'', mDNSMode := DNSFakeIP\<rparr>)) \<or>
      mDstIP (metadata0\<lparr>mHost := ''a.b'', mDNSMode := DNSFakeIP\<rparr>) = Addr4 9"
    using preHandle_no_fake [OF _ _ _ _ p, of "Addr4 9"]
    by (auto simp: FakeIPEnabled_def MappingEnabled_def example_tunnel_def example_ext_def metadata0_def)
  with p show ?thesis by (simp add: metadata0_def)
qed

end
