(* ===== verification/NatTable.thy ===== *)
theory NatTable
  imports Tunnel
begin

text \<open>
  UDP sessions: the table of \<open>component/nat/table.go\<close>, the handler \<open>handleUDPConn\<close> of \<open>tunnel/tunnel.go\<close> with its
  goroutines, and the copying functions of \<open>tunnel/connection.go\<close>.

  The table's operations are functions on a record, one lock-free map operation each. Connections, write-back
  targets and condition variables are numbers. The goroutines of \<open>handleUDPConn\<close> for the packets of one
  client are a step relation: each packet has a program counter and one step is one access to the shared
  table (or the broadcast).
\<close>

section \<open>The table\<close>

record nat_entry =
  nPacketConn :: nat
  nWriteBack :: nat
  nLocalUDPConn :: "string \<Rightarrow> nat option"
  nLocalLock :: "string \<Rightarrow> nat option"

record nat_table =
  nMapping :: "string \<Rightarrow> nat_entry option"
  nLockMap :: "string \<Rightarrow> nat option"

definition nat_new :: nat_table where
  "nat_new = \<lparr>nMapping = (\<lambda>_. None), nLockMap = (\<lambda>_. None)\<rparr>"

definition nat_Set :: "string \<Rightarrow> nat \<Rightarrow> nat \<Rightarrow> nat_table \<Rightarrow> nat_table" where
  "nat_Set key e w t = t\<lparr>nMapping := (nMapping t)(key \<mapsto>
     \<lparr>nPacketConn = e, nWriteBack = w, nLocalUDPConn = (\<lambda>_. None), nLocalLock = (\<lambda>_. None)\<rparr>)\<rparr>"

definition getEntry :: "string \<Rightarrow> nat_table \<Rightarrow> nat_entry option" where
  "getEntry key t = nMapping t key"

definition nat_Get :: "string \<Rightarrow> nat_table \<Rightarrow> (nat \<times> nat) option" where
  "nat_Get key t = map_option (\<lambda>e. (nPacketConn e, nWriteBack e)) (getEntry key t)"

text \<open>\<open>LoadOrCompute\<close> with \<open>makeLock\<close>; \<open>fresh\<close> is the condition variable that \<open>makeLock\<close> would make. The flag is
  \<open>loaded\<close>.\<close>

definition GetOrCreateLock :: "string \<Rightarrow> nat \<Rightarrow> nat_table \<Rightarrow> (nat \<times> bool) \<times> nat_table" where
  "GetOrCreateLock key fresh t =
     (case nLockMap t key of
        Some c \<Rightarrow> ((c, True), t)
      | None \<Rightarrow> ((fresh, False), t\<lparr>nLockMap := (nLockMap t)(key \<mapsto> fresh)\<rparr>))"

definition nat_Delete :: "string \<Rightarrow> nat_table \<Rightarrow> nat_table" where
  "nat_Delete key t = t\<lparr>nMapping := (nMapping t)(key := None)\<rparr>"

definition DeleteLock :: "string \<Rightarrow> nat_table \<Rightarrow> nat_table" where
  "DeleteLock key t = t\<lparr>nLockMap := (nLockMap t)(key := None)\<rparr>"

definition nat_update_entry :: "string \<Rightarrow> (nat_entry \<Rightarrow> nat_entry) \<Rightarrow> nat_table \<Rightarrow> nat_table" where
  "nat_update_entry key f t = t\<lparr>nMapping := (nMapping t)(key := map_option f (nMapping t key))\<rparr>"

text \<open>The write-back proxy is shared, so \<open>UpdateWriteBack\<close> changes the entry that \<open>Get\<close> returned.\<close>

definition UpdateWriteBack :: "string \<Rightarrow> nat \<Rightarrow> nat_table \<Rightarrow> nat_table" where
  "UpdateWriteBack key w t = nat_update_entry key (\<lambda>e. e\<lparr>nWriteBack := w\<rparr>) t"

definition GetForLocalConn :: "string \<Rightarrow> string \<Rightarrow> nat_table \<Rightarrow> nat option" where
  "GetForLocalConn lAddr rAddr t =
     (case getEntry lAddr t of None \<Rightarrow> None | Some e \<Rightarrow> nLocalUDPConn e rAddr)"

definition AddForLocalConn :: "string \<Rightarrow> string \<Rightarrow> nat \<Rightarrow> nat_table \<Rightarrow> bool \<times> nat_table" where
  "AddForLocalConn lAddr rAddr conn t =
     (case getEntry lAddr t of
        None \<Rightarrow> (False, t)
      | Some e \<Rightarrow> (True, nat_update_entry lAddr (\<lambda>e. e\<lparr>nLocalUDPConn := (nLocalUDPConn e)(rAddr \<mapsto> conn)\<rparr>) t))"

text \<open>The connections \<open>RangeForLocalConn\<close> visits: the local connections of an entry.\<close>

definition RangeForLocalConn :: "string \<Rightarrow> nat_table \<Rightarrow> (string \<Rightarrow> nat option)" where
  "RangeForLocalConn lAddr t = (case getEntry lAddr t of None \<Rightarrow> (\<lambda>_. None) | Some e \<Rightarrow> nLocalUDPConn e)"

definition GetOrCreateLockForLocalConn ::
  "string \<Rightarrow> string \<Rightarrow> nat \<Rightarrow> nat_table \<Rightarrow> (nat option \<times> bool) \<times> nat_table" where
  "GetOrCreateLockForLocalConn lAddr key fresh t =
     (case getEntry lAddr t of
        None \<Rightarrow> ((None, False), t)
      | Some e \<Rightarrow>
          (case nLocalLock e key of
             Some c \<Rightarrow> ((Some c, True), t)
           | None \<Rightarrow> ((Some fresh, False),
               nat_update_entry lAddr (\<lambda>e. e\<lparr>nLocalLock := (nLocalLock e)(key \<mapsto> fresh)\<rparr>) t)))"

definition DeleteForLocalConn :: "string \<Rightarrow> string \<Rightarrow> nat_table \<Rightarrow> nat_table" where
  "DeleteForLocalConn lAddr key t =
     nat_update_entry lAddr (\<lambda>e. e\<lparr>nLocalUDPConn := (nLocalUDPConn e)(key := None)\<rparr>) t"

definition DeleteLockForLocalConn :: "string \<Rightarrow> string \<Rightarrow> nat_table \<Rightarrow> nat_table" where
  "DeleteLockForLocalConn lAddr key t =
     nat_update_entry lAddr (\<lambda>e. e\<lparr>nLocalLock := (nLocalLock e)(key := None)\<rparr>) t"

lemmas nat_table_defs = nat_Set_def getEntry_def nat_Get_def GetOrCreateLock_def nat_Delete_def DeleteLock_def
  nat_update_entry_def UpdateWriteBack_def nat_new_def

section \<open>Before the session\<close>

text \<open>What \<open>handleUDPConn\<close> does to a packet before it looks for a session: drop it, or go on with its metadata and the fake
  address it was sent to. \<open>udpSniff\<close> is \<open>None\<close> if sniffing is not enabled, otherwise the effect of \<open>UDPSniff\<close>.\<close>

definition udp_prepare ::
  "tunnel \<Rightarrow> tunnel_ext \<Rightarrow> (metadata \<Rightarrow> metadata) option \<Rightarrow> metadata \<Rightarrow> (metadata \<times> addr) option outcome" where
  "udp_prepare t x udpSniff m =
     (if \<not> isHandle t (mType m) then Done None
      else if \<not> meta_Valid m then Done None
      else let fAddr = (if IsExistFakeIP (tMapper t) (mDstIP m) then mDstIP m else NoAddr)
           in obind (preHandleMetadata t x m) (\<lambda>(ok, m1).
             if \<not> ok then Done None
             else let m2 = (case udpSniff of None \<Rightarrow> m1 | Some f \<Rightarrow> f m1)
                  in if Resolved m2 then Done (Some (m2, fAddr))
                     else Done (case xResolveIP x (mHost m2) of
                       None \<Rightarrow> None
                     | Some ip \<Rightarrow> Some (m2\<lparr>mDstIP := ip\<rparr>, fAddr))))"

text \<open>\<open>handleUDPToRemote\<close>: where the data of a packet is written, \<open>None\<close> for an invalid address.\<close>

definition handleUDPToRemote :: "metadata \<Rightarrow> (addr \<times> u16) option" where
  "handleUDPToRemote m = UDPAddr m"

text \<open>The source address that \<open>handleUDPToLocal\<close> gives to data read from the remote: bytes of the address and the zone.
  \<open>from\<close> is \<open>None\<close> for an address that is no UDP address or nil.\<close>

definition reply_addr ::
  "addr \<times> u16 \<Rightarrow> addr \<Rightarrow> (bytes \<times> u16 \<times> string) option \<Rightarrow> bytes \<times> u16 \<times> string" where
  "reply_addr oAddrPort fAddr from =
     (case from of
        None \<Rightarrow> (addr_as_slice (fst oAddrPort), snd oAddrPort,
                  (case fst oAddrPort of Addr6 a z \<Rightarrow> z | _ \<Rightarrow> []))
      | Some (ip, port, zone) \<Rightarrow>
          (let fromAddr = addr_unmap (addr_from_slice ip)
           in if \<not> addr_valid (addr_from_slice ip) then (ip, port, zone)
              else let fromAddr1 = (if addr_valid fAddr \<and> fst oAddrPort = fromAddr then addr_unmap fAddr else fromAddr)
                   in (addr_as_slice fromAddr1, port, if addr_is4 fromAddr1 then [] else zone)))"

text \<open>A client that sent to a fake address sees the answers of the real destination come from that fake address, and the
  answers of any other address under their own (unmapped) address.\<close>

lemma reply_from_fake:
  "addr_valid (addr_from_slice ip) \<Longrightarrow> addr_valid fAddr \<Longrightarrow>
   fst (reply_addr oAddrPort fAddr (Some (ip, port, zone))) =
    (if addr_unmap (addr_from_slice ip) = fst oAddrPort then addr_as_slice (addr_unmap fAddr)
     else addr_as_slice (addr_unmap (addr_from_slice ip)))"
  by (auto simp: reply_addr_def Let_def)

section \<open>The goroutines of one client\<close>

text \<open>Where the goroutine of a packet is: before the first lookup; after a lookup that found no session; having met a lock
  that another packet holds; inside \<open>cond.Wait\<close>; woken; having made the lock and dialling; after the session is in the
  table; about to delete the lock; about to broadcast; at its end.\<close>

datatype packet_pc =
  Arrived | Missed | Waiting nat | Blocked nat | Woken
| Dialling nat | Serving nat | Leaving nat | Signalling nat | Ended

text \<open>The table, the packets, the connections whose \<open>handleUDPToLocal\<close> runs, and the writes made (packet, connection).
  A packet's number also names the condition variable and the connection that it makes.\<close>

record sessions =
  sTable :: nat_table
  sPc :: "nat \<Rightarrow> packet_pc"
  sOpen :: "nat set"
  sSent :: "(nat \<times> nat) list"

definition sessions0 :: sessions where
  "sessions0 = \<lparr>sTable = nat_new, sPc = (\<lambda>_. Arrived), sOpen = {}, sSent = []\<rparr>"

text \<open>The closure \<open>handle\<close>, for a packet that goes on at \<open>pc\<close>.\<close>

definition udp_handle :: "string \<Rightarrow> nat \<Rightarrow> packet_pc \<Rightarrow> sessions \<Rightarrow> sessions" where
  "udp_handle key p pc s =
     (case nat_Get key (sTable s) of
        None \<Rightarrow> s\<lparr>sPc := (sPc s)(p := pc)\<rparr>
      | Some (conn, wb) \<Rightarrow>
          s\<lparr>sPc := (sPc s)(p := pc), sTable := UpdateWriteBack key p (sTable s), sSent := (p, conn) # sSent s\<rparr>)"

definition wake :: "nat \<Rightarrow> (nat \<Rightarrow> packet_pc) \<Rightarrow> nat \<Rightarrow> packet_pc" where
  "wake c pcs q = (if pcs q = Blocked c then Woken else pcs q)"

inductive udp_step :: "string \<Rightarrow> sessions \<Rightarrow> sessions \<Rightarrow> bool" for key where
  hit: "sPc s p = Arrived \<Longrightarrow> nat_Get key (sTable s) \<noteq> None \<Longrightarrow> udp_step key s (udp_handle key p Ended s)"
| miss: "sPc s p = Arrived \<Longrightarrow> nat_Get key (sTable s) = None \<Longrightarrow> udp_step key s (s\<lparr>sPc := (sPc s)(p := Missed)\<rparr>)"
| lock: "sPc s p = Missed \<Longrightarrow> GetOrCreateLock key p (sTable s) = ((c, False), t) \<Longrightarrow>
    udp_step key s (s\<lparr>sPc := (sPc s)(p := Dialling c), sTable := t\<rparr>)"
| busy: "sPc s p = Missed \<Longrightarrow> GetOrCreateLock key p (sTable s) = ((c, True), t) \<Longrightarrow>
    udp_step key s (s\<lparr>sPc := (sPc s)(p := Waiting c), sTable := t\<rparr>)"
| wait: "sPc s p = Waiting c \<Longrightarrow> udp_step key s (s\<lparr>sPc := (sPc s)(p := Blocked c)\<rparr>)"
| woken: "sPc s p = Woken \<Longrightarrow> udp_step key s (udp_handle key p Ended s)"
| dial_error: "sPc s p = Dialling c \<Longrightarrow> udp_step key s (s\<lparr>sPc := (sPc s)(p := Leaving c)\<rparr>)"
| dialled: "sPc s p = Dialling c \<Longrightarrow>
    udp_step key s (s\<lparr>sPc := (sPc s)(p := Serving c), sTable := nat_Set key p p (sTable s), sOpen := insert p (sOpen s)\<rparr>)"
| serve: "sPc s p = Serving c \<Longrightarrow> udp_step key s (udp_handle key p (Leaving c) s)"
| leave: "sPc s p = Leaving c \<Longrightarrow>
    udp_step key s (s\<lparr>sPc := (sPc s)(p := Signalling c), sTable := DeleteLock key (sTable s)\<rparr>)"
| broadcast: "sPc s p = Signalling c \<Longrightarrow> udp_step key s (s\<lparr>sPc := (wake c (sPc s))(p := Ended)\<rparr>)"
| remote_end: "n \<in> sOpen s \<Longrightarrow>
    udp_step key s (s\<lparr>sTable := nat_Delete key (sTable s), sOpen := sOpen s - {n}\<rparr>)"

inductive_cases udp_stepE: "udp_step key s s'"

definition udp_reachable :: "string \<Rightarrow> sessions \<Rightarrow> bool" where
  "udp_reachable key = (udp_step key)\<^sup>*\<^sup>* sessions0"

section \<open>Invariants\<close>

text \<open>A packet that holds the lock.\<close>

fun holder :: "packet_pc \<Rightarrow> nat option" where
  "holder (Dialling c) = Some c"
| "holder (Serving c) = Some c"
| "holder (Leaving c) = Some c"
| "holder pc = None"

fun was_sent :: "packet_pc \<Rightarrow> bool" where
  "was_sent (Leaving c) = True"
| "was_sent (Signalling c) = True"
| "was_sent Ended = True"
| "was_sent pc = False"

text \<open>The lock is in the table exactly while its maker holds it, and a packet signals only its own condition; every write is by a
  packet past its \<open>handle\<close>, and by each at most once.\<close>

definition lock_inv :: "(nat \<Rightarrow> packet_pc) \<Rightarrow> nat option \<Rightarrow> bool" where
  "lock_inv pcs l \<longleftrightarrow>
     (\<forall>p c. holder (pcs p) = Some c \<longrightarrow> c = p \<and> l = Some p) \<and>
     (\<forall>c. l = Some c \<longrightarrow> holder (pcs c) = Some c) \<and>
     (\<forall>p c. pcs p = Signalling c \<longrightarrow> c = p)"

definition sent_inv :: "(nat \<Rightarrow> packet_pc) \<Rightarrow> (nat \<times> nat) list \<Rightarrow> bool" where
  "sent_inv pcs sent \<longleftrightarrow> (\<forall>p \<in> fst ` set sent. was_sent (pcs p)) \<and> distinct (map fst sent)"

definition udp_inv :: "string \<Rightarrow> sessions \<Rightarrow> bool" where
  "udp_inv key s \<longleftrightarrow> lock_inv (sPc s) (nLockMap (sTable s) key) \<and> sent_inv (sPc s) (sSent s)"

lemma lock_invI:
  assumes "\<And>p c. holder (pcs p) = Some c \<Longrightarrow> c = p \<and> l = Some p"
    and "\<And>c. l = Some c \<Longrightarrow> holder (pcs c) = Some c" and "\<And>p c. pcs p = Signalling c \<Longrightarrow> c = p"
  shows "lock_inv pcs l"
  unfolding lock_inv_def using assms by blast

lemma lock_invD:
  "lock_inv pcs l \<Longrightarrow> holder (pcs p) = Some c \<Longrightarrow> c = p \<and> l = Some p"
  "lock_inv pcs l \<Longrightarrow> l = Some c \<Longrightarrow> holder (pcs c) = Some c"
  "lock_inv pcs l \<Longrightarrow> pcs p = Signalling c \<Longrightarrow> c = p"
  unfolding lock_inv_def by blast+

lemma lock_inv_move:
  assumes "lock_inv pcs l" and h: "holder pc = holder (pcs p)" and "\<And>c. pc = Signalling c \<Longrightarrow> c = p"
  shows "lock_inv (pcs(p := pc)) l"
proof (rule lock_invI)
  have e: "holder ((pcs(p := pc)) q) = holder (pcs q)" for q using h by simp
  show "c = q \<and> l = Some q" if "holder ((pcs(p := pc)) q) = Some c" for q c
    using lock_invD(1) [OF assms(1)] that e by metis
  show "holder ((pcs(p := pc)) c) = Some c" if "l = Some c" for c
    using lock_invD(2) [OF assms(1) that] e by metis
  show "c = q" if "(pcs(p := pc)) q = Signalling c" for q c
    using lock_invD(3) [OF assms(1), of q c] assms(3) that by (cases "q = p") simp_all
qed

lemma lock_inv_take:
  assumes "lock_inv pcs None"
  shows "lock_inv (pcs(p := Dialling p)) (Some p)"
proof (rule lock_invI)
  have n: "holder (pcs q) \<noteq> Some c" for q c using lock_invD(1) [OF assms] by blast
  show "c = q \<and> Some p = Some q" if "holder ((pcs(p := Dialling p)) q) = Some c" for q c
    using n that by (cases "q = p") simp_all
  show "c = q" if "(pcs(p := Dialling p)) q = Signalling c" for q c
    using lock_invD(3) [OF assms, of q c] that by (cases "q = p") simp_all
qed simp

lemma lock_inv_release:
  assumes "lock_inv pcs l" "pcs p = Leaving c"
  shows "lock_inv (pcs(p := Signalling c)) None"
proof (rule lock_invI)
  have c: "c = p" "l = Some p" using lock_invD(1) [OF assms(1), of p c] assms(2) by simp_all
  have n: "holder (pcs q) \<noteq> Some d" if "q \<noteq> p" for q d
    using lock_invD(1) [OF assms(1), of q d] c that by auto
  show "d = q \<and> None = Some q" if "holder ((pcs(p := Signalling c)) q) = Some d" for q d
    using n that by (cases "q = p") simp_all
  show "d = q" if "(pcs(p := Signalling c)) q = Signalling d" for q d
    using lock_invD(3) [OF assms(1), of q d] that c by (cases "q = p") simp_all
qed simp

lemma holder_wake [simp]: "holder (wake c pcs p) = holder (pcs p)"
  by (simp add: wake_def)

lemma wake_Signalling [simp]: "wake c pcs p = Signalling d \<longleftrightarrow> pcs p = Signalling d"
  by (simp add: wake_def)

lemma was_sent_wake: "was_sent (pcs p) \<Longrightarrow> was_sent (wake c pcs p)"
  by (cases "pcs p") (auto simp: wake_def)

lemma lock_inv_wake: "lock_inv pcs l \<Longrightarrow> lock_inv (wake c pcs) l"
  by (rule lock_invI) (auto dest: lock_invD)

lemma sent_inv_move: "sent_inv pcs sent \<Longrightarrow> (was_sent (pcs p) \<Longrightarrow> was_sent pc) \<Longrightarrow> sent_inv (pcs(p := pc)) sent"
  unfolding sent_inv_def by auto

lemma sent_inv_add:
  "sent_inv pcs sent \<Longrightarrow> \<not> was_sent (pcs p) \<Longrightarrow> was_sent pc \<Longrightarrow> sent_inv (pcs(p := pc)) ((p, c) # sent)"
  unfolding sent_inv_def by auto

lemma sent_inv_wake: "sent_inv pcs sent \<Longrightarrow> sent_inv (wake c pcs) sent"
  unfolding sent_inv_def wake_def by (auto simp: was_sent_wake)

lemma lock_map_simps [simp]:
  "nLockMap (nat_Set key e w t) = nLockMap t"
  "nLockMap (UpdateWriteBack key w t) = nLockMap t"
  "nLockMap (nat_Delete key t) = nLockMap t"
  "nLockMap (DeleteLock key t) = (nLockMap t)(key := None)"
  "nMapping (DeleteLock key t) = nMapping t"
  by (simp_all add: nat_table_defs)

lemma udp_handle_inv:
  assumes "udp_inv key s" and "\<not> was_sent (sPc s p)" and "holder pc = holder (sPc s p)" and "was_sent pc"
    and "\<And>c. pc = Signalling c \<Longrightarrow> c = p"
  shows "udp_inv key (udp_handle key p pc s)"
  using assms unfolding udp_inv_def udp_handle_def
  by (auto intro: lock_inv_move sent_inv_move sent_inv_add split: option.split)

lemma GetOrCreateLock_cases:
  assumes "GetOrCreateLock key p t = ((c, b), t')"
  shows "if b then t' = t \<and> nLockMap t key = Some c
    else c = p \<and> nLockMap t key = None \<and> t' = t\<lparr>nLockMap := (nLockMap t)(key \<mapsto> p)\<rparr>"
  using assms by (auto simp: GetOrCreateLock_def split: option.splits)

lemma udp_step_inv [inv_intros]:
  assumes "udp_step key s s'" and "udp_inv key s"
  shows "udp_inv key s'"
  using assms
proof (induction rule: udp_step.induct)
  case (hit s p)
  then show ?case by (intro udp_handle_inv) auto
next
  case (miss s p)
  then show ?case by (auto simp: udp_inv_def intro: lock_inv_move sent_inv_move)
next
  case (lock s p c t)
  with GetOrCreateLock_cases [OF lock(2)] show ?case
    by (auto simp: udp_inv_def intro: lock_inv_take sent_inv_move)
next
  case (busy s p c t)
  with GetOrCreateLock_cases [OF busy(2)] show ?case
    by (auto simp: udp_inv_def intro: lock_inv_move sent_inv_move)
next
  case (wait s p c)
  then show ?case by (auto simp: udp_inv_def intro: lock_inv_move sent_inv_move)
next
  case (woken s p)
  then show ?case by (intro udp_handle_inv) auto
next
  case (dial_error s p c)
  then show ?case by (auto simp: udp_inv_def intro: lock_inv_move sent_inv_move)
next
  case (dialled s p c)
  then show ?case by (auto simp: udp_inv_def intro: lock_inv_move sent_inv_move)
next
  case (serve s p c)
  then show ?case by (intro udp_handle_inv) auto
next
  case (leave s p c)
  then show ?case by (auto simp: udp_inv_def intro: lock_inv_release sent_inv_move)
next
  case (broadcast s p c)
  then show ?case
    by (auto simp: udp_inv_def intro!: lock_inv_move sent_inv_move lock_inv_wake sent_inv_wake)
next
  case (remote_end n s)
  then show ?case by (simp add: udp_inv_def)
qed

lemma udp_reachable_inv: "udp_reachable key s \<Longrightarrow> udp_inv key s"
  unfolding udp_reachable_def
proof (induction rule: rtranclp_induct)
  case base
  show ?case by (simp add: udp_inv_def lock_inv_def sent_inv_def sessions0_def nat_new_def)
qed (rule udp_step_inv)

text \<open>C8: in every interleaving of the packets of a client, at most one of them at a time is between taking the lock
  and deleting it, so two never dial at the same time, and no packet is written to a remote twice.\<close>

theorem udp_one_dial_at_a_time:
  assumes "udp_reachable key s"
  shows "(\<forall>p q c d. holder (sPc s p) = Some c \<longrightarrow> holder (sPc s q) = Some d \<longrightarrow> p = q) \<and> distinct (map fst (sSent s))"
  using udp_reachable_inv [OF assms] unfolding udp_inv_def lock_inv_def sent_inv_def by (metis option.inject)

section \<open>What interleaving breaks\<close>

text \<open>A packet that waits for a condition whose owner is at its end stays there.\<close>

definition lost :: "nat \<Rightarrow> nat \<Rightarrow> sessions \<Rightarrow> bool" where
  "lost p c s \<longleftrightarrow> sPc s p = Blocked c \<and> sPc s c = Ended"

lemma udp_handle_pc [simp]: "sPc (udp_handle key p pc s) = (sPc s)(p := pc)"
  by (simp add: udp_handle_def split: option.split)

lemma lost_step:
  assumes "udp_step key s s'" and "udp_inv key s" and "lost p c s"
  shows "lost p c s'"
  using assms
proof (induction rule: udp_step.induct)
  case (broadcast s q d)
  then have "d = q" "q \<noteq> c" using lock_invD(3) by (auto simp: udp_inv_def lost_def)
  with broadcast show ?case by (auto simp: lost_def wake_def)
qed (auto simp: lost_def)

lemma lost_forever:
  "(udp_step key)\<^sup>*\<^sup>* s s' \<Longrightarrow> udp_inv key s \<Longrightarrow> lost p c s \<Longrightarrow> lost p c s' \<and> udp_inv key s'"
  by (induction rule: rtranclp_induct) (auto intro: lost_step udp_step_inv)

text \<open>Running a list of packets: each does its next step; the flag says whether a dial succeeds. This is an executable
  scheduler for concrete interleavings.\<close>

definition run_packet :: "string \<Rightarrow> bool \<Rightarrow> nat \<Rightarrow> sessions \<Rightarrow> sessions" where
  "run_packet key ok p s =
     (case sPc s p of
        Arrived \<Rightarrow>
          (if nat_Get key (sTable s) \<noteq> None then udp_handle key p Ended s else s\<lparr>sPc := (sPc s)(p := Missed)\<rparr>)
      | Missed \<Rightarrow>
          (let ((c, loaded), t) = GetOrCreateLock key p (sTable s)
           in s\<lparr>sPc := (sPc s)(p := if loaded then Waiting c else Dialling c), sTable := t\<rparr>)
      | Waiting c \<Rightarrow> s\<lparr>sPc := (sPc s)(p := Blocked c)\<rparr>
      | Blocked c \<Rightarrow> s
      | Woken \<Rightarrow> udp_handle key p Ended s
      | Dialling c \<Rightarrow>
          (if ok then s\<lparr>sPc := (sPc s)(p := Serving c), sTable := nat_Set key p p (sTable s), sOpen := insert p (sOpen s)\<rparr>
           else s\<lparr>sPc := (sPc s)(p := Leaving c)\<rparr>)
      | Serving c \<Rightarrow> udp_handle key p (Leaving c) s
      | Leaving c \<Rightarrow> s\<lparr>sPc := (sPc s)(p := Signalling c), sTable := DeleteLock key (sTable s)\<rparr>
      | Signalling c \<Rightarrow> s\<lparr>sPc := (wake c (sPc s))(p := Ended)\<rparr>
      | Ended \<Rightarrow> s)"

fun run_packets :: "string \<Rightarrow> bool \<Rightarrow> nat list \<Rightarrow> sessions \<Rightarrow> sessions" where
  "run_packets key ok [] s = s"
| "run_packets key ok (p # ps) s = run_packets key ok ps (run_packet key ok p s)"

lemma run_packet_step: "run_packet key ok p s = s \<or> udp_step key s (run_packet key ok p s)"
proof (cases "sPc s p")
  case Arrived
  then show ?thesis by (cases "nat_Get key (sTable s)") (auto simp: run_packet_def intro: udp_step.intros)
next
  case Missed
  obtain c b t where l: "GetOrCreateLock key p (sTable s) = ((c, b), t)" by (metis prod.exhaust)
  with Missed show ?thesis by (cases b) (auto simp: run_packet_def intro: udp_step.intros)
qed (auto simp: run_packet_def intro: udp_step.intros)

lemma run_packets_reach: "(udp_step key)\<^sup>*\<^sup>* s (run_packets key ok ps s)"
proof (induction ps arbitrary: s)
  case (Cons p ps)
  have "(udp_step key)\<^sup>*\<^sup>* s (run_packet key ok p s)"
    using run_packet_step [of key ok p s] by (auto intro: r_into_rtranclp)
  with Cons [of "run_packet key ok p s"] show ?case by simp
qed simp

text \<open>The state of the first two packets when all others have not arrived.\<close>

definition two :: "string \<Rightarrow> packet_pc \<Rightarrow> packet_pc \<Rightarrow> nat option \<Rightarrow> nat_entry option \<Rightarrow> nat set \<Rightarrow> (nat \<times> nat) list \<Rightarrow> sessions" where
  "two key a b l m os se = \<lparr>sTable = \<lparr>nMapping = (\<lambda>k. if k = key then m else None), nLockMap = (\<lambda>k. if k = key then l else None)\<rparr>,
     sPc = (\<lambda>p. if p = 0 then a else if p = 1 then b else Arrived), sOpen = os, sSent = se\<rparr>"

definition ent :: "nat \<Rightarrow> nat \<Rightarrow> nat_entry" where
  "ent c w = \<lparr>nPacketConn = c, nWriteBack = w, nLocalUDPConn = (\<lambda>_. None), nLocalLock = (\<lambda>_. None)\<rparr>"

lemma sessions0_two: "sessions0 = two key Arrived Arrived None None {} []"
  by (auto simp: sessions0_def two_def nat_new_def fun_eq_iff)

lemmas two_simps = run_packet_def two_def nat_table_defs udp_handle_def wake_def ent_def fun_eq_iff

lemma two_packet0:
  "run_packet key ok 0 (two key Arrived b l None os se) = two key Missed b l None os se"
  "run_packet key ok 0 (two key Missed b None m os se) = two key (Dialling 0) b (Some 0) m os se"
  "run_packet key False 0 (two key (Dialling c) b l m os se) = two key (Leaving c) b l m os se"
  "run_packet key True 0 (two key (Dialling c) b l m os se) = two key (Serving c) b l (Some (ent 0 0)) (insert 0 os) se"
  "run_packet key ok 0 (two key (Serving c) b l (Some (ent e w)) os se) = two key (Leaving c) b l (Some (ent e 0)) os ((0, e) # se)"
  "run_packet key ok 0 (two key (Leaving c) b l m os se) = two key (Signalling c) b None m os se"
  "b \<noteq> Blocked c \<Longrightarrow> run_packet key ok 0 (two key (Signalling c) b l m os se) = two key Ended b l m os se"
  by (simp_all add: two_simps)

lemma two_packet1:
  "run_packet key ok 1 (two key a Arrived l None os se) = two key a Missed l None os se"
  "run_packet key ok 1 (two key a Missed None m os se) = two key a (Dialling 1) (Some 1) m os se"
  "run_packet key ok 1 (two key a Missed (Some c) m os se) = two key a (Waiting c) (Some c) m os se"
  "run_packet key ok 1 (two key a (Waiting c) l m os se) = two key a (Blocked c) l m os se"
  "run_packet key True 1 (two key a (Dialling c) l m os se) = two key a (Serving c) l (Some (ent 1 1)) (insert 1 os) se"
  by (simp_all add: two_simps)

text \<open>C35: the wake-up can be lost: a packet that has met the lock of another one, but calls \<open>cond.Wait\<close> only after
  the owner's broadcast, is never woken, so its goroutine stays and the packet is never dropped.\<close>

theorem udp_wakeup_lost:
  "\<exists>s. udp_reachable key s \<and> (\<forall>s'. (udp_step key)\<^sup>*\<^sup>* s s' \<longrightarrow> sPc s' 1 = Blocked 0)"
proof -
  define s where "s = run_packets key False [0, 1, 0, 1, 0, 0, 0, 1] sessions0"
  have r: "udp_reachable key s" unfolding udp_reachable_def s_def by (rule run_packets_reach)
  have "s = two key Ended (Blocked 0) None None {} []"
    unfolding s_def sessions0_two [of key] by (simp add: two_packet0 two_packet1 del: One_nat_def)
  then have "lost 1 0 s" by (simp add: lost_def two_def)
  with r lost_forever udp_reachable_inv [OF r] show ?thesis by (metis lost_def)
qed

theorem udp_wakeup_lost_witness: "\<exists>s. udp_reachable ''k'' s \<and> sPc s 1 = Blocked 0"
  using udp_wakeup_lost [of "''k''"] by blast

text \<open>C37: one client can get two sessions: a packet that looked before the session was stored and locks after the lock was deleted
  dials again and replaces the table entry; when the first connection ends it removes the entry of the second, which stays
  open but is found by no later packet.\<close>

theorem udp_session_duplicated:
  "\<exists>s s'. udp_reachable key s \<and> sOpen s = {0, 1} \<and> udp_step key s s' \<and> sOpen s' = {1} \<and> nat_Get key (sTable s') = None"
proof -
  define s where "s = run_packets key True [0, 1, 0, 0, 0, 0, 0, 1, 1] sessions0"
  have r: "udp_reachable key s" unfolding udp_reachable_def s_def by (rule run_packets_reach)
  have "s = two key Ended (Serving 1) (Some 1) (Some (ent 1 1)) (insert 1 (insert 0 {})) [(0, 0)]"
    unfolding s_def sessions0_two [of key] by (simp add: two_packet0 two_packet1 del: One_nat_def)
  then have op: "sOpen s = {0, 1}" by (auto simp: two_def)
  let ?s' = "s\<lparr>sTable := nat_Delete key (sTable s), sOpen := sOpen s - {0}\<rparr>"
  have "udp_step key s ?s'" by (rule udp_step.remote_end) (simp add: op)
  moreover have "nat_Get key (sTable ?s') = None" by (simp add: nat_Get_def getEntry_def nat_Delete_def)
  moreover have "sOpen ?s' = {1}" using op by auto
  ultimately show ?thesis using r op by blast
qed

theorem udp_one_dial_at_a_time_witness:
  "let s = run_packets ''k'' True [0, 1, 0, 1] sessions0 in
     holder (sPc s 0) = Some 0 \<and> holder (sPc s 1) \<noteq> Some 1"
proof -
  define s where "s = run_packets ''k'' True [0, 1, 0, 1] sessions0"
  have r: "udp_reachable ''k'' s" unfolding udp_reachable_def s_def by (rule run_packets_reach)
  have "s = two ''k'' (Dialling 0) (Waiting 0) (Some 0) None {} []"
    unfolding s_def sessions0_two [of "''k''"] by (simp add: two_packet0 two_packet1 del: One_nat_def)
  then have h: "holder (sPc s 0) = Some 0" by (simp add: two_def)
  moreover have "holder (sPc s 1) \<noteq> Some 1"
    using udp_one_dial_at_a_time [OF r] h by (metis zero_neq_one)
  ultimately show ?thesis by (simp add: s_def)
qed

end
