(* ===== verification/FakeIP.thy ===== *)
theory FakeIP
  imports LruCache DomainTrie GoBytes
begin

text \<open>
  The pool of fake addresses: \<open>component/fakeip/pool.go\<close> over its two stores (\<open>memory.go\<close>, \<open>cachefile.go\<close>), the
  part of \<open>component/profile/cachefile/cache.go\<close> they use, and the DNS enhancer \<open>dns/enhancer.go\<close>.

  The Go interface \<open>store\<close> is a record of operations on a state, the contract of its implementations the locale
  \<open>fake_store\<close>: a store holds pairs of a name and an address, and is asked by either side. The pool's
  theorems are proved from the contract; both stores of the sources satisfy it. bbolt, the data base
  under the cache file, is not part of the sources: its operations are arguments, and the locale
  \<open>bucket\<close> states what is assumed of them.
\<close>

section \<open>The pool\<close>

record 's store_ops =
  so_GetByHost :: "string \<Rightarrow> 's \<Rightarrow> (addr option \<times> 's) outcome"
  so_PutByHost :: "string \<Rightarrow> addr \<Rightarrow> 's \<Rightarrow> 's"
  so_GetByIP :: "addr \<Rightarrow> 's \<Rightarrow> string option \<times> 's"
  so_PutByIP :: "addr \<Rightarrow> string \<Rightarrow> 's \<Rightarrow> 's"
  so_DelByIP :: "addr \<Rightarrow> 's \<Rightarrow> 's"
  so_Exist :: "addr \<Rightarrow> 's \<Rightarrow> bool"
  so_Flush :: "'s \<Rightarrow> bool \<times> 's"

record 's pool =
  pGateway :: addr
  pFirst :: addr
  pLast :: addr
  pOffset :: addr
  pCycle :: bool
  pHost :: "unit node option"
  pIPNet :: prefix
  pStore :: 's

definition pool_get :: "'s store_ops \<Rightarrow> string \<Rightarrow> 's pool \<Rightarrow> addr \<times> 's pool" where
  "pool_get ops host p =
     (let off0 = addr_next (pOffset p);
          (cycle, off) = (if \<not> off0 < pLast p then (True, pFirst p) else (pCycle p, off0));
          s1 = (if cycle \<or> so_Exist ops off (pStore p) then so_DelByIP ops off (pStore p) else pStore p)
      in (off, p\<lparr>pOffset := off, pCycle := cycle, pStore := so_PutByIP ops off host s1\<rparr>))"

definition pool_Lookup :: "'s store_ops \<Rightarrow> string \<Rightarrow> 's pool \<Rightarrow> (addr \<times> 's pool) outcome" where
  "pool_Lookup ops host0 p =
     (let host = to_lower host0
      in obind (so_GetByHost ops host (pStore p)) (\<lambda>(r, s).
           case r of
             Some ip \<Rightarrow> Done (ip, p\<lparr>pStore := s\<rparr>)
           | None \<Rightarrow>
               (let (ip, p1) = pool_get ops host (p\<lparr>pStore := s\<rparr>)
                in Done (ip, p1\<lparr>pStore := so_PutByHost ops host ip (pStore p1)\<rparr>))))"

definition pool_LookBack :: "'s store_ops \<Rightarrow> addr \<Rightarrow> 's pool \<Rightarrow> string option \<times> 's pool" where
  "pool_LookBack ops ip p = (let (r, s) = so_GetByIP ops ip (pStore p) in (r, p\<lparr>pStore := s\<rparr>))"

definition ShouldSkipped :: "string \<Rightarrow> 's pool \<Rightarrow> bool" where
  "ShouldSkipped domain p = (case pHost p of None \<Rightarrow> False | Some t \<Rightarrow> Search t domain \<noteq> None)"

definition pool_Exist :: "'s store_ops \<Rightarrow> addr \<Rightarrow> 's pool \<Rightarrow> bool" where
  "pool_Exist ops ip p = so_Exist ops ip (pStore p)"

definition pool_FlushFakeIP :: "'s store_ops \<Rightarrow> 's pool \<Rightarrow> bool \<times> 's pool" where
  "pool_FlushFakeIP ops p =
     (case so_Flush ops (pStore p) of
        (ok, s) \<Rightarrow> (ok, if ok then p\<lparr>pStore := s, pCycle := False, pOffset := addr_prev (pFirst p)\<rparr> else p\<lparr>pStore := s\<rparr>))"

text \<open>The state of the pool is stored and restored only on the cache file, so these two take its operations.\<close>

definition offsetKey :: string where "offsetKey = ''key-offset-fake-ip''"
definition cycleKey :: string where "cycleKey = ''key-cycle-fake-ip''"

definition StoreState :: "'s store_ops \<Rightarrow> 's pool \<Rightarrow> 's pool" where
  "StoreState ops p =
     (let s1 = so_PutByHost ops offsetKey (pOffset p) (pStore p)
      in p\<lparr>pStore := if pCycle p then so_PutByHost ops cycleKey (pOffset p) s1 else s1\<rparr>)"

definition restoreState :: "'s store_ops \<Rightarrow> 's pool \<Rightarrow> 's pool outcome" where
  "restoreState ops p =
     obind (so_GetByHost ops cycleKey (pStore p)) (\<lambda>(c, s1).
       let p1 = p\<lparr>pStore := s1, pCycle := pCycle p \<or> c \<noteq> None\<rparr>
       in obind (so_GetByHost ops offsetKey s1) (\<lambda>(off, s2).
            let p2 = p1\<lparr>pStore := s2\<rparr>
            in Done (case off of
                 Some offset \<Rightarrow>
                   if prefix_contains (pIPNet p) offset then p2\<lparr>pOffset := offset\<rparr> else snd (pool_FlushFakeIP ops p2)
               | None \<Rightarrow> if so_Exist ops (pFirst p) s2 then snd (pool_FlushFakeIP ops p2) else p2)))"

text \<open>\<open>New\<close>, with the store already chosen and \<open>persistence\<close> telling which; \<open>None\<close> for the error.\<close>

definition pool_New :: "'s store_ops \<Rightarrow> bool \<Rightarrow> prefix \<Rightarrow> unit node option \<Rightarrow> 's \<Rightarrow> 's pool option outcome" where
  "pool_New ops persistence ipnet host store =
     (let hostAddr = pfx_addr (prefix_masked ipnet);
          gateway = addr_next hostAddr;
          first = addr_next (addr_next (addr_next gateway));
          lst = UnMasked ipnet
      in if \<not> prefix_valid ipnet \<or> \<not> addr_valid first \<or> \<not> first < lst then Done None
         else
           let p = \<lparr>pGateway = gateway, pFirst = first, pLast = lst, pOffset = addr_prev first, pCycle = False,
                     pHost = host, pIPNet = ipnet, pStore = store\<rparr>
           in if persistence then obind (restoreState ops p) (\<lambda>p'. Done (Some p')) else Done (Some p))"

section \<open>The memory store\<close>

record memory_store =
  ipHeap :: "(string, addr) eheap"
  cacheIP :: "(string, addr) lru_cache"
  hostHeap :: "(addr, string) eheap"
  cacheHost :: "(addr, string) lru_cache"

definition newMemoryStore :: "int \<Rightarrow> memory_store" where
  "newMemoryStore sz = \<lparr>ipHeap = [], cacheIP = lru_new 0 sz False False, hostHeap = [], cacheHost = lru_new 0 sz False False\<rparr>"

text \<open>One access to each cache; \<open>now\<close> is the time.\<close>

definition ms_get_ip :: "int \<Rightarrow> string \<Rightarrow> memory_store \<Rightarrow> addr option \<times> memory_store" where
  "ms_get_ip now host m = (case lru_get now host (ipHeap m) (cacheIP m) of (r, h, c) \<Rightarrow> (r, m\<lparr>ipHeap := h, cacheIP := c\<rparr>))"

definition ms_get_host :: "int \<Rightarrow> addr \<Rightarrow> memory_store \<Rightarrow> string option \<times> memory_store" where
  "ms_get_host now ip m = (case lru_get now ip (hostHeap m) (cacheHost m) of (r, h, c) \<Rightarrow> (r, m\<lparr>hostHeap := h, cacheHost := c\<rparr>))"

definition memory_GetByHost :: "int \<Rightarrow> string \<Rightarrow> memory_store \<Rightarrow> addr option \<times> memory_store" where
  "memory_GetByHost now host m =
     (case ms_get_ip now host m of
        (Some ip, m1) \<Rightarrow> (Some ip, snd (ms_get_host now ip m1))
      | (None, m1) \<Rightarrow> (None, m1))"

definition memory_PutByHost :: "int \<Rightarrow> string \<Rightarrow> addr \<Rightarrow> memory_store \<Rightarrow> memory_store" where
  "memory_PutByHost now host ip m =
     (case lru_set now host ip (ipHeap m) (cacheIP m) of (h, c) \<Rightarrow> m\<lparr>ipHeap := h, cacheIP := c\<rparr>)"

definition memory_GetByIP :: "int \<Rightarrow> addr \<Rightarrow> memory_store \<Rightarrow> string option \<times> memory_store" where
  "memory_GetByIP now ip m =
     (case ms_get_host now ip m of
        (Some host, m1) \<Rightarrow> (Some host, snd (ms_get_ip now host m1))
      | (None, m1) \<Rightarrow> (None, m1))"

definition memory_PutByIP :: "int \<Rightarrow> addr \<Rightarrow> string \<Rightarrow> memory_store \<Rightarrow> memory_store" where
  "memory_PutByIP now ip host m =
     (case lru_set now ip host (hostHeap m) (cacheHost m) of (h, c) \<Rightarrow> m\<lparr>hostHeap := h, cacheHost := c\<rparr>)"

definition memory_DelByIP :: "int \<Rightarrow> addr \<Rightarrow> memory_store \<Rightarrow> memory_store" where
  "memory_DelByIP now ip m =
     (case ms_get_host now ip m of (r, m1) \<Rightarrow>
        let m2 = (case r of Some host \<Rightarrow> m1\<lparr>cacheIP := lru_delete host (ipHeap m1) (cacheIP m1)\<rparr> | None \<Rightarrow> m1)
        in m2\<lparr>cacheHost := lru_delete ip (hostHeap m2) (cacheHost m2)\<rparr>)"

definition memory_Exist :: "addr \<Rightarrow> memory_store \<Rightarrow> bool" where
  "memory_Exist ip m = lru_exist ip (cacheHost m)"

text \<open>\<open>CloneTo\<close>: the entries are shared, so the new store takes over the heaps.\<close>

definition memory_CloneTo :: "memory_store \<Rightarrow> memory_store \<Rightarrow> memory_store" where
  "memory_CloneTo m n =
     \<lparr>ipHeap = ipHeap m, cacheIP = lru_cloneTo (ipHeap m) (cacheIP m) (cacheIP n),
      hostHeap = hostHeap m, cacheHost = lru_cloneTo (hostHeap m) (cacheHost m) (cacheHost n)\<rparr>"

definition memory_FlushFakeIP :: "memory_store \<Rightarrow> bool \<times> memory_store" where
  "memory_FlushFakeIP m = (True, m\<lparr>cacheIP := lru_clear (cacheIP m), cacheHost := lru_clear (cacheHost m)\<rparr>)"

definition memory_ops :: "int \<Rightarrow> memory_store store_ops" where
  "memory_ops now = \<lparr>so_GetByHost = (\<lambda>h s. Done (memory_GetByHost now h s)), so_PutByHost = memory_PutByHost now,
     so_GetByIP = memory_GetByIP now, so_PutByIP = memory_PutByIP now, so_DelByIP = memory_DelByIP now,
     so_Exist = memory_Exist, so_Flush = memory_FlushFakeIP\<rparr>"

section \<open>The contract of a store\<close>

text \<open>\<open>pairs s\<close> are the names and addresses a well-formed store holds together, each name with one address and each address
  with one name; \<open>okh\<close> and \<open>oka\<close> are the names and addresses it keeps apart. The laws for a new pair are those of the two calls
  that the pool always makes together; a store may forget other pairs then, but never half of one.\<close>

locale fake_store =
  fixes ops :: "'s store_ops"
    and inv :: "'s \<Rightarrow> bool"
    and pairs :: "'s \<Rightarrow> (string \<times> addr) set"
    and okh :: "string \<Rightarrow> bool"
    and oka :: "addr \<Rightarrow> bool"
  assumes pairs_host: "inv s \<Longrightarrow> (h, a) \<in> pairs s \<Longrightarrow> (h, b) \<in> pairs s \<Longrightarrow> a = b"
    and pairs_ip: "inv s \<Longrightarrow> (h, a) \<in> pairs s \<Longrightarrow> (g, a) \<in> pairs s \<Longrightarrow> h = g"
    and get_host: "inv s \<Longrightarrow> okh h \<Longrightarrow>
      \<exists>r s'. so_GetByHost ops h s = Done (r, s') \<and> inv s' \<and> pairs s' = pairs s \<and> (\<forall>a. r = Some a \<longleftrightarrow> (h, a) \<in> pairs s)"
    and get_ip: "inv s \<Longrightarrow> oka a \<Longrightarrow> so_GetByIP ops a s = (r, s') \<Longrightarrow>
      inv s' \<and> pairs s' = pairs s \<and> (\<forall>h. r = Some h \<longleftrightarrow> (h, a) \<in> pairs s)"
    and exists_ip: "inv s \<Longrightarrow> oka a \<Longrightarrow> so_Exist ops a s \<longleftrightarrow> (\<exists>h. (h, a) \<in> pairs s)"
    and del_ip: "inv s \<Longrightarrow> oka a \<Longrightarrow> inv (so_DelByIP ops a s) \<and> pairs (so_DelByIP ops a s) = {p \<in> pairs s. snd p \<noteq> a}"
    and put_pair: "inv s \<Longrightarrow> okh h \<Longrightarrow> oka a \<Longrightarrow> (\<And>b. (h, b) \<notin> pairs s) \<Longrightarrow> (\<And>g. (g, a) \<notin> pairs s) \<Longrightarrow>
      inv (so_PutByHost ops h a (so_PutByIP ops a h s)) \<and>
      (h, a) \<in> pairs (so_PutByHost ops h a (so_PutByIP ops a h s)) \<and>
      pairs (so_PutByHost ops h a (so_PutByIP ops a h s)) \<subseteq> insert (h, a) (pairs s)"

text \<open>An address without zone; the next one of an address below another.\<close>

fun plain_addr :: "addr \<Rightarrow> bool" where
  "plain_addr NoAddr = False"
| "plain_addr (Addr4 a) = True"
| "plain_addr (Addr6 a z) = (z = [])"

lemma word_next:
  fixes x y :: "'a::len word"
  assumes "x < y"
  shows "x + 1 \<noteq> 0" and "x < x + 1"
proof -
  have "unat x + 1 < 2 ^ LENGTH('a)"
  proof -
    have "unat y < 2 ^ LENGTH('a)" by (rule unsigned_less)
    with assms show ?thesis unfolding word_less_nat_alt by linarith
  qed
  then have u: "unat (x + 1) = unat x + 1" by (simp add: unat_word_ariths)
  then show "x < x + 1" by (simp add: word_less_nat_alt)
  from u show "x + 1 \<noteq> 0" by (metis add_is_0 one_neq_zero unat_0)
qed

lemma addr_next_step:
  "plain_addr a \<Longrightarrow> plain_addr b \<Longrightarrow> addr_bitlen a = addr_bitlen b \<Longrightarrow> a < b \<Longrightarrow>
   plain_addr (addr_next a) \<and> a < addr_next a"
  by (cases a; cases b) (auto simp: word_next)

text \<open>The addresses a pool gives out. The offset is inside, or just before the first one.\<close>

definition in_pool :: "'s pool \<Rightarrow> addr \<Rightarrow> bool" where
  "in_pool p a \<longleftrightarrow> plain_addr a \<and> pFirst p \<le> a \<and> a < pLast p"

definition pool_range_ok :: "'s pool \<Rightarrow> bool" where
  "pool_range_ok p \<longleftrightarrow> plain_addr (pFirst p) \<and> plain_addr (pLast p) \<and>
     addr_bitlen (pFirst p) = addr_bitlen (pLast p) \<and> pFirst p < pLast p \<and>
     (in_pool p (pOffset p) \<or> addr_next (pOffset p) = pFirst p)"

lemma addr_le_bitlen: "a \<le> b \<Longrightarrow> addr_bitlen a \<le> addr_bitlen b"
  by (cases a; cases b) (simp_all add: less_eq_addr_def)

lemma in_pool_next:
  assumes "pool_range_ok p" and "addr_next (pOffset p) < pLast p"
  shows "in_pool p (addr_next (pOffset p))"
proof (cases "in_pool p (pOffset p)")
  case True
  then have o: "plain_addr (pOffset p)" "pFirst p \<le> pOffset p" "pOffset p < pLast p" by (simp_all add: in_pool_def)
  from assms(1) have r: "plain_addr (pLast p)" "addr_bitlen (pFirst p) = addr_bitlen (pLast p)"
    by (simp_all add: pool_range_ok_def)
  have "addr_bitlen (pOffset p) = addr_bitlen (pLast p)"
    using addr_le_bitlen [OF o(2)] addr_le_bitlen [OF less_imp_le [OF o(3)]] r(2) by simp
  from addr_next_step [OF o(1) r(1) this o(3)] have n: "plain_addr (addr_next (pOffset p))" "pOffset p \<le> addr_next (pOffset p)"
    by (auto intro: less_imp_le)
  show ?thesis unfolding in_pool_def by (intro conjI n(1) assms(2) order_trans [OF o(2) n(2)])
next
  case False
  with assms show ?thesis unfolding pool_range_ok_def in_pool_def by auto
qed

lemma in_pool_first: "pool_range_ok p \<Longrightarrow> in_pool p (pFirst p)"
  by (simp add: pool_range_ok_def in_pool_def)

context fake_store
begin

text \<open>The invariant of a pool on a store: the range, and a store whose addresses all belong to it.\<close>

definition pool_inv :: "'s pool \<Rightarrow> bool" where
  "pool_inv p \<longleftrightarrow> pool_range_ok p \<and> inv (pStore p) \<and> (\<forall>a. in_pool p a \<longrightarrow> oka a) \<and>
     (\<forall>(h, a) \<in> pairs (pStore p). okh h \<and> in_pool p a)"

lemma pool_get_new:
  assumes "pool_inv p" "okh h" "\<And>b. (h, b) \<notin> pairs (pStore p)" "pool_get ops h p = (ip, p1)"
  defines "p2 \<equiv> p1\<lparr>pStore := so_PutByHost ops h ip (pStore p1)\<rparr>"
  shows "in_pool p ip \<and> pool_inv p2 \<and> (h, ip) \<in> pairs (pStore p2) \<and>
    pairs (pStore p2) \<subseteq> insert (h, ip) {q \<in> pairs (pStore p). snd q \<noteq> ip} \<and>
    pFirst p2 = pFirst p \<and> pLast p2 = pLast p"
proof -
  let ?off = "addr_next (pOffset p)"
  define off where "off = (if \<not> ?off < pLast p then pFirst p else ?off)"
  define cyc where "cyc = (if \<not> ?off < pLast p then True else pCycle p)"
  define s1 where "s1 = (if cyc \<or> so_Exist ops off (pStore p) then so_DelByIP ops off (pStore p) else pStore p)"
  have "pool_get ops h p = (off, p\<lparr>pOffset := off, pCycle := cyc, pStore := so_PutByIP ops off h s1\<rparr>)"
  proof (cases "?off < pLast p")
    case True
    then show ?thesis unfolding pool_get_def off_def cyc_def s1_def Let_def by (simp only: if_False not_True_eq_False simp_thms prod.case)
  next
    case False
    then show ?thesis unfolding pool_get_def off_def cyc_def s1_def Let_def by (simp only: if_True not_False_eq_True simp_thms prod.case)
  qed
  from trans [OF sym [OF assms(4)] this]
  have p1: "ip = off" "p1 = p\<lparr>pOffset := off, pCycle := cyc, pStore := so_PutByIP ops off h s1\<rparr>"
    by simp_all
  from assms(1) have range: "pool_range_ok p" and inv: "inv (pStore p)" and ok: "\<And>a. in_pool p a \<Longrightarrow> oka a"
    and sub: "\<forall>(h, a) \<in> pairs (pStore p). okh h \<and> in_pool p a" unfolding pool_inv_def by auto
  have off: "in_pool p off" using in_pool_next [OF range] in_pool_first [OF range] by (simp add: off_def)
  have s1: "inv s1 \<and> pairs s1 = {q \<in> pairs (pStore p). snd q \<noteq> off}"
    using del_ip [OF inv ok [OF off]] exists_ip [OF inv ok [OF off]] inv unfolding s1_def by auto
  have st: "pStore p2 = so_PutByHost ops h off (so_PutByIP ops off h s1)" by (simp add: p2_def p1)
  have put: "inv (pStore p2) \<and> (h, off) \<in> pairs (pStore p2) \<and> pairs (pStore p2) \<subseteq> insert (h, off) (pairs s1)"
    unfolding st using s1 assms(3) by (intro put_pair assms(2) ok off) auto
  have same: "in_pool p2 = in_pool p" "pFirst p2 = pFirst p" "pLast p2 = pLast p" "pOffset p2 = off"
    by (auto simp: p2_def p1 in_pool_def)
  have p2: "pairs (pStore p2) \<subseteq> insert (h, off) {q \<in> pairs (pStore p). snd q \<noteq> off}" using put s1 by simp
  have "\<forall>(g, a) \<in> pairs (pStore p2). okh g \<and> in_pool p a"
  proof (clarify)
    fix g a assume "(g, a) \<in> pairs (pStore p2)"
    then have "(g, a) = (h, off) \<or> (g, a) \<in> pairs (pStore p)" using p2 by auto
    then show "okh g \<and> in_pool p a" using sub off assms(2) by auto
  qed
  then have "pool_inv p2" using range off put ok by (simp add: pool_inv_def pool_range_ok_def same)
  with put p2 off same p1(1) show ?thesis by simp
qed

text \<open>A lookup gives an address of the pool that the name is then stored with; other pairs stay or are forgotten, but never
  change.\<close>

lemma Lookup_pairs:
  assumes "pool_inv p" "okh (to_lower h)"
  shows "\<exists>ip p'. pool_Lookup ops h p = Done (ip, p') \<and> pool_inv p' \<and> in_pool p ip \<and> (to_lower h, ip) \<in> pairs (pStore p') \<and>
    pairs (pStore p') \<subseteq> insert (to_lower h, ip) (pairs (pStore p)) \<and> pFirst p' = pFirst p \<and> pLast p' = pLast p"
proof -
  let ?h = "to_lower h"
  have inv: "inv (pStore p)" using assms(1) by (simp add: pool_inv_def)
  from get_host [OF inv assms(2)] obtain r s where
    g: "so_GetByHost ops ?h (pStore p) = Done (r, s)" "inv s" "pairs s = pairs (pStore p)"
      "\<forall>a. r = Some a \<longleftrightarrow> (?h, a) \<in> pairs (pStore p)"
    by (elim exE conjE)
  let ?p = "p\<lparr>pStore := s\<rparr>"
  have inp: "in_pool ?p = in_pool p" by (auto simp: in_pool_def)
  have pinv: "pool_inv ?p" using assms(1) g unfolding pool_inv_def pool_range_ok_def by (simp add: inp)
  show ?thesis
  proof (cases r)
    case (Some ip)
    with g have "(?h, ip) \<in> pairs s" by auto
    moreover from this pinv have "in_pool p ip" unfolding pool_inv_def by (auto simp: inp)
    ultimately show ?thesis using Some g pinv by (auto simp: pool_Lookup_def)
  next
    case None
    obtain ip p1 where get: "pool_get ops ?h ?p = (ip, p1)" by (cases "pool_get ops ?h ?p")
    have "(?h, b) \<notin> pairs (pStore ?p)" for b using None g(3,4) by simp
    from pool_get_new [OF pinv assms(2) this get] show ?thesis
      using None g get by (auto simp: pool_Lookup_def inp)
  qed
qed

lemma LookBack_pairs:
  assumes "pool_inv p" "oka ip" "pool_LookBack ops ip p = (r, p')"
  shows "pool_inv p' \<and> (\<forall>h. r = Some h \<longleftrightarrow> (h, ip) \<in> pairs (pStore p))"
proof -
  have inv: "inv (pStore p)" using assms(1) by (simp add: pool_inv_def)
  obtain s where g: "so_GetByIP ops ip (pStore p) = (r, s)" "p' = p\<lparr>pStore := s\<rparr>"
    using assms(3) by (auto simp: pool_LookBack_def split: prod.splits)
  have inp: "in_pool (p\<lparr>pStore := s\<rparr>) = in_pool p" by (auto simp: in_pool_def)
  from get_ip [OF inv assms(2) g(1)] assms(1) g show ?thesis
    unfolding pool_inv_def pool_range_ok_def by (simp add: inp)
qed

text \<open>The round trip: the address of a name leads back to the name, and no other name has it.\<close>

lemma Lookup_LookBack:
  assumes "pool_inv p" "okh (to_lower h)" "pool_Lookup ops h p = Done (ip, p')"
  shows "pool_inv p' \<and> in_pool p ip \<and> fst (pool_LookBack ops ip p') = Some (to_lower h)"
proof -
  from Lookup_pairs [OF assms(1,2)] assms(3) have l: "pool_inv p'" "in_pool p ip" "(to_lower h, ip) \<in> pairs (pStore p')"
    by auto
  have "oka ip" using assms(1) l(2) by (simp add: pool_inv_def)
  obtain r q where b: "pool_LookBack ops ip p' = (r, q)" by (cases "pool_LookBack ops ip p'")
  from LookBack_pairs [OF l(1) \<open>oka ip\<close> b] l b show ?thesis by simp
qed

end

section \<open>The memory store keeps the contract\<close>

text \<open>The two caches hold the same pairs in the same order, so that they forget a pair together.\<close>

abbreviation ip_items :: "memory_store \<Rightarrow> (string \<times> addr) list" where
  "ip_items m \<equiv> lru_items (ipHeap m) (cacheIP m)"

abbreviation host_items :: "memory_store \<Rightarrow> (addr \<times> string) list" where
  "host_items m \<equiv> lru_items (hostHeap m) (cacheHost m)"

definition mem_inv :: "memory_store \<Rightarrow> bool" where
  "mem_inv m \<longleftrightarrow> lru_sync (ipHeap m) (cacheIP m) \<and> lru_sync (hostHeap m) (cacheHost m) \<and>
     maxAge (cacheIP m) \<le> 0 \<and> maxAge (cacheHost m) \<le> 0 \<and> maxSize (cacheIP m) = maxSize (cacheHost m) \<and>
     host_items m = map prod.swap (ip_items m)"

definition mem_pairs :: "memory_store \<Rightarrow> (string \<times> addr) set" where
  "mem_pairs m = set (ip_items m)"

lemma mem_invD:
  assumes "mem_inv m"
  shows "lru_sync (ipHeap m) (cacheIP m)" "lru_sync (hostHeap m) (cacheHost m)" "maxAge (cacheIP m) \<le> 0"
    "maxAge (cacheHost m) \<le> 0" "maxSize (cacheIP m) = maxSize (cacheHost m)" "host_items m = map prod.swap (ip_items m)"
    "distinct (map fst (ip_items m))" "distinct (map snd (ip_items m))"
proof -
  from assms show "lru_sync (ipHeap m) (cacheIP m)" "lru_sync (hostHeap m) (cacheHost m)" "maxAge (cacheIP m) \<le> 0"
    "maxAge (cacheHost m) \<le> 0" "maxSize (cacheIP m) = maxSize (cacheHost m)" and e: "host_items m = map prod.swap (ip_items m)"
    unfolding mem_inv_def by blast+
  then show "distinct (map fst (ip_items m))" using distinct_items by blast
  have "distinct (map fst (host_items m))" using \<open>lru_sync (hostHeap m) (cacheHost m)\<close> distinct_items by blast
  then show "distinct (map snd (ip_items m))" by (simp add: e o_def)
qed

lemma swap_keys: "(a, h) \<in> set (map prod.swap xs) \<longleftrightarrow> (h, a) \<in> set xs"
  by force

lemma map_of_swap:
  "distinct (map snd xs) \<Longrightarrow> map_of (map prod.swap xs) a = Some h \<longleftrightarrow> (h, a) \<in> set xs"
  using map_of_eq_Some_iff [of "map prod.swap xs" a h] swap_keys [of a h xs] by (simp add: o_def del: set_map)

lemma map_of_swap_None: "map_of (map prod.swap xs) a = None \<longleftrightarrow> a \<notin> snd ` set xs"
  by (simp add: map_of_eq_None_iff image_image)

lemma del_key_swap:
  assumes "distinct (map fst xs)" "distinct (map snd xs)" "(h, a) \<in> set xs"
  shows "del_key a (map prod.swap xs) = map prod.swap (del_key h xs)"
proof -
  have "fst p = h \<longleftrightarrow> snd p = a" if "p \<in> set xs" for p
    using that assms by (metis distinct_map inj_onD fst_conv snd_conv)
  then show ?thesis unfolding del_key_def filter_map o_def by (auto intro!: filter_cong arg_cong [where f = "map prod.swap"])
qed

lemma set_del_key: "set (del_key k xs) = {p \<in> set xs. fst p \<noteq> k}"
  by (auto simp: del_key_def)

lemma del_key_absent: "k \<notin> fst ` set xs \<Longrightarrow> del_key k xs = xs"
  by (auto simp: del_key_def intro!: filter_True)

text \<open>The accesses to one cache, on its items.\<close>

lemma same_configD: "same_config c d \<Longrightarrow> maxAge c = maxAge d \<and> maxSize c = maxSize d"
  by (simp add: same_config_def)

lemma ms_get_ip_items:
  assumes "ms_get_ip now h m = (r, m')" "lru_sync (ipHeap m) (cacheIP m)" "maxAge (cacheIP m) \<le> 0"
  shows "lru_sync (ipHeap m') (cacheIP m') \<and> r = map_of (ip_items m) h \<and> maxAge (cacheIP m') \<le> 0 \<and>
    maxSize (cacheIP m') = maxSize (cacheIP m) \<and> hostHeap m' = hostHeap m \<and> cacheHost m' = cacheHost m \<and>
    ip_items m' = (case r of None \<Rightarrow> ip_items m | Some a \<Rightarrow> del_key h (ip_items m) @ [(h, a)])"
proof -
  obtain h1 c1 where g: "lru_get now h (ipHeap m) (cacheIP m) = (r, h1, c1)" "m' = m\<lparr>ipHeap := h1, cacheIP := c1\<rparr>"
    using assms(1) by (auto simp: ms_get_ip_def split: prod.splits)
  from get_items [OF assms(2,3) g(1)] g(2) assms(3) show ?thesis by (auto dest: same_configD)
qed

lemma ms_get_host_items:
  assumes "ms_get_host now a m = (r, m')" "lru_sync (hostHeap m) (cacheHost m)" "maxAge (cacheHost m) \<le> 0"
  shows "lru_sync (hostHeap m') (cacheHost m') \<and> r = map_of (host_items m) a \<and> maxAge (cacheHost m') \<le> 0 \<and>
    maxSize (cacheHost m') = maxSize (cacheHost m) \<and> ipHeap m' = ipHeap m \<and> cacheIP m' = cacheIP m \<and>
    host_items m' = (case r of None \<Rightarrow> host_items m | Some h \<Rightarrow> del_key a (host_items m) @ [(a, h)])"
proof -
  obtain h1 c1 where g: "lru_get now a (hostHeap m) (cacheHost m) = (r, h1, c1)" "m' = m\<lparr>hostHeap := h1, cacheHost := c1\<rparr>"
    using assms(1) by (auto simp: ms_get_host_def split: prod.splits)
  from get_items [OF assms(2,3) g(1)] g(2) assms(3) show ?thesis by (auto dest: same_configD)
qed

text \<open>Both caches after an access to the same pair.\<close>

definition touch :: "string \<Rightarrow> addr \<Rightarrow> memory_store \<Rightarrow> memory_store \<Rightarrow> bool" where
  "touch h a m m' \<longleftrightarrow> mem_inv m' \<and> ip_items m' = del_key h (ip_items m) @ [(h, a)] \<and> maxSize (cacheIP m') = maxSize (cacheIP m)"

lemma touch_pairs:
  assumes "mem_inv m" "touch h a m m'" "(h, a) \<in> mem_pairs m"
  shows "mem_pairs m' = mem_pairs m"
proof -
  have u: "a' = a" if "(h, a') \<in> set (ip_items m)" for a'
    using that assms(3) mem_invD(7) [OF assms(1)] by (metis mem_pairs_def map_of_eq_Some_iff option.inject)
  have "set (ip_items m') = insert (h, a) {p \<in> set (ip_items m). fst p \<noteq> h}"
    using assms(2) by (simp add: touch_def set_del_key)
  also have "\<dots> = set (ip_items m)"
  proof (rule set_eqI)
    fix p show "p \<in> insert (h, a) {p \<in> set (ip_items m). fst p \<noteq> h} \<longleftrightarrow> p \<in> set (ip_items m)"
      using u [of "snd p"] assms(3) by (cases p) (auto simp: mem_pairs_def)
  qed
  finally show ?thesis by (simp add: mem_pairs_def)
qed

lemma memory_GetByHost_spec:
  assumes "mem_inv m" "memory_GetByHost now h m = (r, m')"
  shows "mem_inv m' \<and> mem_pairs m' = mem_pairs m \<and> (\<forall>a. r = Some a \<longleftrightarrow> (h, a) \<in> mem_pairs m)"
proof -
  note D = mem_invD [OF assms(1)]
  obtain r1 m1 where g: "ms_get_ip now h m = (r1, m1)" by (cases "ms_get_ip now h m")
  note G = ms_get_ip_items [OF g D(1,3)]
  have r1: "r1 = Some a \<longleftrightarrow> (h, a) \<in> mem_pairs m" for a
    using G D(7) by (simp add: mem_pairs_def map_of_eq_Some_iff)
  show ?thesis
  proof (cases r1)
    case None
    with assms(2) g have "m' = m1" "r = None" by (auto simp: memory_GetByHost_def)
    with None G assms(1) r1 show ?thesis by (auto simp: mem_inv_def mem_pairs_def)
  next
    case (Some a)
    obtain r2 m2 where g2: "ms_get_host now a m1 = (r2, m2)" by (cases "ms_get_host now a m1")
    with assms(2) g Some have m': "m' = m2" "r = Some a" by (auto simp: memory_GetByHost_def)
    from G D have s1: "lru_sync (hostHeap m1) (cacheHost m1)" "maxAge (cacheHost m1) \<le> 0" by simp_all
    note G2 = ms_get_host_items [OF g2 s1]
    have mem: "(h, a) \<in> set (ip_items m)" using r1 [of a] Some by (simp add: mem_pairs_def)
    then have r2: "r2 = Some h" using G G2 D(6,8) map_of_swap [of "ip_items m" a h] by simp
    have "touch h a m m'" unfolding touch_def mem_inv_def m'
      using G G2 D Some r2 del_key_swap [OF D(7,8) mem] by simp
    with touch_pairs [OF assms(1) this] r1 Some mem m' show ?thesis by (auto simp: mem_pairs_def touch_def)
  qed
qed

lemma memory_GetByIP_spec:
  assumes "mem_inv m" "memory_GetByIP now a m = (r, m')"
  shows "mem_inv m' \<and> mem_pairs m' = mem_pairs m \<and> (\<forall>h. r = Some h \<longleftrightarrow> (h, a) \<in> mem_pairs m)"
proof -
  note D = mem_invD [OF assms(1)]
  obtain r1 m1 where g: "ms_get_host now a m = (r1, m1)" by (cases "ms_get_host now a m")
  note G = ms_get_host_items [OF g D(2,4)]
  have r1: "r1 = Some h \<longleftrightarrow> (h, a) \<in> mem_pairs m" for h
    using G D(6) map_of_swap [OF D(8)] by (simp add: mem_pairs_def)
  show ?thesis
  proof (cases r1)
    case None
    with assms(2) g have "m' = m1" "r = None" by (auto simp: memory_GetByIP_def)
    with None G assms(1) r1 show ?thesis by (auto simp: mem_inv_def mem_pairs_def)
  next
    case (Some h)
    obtain r2 m2 where g2: "ms_get_ip now h m1 = (r2, m2)" by (cases "ms_get_ip now h m1")
    with assms(2) g Some have m': "m' = m2" "r = Some h" by (auto simp: memory_GetByIP_def)
    from G D have s1: "lru_sync (ipHeap m1) (cacheIP m1)" "maxAge (cacheIP m1) \<le> 0" by simp_all
    note G2 = ms_get_ip_items [OF g2 s1]
    have mem: "(h, a) \<in> set (ip_items m)" using r1 [of h] Some by (simp add: mem_pairs_def)
    then have r2: "r2 = Some a" using G G2 D(7) by (simp add: map_of_eq_Some_iff)
    have "touch h a m m'" unfolding touch_def mem_inv_def m'
      using G G2 D Some r2 del_key_swap [OF D(7,8) mem] by simp
    with touch_pairs [OF assms(1) this] r1 Some mem m' show ?thesis by (auto simp: mem_pairs_def touch_def)
  qed
qed

lemma memory_Exist_spec: "mem_inv m \<Longrightarrow> memory_Exist a m \<longleftrightarrow> (\<exists>h. (h, a) \<in> mem_pairs m)"
  using mem_invD(2,6) [of m]
  by (force simp: memory_Exist_def exist_items mem_pairs_def map_of_eq_None_iff)

lemma memory_DelByIP_spec:
  assumes "mem_inv m"
  shows "mem_inv (memory_DelByIP now a m) \<and> mem_pairs (memory_DelByIP now a m) = {p \<in> mem_pairs m. snd p \<noteq> a}"
proof -
  note D = mem_invD [OF assms]
  obtain r m1 where g: "ms_get_host now a m = (r, m1)" by (cases "ms_get_host now a m")
  note G = ms_get_host_items [OF g D(2,4)]
  have host: "lru_sync (hostHeap m1) (cacheHost m1)" using G by simp
  note H = delete_items [OF host, of a]
  show ?thesis
  proof (cases r)
    case None
    then have a: "a \<notin> snd ` set (ip_items m)" using G D(6) map_of_swap_None by metis
    then have "del_key a (host_items m) = host_items m" unfolding D(6) by (intro del_key_absent) (force simp: image_iff)
    with None G H D assms g a show ?thesis
      by (auto simp: memory_DelByIP_def mem_inv_def mem_pairs_def dest: same_configD)
  next
    case (Some h)
    then have mem: "(h, a) \<in> set (ip_items m)" using G D(6) map_of_swap [OF D(8)] by simp
    have ip: "lru_sync (ipHeap m1) (cacheIP m1)" "ip_items m1 = ip_items m" using G D by simp_all
    note I = delete_items [OF ip(1), of h]
    let ?m = "memory_DelByIP now a m"
    have f: "ipHeap ?m = ipHeap m1" "hostHeap ?m = hostHeap m1" "cacheIP ?m = lru_delete h (ipHeap m1) (cacheIP m1)"
      "cacheHost ?m = lru_delete a (hostHeap m1) (cacheHost m1)"
      using g Some by (simp_all add: memory_DelByIP_def)
    have items: "ip_items ?m = del_key h (ip_items m)" using I ip(2) by (simp add: f)
    have "host_items ?m = del_key a (host_items m)"
    proof -
      have "host_items m1 = (case r of None \<Rightarrow> host_items m | Some h \<Rightarrow> del_key a (host_items m) @ [(a, h)])"
        using G by blast
      then have "host_items m1 = del_key a (host_items m) @ [(a, h)]" by (simp add: Some)
      moreover have "host_items ?m = del_key a (host_items m1)" using H by (simp add: f)
      ultimately show ?thesis by (simp add: del_key_def)
    qed
    then have hosts: "host_items ?m = map prod.swap (ip_items ?m)"
      unfolding items D(6) using del_key_swap [OF D(7,8) mem] by simp
    have "mem_inv ?m" unfolding mem_inv_def
      using hosts H I G D by (auto simp: f dest!: same_configD)
    moreover have "fst p = h \<longleftrightarrow> snd p = a" if "p \<in> set (ip_items m)" for p
      using that mem D(7,8) by (metis distinct_map inj_onD fst_conv snd_conv)
    then have "mem_pairs ?m = {p \<in> mem_pairs m. snd p \<noteq> a}" by (auto simp: mem_pairs_def items set_del_key)
    ultimately show ?thesis by simp
  qed
qed

lemma memory_put_spec:
  fixes now :: int
  assumes "mem_inv m" "\<And>b. (h, b) \<notin> mem_pairs m" "\<And>g. (g, a) \<notin> mem_pairs m"
  defines "m2 \<equiv> memory_PutByHost now h a (memory_PutByIP now a h m)"
  shows "mem_inv m2 \<and> (h, a) \<in> mem_pairs m2 \<and> mem_pairs m2 \<subseteq> insert (h, a) (mem_pairs m)"
proof -
  note D = mem_invD [OF assms(1)]
  obtain h1 c1 where s1: "lru_set now a h (hostHeap m) (cacheHost m) = (h1, c1)" by (metis prod.exhaust)
  obtain h2 c2 where s2: "lru_set now h a (ipHeap m) (cacheIP m) = (h2, c2)" by (metis prod.exhaust)
  have m2: "hostHeap m2 = h1" "cacheHost m2 = c1" "ipHeap m2 = h2" "cacheIP m2 = c2"
    unfolding m2_def by (simp_all add: memory_PutByHost_def memory_PutByIP_def s1 s2)
  have h: "h \<notin> fst ` set (ip_items m)" using assms(2) by (force simp: mem_pairs_def)
  have a: "a \<notin> snd ` set (ip_items m)" using assms(3) by (force simp: mem_pairs_def)
  then have a': "a \<notin> fst ` set (host_items m)" unfolding D(6) by (force simp: image_iff)
  let ?full = "0 < maxSize (cacheIP m) \<and> maxSize (cacheIP m) < int (length (ip_items m @ [(h, a)]))"
  note S1 = set_items [OF D(2,4) s1] and S2 = set_items [OF D(1,3) s2]
  have i2: "ip_items m2 = (if ?full then tl (ip_items m @ [(h, a)]) else ip_items m @ [(h, a)])"
    using S2 h by (simp add: m2 del_key_absent map_of_eq_None_iff Let_def)
  have i1: "host_items m2 = (if ?full then tl (host_items m @ [(a, h)]) else host_items m @ [(a, h)])"
    using S1 a' D(5,6) by (simp add: m2 del_key_absent map_of_eq_None_iff Let_def)
  have "host_items m2 = map prod.swap (ip_items m2)"
    unfolding i1 i2 D(6) by (simp add: map_tl)
  then have "mem_inv m2" unfolding mem_inv_def using S1 S2 D by (simp add: m2) (auto dest!: same_configD)
  moreover have "ip_items m \<noteq> []" if ?full using that by (cases "ip_items m") auto
  then have "(h, a) \<in> set (ip_items m2)" unfolding i2 by (cases "ip_items m") auto
  moreover have "set (ip_items m2) \<subseteq> insert (h, a) (set (ip_items m))"
    unfolding i2 by (cases "ip_items m") auto
  ultimately show ?thesis by (simp add: mem_pairs_def)
qed

lemma mem_inv_new: "mem_inv (newMemoryStore n)" "mem_pairs (newMemoryStore n) = {}"
  by (simp_all add: mem_inv_def mem_pairs_def newMemoryStore_def lru_items_def lru_view_def)
    (simp_all add: lru_new_def)

interpretation memory: fake_store "memory_ops now" mem_inv mem_pairs "\<lambda>_. True" "\<lambda>_. True" for now
proof unfold_locales
  fix s h a b g r s'
  assume inv: "mem_inv s"
  note D = mem_invD [OF inv]
  show "(h, a) \<in> mem_pairs s \<Longrightarrow> (h, b) \<in> mem_pairs s \<Longrightarrow> a = b"
    using D(7) by (metis mem_pairs_def map_of_eq_Some_iff option.inject)
  show "(h, a) \<in> mem_pairs s \<Longrightarrow> (g, a) \<in> mem_pairs s \<Longrightarrow> h = g"
    using map_of_swap [OF D(8)] by (metis mem_pairs_def option.inject)
  show "\<exists>r s'. so_GetByHost (memory_ops now) h s = Done (r, s') \<and> mem_inv s' \<and> mem_pairs s' = mem_pairs s \<and>
      (\<forall>a. r = Some a \<longleftrightarrow> (h, a) \<in> mem_pairs s)"
    using memory_GetByHost_spec [OF inv] by (cases "memory_GetByHost now h s") (auto simp: memory_ops_def)
  show "so_GetByIP (memory_ops now) a s = (r, s') \<Longrightarrow> mem_inv s' \<and> mem_pairs s' = mem_pairs s \<and> (\<forall>h. r = Some h \<longleftrightarrow> (h, a) \<in> mem_pairs s)"
    using memory_GetByIP_spec [OF inv] by (simp add: memory_ops_def)
  show "so_Exist (memory_ops now) a s \<longleftrightarrow> (\<exists>h. (h, a) \<in> mem_pairs s)"
    using memory_Exist_spec [OF inv] by (simp add: memory_ops_def)
  show "mem_inv (so_DelByIP (memory_ops now) a s) \<and> mem_pairs (so_DelByIP (memory_ops now) a s) = {p \<in> mem_pairs s. snd p \<noteq> a}"
    using memory_DelByIP_spec [OF inv] by (simp add: memory_ops_def)
next
  fix s h a
  assume "mem_inv s" "\<And>b. (h, b) \<notin> mem_pairs s" "\<And>g. (g, a) \<notin> mem_pairs s"
  from memory_put_spec [OF this, of now]
  show "mem_inv (so_PutByHost (memory_ops now) h a (so_PutByIP (memory_ops now) a h s)) \<and>
      (h, a) \<in> mem_pairs (so_PutByHost (memory_ops now) h a (so_PutByIP (memory_ops now) a h s)) \<and>
      mem_pairs (so_PutByHost (memory_ops now) h a (so_PutByIP (memory_ops now) a h s)) \<subseteq> insert (h, a) (mem_pairs s)"
    by (simp add: memory_ops_def)
qed

section \<open>A pool in use\<close>

lemma addr_next_plain:
  "plain_addr a \<Longrightarrow> addr_valid (addr_next a) \<Longrightarrow>
   plain_addr (addr_next a) \<and> addr_bitlen (addr_next a) = addr_bitlen a \<and> addr_prev (addr_next a) = a"
  by (cases a) (auto split: if_splits)

lemma addr_valid_prev: "addr_valid (addr_next a) \<Longrightarrow> addr_valid a"
  by (cases a) auto

lemma UnMasked_plain:
  "prefix_wf p \<Longrightarrow> plain_addr (UnMasked p) \<and> addr_bitlen (UnMasked p) = addr_bitlen (pfx_addr p)"
  using UnMasked_Addr4 [of p] UnMasked_Addr6 [of p]
  by (cases "pfx_addr p") (auto simp: prefix_wf_def prefix_valid_def)

lemma masked_plain:
  "prefix_wf p \<Longrightarrow> plain_addr (pfx_addr (prefix_masked p)) \<and> addr_bitlen (pfx_addr (prefix_masked p)) = addr_bitlen (pfx_addr p)"
  by (cases "pfx_addr p")
    (auto simp: prefix_wf_def prefix_valid_def prefix_masked_def prefix_from_def)

lemma pool_New_range:
  assumes "prefix_wf ipnet" "pool_New ops False ipnet host s = Done (Some p)"
  shows "pool_range_ok p \<and> pStore p = s"
proof -
  define a where "a = pfx_addr (prefix_masked ipnet)"
  define g where "g = addr_next (addr_next (addr_next a))"
  let ?f = "addr_next g" and ?l = "UnMasked ipnet"
  from assms(2) have f: "addr_valid ?f" "?f < ?l" and
    p: "p = \<lparr>pGateway = addr_next a, pFirst = ?f, pLast = ?l, pOffset = addr_prev ?f, pCycle = False,
             pHost = host, pIPNet = ipnet, pStore = s\<rparr>"
    by (auto simp: pool_New_def Let_def a_def g_def split: if_splits)
  have a: "plain_addr a" "addr_bitlen a = addr_bitlen ?l"
    using masked_plain [OF assms(1)] UnMasked_plain [OF assms(1)] by (simp_all add: a_def)
  have v: "addr_valid g" "addr_valid (addr_next (addr_next a))" "addr_valid (addr_next a)"
    using f(1) addr_valid_prev unfolding g_def by blast+
  have "plain_addr g \<and> addr_bitlen g = addr_bitlen ?l"
    using addr_next_plain [OF a(1) v(3)] addr_next_plain [of "addr_next a"] addr_next_plain [of "addr_next (addr_next a)"] v a(2)
    by (simp add: g_def)
  with addr_next_plain [of g] f UnMasked_plain [OF assms(1)] show ?thesis
    by (simp add: pool_range_ok_def p)
qed

datatype pool_cmd = PLookup string | PLookBack addr

fun pool_exec :: "'s store_ops \<Rightarrow> pool_cmd \<Rightarrow> 's pool \<Rightarrow> 's pool outcome" where
  "pool_exec ops (PLookup h) p = obind (pool_Lookup ops h p) (\<lambda>(ip, p'). Done p')"
| "pool_exec ops (PLookBack ip) p = Done (snd (pool_LookBack ops ip p))"

text \<open>A run of lookups in both directions; every command has its own time.\<close>

fun pool_run :: "(int \<Rightarrow> 's store_ops) \<Rightarrow> (int \<times> pool_cmd) list \<Rightarrow> 's pool \<Rightarrow> 's pool outcome" where
  "pool_run ops [] p = Done p"
| "pool_run ops ((now, c) # cs) p = obind (pool_exec (ops now) c p) (\<lambda>p'. pool_run ops cs p')"

context fake_store
begin

fun cmd_ok :: "pool_cmd \<Rightarrow> bool" where
  "cmd_ok (PLookup h) = okh (to_lower h)"
| "cmd_ok (PLookBack ip) = oka ip"

lemma exec_inv:
  assumes "pool_inv p" "cmd_ok c"
  shows "\<exists>p'. pool_exec ops c p = Done p' \<and> pool_inv p' \<and> pFirst p' = pFirst p \<and> pLast p' = pLast p"
proof (cases c)
  case (PLookup h)
  with Lookup_pairs [OF assms(1), of h] assms(2) show ?thesis by auto
next
  case (PLookBack ip)
  obtain r q where b: "pool_LookBack ops ip p = (r, q)" by (metis prod.exhaust)
  with LookBack_pairs [OF assms(1) _ b] PLookBack assms(2) show ?thesis
    by (auto simp: pool_LookBack_def split: prod.splits)
qed

lemma run_inv:
  "pool_inv p \<Longrightarrow> list_all (\<lambda>(t, c). cmd_ok c) cs \<Longrightarrow>
    \<exists>p'. pool_run (\<lambda>t. ops) cs p = Done p' \<and> pool_inv p' \<and> pFirst p' = pFirst p \<and> pLast p' = pLast p"
proof (induction cs arbitrary: p)
  case (Cons c cs)
  obtain t cmd where c: "c = (t, cmd)" by (cases c)
  with exec_inv [OF Cons.prems(1), of cmd] Cons.prems(2) obtain q where
    q: "pool_exec ops cmd p = Done q" "pool_inv q" "pFirst q = pFirst p" "pLast q = pLast p" by auto
  from Cons.IH [OF q(2)] Cons.prems(2) c q show ?case by auto
qed simp

end

lemma memory_cmd_ok [simp]: "memory.cmd_ok c"
  by (cases c) (simp_all add: memory.cmd_ok.simps)

lemma memory_exec_inv:
  assumes "memory.pool_inv p" "pool_exec (memory_ops now) c p = Done p'"
  shows "memory.pool_inv p' \<and> pFirst p' = pFirst p \<and> pLast p' = pLast p"
  using memory.exec_inv [OF assms(1), where c = c and now = now] assms(2) by auto

lemma memory_run_inv:
  "memory.pool_inv p \<Longrightarrow> pool_run memory_ops cs p = Done p' \<Longrightarrow>
    memory.pool_inv p' \<and> pFirst p' = pFirst p \<and> pLast p' = pLast p"
proof (induction cs arbitrary: p)
  case (Cons c cs)
  obtain now cmd where c: "c = (now, cmd)" by (cases c)
  with Cons.prems obtain q where q: "pool_exec (memory_ops now) cmd p = Done q" "pool_run memory_ops cs q = Done p'"
    by (auto simp: obind_Done)
  from memory_exec_inv [OF Cons.prems(1) q(1)] Cons.IH [OF _ q(2)] show ?case by simp
qed simp

lemma memory_run_returns: "memory.pool_inv p \<Longrightarrow> \<exists>p'. pool_run memory_ops cs p = Done p'"
proof (induction cs arbitrary: p)
  case (Cons c cs)
  obtain now cmd where c: "c = (now, cmd)" by (cases c)
  have "\<exists>q. pool_exec (memory_ops now) cmd p = Done q"
  proof (cases cmd)
    case (PLookup h)
    with memory.Lookup_pairs [OF Cons.prems, where h = h and now = now] show ?thesis by auto
  qed simp
  then obtain q where q: "pool_exec (memory_ops now) cmd p = Done q" ..
  with memory_exec_inv [OF Cons.prems q] Cons.IH [of q] c show ?case by auto
qed simp

lemma memory_New_inv:
  "prefix_wf ipnet \<Longrightarrow> pool_New ops False ipnet host (newMemoryStore n) = Done (Some p) \<Longrightarrow> memory.pool_inv p"
  using pool_New_range [of ipnet ops host "newMemoryStore n" p] mem_inv_new
  by (simp add: memory.pool_inv_def)

text \<open>C14: in a pool on the memory store, after any lookups in either direction and any evictions they caused, a lookup
  returns an address between the first and the last of the pool, and that address leads back to the name.\<close>

theorem memory_pool_round_trip:
  assumes "prefix_wf ipnet" "pool_New (memory_ops t0) False ipnet host (newMemoryStore n) = Done (Some p0)"
    and "pool_run memory_ops cs p0 = Done p" "pool_Lookup (memory_ops t) h p = Done (ip, p')"
  shows "pFirst p0 \<le> ip \<and> ip < pLast p0 \<and> fst (pool_LookBack (memory_ops t') ip p') = Some (to_lower h)"
proof -
  from memory_run_inv [OF memory_New_inv [OF assms(1,2)] assms(3)]
  have inv: "memory.pool_inv p" "pFirst p = pFirst p0" "pLast p = pLast p0" by simp_all
  from memory.Lookup_pairs [OF inv(1), where h = h and now = t] assms(4)
  have l: "memory.pool_inv p'" "in_pool p ip" "(to_lower h, ip) \<in> mem_pairs (pStore p')" by auto
  obtain r q where b: "pool_LookBack (memory_ops t') ip p' = (r, q)" by (metis prod.exhaust)
  from memory.LookBack_pairs [OF l(1) _ b] l b inv show ?thesis by (simp add: in_pool_def)
qed


text \<open>The pool of the unit tests, \<open>192.168.0.0/28\<close> with room for two names.\<close>

definition example_net :: prefix where
  "example_net = \<lparr>pfx_addr = Addr4 0xC0A80000, pfx_bits = 28\<rparr>"

definition example_pool :: "memory_store pool" where
  "example_pool = \<lparr>pGateway = Addr4 0xC0A80001, pFirst = Addr4 0xC0A80004, pLast = Addr4 0xC0A8000F,
     pOffset = Addr4 0xC0A80003, pCycle = False, pHost = None, pIPNet = example_net, pStore = newMemoryStore 2\<rparr>"

lemma example_net_wf: "prefix_wf example_net"
  by (simp add: prefix_wf_def prefix_valid_def example_net_def)

lemma example_net_ends: "UnMasked example_net = Addr4 0xC0A8000F" "pfx_addr (prefix_masked example_net) = Addr4 0xC0A80000"
proof -
  have "UnMasked example_net = Addr4 (fill_low 28 0xC0A80000)"
    using UnMasked_Addr4 [of example_net "0xC0A80000"] by (simp add: example_net_def)
  moreover have "fill_low 28 0xC0A80000 = (0xC0A8000F :: u32)" by (simp add: fill_low_def mask_numeral)
  moreover have "pfx_addr (prefix_masked example_net) = Addr4 0xC0A80000"
    by (simp add: prefix_masked_def prefix_from_def example_net_def high_mask_def mask_numeral)
  ultimately show "UnMasked example_net = Addr4 0xC0A8000F" "pfx_addr (prefix_masked example_net) = Addr4 0xC0A80000"
    by simp_all
qed

lemma example_New: "pool_New ops False example_net None (newMemoryStore 2) = Done (Some example_pool)"
  using example_net_ends by (simp add: pool_New_def Let_def prefix_valid_def example_net_def example_pool_def)

theorem memory_pool_round_trip_witness:
  "\<exists>p ip p'. pool_run memory_ops [(0, PLookup ''A.com''), (1, PLookup ''b.com'')] example_pool = Done p \<and>
     pool_Lookup (memory_ops 2) ''C.com'' p = Done (ip, p') \<and> ip < Addr4 0xC0A8000F \<and>
     fst (pool_LookBack (memory_ops 3) ip p') = Some ''c.com''"
proof -
  note inv = memory_New_inv [OF example_net_wf example_New [of "memory_ops 0"]]
  obtain p where p: "pool_run memory_ops [(0, PLookup ''A.com''), (1, PLookup ''b.com'')] example_pool = Done p"
    using memory_run_returns [OF inv] by blast
  obtain ip p' where l: "pool_Lookup (memory_ops 2) ''C.com'' p = Done (ip, p')"
    using memory.Lookup_pairs [where h = "''C.com''" and now = 2] memory_run_inv [OF inv p] by blast
  have "to_lower ''C.com'' = ''c.com''" by code_simp
  with memory_pool_round_trip [OF example_net_wf example_New p l, of 3] p l show ?thesis
    by (auto simp: example_pool_def)
qed


section \<open>Flushing the memory store\<close>

lemmas memory_eval = pool_Lookup_def pool_get_def pool_LookBack_def pool_FlushFakeIP_def memory_ops_def
  memory_GetByHost_def memory_PutByHost_def memory_GetByIP_def memory_PutByIP_def memory_DelByIP_def memory_Exist_def
  memory_FlushFakeIP_def ms_get_ip_def ms_get_host_def newMemoryStore_def lru_new_def lru_get_def lru_get_ref_def lru_set_def
  lru_setWithExpire_def lru_clear_def lru_exist_def lru_delete_def deleteElement_def maybeDeleteOldest_def MoveToBack_def

definition tiny_pool :: "memory_store pool" where
  "tiny_pool = example_pool\<lparr>pStore := newMemoryStore 1\<rparr>"

text \<open>\<open>FlushFakeIP\<close> on the memory store can break the pool: the flushed caches still count their old elements. When these
  fill the caches, here those of a store of size one, the next new pair is evicted as soon as it is stored, and the address
  just given out leads back to nothing.\<close>

theorem memory_flush_breaks_pool:
  "\<exists>ip p1 p2 ip' p3. pool_Lookup (memory_ops 0) ''a.com'' tiny_pool = Done (ip, p1) \<and>
     pool_FlushFakeIP (memory_ops 0) p1 = (True, p2) \<and>
     pool_Lookup (memory_ops 0) ''b.com'' p2 = Done (ip', p3) \<and> fst (pool_LookBack (memory_ops 0) ip' p3) = None"
proof -
  have low: "to_lower ''a.com'' = ''a.com''" "to_lower ''b.com'' = ''b.com''" by code_simp+
  show ?thesis
    by (simp add: memory_eval tiny_pool_def example_pool_def low Let_def)
qed

section \<open>The cache file store\<close>

text \<open>The operations of a bucket of the data base on its state: \<open>Get\<close>, \<open>Put\<close>, \<open>Delete\<close> and deleting the bucket, each in a
  transaction of its own; the flag is \<open>False\<close> for an error. The locale \<open>bucket\<close> is the contract under which the cache file
  is a store: a key that is put, neither empty nor longer than bbolt's \<open>MaxKeySize\<close>, with a value not longer than its
  \<open>MaxValueSize\<close>, is found with its value until it is put again or deleted, and other keys are not touched.

  The contract is more than the code is entitled to in two points. It leaves out transactions that fail on the disk, which
  the code does not report to the pool. And the bytes that \<open>Get\<close> returns are promised to stay as they are inside the
  transaction only, while \<open>GetFakeip\<close> (\<open>cache.go\<close>) returns them after its \<open>Rollback\<close>; here they are read before anything
  else is done to the file. What follows from \<open>bucket\<close> is therefore about a data base that behaves so.\<close>

definition MaxKeySize :: nat where
  "MaxKeySize = 32768"

definition MaxValueSize :: nat where
  "MaxValueSize = 2147483646"

record 'd bucket_ops =
  db_get :: "bytes \<Rightarrow> 'd \<Rightarrow> bytes option"
  db_put :: "bytes \<Rightarrow> bytes \<Rightarrow> 'd \<Rightarrow> bool \<times> 'd"
  db_delete :: "bytes \<Rightarrow> 'd \<Rightarrow> bool \<times> 'd"
  db_drop :: "'d \<Rightarrow> bool \<times> 'd"

locale bucket =
  fixes db :: "'d bucket_ops"
  assumes put_get: "k \<noteq> [] \<Longrightarrow> length k \<le> MaxKeySize \<Longrightarrow> length v \<le> MaxValueSize \<Longrightarrow> fst (db_put db k v d) \<and>
      db_get db k' (snd (db_put db k v d)) = (if k' = k then Some v else db_get db k' d)"
    and delete_get: "fst (db_delete db k d) \<and> db_get db k' (snd (db_delete db k d)) = (if k' = k then None else db_get db k' d)"
    and drop_get: "fst (db_drop db d) \<and> db_get db k' (snd (db_drop db d)) = None"

text \<open>\<open>CacheFile\<close>: \<open>None\<close> for a nil data base.\<close>

definition GetFakeip :: "'d bucket_ops \<Rightarrow> bytes \<Rightarrow> 'd option \<Rightarrow> bytes option" where
  "GetFakeip db key c = (case c of None \<Rightarrow> None | Some d \<Rightarrow> db_get db key d)"

definition PutFakeip :: "'d bucket_ops \<Rightarrow> bytes \<Rightarrow> bytes \<Rightarrow> 'd option \<Rightarrow> 'd option" where
  "PutFakeip db key val c = (case c of None \<Rightarrow> None | Some d \<Rightarrow> Some (snd (db_put db key val d)))"

definition DelFakeipPair :: "'d bucket_ops \<Rightarrow> bytes \<Rightarrow> bytes \<Rightarrow> 'd option \<Rightarrow> 'd option" where
  "DelFakeipPair db ip host c =
     (case c of
        None \<Rightarrow> None
      | Some d \<Rightarrow>
          let d1 = snd (db_delete db ip d)
          in Some (if length host > 0 then snd (db_delete db host d1) else d1))"

text \<open>With a nil data base \<open>FlushFakeIP\<close> calls a method on nil, which bbolt does not promise to survive.\<close>

definition cache_FlushFakeIP :: "'d bucket_ops \<Rightarrow> 'd option \<Rightarrow> bool \<times> 'd option" where
  "cache_FlushFakeIP db c = (case c of None \<Rightarrow> (False, None) | Some d \<Rightarrow> (fst (db_drop db d), Some (snd (db_drop db d))))"

text \<open>The conversion of a slice to an array panics when the slice is too short.\<close>

definition cachefile_GetByHost :: "'d bucket_ops \<Rightarrow> string \<Rightarrow> 'd option \<Rightarrow> addr option outcome" where
  "cachefile_GetByHost db host c =
     (case GetFakeip db (str_bytes host) c of
        None \<Rightarrow> Done None
      | Some elm \<Rightarrow>
          if length elm = 4 then Done (Some (Addr4 (be_word elm)))
          else if length elm < 16 then Panicked
          else Done (Some (addr_from16 (be_word (take 16 elm)))))"

definition cachefile_PutByHost :: "'d bucket_ops \<Rightarrow> string \<Rightarrow> addr \<Rightarrow> 'd option \<Rightarrow> 'd option" where
  "cachefile_PutByHost db host ip c = PutFakeip db (str_bytes host) (addr_as_slice ip) c"

definition cachefile_GetByIP :: "'d bucket_ops \<Rightarrow> addr \<Rightarrow> 'd option \<Rightarrow> string option" where
  "cachefile_GetByIP db ip c = map_option bytes_str (GetFakeip db (addr_as_slice ip) c)"

definition cachefile_PutByIP :: "'d bucket_ops \<Rightarrow> addr \<Rightarrow> string \<Rightarrow> 'd option \<Rightarrow> 'd option" where
  "cachefile_PutByIP db ip host c = PutFakeip db (addr_as_slice ip) (str_bytes host) c"

definition cachefile_DelByIP :: "'d bucket_ops \<Rightarrow> addr \<Rightarrow> 'd option \<Rightarrow> 'd option" where
  "cachefile_DelByIP db ip c =
     (let a = addr_as_slice ip
      in DelFakeipPair db a (case GetFakeip db a c of None \<Rightarrow> [] | Some h \<Rightarrow> h) c)"

definition cachefile_Exist :: "'d bucket_ops \<Rightarrow> addr \<Rightarrow> 'd option \<Rightarrow> bool" where
  "cachefile_Exist db ip c = (cachefile_GetByIP db ip c \<noteq> None)"

definition cachefile_ops :: "'d bucket_ops \<Rightarrow> 'd option store_ops" where
  "cachefile_ops db = \<lparr>so_GetByHost = (\<lambda>h s. obind (cachefile_GetByHost db h s) (\<lambda>r. Done (r, s))),
     so_PutByHost = cachefile_PutByHost db, so_GetByIP = (\<lambda>a s. (cachefile_GetByIP db a s, s)),
     so_PutByIP = cachefile_PutByIP db, so_DelByIP = cachefile_DelByIP db, so_Exist = cachefile_Exist db,
     so_Flush = cache_FlushFakeIP db\<rparr>"

text \<open>Names and addresses share the keys of one bucket. They are kept apart for names of ASCII bytes that fit a key, other than the two
  keys of the pool's state, and addresses whose first byte is not ASCII, as those of the default range.\<close>

definition cf_name :: "string \<Rightarrow> bool" where
  "cf_name h \<longleftrightarrow> h \<noteq> [] \<and> length h \<le> MaxKeySize \<and> (\<forall>c \<in> set h. of_char c < (128::nat)) \<and> h \<noteq> offsetKey \<and> h \<noteq> cycleKey"

definition cf_addr :: "addr \<Rightarrow> bool" where
  "cf_addr a \<longleftrightarrow> (case a of NoAddr \<Rightarrow> False | Addr6 w z \<Rightarrow> z = [] | _ \<Rightarrow> True) \<and> 128 \<le> hd (addr_as_slice a)"

definition cf_pairs :: "'d bucket_ops \<Rightarrow> 'd option \<Rightarrow> (string \<times> addr) set" where
  "cf_pairs db c = {(h, a). cf_name h \<and> cf_addr a \<and> GetFakeip db (addr_as_slice a) c = Some (str_bytes h)}"

text \<open>Each direction of a pair implies the other.\<close>

definition cf_inv :: "'d bucket_ops \<Rightarrow> 'd option \<Rightarrow> bool" where
  "cf_inv db c \<longleftrightarrow> c \<noteq> None \<and>
     (\<forall>a v. cf_addr a \<longrightarrow> GetFakeip db (addr_as_slice a) c = Some v \<longrightarrow>
        (\<exists>h. cf_name h \<and> v = str_bytes h \<and> GetFakeip db v c = Some (addr_as_slice a))) \<and>
     (\<forall>h v. cf_name h \<longrightarrow> GetFakeip db (str_bytes h) c = Some v \<longrightarrow>
        (\<exists>a. cf_addr a \<and> v = addr_as_slice a \<and> GetFakeip db v c = Some (str_bytes h)))"

lemma cf_keys_differ: "cf_name h \<Longrightarrow> cf_addr a \<Longrightarrow> str_bytes h \<noteq> addr_as_slice a"
proof
  assume h: "cf_name h" and a: "cf_addr a" and e: "str_bytes h = addr_as_slice a"
  then obtain c cs where c: "h = c # cs" by (cases h) (auto simp: cf_name_def)
  with e have "hd (addr_as_slice a) = of_nat (of_char c)" by (simp add: str_bytes_def flip: e)
  moreover have "of_char c < (128::nat)" using h c by (simp add: cf_name_def)
  then have "(of_nat (of_char c) :: u8) < 128" by (simp add: word_less_nat_alt unat_of_nat take_bit_eq_mod)
  ultimately have "hd (addr_as_slice a) < 128" by simp
  moreover have "128 \<le> hd (addr_as_slice a)" using a unfolding cf_addr_def by blast
  ultimately show False by (metis linorder_not_le)
qed

text \<open>Reading back the bytes of an address.\<close>

lemma decode_plain:
  assumes "plain_addr a"
  shows "length (addr_as_slice a) = 4 \<and> Addr4 (be_word (addr_as_slice a)) = a \<or>
    length (addr_as_slice a) = 16 \<and> addr_from16 (be_word (take 16 (addr_as_slice a))) = a"
  using assms be_word_be_bytes [where 'a = 32, of 4] be_word_be_bytes [where 'a = 128, of 16]
  by (cases a) (auto simp: addr_from16_def)

lemma cf_addr_plain: "cf_addr a \<longleftrightarrow> plain_addr a \<and> 128 \<le> hd (addr_as_slice a)"
  by (cases a) (auto simp: cf_addr_def)

lemmas decode_slice = decode_plain [OF conjunct1 [OF cf_addr_plain [THEN iffD1]]]

lemma hd_be_bytes: "hd (be_bytes (Suc n) w) = ucast (drop_bit (8 * n) w)"
  by (simp add: be_bytes_Suc)

lemma unat_top_byte:
  fixes w :: "'a::len word"
  assumes "LENGTH('a) = 8 * Suc n"
  shows "unat (ucast (drop_bit (8 * n) w) :: u8) = unat w div 2 ^ (8 * n)"
proof -
  have "unat w < 2 ^ LENGTH('a)" by (rule unsigned_less)
  then have "unat w div 2 ^ (8 * n) < 256"
    unfolding assms by (simp add: less_mult_imp_div_less power_add)
  then show ?thesis unfolding unsigned_ucast_eq unat_drop_bit_eq by (simp add: take_bit_eq_mod drop_bit_eq_div)
qed

lemma hd_slice_mono:
  assumes "plain_addr a" "plain_addr b" "addr_bitlen a = addr_bitlen b" "a \<le> b"
  shows "hd (addr_as_slice a) \<le> hd (addr_as_slice b)"
  using assms hd_be_bytes [of 3, where 'a = 32] hd_be_bytes [of 15, where 'a = 128]
    unat_top_byte [where 'a = 32 and n = 3] unat_top_byte [where 'a = 128 and n = 15]
  by (cases a; cases b) (auto simp: less_eq_addr_def word_le_nat_alt div_le_mono)

lemma slice_inject: "cf_addr a \<Longrightarrow> cf_addr b \<Longrightarrow> addr_as_slice a = addr_as_slice b \<Longrightarrow> a = b"
  using decode_slice [of a] decode_slice [of b] by (metis numeral_eq_iff semiring_norm(86,88,90,85,87,89))

lemma slice_not_Nil: "cf_addr a \<Longrightarrow> addr_as_slice a \<noteq> []"
  using decode_slice [of a] by force

lemma name_bytes_not_Nil: "cf_name h \<Longrightarrow> str_bytes h \<noteq> []"
  by (simp add: cf_name_def str_bytes_def)

text \<open>Bytes that fit both a key and a value.\<close>

definition fits :: "bytes \<Rightarrow> bool" where
  "fits k \<longleftrightarrow> k \<noteq> [] \<and> length k \<le> MaxKeySize"

lemma fits_value: "fits v \<Longrightarrow> length v \<le> MaxValueSize"
  by (simp add: fits_def MaxKeySize_def MaxValueSize_def)

lemma fits_name: "cf_name h \<Longrightarrow> fits (str_bytes h)"
  by (simp add: cf_name_def str_bytes_def fits_def)

lemma fits_plain: "plain_addr a \<Longrightarrow> fits (addr_as_slice a)"
  using decode_plain [of a] by (auto simp: fits_def MaxKeySize_def)

lemma fits_addr: "cf_addr a \<Longrightarrow> fits (addr_as_slice a)"
  by (simp add: fits_plain cf_addr_plain)

context bucket
begin

lemma GetFakeip_Put:
  "fits k \<Longrightarrow> fits v \<Longrightarrow> c \<noteq> None \<Longrightarrow> GetFakeip db k' (PutFakeip db k v c) = (if k' = k then Some v else GetFakeip db k' c)"
  using put_get [OF _ _ fits_value] by (cases c) (auto simp: GetFakeip_def PutFakeip_def fits_def)

lemma GetFakeip_Del:
  "c \<noteq> None \<Longrightarrow> GetFakeip db k' (DelFakeipPair db k h c) = (if k' = k \<or> (h \<noteq> [] \<and> k' = h) then None else GetFakeip db k' c)"
  using delete_get by (cases c) (auto simp: GetFakeip_def DelFakeipPair_def Let_def)

lemma cf_invD:
  assumes "cf_inv db c"
  shows "c \<noteq> None"
    and "cf_addr a \<Longrightarrow> GetFakeip db (addr_as_slice a) c = Some v \<Longrightarrow>
      \<exists>h. cf_name h \<and> v = str_bytes h \<and> GetFakeip db v c = Some (addr_as_slice a)"
    and "cf_name h \<Longrightarrow> GetFakeip db (str_bytes h) c = Some v \<Longrightarrow>
      \<exists>a. cf_addr a \<and> v = addr_as_slice a \<and> GetFakeip db v c = Some (str_bytes h)"
  using assms unfolding cf_inv_def by blast+

lemma cf_pairs_iff:
  assumes "cf_inv db c" "cf_name h" "cf_addr a"
  shows "(h, a) \<in> cf_pairs db c \<longleftrightarrow> GetFakeip db (addr_as_slice a) c = Some (str_bytes h)"
    and "(h, a) \<in> cf_pairs db c \<longleftrightarrow> GetFakeip db (str_bytes h) c = Some (addr_as_slice a)"
proof -
  show p: "(h, a) \<in> cf_pairs db c \<longleftrightarrow> GetFakeip db (addr_as_slice a) c = Some (str_bytes h)"
    using assms by (simp add: cf_pairs_def)
  have "GetFakeip db (str_bytes h) c = Some (addr_as_slice a)" if "GetFakeip db (addr_as_slice a) c = Some (str_bytes h)"
    using cf_invD(2) [OF assms(1,3) that] by auto
  moreover have "GetFakeip db (addr_as_slice a) c = Some (str_bytes h)" if "GetFakeip db (str_bytes h) c = Some (addr_as_slice a)"
    using cf_invD(3) [OF assms(1,2) that] by auto
  ultimately show "(h, a) \<in> cf_pairs db c \<longleftrightarrow> GetFakeip db (str_bytes h) c = Some (addr_as_slice a)"
    unfolding p by blast
qed

lemma cf_pairs_ok: "(h, a) \<in> cf_pairs db c \<Longrightarrow> cf_name h \<and> cf_addr a"
  by (simp add: cf_pairs_def)

lemma del_pairs:
  assumes "cf_inv db c" "cf_addr a"
  shows "cf_inv db (cachefile_DelByIP db a c) \<and> cf_pairs db (cachefile_DelByIP db a c) = {p \<in> cf_pairs db c. snd p \<noteq> a}"
proof -
  let ?a = "addr_as_slice a"
  let ?h = "case GetFakeip db ?a c of None \<Rightarrow> [] | Some h \<Rightarrow> h"
  have c: "c \<noteq> None" by (rule cf_invD(1) [OF assms(1)])
  have d: "cachefile_DelByIP db a c = DelFakeipPair db ?a ?h c" by (simp add: cachefile_DelByIP_def Let_def)
  then have ne: "cachefile_DelByIP db a c \<noteq> None" using c by (auto simp: DelFakeipPair_def Let_def)
  have get: "GetFakeip db k (cachefile_DelByIP db a c) =
      (if k = ?a \<or> (?h \<noteq> [] \<and> k = ?h) then None else GetFakeip db k c)" for k
    unfolding d by (rule GetFakeip_Del [OF c])
  have h: "?h \<noteq> [] \<longleftrightarrow> (\<exists>g. cf_name g \<and> GetFakeip db ?a c = Some (str_bytes g) \<and> ?h = str_bytes g)"
    using cf_invD(2) [OF assms(1,2)] name_bytes_not_Nil by (cases "GetFakeip db ?a c") auto
  have addr: "GetFakeip db (addr_as_slice b) (cachefile_DelByIP db a c) =
      (if b = a then None else GetFakeip db (addr_as_slice b) c)" if "cf_addr b" for b
    unfolding get using slice_inject [OF that assms(2)] h cf_keys_differ [OF _ that] by (metis (no_types))
  have name: "GetFakeip db (str_bytes g) (cachefile_DelByIP db a c) =
      (if GetFakeip db ?a c = Some (str_bytes g) then None else GetFakeip db (str_bytes g) c)" if "cf_name g" for g
    unfolding get using h cf_keys_differ [OF that assms(2)] name_bytes_not_Nil [OF that] by auto
  have "cf_inv db (cachefile_DelByIP db a c)"
    unfolding cf_inv_def
  proof (intro conjI allI impI ne)
    fix b v assume b: "cf_addr b" "GetFakeip db (addr_as_slice b) (cachefile_DelByIP db a c) = Some v"
    then have "b \<noteq> a" "GetFakeip db (addr_as_slice b) c = Some v" by (auto simp: addr split: if_splits)
    with cf_invD(2) [OF assms(1) b(1)] obtain g where
      g: "cf_name g" "v = str_bytes g" "GetFakeip db v c = Some (addr_as_slice b)" by blast
    have "GetFakeip db ?a c \<noteq> Some (str_bytes g)"
      using cf_invD(2) [OF assms(1,2), of "str_bytes g"] g slice_inject [OF b(1) assms(2)] \<open>b \<noteq> a\<close> by auto
    with g name [OF g(1)]
    show "\<exists>g. cf_name g \<and> v = str_bytes g \<and> GetFakeip db v (cachefile_DelByIP db a c) = Some (addr_as_slice b)"
      by auto
  next
    fix g v assume g: "cf_name g" "GetFakeip db (str_bytes g) (cachefile_DelByIP db a c) = Some v"
    then have n: "GetFakeip db ?a c \<noteq> Some (str_bytes g)" "GetFakeip db (str_bytes g) c = Some v"
      by (auto simp: name split: if_splits)
    with cf_invD(3) [OF assms(1) g(1)] obtain b where
      b: "cf_addr b" "v = addr_as_slice b" "GetFakeip db v c = Some (str_bytes g)" by blast
    with n have "b \<noteq> a" by auto
    with b addr [OF b(1)]
    show "\<exists>b. cf_addr b \<and> v = addr_as_slice b \<and> GetFakeip db v (cachefile_DelByIP db a c) = Some (str_bytes g)"
      by auto
  qed
  moreover have "cf_pairs db (cachefile_DelByIP db a c) = {p \<in> cf_pairs db c. snd p \<noteq> a}"
    by (auto simp: cf_pairs_def addr split: if_splits)
  ultimately show ?thesis ..
qed

lemma put_pairs:
  assumes "cf_inv db c" "cf_name h" "cf_addr a" and new: "\<And>b. (h, b) \<notin> cf_pairs db c" "\<And>g. (g, a) \<notin> cf_pairs db c"
  defines "c' \<equiv> cachefile_PutByHost db h a (cachefile_PutByIP db a h c)"
  shows "cf_inv db c' \<and> (h, a) \<in> cf_pairs db c' \<and> cf_pairs db c' \<subseteq> insert (h, a) (cf_pairs db c)"
proof -
  have c: "c \<noteq> None" by (rule cf_invD(1) [OF assms(1)])
  then have c1: "cachefile_PutByIP db a h c \<noteq> None" by (auto simp: cachefile_PutByIP_def PutFakeip_def)
  then have ne: "c' \<noteq> None" by (auto simp: c'_def cachefile_PutByHost_def PutFakeip_def)
  have get: "GetFakeip db k c' = (if k = str_bytes h then Some (addr_as_slice a)
      else if k = addr_as_slice a then Some (str_bytes h) else GetFakeip db k c)" for k
    using GetFakeip_Put [OF fits_name [OF assms(2)] fits_addr [OF assms(3)] c1, of k]
      GetFakeip_Put [OF fits_addr [OF assms(3)] fits_name [OF assms(2)] c, of k]
    by (simp add: c'_def cachefile_PutByHost_def cachefile_PutByIP_def)
  have addr: "GetFakeip db (addr_as_slice b) c' = (if b = a then Some (str_bytes h) else GetFakeip db (addr_as_slice b) c)"
    if "cf_addr b" for b
    unfolding get using slice_inject [OF that assms(3)] cf_keys_differ [OF assms(2) that] by auto
  have name: "GetFakeip db (str_bytes g) c' = (if g = h then Some (addr_as_slice a) else GetFakeip db (str_bytes g) c)"
    if "cf_name g" for g
    unfolding get using cf_keys_differ [OF that assms(3)] by auto
  have free: "GetFakeip db (str_bytes h) c = None"
  proof (rule ccontr)
    assume "GetFakeip db (str_bytes h) c \<noteq> None"
    with cf_invD(3) [OF assms(1,2)] obtain b where "cf_addr b" "GetFakeip db (str_bytes h) c = Some (addr_as_slice b)"
      by blast
    with new(1) [of b] cf_pairs_iff(2) [OF assms(1,2), of b] show False by simp
  qed
  have free': "GetFakeip db (addr_as_slice a) c = None"
  proof (rule ccontr)
    assume "GetFakeip db (addr_as_slice a) c \<noteq> None"
    with cf_invD(2) [OF assms(1,3)] obtain g where "cf_name g" "GetFakeip db (addr_as_slice a) c = Some (str_bytes g)"
      by blast
    with new(2) [of g] assms(3) show False by (simp add: cf_pairs_def)
  qed
  have "cf_inv db c'"
    unfolding cf_inv_def
  proof (intro conjI allI impI ne)
    fix b v assume b: "cf_addr b" "GetFakeip db (addr_as_slice b) c' = Some v"
    show "\<exists>g. cf_name g \<and> v = str_bytes g \<and> GetFakeip db v c' = Some (addr_as_slice b)"
    proof (cases "b = a")
      case True
      with b show ?thesis using assms(2) by (auto simp: addr name)
    next
      case False
      then have "GetFakeip db (addr_as_slice b) c = Some v" using b by (simp add: addr)
      with cf_invD(2) [OF assms(1) b(1)] obtain g where
        g: "cf_name g" "v = str_bytes g" "GetFakeip db v c = Some (addr_as_slice b)" by blast
      then show ?thesis using free by (auto simp: name)
    qed
  next
    fix g v assume g: "cf_name g" "GetFakeip db (str_bytes g) c' = Some v"
    show "\<exists>b. cf_addr b \<and> v = addr_as_slice b \<and> GetFakeip db v c' = Some (str_bytes g)"
    proof (cases "g = h")
      case True
      with g show ?thesis using assms(3) by (auto simp: addr name)
    next
      case False
      then have "GetFakeip db (str_bytes g) c = Some v" using g by (simp add: name)
      with cf_invD(3) [OF assms(1) g(1)] obtain b where
        b: "cf_addr b" "v = addr_as_slice b" "GetFakeip db v c = Some (str_bytes g)" by blast
      then show ?thesis using free' by (auto simp: addr)
    qed
  qed
  moreover have "(h, a) \<in> cf_pairs db c'" using assms(2,3) by (simp add: cf_pairs_def addr)
  moreover have "cf_pairs db c' \<subseteq> insert (h, a) (cf_pairs db c)" by (auto simp: cf_pairs_def addr split: if_splits)
  ultimately show ?thesis by blast
qed

lemma get_name:
  assumes "cf_inv db c" "cf_name h"
  shows "\<exists>r. cachefile_GetByHost db h c = Done r \<and> (\<forall>a. r = Some a \<longleftrightarrow> (h, a) \<in> cf_pairs db c)"
proof (cases "GetFakeip db (str_bytes h) c")
  case None
  then have "(h, a) \<notin> cf_pairs db c" for a
    using cf_pairs_iff(2) [OF assms, of a] cf_pairs_ok [of h a c] by auto
  then show ?thesis using None by (simp add: cachefile_GetByHost_def)
next
  case (Some v)
  with cf_invD(3) [OF assms] obtain a where a: "cf_addr a" "v = addr_as_slice a" by blast
  have p: "(h, b) \<in> cf_pairs db c \<longleftrightarrow> a = b" for b
  proof (cases "cf_addr b")
    case True
    then show ?thesis using cf_pairs_iff(2) [OF assms True] slice_inject [OF a(1) True] a(2) Some by auto
  next
    case False
    then show ?thesis using cf_pairs_ok [of h b c] a(1) by auto
  qed
  have "cachefile_GetByHost db h c = Done (Some a)"
    using decode_slice [OF a(1)] Some a(2) by (elim disjE conjE) (simp_all add: cachefile_GetByHost_def)
  then show ?thesis by (simp add: p)
qed

lemma get_addr:
  assumes "cf_inv db c" "cf_addr a"
  shows "cachefile_GetByIP db a c = Some h \<longleftrightarrow> (h, a) \<in> cf_pairs db c"
proof (cases "GetFakeip db (addr_as_slice a) c")
  case None
  then show ?thesis by (simp add: cachefile_GetByIP_def cf_pairs_def)
next
  case (Some v)
  with cf_invD(2) [OF assms] obtain g where g: "cf_name g" "v = str_bytes g" by blast
  then show ?thesis using Some assms(2) by (auto simp: cachefile_GetByIP_def cf_pairs_def)
qed

end

text \<open>The cache file keeps the contract of a store on every data base that keeps the one of a bucket.\<close>

sublocale bucket \<subseteq> cf: fake_store "cachefile_ops db" "cf_inv db" "cf_pairs db" cf_name cf_addr
proof unfold_locales
  fix s h a b assume "cf_inv db s" "(h, a) \<in> cf_pairs db s" "(h, b) \<in> cf_pairs db s"
  note p = this
  from cf_pairs_ok [OF p(2)] have "cf_name h" by simp
  from get_name [OF p(1) this] obtain r where "\<forall>a. r = Some a \<longleftrightarrow> (h, a) \<in> cf_pairs db s" by blast
  with p(2,3) show "a = b" by (metis option.inject)
next
  fix s h g a assume "cf_inv db s" "(h, a) \<in> cf_pairs db s" "(g, a) \<in> cf_pairs db s"
  then show "h = g" by (simp add: cf_pairs_def)
next
  fix s h assume "cf_inv db s" "cf_name h"
  then show "\<exists>r s'. so_GetByHost (cachefile_ops db) h s = Done (r, s') \<and> cf_inv db s' \<and> cf_pairs db s' = cf_pairs db s \<and>
      (\<forall>a. r = Some a \<longleftrightarrow> (h, a) \<in> cf_pairs db s)"
    using get_name [of s h] by (force simp: cachefile_ops_def)
next
  fix s a r s' assume "cf_inv db s" "cf_addr a" "so_GetByIP (cachefile_ops db) a s = (r, s')"
  then show "cf_inv db s' \<and> cf_pairs db s' = cf_pairs db s \<and> (\<forall>h. r = Some h \<longleftrightarrow> (h, a) \<in> cf_pairs db s)"
    using get_addr [of s a] by (auto simp: cachefile_ops_def)
next
  fix s a assume "cf_inv db s" "cf_addr a"
  then show "so_Exist (cachefile_ops db) a s \<longleftrightarrow> (\<exists>h. (h, a) \<in> cf_pairs db s)"
    using get_addr [of s a] by (simp add: cachefile_ops_def cachefile_Exist_def not_None_eq)
next
  fix s a assume "cf_inv db s" "cf_addr a"
  then show "cf_inv db (so_DelByIP (cachefile_ops db) a s) \<and>
      cf_pairs db (so_DelByIP (cachefile_ops db) a s) = {p \<in> cf_pairs db s. snd p \<noteq> a}"
    using del_pairs by (simp add: cachefile_ops_def)
next
  fix s h a assume "cf_inv db s" "cf_name h" "cf_addr a" "\<And>b. (h, b) \<notin> cf_pairs db s" "\<And>g. (g, a) \<notin> cf_pairs db s"
  then show "cf_inv db (so_PutByHost (cachefile_ops db) h a (so_PutByIP (cachefile_ops db) a h s)) \<and>
      (h, a) \<in> cf_pairs db (so_PutByHost (cachefile_ops db) h a (so_PutByIP (cachefile_ops db) a h s)) \<and>
      cf_pairs db (so_PutByHost (cachefile_ops db) h a (so_PutByIP (cachefile_ops db) a h s)) \<subseteq> insert (h, a) (cf_pairs db s)"
    using put_pairs by (simp add: cachefile_ops_def)
qed

text \<open>A flushed or empty data base holds no pairs.\<close>

lemma cf_empty: "(\<And>k. db_get db k d = None) \<Longrightarrow> cf_inv db (Some d) \<and> cf_pairs db (Some d) = {}"
  by (simp add: cf_inv_def cf_pairs_def GetFakeip_def)

lemma cachefile_get_empty: "(\<And>k. db_get db k d = None) \<Longrightarrow>
    so_GetByHost (cachefile_ops db) h (Some d) = Done (None, Some d) \<and> \<not> so_Exist (cachefile_ops db) a (Some d)"
  by (simp add: cachefile_ops_def cachefile_GetByHost_def cachefile_Exist_def cachefile_GetByIP_def GetFakeip_def)

lemma pool_range_bitlen: "pool_range_ok p \<Longrightarrow> in_pool p a \<Longrightarrow> addr_bitlen (pFirst p) = addr_bitlen a"
  using addr_le_bitlen [of "pFirst p" a] addr_le_bitlen [of a "pLast p"]
  by (simp add: pool_range_ok_def in_pool_def less_imp_le)

text \<open>The commands on names and addresses that a cache file keeps apart.\<close>

fun cf_cmd :: "pool_cmd \<Rightarrow> bool" where
  "cf_cmd (PLookup h) = cf_name (to_lower h)"
| "cf_cmd (PLookBack a) = cf_addr a"

context bucket
begin

lemma cachefile_New_inv:
  assumes "prefix_wf ipnet" "pool_New (cachefile_ops db) True ipnet host (Some d) = Done (Some p)"
    and "\<And>k. db_get db k d = None" "128 \<le> hd (addr_as_slice (pFirst p))"
  shows "cf.pool_inv p"
proof -
  have new: "pool_New (cachefile_ops db) False ipnet host (Some d) = Done (Some p)"
    using assms(2) by (auto simp: pool_New_def Let_def restoreState_def cachefile_get_empty [OF assms(3)] split: if_splits)
  from pool_New_range [OF assms(1) new] have r: "pool_range_ok p" "pStore p = Some d" by simp_all
  have "cf_addr a" if "in_pool p a" for a
    using that r(1) assms(4) pool_range_bitlen [OF r(1) that] hd_slice_mono [of "pFirst p" a]
    by (auto simp: cf_addr_plain in_pool_def pool_range_ok_def)
  then show ?thesis by (simp add: cf.pool_inv_def r cf_empty [OF assms(3)])
qed

lemma cf_cmd_ok: "cf.cmd_ok c = cf_cmd c"
  by (cases c) (simp_all add: cf.cmd_ok.simps)

lemma cachefile_round_trip:
  assumes "cf.pool_inv p0" "list_all (\<lambda>(t, c). cf_cmd c) cs" "cf_name (to_lower h)"
  shows "\<exists>p ip p'. pool_run (\<lambda>t. cachefile_ops db) cs p0 = Done p \<and> pool_Lookup (cachefile_ops db) h p = Done (ip, p') \<and>
    pFirst p0 \<le> ip \<and> ip < pLast p0 \<and> fst (pool_LookBack (cachefile_ops db) ip p') = Some (to_lower h)"
proof -
  from cf.run_inv [OF assms(1), of cs, unfolded cf_cmd_ok, OF assms(2)] obtain p where
    p: "pool_run (\<lambda>t. cachefile_ops db) cs p0 = Done p" "cf.pool_inv p" "pFirst p = pFirst p0" "pLast p = pLast p0" by auto
  from cf.Lookup_pairs [OF p(2) assms(3)] obtain ip p' where l: "pool_Lookup (cachefile_ops db) h p = Done (ip, p')" by auto
  from cf.Lookup_LookBack [OF p(2) assms(3) l] p l show ?thesis by (auto simp: in_pool_def)
qed

text \<open>Storing the state of a pool and restoring it.\<close>

lemma GetByHost_Put:
  assumes "c \<noteq> None" "fits (str_bytes k)" "plain_addr a"
  shows "cachefile_GetByHost db k' (cachefile_PutByHost db k a c) = (if k' = k then Done (Some a) else cachefile_GetByHost db k' c)"
proof -
  from GetFakeip_Put [OF assms(2) fits_plain [OF assms(3)] assms(1)] show ?thesis
    using decode_plain [OF assms(3)] by (elim disjE) (auto simp: cachefile_GetByHost_def cachefile_PutByHost_def)
qed

lemma restart:
  assumes "pStore p \<noteq> None" "plain_addr (pOffset p)" "prefix_contains (pIPNet p) (pOffset p)"
    and "\<not> pCycle p \<Longrightarrow> GetFakeip db (str_bytes cycleKey) (pStore p) = None"
    and "pIPNet q = pIPNet p" "\<not> pCycle q" "pStore q = pStore (StoreState (cachefile_ops db) p)"
  shows "restoreState (cachefile_ops db) q = Done (q\<lparr>pOffset := pOffset p, pCycle := pCycle p\<rparr>)"
proof -
  have put: "cachefile_PutByHost db k a c \<noteq> None" if "c \<noteq> None" for k a c
    using that by (auto simp: cachefile_PutByHost_def PutFakeip_def)
  have keys: "offsetKey \<noteq> cycleKey" "fits (str_bytes offsetKey)" "fits (str_bytes cycleKey)"
    by (simp_all add: offsetKey_def cycleKey_def fits_def str_bytes_def MaxKeySize_def)
  note g = GetByHost_Put [OF _ _ assms(2)]
  have "cachefile_GetByHost db cycleKey (pStore q) = Done (if pCycle p then Some (pOffset p) else None)"
    using assms(4) keys put [OF assms(1)] assms(1)
    by (auto simp: assms(7) StoreState_def Let_def cachefile_ops_def g) (simp add: cachefile_GetByHost_def)
  moreover have "cachefile_GetByHost db offsetKey (pStore q) = Done (Some (pOffset p))"
    using keys put [OF assms(1)] assms(1) by (auto simp: assms(7) StoreState_def Let_def cachefile_ops_def g)
  ultimately show ?thesis using assms(3,5,6)
    by (simp add: restoreState_def cachefile_ops_def Let_def)
qed

end

text \<open>A data base that keeps the contract: one map, with the limits on keys and values.\<close>

definition map_bucket :: "(bytes \<rightharpoonup> bytes) bucket_ops" where
  "map_bucket = \<lparr>db_get = (\<lambda>k d. d k), db_put = (\<lambda>k v d. if k = [] \<or> MaxKeySize < length k \<or> MaxValueSize < length v then (False, d) else (True, d(k \<mapsto> v))),
     db_delete = (\<lambda>k d. (True, d(k := None))), db_drop = (\<lambda>d. (True, Map.empty))\<rparr>"

interpretation mapdb: bucket map_bucket
  by unfold_locales (simp_all add: map_bucket_def)

text \<open>A pool that is kept in an empty data base, with any data base that keeps the contract \<open>bucket\<close>, gives every
  ASCII name an address of the pool that leads back to the name, after any lookups of such names and addresses. No lookup
  fails or panics. The first address must have its highest bit set, as in the default range.\<close>

theorem cachefile_pool_round_trip:
  assumes "bucket db" "prefix_wf ipnet" "pool_New (cachefile_ops db) True ipnet host (Some d) = Done (Some p0)"
    and "\<And>k. db_get db k d = None" "128 \<le> hd (addr_as_slice (pFirst p0))"
    and "list_all (\<lambda>(t, c). cf_cmd c) cs" "cf_name (to_lower h)"
  shows "\<exists>p ip p'. pool_run (\<lambda>t. cachefile_ops db) cs p0 = Done p \<and> pool_Lookup (cachefile_ops db) h p = Done (ip, p') \<and>
    pFirst p0 \<le> ip \<and> ip < pLast p0 \<and> fst (pool_LookBack (cachefile_ops db) ip p') = Some (to_lower h)"
  by (rule bucket.cachefile_round_trip [OF assms(1) bucket.cachefile_New_inv [OF assms(1-5)] assms(6,7)])

text \<open>A restart keeps the place of the pool: a new pool over the same network, on the data base the old one stored its
  state in, continues after the same address and still knows whether the range was used up.\<close>

theorem restoreState_after_StoreState:
  assumes "bucket db" "pStore p \<noteq> None" "plain_addr (pOffset p)" "prefix_contains (pIPNet p) (pOffset p)"
    and "\<not> pCycle p \<Longrightarrow> GetFakeip db (str_bytes cycleKey) (pStore p) = None"
    and "pIPNet q = pIPNet p" "\<not> pCycle q" "pStore q = pStore (StoreState (cachefile_ops db) p)"
  shows "restoreState (cachefile_ops db) q = Done (q\<lparr>pOffset := pOffset p, pCycle := pCycle p\<rparr>)"
  by (rule bucket.restart [OF assms])

definition file_pool :: "(bytes \<rightharpoonup> bytes) option pool" where
  "file_pool = \<lparr>pGateway = Addr4 0xC0A80001, pFirst = Addr4 0xC0A80004, pLast = Addr4 0xC0A8000F,
     pOffset = Addr4 0xC0A80003, pCycle = False, pHost = None, pIPNet = example_net, pStore = Some Map.empty\<rparr>"

lemma file_New: "pool_New (cachefile_ops map_bucket) True example_net None (Some Map.empty) = Done (Some file_pool)"
proof -
  have e: "db_get map_bucket k Map.empty = None" for k by (simp add: map_bucket_def)
  show ?thesis
    using example_net_ends
    by (simp add: pool_New_def Let_def prefix_valid_def restoreState_def cachefile_get_empty [OF e] example_net_def file_pool_def)
qed

theorem cachefile_pool_round_trip_witness:
  "\<exists>p ip p'. pool_run (\<lambda>t. cachefile_ops map_bucket) [(0, PLookup ''A.com''), (1, PLookup ''b.com'')] file_pool = Done p \<and>
     pool_Lookup (cachefile_ops map_bucket) ''C.com'' p = Done (ip, p') \<and> pFirst file_pool \<le> ip \<and> ip < pLast file_pool \<and>
     fst (pool_LookBack (cachefile_ops map_bucket) ip p') = Some (to_lower ''C.com'')"
proof (rule cachefile_pool_round_trip [OF mapdb.bucket_axioms example_net_wf file_New])
  show "db_get map_bucket k Map.empty = None" for k by (simp add: map_bucket_def)
  show "128 \<le> hd (addr_as_slice (pFirst file_pool))" by code_simp
  have low: "to_lower ''A.com'' = ''a.com''" "to_lower ''b.com'' = ''b.com''" "to_lower ''C.com'' = ''c.com''" by code_simp+
  then show "cf_name (to_lower ''C.com'')" "list_all (\<lambda>(t, c). cf_cmd c) [(0, PLookup ''A.com''), (1, PLookup ''b.com'')]"
    by (simp_all add: cf_name_def MaxKeySize_def offsetKey_def cycleKey_def)
qed

definition used_pool :: "(bytes \<rightharpoonup> bytes) option pool" where
  "used_pool = file_pool\<lparr>pOffset := Addr4 0xC0A80009, pCycle := True\<rparr>"

theorem restoreState_after_StoreState_witness:
  "restoreState (cachefile_ops map_bucket) (file_pool\<lparr>pStore := pStore (StoreState (cachefile_ops map_bucket) used_pool)\<rparr>) =
     Done (file_pool\<lparr>pStore := pStore (StoreState (cachefile_ops map_bucket) used_pool),
       pOffset := Addr4 0xC0A80009, pCycle := True\<rparr>)"
  using restoreState_after_StoreState [OF mapdb.bucket_axioms,
      where p = used_pool and q = "file_pool\<lparr>pStore := pStore (StoreState (cachefile_ops map_bucket) used_pool)\<rparr>"]
  by (simp add: used_pool_def file_pool_def prefix_contains_def prefix_valid_def example_net_def same_net_simps)

end
