(* ===== verification/Picker.thy ===== *)
theory Picker
  imports Prelude
begin

text \<open>
  The picker (\<open>common/picker/picker.go\<close>): a group of functions that run at the same time, whose first success
  is the result of the group. The goroutines are modelled by the order in which their functions return; a picker is
  the state these calls leave behind.
\<close>

record ('e, 'a) picker =
  pkResult :: "'a option"
  pkErr :: "'e option"
  pkCancelled :: bool

definition newPicker :: "('e, 'a) picker" where
  "newPicker = \<lparr>pkResult = None, pkErr = None, pkCancelled = False\<rparr>"

text \<open>One function of \<open>Go\<close> returns. The first success is kept and cancels the group; so is the first error.\<close>

definition picker_return :: "('e, 'a) go_result \<Rightarrow> ('e, 'a) picker \<Rightarrow> ('e, 'a) picker" where
  "picker_return r p =
     (case r of
        Ok ret \<Rightarrow> if pkResult p = None then p\<lparr>pkResult := Some ret, pkCancelled := True\<rparr> else p
      | Err e \<Rightarrow> if pkErr p = None then p\<lparr>pkErr := Some e\<rparr> else p)"

text \<open>\<open>Wait\<close>, after the functions have returned in the given order; the zero value of the result is \<open>None\<close>.\<close>

definition picker_Wait :: "('e, 'a) go_result list \<Rightarrow> ('e, 'a) picker \<Rightarrow> 'a option \<times> ('e, 'a) picker" where
  "picker_Wait rs p = (let q = fold picker_return rs p in (pkResult q, q\<lparr>pkCancelled := True\<rparr>))"

definition picker_Close :: "('e, 'a) picker \<Rightarrow> ('e, 'a) picker" where
  "picker_Close p = p\<lparr>pkCancelled := True\<rparr>"

fun ok_of :: "('e, 'a) go_result \<Rightarrow> 'a option" where
  "ok_of (Ok x) = Some x"
| "ok_of (Err e) = None"

fun err_of :: "('e, 'a) go_result \<Rightarrow> 'e option" where
  "err_of (Ok x) = None"
| "err_of (Err e) = Some e"

lemma picker_return_simps [simp]:
  "pkResult (picker_return r p) = (case pkResult p of None \<Rightarrow> ok_of r | Some x \<Rightarrow> Some x)"
  "pkErr (picker_return r p) = (case pkErr p of None \<Rightarrow> err_of r | Some e \<Rightarrow> Some e)"
  by (cases r; auto simp: picker_return_def split: option.split)+

lemma fold_picker_return:
  "pkResult (fold picker_return rs p) = first_some (pkResult p # map ok_of rs)"
  "pkErr (fold picker_return rs p) = first_some (pkErr p # map err_of rs)"
proof (induction rs arbitrary: p)
  case (Cons r rs)
  {
    case 1
    then show ?case by (cases r; cases "pkResult p") (simp_all add: Cons.IH(1))
  next
    case 2
    then show ?case by (cases r; cases "pkErr p") (simp_all add: Cons.IH(2))
  }
qed simp_all

text \<open>\<open>Wait\<close> returns the first success, and \<open>Error\<close> then the first error.\<close>

lemma picker_Wait_first:
  "fst (picker_Wait rs newPicker) = first_some (map ok_of rs)"
  "pkErr (snd (picker_Wait rs newPicker)) = first_some (map err_of rs)"
  by (simp_all add: picker_Wait_def Let_def fold_picker_return newPicker_def)

lemma picker_Wait_None_iff: "fst (picker_Wait rs newPicker) = None \<longleftrightarrow> (\<forall>r \<in> set rs. \<not> is_ok r)"
proof -
  have "ok_of r = None \<longleftrightarrow> \<not> is_ok r" for r :: "('e, 'a) go_result" by (cases r) simp_all
  then show ?thesis by (auto simp: picker_Wait_first first_some_None_iff)
qed

end
