(* ===== verification/Dns.thy ===== *)
theory Dns
  imports Picker Hosts LruCache Strconv
begin

text \<open>
  The DNS resolver (\<open>dns/resolver.go\<close>, \<open>dns/util.go\<close>, \<open>dns/policy.go\<close>, \<open>dns/filters.go\<close>, \<open>dns/rcode.go\<close>).

  Messages are records of the fields the sources read and write; a resource record is one of the types they
  distinguish, with its header. The libraries \<open>miekg/dns\<close> and \<open>samber/lo\<close> are not part of the sources: the functions used
  are arguments, the record \<open>dns_lib\<close>, and what their documentation says of them is the locale \<open>dns_library\<close>.
  So are the loaded geo data, the exchange with a name server over the network, and the order in which the name
  servers of a batch answer.

  The single flight of equal questions is modelled for one caller that is not cancelled: its question is
  exchanged in its own flight, and what it leaves to the background happens right after.
\<close>

section \<open>Messages\<close>

record rr_header =
  hName :: string
  hRrtype :: u16
  hClass :: u16
  hTtl :: u32

datatype rr =
  RR_A (rr_hdr: rr_header) (rr_ip: bytes)
| RR_AAAA (rr_hdr: rr_header) (rr_ip: bytes)
| RR_CNAME (rr_hdr: rr_header) (rr_target: string)
| RR_Other (rr_hdr: rr_header)

record question =
  qName :: string
  qQtype :: u16
  qQclass :: u16

record dns_msg =
  dmId :: u16
  dmResponse :: bool
  dmRcode :: nat
  dmAuthoritative :: bool
  dmRecursionAvailable :: bool
  dmQuestion :: "question list"
  dmAnswer :: "rr list"
  dmNs :: "rr list"
  dmExtra :: "rr list"

text \<open>The constants of \<open>miekg/dns\<close> (the numbers assigned by IANA).\<close>

abbreviation TypeA :: u16 where "TypeA \<equiv> 1"
abbreviation TypeCNAME :: u16 where "TypeCNAME \<equiv> 5"
abbreviation TypeTXT :: u16 where "TypeTXT \<equiv> 16"
abbreviation TypeAAAA :: u16 where "TypeAAAA \<equiv> 28"
abbreviation TypeOPT :: u16 where "TypeOPT \<equiv> 41"
abbreviation TypeSVCB :: u16 where "TypeSVCB \<equiv> 64"
abbreviation TypeHTTPS :: u16 where "TypeHTTPS \<equiv> 65"
abbreviation ClassINET :: u16 where "ClassINET \<equiv> 1"
abbreviation RcodeSuccess :: nat where "RcodeSuccess \<equiv> 0"
abbreviation RcodeFormatError :: nat where "RcodeFormatError \<equiv> 1"
abbreviation RcodeServerFailure :: nat where "RcodeServerFailure \<equiv> 2"
abbreviation RcodeNameError :: nat where "RcodeNameError \<equiv> 3"
abbreviation RcodeNotImplemented :: nat where "RcodeNotImplemented \<equiv> 4"
abbreviation RcodeRefused :: nat where "RcodeRefused \<equiv> 5"

definition empty_msg :: dns_msg where
  "empty_msg = \<lparr>dmId = 0, dmResponse = False, dmRcode = 0, dmAuthoritative = False, dmRecursionAvailable = False,
     dmQuestion = [], dmAnswer = [], dmNs = [], dmExtra = []\<rparr>"

record dns_lib =
  l_MinBy :: "(rr \<Rightarrow> rr \<Rightarrow> bool) \<Rightarrow> rr list \<Rightarrow> rr option"
  l_Clamp :: "u32 \<Rightarrow> u32 \<Rightarrow> u32 \<Rightarrow> u32"
  l_SetRcode :: "dns_msg \<Rightarrow> dns_msg \<Rightarrow> nat \<Rightarrow> dns_msg"
  l_SetQuestion :: "dns_msg \<Rightarrow> string \<Rightarrow> u16 \<Rightarrow> dns_msg"
  l_Fqdn :: "string \<Rightarrow> string"
  l_QString :: "question \<Rightarrow> string"

locale dns_library =
  fixes L :: dns_lib
  assumes MinBy_Nil: "l_MinBy L lt [] = None"
    and MinBy_min: "xs \<noteq> [] \<Longrightarrow> lt = (\<lambda>x y. hTtl (rr_hdr x) < hTtl (rr_hdr y)) \<Longrightarrow>
      \<exists>x \<in> set xs. l_MinBy L lt xs = Some x \<and> (\<forall>y \<in> set xs. \<not> lt y x)"
    and Clamp_range: "a \<le> b \<Longrightarrow> l_Clamp L v a b = (if v < a then a else if b < v then b else v)"
    and SetRcode_sections: "dmAnswer (l_SetRcode L m r c) = dmAnswer m" "dmNs (l_SetRcode L m r c) = dmNs m"
      "dmExtra (l_SetRcode L m r c) = dmExtra m"
    and SetRcode_reply: "dmId (l_SetRcode L m r c) = dmId r" "dmRcode (l_SetRcode L m r c) = c"
      "dmResponse (l_SetRcode L m r c)" "dmQuestion r = q # qs \<Longrightarrow> dmQuestion (l_SetRcode L m r c) = [q]"
    and SetQuestion_question: "dmQuestion (l_SetQuestion L m s t) = [\<lparr>qName = s, qQtype = t, qQclass = ClassINET\<rparr>]"

section \<open>Utilities\<close>

definition set_ttl :: "u32 \<Rightarrow> rr \<Rightarrow> rr" where
  "set_ttl ttl r =
     (case r of
        RR_A h ip \<Rightarrow> RR_A (h\<lparr>hTtl := ttl\<rparr>) ip
      | RR_AAAA h ip \<Rightarrow> RR_AAAA (h\<lparr>hTtl := ttl\<rparr>) ip
      | RR_CNAME h t \<Rightarrow> RR_CNAME (h\<lparr>hTtl := ttl\<rparr>) t
      | RR_Other h \<Rightarrow> RR_Other (h\<lparr>hTtl := ttl\<rparr>))"

abbreviation rr_ttl :: "rr \<Rightarrow> u32" where
  "rr_ttl r \<equiv> hTtl (rr_hdr r)"

definition minimalTTL :: "dns_lib \<Rightarrow> rr list \<Rightarrow> u32" where
  "minimalTTL L records =
     (case l_MinBy L (\<lambda>r1 r2. rr_ttl r1 < rr_ttl r2) records of None \<Rightarrow> 0 | Some r \<Rightarrow> rr_ttl r)"

definition updateTTL :: "dns_lib \<Rightarrow> u32 \<Rightarrow> rr list \<Rightarrow> rr list" where
  "updateTTL L ttl records =
     (if records = [] then records
      else let delta = minimalTTL L records - ttl
           in map (\<lambda>r. set_ttl (l_Clamp L (rr_ttl r - delta) 1 (rr_ttl r)) r) records)"

definition serverFailureCacheTTL :: u32 where "serverFailureCacheTTL = 5"

text \<open>A cache of messages; \<open>time\<close> is in nanoseconds.\<close>

type_synonym msg_cache = "(string, dns_msg) eheap \<times> (string, dns_msg) lru_cache"

definition unix_seconds :: "int \<Rightarrow> int" where
  "unix_seconds t = t div 1000000000"

definition putMsgToCache :: "dns_lib \<Rightarrow> int \<Rightarrow> string \<Rightarrow> question \<Rightarrow> dns_msg \<Rightarrow> msg_cache \<Rightarrow> msg_cache" where
  "putMsgToCache L t key q msg c =
     (if qQtype q = TypeTXT \<and> has_prefix (qName q) ''_acme-challenge.'' then c
      else let ttl = (if dmRcode msg = RcodeServerFailure then serverFailureCacheTTL
                      else minimalTTL L ((dmAnswer msg @ dmNs msg) @ dmExtra msg))
           in if ttl = 0 then c
              else lru_setWithExpire (unix_seconds t) key msg (unix_seconds (t + uint ttl * 1000000000)) (fst c) (snd c))"

definition setMsgTTL :: "u32 \<Rightarrow> dns_msg \<Rightarrow> dns_msg" where
  "setMsgTTL ttl msg = msg\<lparr>dmAnswer := map (set_ttl ttl) (dmAnswer msg), dmNs := map (set_ttl ttl) (dmNs msg),
     dmExtra := map (set_ttl ttl) (dmExtra msg)\<rparr>"

definition updateMsgTTL :: "dns_lib \<Rightarrow> u32 \<Rightarrow> dns_msg \<Rightarrow> dns_msg" where
  "updateMsgTTL L ttl msg = msg\<lparr>dmAnswer := updateTTL L ttl (dmAnswer msg), dmNs := updateTTL L ttl (dmNs msg),
     dmExtra := updateTTL L ttl (dmExtra msg)\<rparr>"

definition isIPRequest :: "question \<Rightarrow> bool" where
  "isIPRequest q \<longleftrightarrow> qQclass q = ClassINET \<and> (qQtype q = TypeA \<or> qQtype q = TypeAAAA \<or> qQtype q = TypeCNAME)"

definition handleMsgWithEmptyAnswer :: "dns_lib \<Rightarrow> dns_msg \<Rightarrow> dns_msg" where
  "handleMsgWithEmptyAnswer L r =
     (let msg = l_SetRcode L (empty_msg\<lparr>dmAnswer := []\<rparr>) r RcodeSuccess
      in msg\<lparr>dmAuthoritative := True, dmRecursionAvailable := True\<rparr>)"

fun answer_ips :: "rr list \<Rightarrow> addr list" where
  "answer_ips [] = []"
| "answer_ips (RR_AAAA h ip # rs) = IpToAddr ip # answer_ips rs"
| "answer_ips (RR_A h ip # rs) = IpToAddr ip # answer_ips rs"
| "answer_ips (r # rs) = answer_ips rs"

definition msgToIP :: "dns_msg \<Rightarrow> addr list" where
  "msgToIP msg = answer_ips (dmAnswer msg)"

definition msgToDomain :: "dns_msg \<Rightarrow> string" where
  "msgToDomain msg = (case dmQuestion msg of q # _ \<Rightarrow> trim_right_set ''.'' (qName q) | [] \<Rightarrow> '''')"

section \<open>Name servers\<close>

datatype dns_error =
  E_IPNotFound | E_IPVersion | E_NoQuestion | E_ServerFailure nat | E_AllFailed "dns_error option" | E_Deadline | E_Net string

record NameServer =
  nsNet :: string
  nsAddr :: string
  nsInterface :: string
  nsProxyAdapter :: "string option"
  nsProxyName :: string
  nsParams :: "(string \<times> string) list"
  nsPreferH3 :: bool

text \<open>The clients that \<open>transform\<close> makes, with the fields it gives them; the flag says whether the client was given a
  resolver for the names of its servers.\<close>

datatype dnsClient =
  RCodeClient nat string
| DoHClient string bool bool "(string \<times> string) list" "string option" string
| DHCPClient string
| SystemClient
| DoQClient bool string "string option" string
| NetClient string string string string bool "string option" string

definition newRCodeClient :: "string \<Rightarrow> dnsClient outcome" where
  "newRCodeClient a =
     (if a = ''success'' then Done (RCodeClient RcodeSuccess (''rcode://'' @ a))
      else if a = ''format_error'' then Done (RCodeClient RcodeFormatError (''rcode://'' @ a))
      else if a = ''server_failure'' then Done (RCodeClient RcodeServerFailure (''rcode://'' @ a))
      else if a = ''name_error'' then Done (RCodeClient RcodeNameError (''rcode://'' @ a))
      else if a = ''not_implemented'' then Done (RCodeClient RcodeNotImplemented (''rcode://'' @ a))
      else if a = ''refused'' then Done (RCodeClient RcodeRefused (''rcode://'' @ a))
      else Panicked)"

definition transform1 :: "bool \<Rightarrow> NameServer \<Rightarrow> dnsClient outcome" where
  "transform1 res s =
     (if nsNet s = ''https'' then Done (DoHClient (nsAddr s) res (nsPreferH3 s) (nsParams s) (nsProxyAdapter s) (nsProxyName s))
      else if nsNet s = ''dhcp'' then Done (DHCPClient (nsAddr s))
      else if nsNet s = ''system'' then Done SystemClient
      else if nsNet s = ''rcode'' then newRCodeClient (nsAddr s)
      else if nsNet s = ''quic'' then Done (DoQClient res (nsAddr s) (nsProxyAdapter s) (nsProxyName s))
      else let (host, port) = (case SplitHostPort (nsAddr s) of None \<Rightarrow> ('''', '''') | Some hp \<Rightarrow> hp)
           in Done (NetClient (nsNet s) host port (nsInterface s) res (nsProxyAdapter s) (nsProxyName s)))"

fun transform :: "NameServer list \<Rightarrow> bool \<Rightarrow> dnsClient list outcome" where
  "transform [] res = Done []"
| "transform (s # ss) res = obind (transform1 res s) (\<lambda>c. obind (transform ss res) (\<lambda>cs. Done (c # cs)))"

text \<open>An \<open>rcodeClient\<close> answers with the question itself, which it changes.\<close>

definition rcode_exchange :: "nat \<Rightarrow> dns_msg \<Rightarrow> dns_msg" where
  "rcode_exchange rcode m = m\<lparr>dmResponse := True, dmRcode := rcode\<rparr>"

text \<open>What the network does: the answer of a client to a message, and the order in which the clients of a batch return.
  Both may differ from one attempt to the next, so they take the number of the attempt.\<close>

record dns_net =
  nExchange :: "nat \<Rightarrow> dnsClient \<Rightarrow> dns_msg \<Rightarrow> (dns_error, dns_msg) go_result"
  nOrder :: "nat \<Rightarrow> dnsClient list \<Rightarrow> dnsClient list"

text \<open>The function a client of a batch runs, with the new value of \<open>noIpMsg\<close> if it sets it.\<close>

definition batch_answer :: "(dns_error, dns_msg) go_result \<Rightarrow> (dns_error, dns_msg) go_result \<times> dns_msg option" where
  "batch_answer r =
     (case r of
        Err e \<Rightarrow> (Err e, None)
      | Ok m \<Rightarrow>
          if dmRcode m = RcodeServerFailure \<or> dmRcode m = RcodeRefused then (Err (E_ServerFailure (dmRcode m)), None)
          else case dmQuestion m of
                 [] \<Rightarrow> (Ok m, None)
               | q # _ \<Rightarrow> if (qQtype q = TypeAAAA \<or> qQtype q = TypeA) \<and> msgToIP m = [] then (Err E_IPNotFound, Some m)
                          else (Ok m, None))"

fun first_rcode :: "dnsClient list \<Rightarrow> nat option" where
  "first_rcode [] = None"
| "first_rcode (RCodeClient rcode a # cs) = Some rcode"
| "first_rcode (c # cs) = first_rcode cs"

text \<open>The result, whether it may be cached, and the question afterwards.\<close>

definition batchExchange ::
  "dns_net \<Rightarrow> nat \<Rightarrow> dnsClient list \<Rightarrow> dns_msg \<Rightarrow> (dns_error, dns_msg) go_result \<times> bool \<times> dns_msg" where
  "batchExchange N att clients m =
     (case first_rcode clients of
        Some rcode \<Rightarrow> (Ok (rcode_exchange rcode m), False, rcode_exchange rcode m)
      | None \<Rightarrow>
          let answers = map (\<lambda>c. batch_answer (nExchange N att c m)) (nOrder N att clients);
              (msg, fast) = picker_Wait (map fst answers) newPicker;
              noIpMsg = first_some (rev (map snd answers))
          in case msg of
               Some r \<Rightarrow> (Ok r, True, m)
             | None \<Rightarrow> (case noIpMsg of
                          Some r \<Rightarrow> (Ok r, False, m)
                        | None \<Rightarrow> (Err (E_AllFailed (pkErr fast)), True, m)))"

section \<open>Filters and policies\<close>

text \<open>\<open>GeodataMode\<close>, the country data base and the loaded matcher for \<open>CN\<close> (\<open>None\<close> when loading fails).\<close>

record geo_env =
  gGeodataMode :: bool
  gLookupCode :: "bytes \<Rightarrow> string list"
  gMatcherCN :: "(bytes \<Rightarrow> bool) option"

datatype fallbackIPFilter = GeoipFilter string | IpnetFilter prefix

definition geoipFilter_Match :: "geo_env \<Rightarrow> string \<Rightarrow> addr \<Rightarrow> bool" where
  "geoipFilter_Match g code ip =
     (if \<not> gGeodataMode g
      then \<exists>c \<in> set (gLookupCode g (addr_as_slice ip)). \<not> equal_fold c code \<and> \<not> addr_is_private ip
      else case gMatcherCN g of None \<Rightarrow> False | Some mt \<Rightarrow> \<not> mt (addr_as_slice ip))"

fun ip_filter_Match :: "geo_env \<Rightarrow> fallbackIPFilter \<Rightarrow> addr \<Rightarrow> bool" where
  "ip_filter_Match g (GeoipFilter code) ip = geoipFilter_Match g code ip"
| "ip_filter_Match g (IpnetFilter p) ip = prefix_contains p ip"

datatype fallbackDomainFilter = DomainFilter "unit node" | GeoSiteFilter "(string \<Rightarrow> bool) list"

definition NewDomainFilter :: "string list \<Rightarrow> fallbackDomainFilter" where
  "NewDomainFilter domains = DomainFilter (optimize (insert_all (map (\<lambda>d. (d, ())) domains) newNode))"

definition domainFilter_Match :: "unit node \<Rightarrow> string \<Rightarrow> bool" where
  "domainFilter_Match tree domain \<longleftrightarrow> Search tree domain \<noteq> None"

definition geoSiteFilter_Match :: "(string \<Rightarrow> bool) list \<Rightarrow> string \<Rightarrow> bool" where
  "geoSiteFilter_Match matchers domain \<longleftrightarrow> (\<exists>mt \<in> set matchers. mt domain)"

fun domain_filter_Match :: "fallbackDomainFilter \<Rightarrow> string \<Rightarrow> bool" where
  "domain_filter_Match (DomainFilter tree) domain = domainFilter_Match tree domain"
| "domain_filter_Match (GeoSiteFilter matchers) domain = geoSiteFilter_Match matchers domain"

record geositePolicyRecord =
  gpMatcher :: fallbackDomainFilter
  gpPolicy :: "dnsClient list"
  gpInversed :: bool

definition Policy_Compare :: "dnsClient list \<Rightarrow> dnsClient list option \<Rightarrow> int" where
  "Policy_Compare p p2 =
     (case p2 of
        None \<Rightarrow> 1
      | Some q \<Rightarrow> if length p = length q then 0 else if length q < length p then 1 else - 1)"

section \<open>The resolver\<close>

record Resolver =
  rIpv6 :: bool
  rIpv6Timeout :: int
  rHosts :: "HostValue node option"
  rMain :: "dnsClient list"
  rFallback :: "dnsClient list option"
  rDomainFilters :: "fallbackDomainFilter list"
  rIPFilters :: "fallbackIPFilter list"
  rPolicy :: "dnsClient list node option"
  rDomainSetPolicy :: "((metadata \<Rightarrow> bool) \<times> dnsClient list) list"
  rGeositePolicy :: "geositePolicyRecord list"
  rProxyServer :: "dnsClient list option"

definition shouldIPFallback :: "geo_env \<Rightarrow> Resolver \<Rightarrow> addr \<Rightarrow> bool" where
  "shouldIPFallback g r ip \<longleftrightarrow> (\<exists>f \<in> set (rIPFilters r). ip_filter_Match g f ip)"

fun geosite_policy :: "geositePolicyRecord list \<Rightarrow> string \<Rightarrow> dnsClient list option" where
  "geosite_policy [] domain = None"
| "geosite_policy (gr # grs) domain =
     (if domain_filter_Match (gpMatcher gr) domain \<noteq> gpInversed gr then Some (gpPolicy gr) else geosite_policy grs domain)"

fun domain_set_policy :: "((metadata \<Rightarrow> bool) \<times> dnsClient list) list \<Rightarrow> metadata \<Rightarrow> dnsClient list option" where
  "domain_set_policy [] m = None"
| "domain_set_policy ((mt, p) # ps) m = (if mt m then Some p else domain_set_policy ps m)"

definition matchPolicy :: "Resolver \<Rightarrow> dns_msg \<Rightarrow> dnsClient list" where
  "matchPolicy r m =
     (case rPolicy r of
        None \<Rightarrow> []
      | Some tree \<Rightarrow>
          let domain = msgToDomain m
          in if domain = '''' then []
             else case node_data (Search tree domain) of
                    Some p \<Rightarrow> p
                  | None \<Rightarrow>
                      (case geosite_policy (rGeositePolicy r) domain of
                         Some p \<Rightarrow> p
                       | None \<Rightarrow>
                           (case domain_set_policy (rDomainSetPolicy r) (metadata0\<lparr>mHost := domain\<rparr>) of
                              Some p \<Rightarrow> p
                            | None \<Rightarrow> [])))"

definition shouldOnlyQueryFallback :: "Resolver \<Rightarrow> dns_msg \<Rightarrow> bool" where
  "shouldOnlyQueryFallback r m \<longleftrightarrow>
     rFallback r \<noteq> None \<and> rDomainFilters r \<noteq> [] \<and> msgToDomain m \<noteq> '''' \<and>
     (\<exists>f \<in> set (rDomainFilters r). domain_filter_Match f (msgToDomain m))"

text \<open>What \<open>asyncExchange\<close> sends: the result of the batch without the cache flag.\<close>

definition asyncExchange ::
  "dns_net \<Rightarrow> nat \<Rightarrow> dnsClient list \<Rightarrow> dns_msg \<Rightarrow> (dns_error, dns_msg) go_result \<times> dns_msg" where
  "asyncExchange N att clients m = (case batchExchange N att clients m of (res, _, m') \<Rightarrow> (res, m'))"

definition the_fallback :: "Resolver \<Rightarrow> dnsClient list" where
  "the_fallback r = (case rFallback r of None \<Rightarrow> [] | Some cs \<Rightarrow> cs)"

definition ipExchange ::
  "geo_env \<Rightarrow> dns_net \<Rightarrow> nat \<Rightarrow> Resolver \<Rightarrow> dns_msg \<Rightarrow> (dns_error, dns_msg) go_result \<times> dns_msg" where
  "ipExchange g N att r m =
     (let matched = matchPolicy r m
      in if matched \<noteq> [] then asyncExchange N att matched m
         else if shouldOnlyQueryFallback r m then asyncExchange N att (the_fallback r) m
         else
           let (res, m1) = asyncExchange N att (rMain r) m
           in if the_fallback r = [] then (res, m1)
              else case res of
                     Ok msg \<Rightarrow>
                       if msgToIP msg \<noteq> [] \<and> (\<forall>ip \<in> set (msgToIP msg). \<not> shouldIPFallback g r ip) then (res, m1)
                       else asyncExchange N att (the_fallback r) m1
                   | Err _ \<Rightarrow> asyncExchange N att (the_fallback r) m1)"

text \<open>The function of the single flight, \<open>att\<close> the number of its call.\<close>

definition exchange_fn ::
  "dns_lib \<Rightarrow> geo_env \<Rightarrow> dns_net \<Rightarrow> int \<Rightarrow> nat \<Rightarrow> Resolver \<Rightarrow> dns_msg \<Rightarrow> msg_cache \<Rightarrow>
   (dns_error, dns_msg) go_result \<times> dns_msg \<times> msg_cache" where
  "exchange_fn L g N t att r m c =
     (let q = hd (dmQuestion m);
          (res, cacheable, m1) =
            (if isIPRequest q then (case ipExchange g N att r m of (res, m1) \<Rightarrow> (res, True, m1))
             else let matched = matchPolicy r m
                  in if matched \<noteq> [] then batchExchange N att matched m else batchExchange N att (rMain r) m)
      in case res of
           Err e \<Rightarrow> (Err e, m1, c)
         | Ok msg \<Rightarrow>
             if cacheable then
               let msg1 = msg\<lparr>dmExtra := filter (\<lambda>x. hRrtype (rr_hdr x) \<noteq> TypeOPT) (dmExtra msg)\<rparr>
               in (Ok msg1, m1, putMsgToCache L t (l_QString L q) q msg1 c)
             else (Ok msg, m1, c))"

text \<open>\<open>exchangeWithoutCache\<close>: a failed flight is flown once more in the background. \<open>retryNum\<close> is 0 when the result of the
  first one is looked at, so the bound \<open>retryMax\<close> is not reached, and nobody looks at the second. Flights are numbered
  from \<open>att\<close>; returned with the result and the cache is the number of the next one.\<close>

definition retryMax :: nat where "retryMax = 3"

definition exchangeWithoutCache ::
  "dns_lib \<Rightarrow> geo_env \<Rightarrow> dns_net \<Rightarrow> int \<Rightarrow> nat \<Rightarrow> Resolver \<Rightarrow> dns_msg \<Rightarrow> msg_cache \<Rightarrow>
   (dns_error, dns_msg) go_result \<times> dns_msg \<times> msg_cache \<times> nat" where
  "exchangeWithoutCache L g N t att r m c =
     (case exchange_fn L g N t att r m c of
        (Ok msg, m1, c1) \<Rightarrow> (Ok msg, m1, c1, att + 1)
      | (Err e, m1, c1) \<Rightarrow>
          if (0 :: nat) < retryMax
          then (case exchange_fn L g N t (att + 1) r m1 c1 of (_, m2, c2) \<Rightarrow> (Err e, m2, c2, att + 2))
          else (Err e, m1, c1, att + 1))"

fun is_deadline :: "dns_error \<Rightarrow> bool" where
  "is_deadline E_Deadline = True"
| "is_deadline (E_AllFailed (Some e)) = is_deadline e"
| "is_deadline _ = False"

definition seconds_until :: "int \<Rightarrow> int \<Rightarrow> u32" where
  "seconds_until t x = word_of_int ((x * 1000000000 - t) div 1000000000)"

text \<open>A stale answer, and a failure by the deadline, make the deferred function exchange the question again.\<close>

definition Resolver_ExchangeContext ::
  "dns_lib \<Rightarrow> geo_env \<Rightarrow> dns_net \<Rightarrow> int \<Rightarrow> Resolver \<Rightarrow> dns_msg \<Rightarrow> msg_cache \<Rightarrow>
   (dns_error, dns_msg) go_result \<times> dns_msg \<times> msg_cache" where
  "Resolver_ExchangeContext L g N t r m c =
     (case dmQuestion m of
        [] \<Rightarrow> (Err E_NoQuestion, m, c)
      | q # _ \<Rightarrow>
          (case lru_GetWithExpire (unix_seconds t) (l_QString L q) (fst c) (snd c) of
             (Some (cacheM, x), c1) \<Rightarrow>
               if x * 1000000000 < t then
                 (case exchangeWithoutCache L g N t 0 r m c1 of
                    (_, m2, c2, _) \<Rightarrow> (Ok (setMsgTTL 1 cacheM), m2, c2))
               else (Ok (updateMsgTTL L (seconds_until t x) cacheM), m, c1)
           | (None, c1) \<Rightarrow>
               (case exchangeWithoutCache L g N t 0 r m c1 of
                  (res, m1, c2, att) \<Rightarrow>
                    if (case res of Err e \<Rightarrow> is_deadline e | Ok _ \<Rightarrow> False)
                    then (case exchangeWithoutCache L g N t att r m1 c2 of (_, m2, c3, _) \<Rightarrow> (res, m2, c3))
                    else (res, m1, c2))))"

definition lookupIP ::
  "dns_lib \<Rightarrow> (string \<Rightarrow> addr option) \<Rightarrow> geo_env \<Rightarrow> dns_net \<Rightarrow> int \<Rightarrow> Resolver \<Rightarrow> string \<Rightarrow> u16 \<Rightarrow> msg_cache \<Rightarrow>
   (dns_error, addr list) go_result \<times> msg_cache" where
  "lookupIP L parse_addr g N t r host dnsType c =
     (case parse_addr host of
        Some ip \<Rightarrow>
          ((if dnsType = TypeAAAA \<and> \<not> addr_is4 ip then Ok [ip]
            else if dnsType = TypeA \<and> addr_is4 ip then Ok [ip]
            else Err E_IPVersion), c)
      | None \<Rightarrow>
          (case Resolver_ExchangeContext L g N t r (l_SetQuestion L empty_msg (l_Fqdn L host) dnsType) c of
             (Err e, _, c1) \<Rightarrow> (Err e, c1)
           | (Ok msg, _, c1) \<Rightarrow> (if msgToIP msg = [] then Err E_IPNotFound else Ok (msgToIP msg), c1)))"

definition LookupIPv4 where
  "LookupIPv4 L parse_addr g N t r host c = lookupIP L parse_addr g N t r host TypeA c"

definition LookupIPv6 where
  "LookupIPv6 L parse_addr g N t r host c = lookupIP L parse_addr g N t r host TypeAAAA c"

text \<open>The two lookups run at the same time; \<open>six_first\<close> tells which of them uses the cache first, and \<open>six_late\<close> whether
  the timer of \<open>LookupIP\<close> ends before the answer of the IPv6 lookup.\<close>

definition both_lookups where
  "both_lookups L parse_addr g N t six_first r host c =
     (if six_first
      then (case lookupIP L parse_addr g N t r host TypeAAAA c of
              (r6, c1) \<Rightarrow> (case lookupIP L parse_addr g N t r host TypeA c1 of (r4, c2) \<Rightarrow> (r4, r6, c2)))
      else (case lookupIP L parse_addr g N t r host TypeA c of
              (r4, c1) \<Rightarrow> (case lookupIP L parse_addr g N t r host TypeAAAA c1 of (r6, c2) \<Rightarrow> (r4, r6, c2))))"

definition LookupIPPrimaryIPv4 where
  "LookupIPPrimaryIPv4 L parse_addr g N t six_first r host c =
     (case both_lookups L parse_addr g N t six_first r host c of
        (r4, r6, c1) \<Rightarrow>
          ((case r4 of
              Ok ips \<Rightarrow> Ok ips
            | Err _ \<Rightarrow> (case r6 of Ok ip \<Rightarrow> Ok ip | Err _ \<Rightarrow> Err E_IPNotFound)), c1))"

definition LookupIP where
  "LookupIP L parse_addr g N t six_first six_late r host c =
     (case both_lookups L parse_addr g N t six_first r host c of
        (r4, r6, c1) \<Rightarrow>
          (let ips = (case r4 of Ok ips \<Rightarrow> ips | Err _ \<Rightarrow> [])
           in if six_late then Ok ips
              else case r6 of
                     Err _ \<Rightarrow> if is_ok r4 then Ok ips else Err E_IPNotFound
                   | Ok ipv6s \<Rightarrow> Ok (ips @ ipv6s), c1))"

text \<open>\<open>Invalid\<close> is true of a resolver that can be used; \<open>None\<close> is a nil one.\<close>

definition Resolver_Invalid :: "Resolver option \<Rightarrow> bool" where
  "Resolver_Invalid r = (case r of None \<Rightarrow> False | Some r' \<Rightarrow> 0 < length (rMain r'))"

section \<open>Making a resolver\<close>

record FallbackFilter =
  ffGeoIP :: bool
  ffGeoIPCode :: string
  ffIPCIDR :: "prefix list"
  ffDomain :: "string list"
  ffGeoSite :: "(string \<Rightarrow> bool) list"

text \<open>The maps of the configuration are lists, in the order in which the loops visit them.\<close>

record DnsConfig =
  dcMain :: "NameServer list"
  dcFallback :: "NameServer list"
  dcDefault :: "NameServer list"
  dcProxyServer :: "NameServer list"
  dcIPv6 :: bool
  dcIPv6Timeout :: nat
  dcEnhancedMode :: DNSMode
  dcFallbackFilter :: FallbackFilter
  dcHosts :: "HostValue node option"
  dcPolicy :: "(string \<times> NameServer list) list"
  dcDomainSetPolicy :: "((metadata \<Rightarrow> bool) \<times> NameServer list) list"

text \<open>\<open>NewGeoSite\<close>: the matcher of a group (\<open>None\<close> when it cannot be loaded).\<close>

definition NewGeoSite :: "(string \<Rightarrow> (string \<Rightarrow> bool) option) \<Rightarrow> string \<Rightarrow> fallbackDomainFilter option" where
  "NewGeoSite load name = map_option (\<lambda>mt. GeoSiteFilter [mt]) (load name)"

text \<open>One step of the loop over the policies: the trie and the geosite records so far. The name servers are transformed
  only where the code does it.\<close>

definition add_policy ::
  "(string \<Rightarrow> (string \<Rightarrow> bool) option) \<Rightarrow> string \<times> NameServer list \<Rightarrow>
   dnsClient list node \<times> geositePolicyRecord list \<Rightarrow> (dnsClient list node \<times> geositePolicyRecord list) outcome" where
  "add_policy load dn st =
     (let (domain, nameserver) = dn; (tree, recs) = st
      in if has_prefix (to_lower domain) ''geosite:'' then
           let g = drop 8 domain;
               inverse = has_prefix g ''!'';
               groupname = (if inverse then drop 1 g else g)
           in (case NewGeoSite load groupname of
                 None \<Rightarrow> Done st
               | Some matcher \<Rightarrow>
                   obind (transform nameserver True) (\<lambda>cs.
                     Done (tree, recs @ [\<lparr>gpMatcher = matcher, gpPolicy = cs, gpInversed = inverse\<rparr>])))
         else obind (transform nameserver True) (\<lambda>cs.
                Done (case Insert domain cs tree of None \<Rightarrow> tree | Some t' \<Rightarrow> t', recs)))"

fun add_policies where
  "add_policies load [] st = Done st"
| "add_policies load (p # ps) st = obind (add_policy load p st) (\<lambda>st'. add_policies load ps st')"

fun transform_snd :: "('a \<times> NameServer list) list \<Rightarrow> ('a \<times> dnsClient list) list outcome" where
  "transform_snd [] = Done []"
| "transform_snd ((x, n) # ps) =
     obind (transform n True) (\<lambda>cs. obind (transform_snd ps) (\<lambda>rest. Done ((x, cs) # rest)))"

definition opt_clients :: "NameServer list \<Rightarrow> dnsClient list option outcome" where
  "opt_clients ns = (if ns \<noteq> [] then obind (transform ns True) (\<lambda>cs. Done (Some cs)) else Done None)"

definition fallback_ip_filters :: "FallbackFilter \<Rightarrow> fallbackIPFilter list" where
  "fallback_ip_filters f = (if ffGeoIP f then [GeoipFilter (ffGeoIPCode f)] else []) @ map IpnetFilter (ffIPCIDR f)"

definition fallback_domain_filters :: "FallbackFilter \<Rightarrow> fallbackDomainFilter list" where
  "fallback_domain_filters f =
     (if ffDomain f \<noteq> [] then [NewDomainFilter (ffDomain f)] else []) @
     (if ffGeoSite f \<noteq> [] then [GeoSiteFilter (ffGeoSite f)] else [])"

definition NewResolver :: "(string \<Rightarrow> (string \<Rightarrow> bool) option) \<Rightarrow> DnsConfig \<Rightarrow> Resolver outcome" where
  "NewResolver load cfg =
     obind (transform (dcDefault cfg) False) (\<lambda>_.
     obind (transform (dcMain cfg) True) (\<lambda>mainc.
     obind (opt_clients (dcFallback cfg)) (\<lambda>fallb.
     obind (opt_clients (dcProxyServer cfg)) (\<lambda>proxys.
     obind (add_policies load (dcPolicy cfg) (newNode, [])) (\<lambda>(tree, recs).
     obind (transform_snd (dcDomainSetPolicy cfg)) (\<lambda>sets.
       Done \<lparr>rIpv6 = dcIPv6 cfg, rIpv6Timeout = int (dcIPv6Timeout cfg), rHosts = dcHosts cfg, rMain = mainc, rFallback = fallb,
              rDomainFilters = fallback_domain_filters (dcFallbackFilter cfg),
              rIPFilters = fallback_ip_filters (dcFallbackFilter cfg),
              rPolicy = (if dcPolicy cfg \<noteq> [] then Some (optimize tree) else None),
              rDomainSetPolicy = sets, rGeositePolicy = recs, rProxyServer = proxys\<rparr>))))))"

definition NewProxyServerHostResolver :: "Resolver \<Rightarrow> Resolver" where
  "NewProxyServerHostResolver old =
     \<lparr>rIpv6 = rIpv6 old, rIpv6Timeout = rIpv6Timeout old, rHosts = rHosts old,
      rMain = (case rProxyServer old of None \<Rightarrow> [] | Some cs \<Rightarrow> cs), rFallback = None, rDomainFilters = [], rIPFilters = [],
      rPolicy = Some newNode, rDomainSetPolicy = [], rGeositePolicy = [], rProxyServer = None\<rparr>"

text \<open>The caches that \<open>NewResolver\<close> makes keep stale answers.\<close>

definition new_msg_cache :: msg_cache where
  "new_msg_cache = ([], lru_new 0 4096 False True)"

section \<open>Times to live\<close>

lemma rr_ttl_set_ttl [simp]: "rr_ttl (set_ttl ttl r) = ttl"
  by (cases r) (simp_all add: set_ttl_def)

lemma word_shift_ttl:
  fixes a m ttl :: "'a::len word"
  assumes "m \<le> a" "ttl \<le> m"
  shows "unat (a - (m - ttl)) = unat a - (unat m - unat ttl)"
proof -
  have "m - ttl \<le> m" using assms(2) by (simp add: word_le_nat_alt unat_sub)
  with assms show ?thesis by (simp add: unat_sub)
qed

context dns_library
begin

lemma Clamp_id: "a \<le> v \<Longrightarrow> v \<le> b \<Longrightarrow> l_Clamp L v a b = v"
  using Clamp_range [of a b v] by (auto simp: not_less [symmetric])

lemma Clamp_bounds: "a \<le> b \<Longrightarrow> a \<le> l_Clamp L v a b \<and> l_Clamp L v a b \<le> b"
  using Clamp_range [of a b v] by (auto simp: not_less)

lemma minimalTTL_min:
  assumes "rs \<noteq> []"
  shows "minimalTTL L rs \<in> rr_ttl ` set rs" and "r \<in> set rs \<Longrightarrow> minimalTTL L rs \<le> rr_ttl r"
  using MinBy_min [OF assms refl] unfolding minimalTTL_def by (auto simp: not_less)

lemma minimalTTL_eqI: "\<exists>r \<in> set rs. rr_ttl r = v \<Longrightarrow> \<forall>r \<in> set rs. v \<le> rr_ttl r \<Longrightarrow> minimalTTL L rs = v"
  using minimalTTL_min [of rs] by (metis (no_types, lifting) antisym emptyE empty_set imageE)

lemma updateTTL_map:
  assumes "rs \<noteq> []" "0 < ttl" "ttl \<le> minimalTTL L rs"
  shows "updateTTL L ttl rs = map (\<lambda>r. set_ttl (rr_ttl r - (minimalTTL L rs - ttl)) r) rs"
proof -
  have "l_Clamp L (rr_ttl r - (minimalTTL L rs - ttl)) 1 (rr_ttl r) = rr_ttl r - (minimalTTL L rs - ttl)" if r: "r \<in> set rs" for r
  proof -
    have m: "minimalTTL L rs \<le> rr_ttl r" by (rule minimalTTL_min(2) [OF assms(1) r])
    note u = word_shift_ttl [OF m assms(3)]
    have "unat ttl \<noteq> 0" using assms(2) by (metis unat_eq_zero word_neq_0_conv)
    moreover have "unat ttl \<le> unat (minimalTTL L rs)" "unat (minimalTTL L rs) \<le> unat (rr_ttl r)"
      using assms(3) m by (simp_all add: word_le_nat_alt)
    ultimately have "1 \<le> unat (rr_ttl r - (minimalTTL L rs - ttl))" "unat (rr_ttl r - (minimalTTL L rs - ttl)) \<le> unat (rr_ttl r)"
      "1 \<le> unat (rr_ttl r)"
      unfolding u by linarith+
    then have "1 \<le> rr_ttl r - (minimalTTL L rs - ttl)" "rr_ttl r - (minimalTTL L rs - ttl) \<le> rr_ttl r" "1 \<le> rr_ttl r"
      by (simp_all add: word_le_nat_alt)
    then show ?thesis by (intro Clamp_id)
  qed
  with assms(1) show ?thesis by (simp add: updateTTL_def Let_def)
qed

lemma updateTTL_min:
  assumes "rs \<noteq> []" "0 < ttl" "ttl \<le> minimalTTL L rs"
  shows "minimalTTL L (updateTTL L ttl rs) = ttl"
proof (rule minimalTTL_eqI)
  obtain r where "r \<in> set rs" "rr_ttl r = minimalTTL L rs" using minimalTTL_min(1) [OF assms(1)] by auto
  then show "\<exists>r \<in> set (updateTTL L ttl rs). rr_ttl r = ttl" unfolding updateTTL_map [OF assms] by force
  have "ttl \<le> rr_ttl r - (minimalTTL L rs - ttl)" if "r \<in> set rs" for r
    using word_shift_ttl [OF minimalTTL_min(2) [OF assms(1) that] assms(3)] minimalTTL_min(2) [OF assms(1) that] assms(3)
    by (simp add: word_le_nat_alt)
  then show "\<forall>r \<in> set (updateTTL L ttl rs). ttl \<le> rr_ttl r" unfolding updateTTL_map [OF assms] by simp
qed

lemma ttl_bounds:
  assumes "i < length rs" "1 \<le> rr_ttl (rs ! i)"
  shows "1 \<le> rr_ttl (updateTTL L ttl rs ! i) \<and> rr_ttl (updateTTL L ttl rs ! i) \<le> rr_ttl (rs ! i)"
  using assms Clamp_bounds by (auto simp: updateTTL_def Let_def)

end

text \<open>A library that does what the documentation says.\<close>

definition std_min_by :: "(rr \<Rightarrow> rr \<Rightarrow> bool) \<Rightarrow> rr list \<Rightarrow> rr option" where
  "std_min_by lt xs = (case xs of [] \<Rightarrow> None | y # ys \<Rightarrow> Some (fold (\<lambda>x acc. if lt x acc then x else acc) ys y))"

definition std_lib :: dns_lib where
  "std_lib = \<lparr>l_MinBy = std_min_by, l_Clamp = (\<lambda>v a b. if v < a then a else if b < v then b else v),
     l_SetRcode = (\<lambda>m r c. m\<lparr>dmId := dmId r, dmResponse := True, dmRcode := c, dmQuestion := take 1 (dmQuestion r)\<rparr>),
     l_SetQuestion = (\<lambda>m s t. m\<lparr>dmQuestion := [\<lparr>qName = s, qQtype = t, qQclass = ClassINET\<rparr>]\<rparr>),
     l_Fqdn = (\<lambda>s. if has_suffix s ''.'' then s else s @ ''.''),
     l_QString = (\<lambda>q. qName q @ (if qQtype q = TypeA then ''A'' else ''?''))\<rparr>"

lemma fold_min_by:
  fixes f :: "rr \<Rightarrow> u32"
  shows "fold (\<lambda>x acc. if f x < f acc then x else acc) ys y \<in> insert y (set ys) \<and>
    (\<forall>z \<in> insert y (set ys). f (fold (\<lambda>x acc. if f x < f acc then x else acc) ys y) \<le> f z)"
proof (induction ys arbitrary: y)
  case (Cons x ys)
  from Cons [of x] Cons [of y] show ?case by (auto simp: not_less intro: order.trans)
qed simp

interpretation std: dns_library std_lib
proof unfold_locales
  fix xs :: "rr list" and lt assume x: "xs \<noteq> []" and lt: "lt = (\<lambda>x y. rr_ttl x < rr_ttl y)"
  then obtain y ys where "xs = y # ys" by (cases xs) auto
  with fold_min_by [of rr_ttl ys y] show "\<exists>x \<in> set xs. l_MinBy std_lib lt xs = Some x \<and> (\<forall>y \<in> set xs. \<not> lt y x)"
    by (auto simp: std_lib_def std_min_by_def lt not_less)
qed (simp_all add: std_lib_def std_min_by_def)

text \<open>A cached answer is served with its times to live shifted together, so that the least of them is the time that is
  left, as long as that is neither zero nor more than the least one of the original.\<close>

theorem updateTTL_shifts:
  assumes "dns_library L" "rs \<noteq> []" "0 < ttl" "ttl \<le> minimalTTL L rs"
  shows "minimalTTL L (updateTTL L ttl rs) = ttl \<and>
    map rr_ttl (updateTTL L ttl rs) = map (\<lambda>r. rr_ttl r - (minimalTTL L rs - ttl)) rs"
  using dns_library.updateTTL_min [OF assms] dns_library.updateTTL_map [OF assms] by simp

text \<open>Whatever time is left, no record's time to live grows or gets to zero.\<close>

theorem updateTTL_bounds:
  assumes "dns_library L" "i < length rs" "1 \<le> rr_ttl (rs ! i)"
  shows "1 \<le> rr_ttl (updateTTL L ttl rs ! i) \<and> rr_ttl (updateTTL L ttl rs ! i) \<le> rr_ttl (rs ! i)"
  by (rule dns_library.ttl_bounds [OF assms])

theorem updateTTL_shifts_witness:
  "minimalTTL std_lib (updateTTL std_lib 7 [RR_CNAME \<lparr>hName = [], hRrtype = 5, hClass = 1, hTtl = 30\<rparr> [],
      RR_Other \<lparr>hName = [], hRrtype = 2, hClass = 1, hTtl = 20\<rparr>]) = 7 \<and>
   map rr_ttl (updateTTL std_lib 7 [RR_CNAME \<lparr>hName = [], hRrtype = 5, hClass = 1, hTtl = 30\<rparr> [],
      RR_Other \<lparr>hName = [], hRrtype = 2, hClass = 1, hTtl = 20\<rparr>]) = [17, 7]"
  using updateTTL_shifts [OF std.dns_library_axioms, where ttl = 7 and
      rs = "[RR_CNAME \<lparr>hName = [], hRrtype = 5, hClass = 1, hTtl = 30\<rparr> [],
        RR_Other \<lparr>hName = [], hRrtype = 2, hClass = 1, hTtl = 20\<rparr>]"]
  by (simp add: minimalTTL_def std_lib_def std_min_by_def)

theorem updateTTL_bounds_witness:
  "1 \<le> rr_ttl (updateTTL std_lib 100 [RR_Other \<lparr>hName = [], hRrtype = 2, hClass = 1, hTtl = 20\<rparr>] ! 0) \<and>
   rr_ttl (updateTTL std_lib 100 [RR_Other \<lparr>hName = [], hRrtype = 2, hClass = 1, hTtl = 20\<rparr>] ! 0) \<le> 20"
  using updateTTL_bounds [OF std.dns_library_axioms, where ttl = 100 and i = 0 and
      rs = "[RR_Other \<lparr>hName = [], hRrtype = 2, hClass = 1, hTtl = 20\<rparr>]"] by simp

section \<open>Poisoned answers\<close>

text \<open>C25: for a question that no policy sends to other servers, and with fallback servers configured: when the answer of the main
  name servers holds an address that a fallback filter matches, the result is what the fallback servers say to the question,
  whatever else the answer holds. (Without fallback servers the filters are not used, and the answer is returned as it is.)\<close>

theorem ipExchange_filters:
  assumes "matchPolicy r m = []" "the_fallback r \<noteq> []" "asyncExchange N att (rMain r) m = (Ok msg, m1)"
    and "ip \<in> set (msgToIP msg)" "shouldIPFallback g r ip"
  shows "\<exists>m'. m' \<in> {m, m1} \<and> ipExchange g N att r m = asyncExchange N att (the_fallback r) m'"
proof (cases "shouldOnlyQueryFallback r m")
  case True
  with assms(1) show ?thesis by (auto simp: ipExchange_def)
next
  case False
  have "\<not> (msgToIP msg \<noteq> [] \<and> (\<forall>ip \<in> set (msgToIP msg). \<not> shouldIPFallback g r ip))" using assms(4,5) by blast
  then have "ipExchange g N att r m = asyncExchange N att (the_fallback r) m1"
    using False assms(1-3) by (simp add: ipExchange_def split del: if_split cong: if_cong) auto
  then show ?thesis by blast
qed

definition sample_q :: question where
  "sample_q = \<lparr>qName = ''a.com.'', qQtype = TypeA, qQclass = ClassINET\<rparr>"

definition sample_query :: dns_msg where
  "sample_query = empty_msg\<lparr>dmId := 7, dmQuestion := [sample_q]\<rparr>"

text \<open>An answer with the address \<open>240.0.0.1\<close>, or \<open>1.2.3.4\<close> from the second server.\<close>

definition sample_answer :: "u8 \<Rightarrow> dns_msg" where
  "sample_answer b = sample_query\<lparr>dmAnswer := [RR_A \<lparr>hName = ''a.com.'', hRrtype = TypeA, hClass = ClassINET, hTtl = 60\<rparr> [b, 0, 0, 1]]\<rparr>"

definition sample_net :: dns_net where
  "sample_net = \<lparr>nExchange = (\<lambda>att c m. Ok (sample_answer (if c = SystemClient then 240 else 1))), nOrder = (\<lambda>att cs. cs)\<rparr>"

definition sample_geo :: geo_env where
  "sample_geo = \<lparr>gGeodataMode = False, gLookupCode = (\<lambda>bs. []), gMatcherCN = None\<rparr>"

definition sample_resolver :: Resolver where
  "sample_resolver = \<lparr>rIpv6 = False, rIpv6Timeout = 0, rHosts = None, rMain = [SystemClient], rFallback = Some [DHCPClient ''en0''],
     rDomainFilters = [], rIPFilters = [IpnetFilter \<lparr>pfx_addr = Addr4 0xF0000000, pfx_bits = 4\<rparr>], rPolicy = None,
     rDomainSetPolicy = [], rGeositePolicy = [], rProxyServer = None\<rparr>"

lemma sample_main:
  "asyncExchange sample_net 0 (rMain sample_resolver) sample_query = (Ok (sample_answer 240), sample_query)"
  "msgToIP (sample_answer 240) = [Addr4 0xF0000001]"
  by (simp_all add: asyncExchange_def batchExchange_def sample_net_def sample_resolver_def sample_answer_def Let_def
      batch_answer_def msgToIP_def IpToAddr_def picker_Wait_def picker_return_def newPicker_def sample_query_def empty_msg_def
      sample_q_def addr_from_slice_def be_word_def)

theorem ipExchange_filters_witness:
  "fst (ipExchange sample_geo sample_net 0 sample_resolver sample_query) = Ok (sample_answer 1)"
proof -
  have "shouldIPFallback sample_geo sample_resolver (Addr4 0xF0000001)"
    by (simp add: shouldIPFallback_def sample_resolver_def prefix_contains_def prefix_valid_def same_net_simps)
  with ipExchange_filters [OF _ _ sample_main(1), of "Addr4 0xF0000001" sample_geo]
  have "\<exists>m'. m' \<in> {sample_query, sample_query} \<and>
      ipExchange sample_geo sample_net 0 sample_resolver sample_query =
        asyncExchange sample_net 0 (the_fallback sample_resolver) m'"
    by (simp add: sample_main(2) matchPolicy_def the_fallback_def sample_resolver_def)
  then show ?thesis
    by (auto simp: asyncExchange_def batchExchange_def sample_net_def sample_resolver_def sample_answer_def Let_def
      batch_answer_def msgToIP_def picker_Wait_def picker_return_def newPicker_def sample_query_def empty_msg_def
      sample_q_def the_fallback_def)
qed

section \<open>The cache of answers\<close>

text \<open>An answer that was put into the cache is served from there.\<close>

definition cache_ok :: "msg_cache \<Rightarrow> bool" where
  "cache_ok c \<longleftrightarrow> lru_sync (fst c) (snd c) \<and> maxAge (snd c) \<le> 0"

lemma cache_ok_new: "cache_ok new_msg_cache"
  by (simp add: cache_ok_def new_msg_cache_def) (simp add: lru_new_def)

definition cached :: "string \<Rightarrow> dns_msg \<Rightarrow> int \<Rightarrow> msg_cache \<Rightarrow> bool" where
  "cached key msg x c \<longleftrightarrow> cache_ok c \<and>
     s_find key (lru_view (fst c) (snd c)) = Some \<lparr>ekey = key, evalue = msg, eexpires = x\<rparr>"

lemma cached_GetWithExpire:
  assumes "cached key msg x c" "lru_GetWithExpire now key (fst c) (snd c) = (r, c1)"
  shows "r = Some (msg, x)" "cached key msg x c1"
proof -
  obtain h1 d1 where c1: "c1 = (h1, d1)" by force
  from GetWithExpire_refines [of "fst c" "snd c" now key r h1 d1] assms c1
  obtain v where v: "lru_sync h1 d1" "same_config d1 (snd c)" "r = map_option (\<lambda>v. (v, eexpires (last (lru_view h1 d1)))) v"
    "s_get (staleReturn (snd c)) (updateAgeOnGet (snd c)) (maxAge (snd c)) now key (lru_view (fst c) (snd c)) = (v, lru_view h1 d1)"
    by (auto simp: cached_def cache_ok_def)
  with assms(1) have e: "v = Some msg" "lru_view h1 d1 = s_del key (lru_view (fst c) (snd c)) @ [\<lparr>ekey = key, evalue = msg, eexpires = x\<rparr>]"
    by (auto simp: s_get_def cached_def cache_ok_def)
  then show "r = Some (msg, x)" by (simp add: v(3))
  show "cached key msg x c1"
    using v(1,2) assms(1) by (simp add: c1 cached_def cache_ok_def e(2) s_find_append s_find_del s_find_single same_config_def)
qed

text \<open>The time to live that an answer is cached for, 0 where it is not cached.\<close>

definition cache_ttl :: "dns_lib \<Rightarrow> question \<Rightarrow> dns_msg \<Rightarrow> u32" where
  "cache_ttl L q msg =
     (if qQtype q = TypeTXT \<and> has_prefix (qName q) ''_acme-challenge.'' then 0
      else if dmRcode msg = RcodeServerFailure then 5
      else minimalTTL L (dmAnswer msg @ dmNs msg @ dmExtra msg))"

lemma putMsgToCache_cached:
  assumes "cache_ok c" "cache_ttl L q msg \<noteq> 0"
  shows "cached key msg (unix_seconds t + uint (cache_ttl L q msg)) (putMsgToCache L t key q msg c)"
proof -
  let ?ttl = "cache_ttl L q msg"
  have x: "unix_seconds (t + uint ?ttl * 1000000000) = unix_seconds t + uint ?ttl" by (simp add: unix_seconds_def)
  obtain h' c' where s: "lru_setWithExpire (unix_seconds t) key msg (unix_seconds t + uint ?ttl) (fst c) (snd c) = (h', c')" by force
  with assms(2) have p: "putMsgToCache L t key q msg c = (h', c')"
    unfolding x [symmetric] by (auto simp: putMsgToCache_def cache_ttl_def serverFailureCacheTTL_def Let_def split: if_splits)
  from setWithExpire_refines [OF _ s] assms(1) have v: "lru_sync h' c'" "same_config c' (snd c)"
    "lru_view h' c' = s_set (staleReturn (snd c)) (maxAge (snd c)) (maxSize (snd c)) (unix_seconds t) key msg (unix_seconds t + uint ?ttl)
       (lru_view (fst c) (snd c))"
    by (simp_all add: cache_ok_def)
  have "s_find key (lru_view h' c') = Some \<lparr>ekey = key, evalue = msg, eexpires = unix_seconds t + uint ?ttl\<rparr>"
    unfolding v(3) using assms(1) by (intro s_find_set) (simp add: cache_ok_def)
  with v(1,2) assms(1) show ?thesis by (simp add: p cached_def cache_ok_def same_config_def)
qed

lemma cached_fresh:
  assumes "cached (l_QString L q) msg x c" "dmQuestion m = q # qs" "t \<le> x * 1000000000"
  shows "\<exists>c'. Resolver_ExchangeContext L g N t r m c = (Ok (updateMsgTTL L (seconds_until t x) msg), m, c') \<and> cached (l_QString L q) msg x c'"
proof -
  obtain res c1 where g: "lru_GetWithExpire (unix_seconds t) (l_QString L q) (fst c) (snd c) = (res, c1)" using prod.exhaust by blast
  from cached_GetWithExpire [OF assms(1) g] show ?thesis using assms(2,3) g by (simp add: Resolver_ExchangeContext_def)
qed

text \<open>Requests one after the other, each with its time and with what the network would answer.\<close>

fun ask_run :: "dns_lib \<Rightarrow> geo_env \<Rightarrow> Resolver \<Rightarrow> (int \<times> dns_net \<times> dns_msg) list \<Rightarrow> msg_cache \<Rightarrow> (dns_error, dns_msg) go_result list \<times> msg_cache" where
  "ask_run L g r [] c = ([], c)"
| "ask_run L g r ((t, N, m) # reqs) c =
     (case Resolver_ExchangeContext L g N t r m c of
        (res, m', c') \<Rightarrow> (case ask_run L g r reqs c' of (rs, c'') \<Rightarrow> (res # rs, c'')))"

lemma ask_run_cached:
  assumes "\<forall>(t, N, m) \<in> set reqs. t \<le> x * 1000000000 \<and> (\<exists>qs. dmQuestion m = q # qs)"
  shows "cached (l_QString L q) msg x c \<Longrightarrow>
    \<exists>c'. ask_run L g r reqs c = (map (\<lambda>(t, N, m). Ok (updateMsgTTL L (seconds_until t x) msg)) reqs, c') \<and> cached (l_QString L q) msg x c'"
  using assms
proof (induction reqs arbitrary: c)
  case (Cons req reqs)
  obtain t N m where req: "req = (t, N, m)" by (metis prod_cases3)
  with Cons.prems obtain qs where "dmQuestion m = q # qs" "t \<le> x * 1000000000" by auto
  from cached_fresh [OF Cons.prems(1) this, of g N r] obtain c1 where
    "Resolver_ExchangeContext L g N t r m c = (Ok (updateMsgTTL L (seconds_until t x) msg), m, c1)" "cached (l_QString L q) msg x c1" by blast
  with Cons.IH [of c1] Cons.prems(2) req show ?case by auto
qed simp



text \<open>The comment in \<open>ExchangeContext\<close> speaks of a common delta of the records. Each section is shifted by a delta of its own: of an answer with
  300 seconds and an authority with 60, served with 30 seconds left, the first loses 270 and the second 30.\<close>

lemma updateMsgTTL_no_common_delta:
  fixes a b :: rr and msg :: dns_msg
  defines "a \<equiv> RR_Other \<lparr>hName = [], hRrtype = 2, hClass = 1, hTtl = 300\<rparr>" and "b \<equiv> RR_Other \<lparr>hName = [], hRrtype = 2, hClass = 1, hTtl = 60\<rparr>"
  shows "updateMsgTTL std_lib 30 (empty_msg\<lparr>dmAnswer := [a], dmNs := [b]\<rparr>) =
    empty_msg\<lparr>dmAnswer := [set_ttl 30 a], dmNs := [set_ttl 30 b]\<rparr>"
  by (simp add: a_def b_def updateMsgTTL_def updateTTL_def minimalTTL_def std_lib_def std_min_by_def empty_msg_def set_ttl_def)

end
