(* ===== verification/Enhancer.thy ===== *)
theory Enhancer
  imports Tunnel FakeIP Dns
begin

text \<open>
  The enhancer of the resolver (\<open>dns/enhancer.go\<close>), the middlewares of the DNS server (\<open>dns/middleware.go\<close>,
  \<open>dns/server.go\<close>, \<open>dns/local.go\<close>), and what they promise together with the fake IP pool and the tunnel: a connection to
  an address that the server gave out is a connection to the name that was asked for.

  The pool and the mapping are shared by the enhancer and the middlewares, so they are part of the state that a
  handler passes on. The operations of the pool's store are an argument, as in theory \<open>FakeIP\<close>.
\<close>

section \<open>The enhancer\<close>

type_synonym mapping = "(addr, string) eheap \<times> (addr, string) lru_cache"

record 's enhancer =
  enMode :: DNSMode
  enPool :: "'s pool option"
  enMapping :: "mapping option"

definition en_FakeIPEnabled :: "'s enhancer \<Rightarrow> bool" where
  "en_FakeIPEnabled h \<longleftrightarrow> enMode h = DNSFakeIP"

definition en_MappingEnabled :: "'s enhancer \<Rightarrow> bool" where
  "en_MappingEnabled h \<longleftrightarrow> enMode h = DNSFakeIP \<or> enMode h = DNSMapping"

definition en_IsExistFakeIP :: "'s store_ops \<Rightarrow> 's enhancer \<Rightarrow> addr \<Rightarrow> bool" where
  "en_IsExistFakeIP ops h ip =
     (if \<not> en_FakeIPEnabled h then False
      else case enPool h of Some p \<Rightarrow> pool_Exist ops ip p | None \<Rightarrow> False)"

definition en_IsFakeIP :: "'s enhancer \<Rightarrow> addr \<Rightarrow> bool" where
  "en_IsFakeIP h ip =
     (if \<not> en_FakeIPEnabled h then False
      else case enPool h of
             Some p \<Rightarrow> prefix_contains (pIPNet p) ip \<and> ip \<noteq> pGateway p \<and> ip \<noteq> pLast p
           | None \<Rightarrow> False)"

definition en_IsFakeBroadcastIP :: "'s enhancer \<Rightarrow> addr \<Rightarrow> bool" where
  "en_IsFakeBroadcastIP h ip =
     (if \<not> en_FakeIPEnabled h then False
      else case enPool h of Some p \<Rightarrow> pLast p = ip | None \<Rightarrow> False)"

text \<open>\<open>now\<close> is the time in seconds.\<close>

definition en_FindHostByIP :: "'s store_ops \<Rightarrow> int \<Rightarrow> addr \<Rightarrow> 's enhancer \<Rightarrow> string option \<times> 's enhancer" where
  "en_FindHostByIP ops now ip h =
     (let (host, h1) = (case enPool h of
                          Some p \<Rightarrow> (case pool_LookBack ops ip p of (r, p') \<Rightarrow> (r, h\<lparr>enPool := Some p'\<rparr>))
                        | None \<Rightarrow> (None, h))
      in case host of
           Some n \<Rightarrow> (Some n, h1)
         | None \<Rightarrow>
             (case enMapping h1 of
                Some (hp, c) \<Rightarrow> (case lru_get now ip hp c of (r, hp', c') \<Rightarrow> (r, h1\<lparr>enMapping := Some (hp', c')\<rparr>))
              | None \<Rightarrow> (None, h1)))"

definition en_InsertHostByIP :: "int \<Rightarrow> addr \<Rightarrow> string \<Rightarrow> 's enhancer \<Rightarrow> 's enhancer" where
  "en_InsertHostByIP now ip host h =
     (case enMapping h of Some (hp, c) \<Rightarrow> h\<lparr>enMapping := Some (lru_set now ip host hp c)\<rparr> | None \<Rightarrow> h)"

definition en_FlushFakeIP :: "'s store_ops \<Rightarrow> 's enhancer \<Rightarrow> bool \<times> 's enhancer" where
  "en_FlushFakeIP ops h =
     (case enPool h of
        Some p \<Rightarrow> (case pool_FlushFakeIP ops p of (ok, p') \<Rightarrow> (ok, h\<lparr>enPool := Some p'\<rparr>))
      | None \<Rightarrow> (True, h))"

text \<open>\<open>CloneTo\<close> of the pool's store is an argument. The entries of a cloned cache are shared.\<close>

definition pool_CloneFrom :: "('s \<Rightarrow> 's \<Rightarrow> 's) \<Rightarrow> 's pool \<Rightarrow> 's pool \<Rightarrow> 's pool" where
  "pool_CloneFrom cloneTo p old = p\<lparr>pStore := cloneTo (pStore old) (pStore p)\<rparr>"

definition en_PatchFrom :: "('s \<Rightarrow> 's \<Rightarrow> 's) \<Rightarrow> 's enhancer \<Rightarrow> 's enhancer \<Rightarrow> 's enhancer" where
  "en_PatchFrom cloneTo h old =
     (let h1 = (case (enMapping h, enMapping old) of
                  (Some (hp, c), Some (hp', c')) \<Rightarrow> h\<lparr>enMapping := Some (hp', lru_cloneTo hp' c' c)\<rparr>
                | _ \<Rightarrow> h)
      in case (enPool h1, enPool old) of
           (Some p, Some q) \<Rightarrow> h1\<lparr>enPool := Some (pool_CloneFrom cloneTo p q)\<rparr>
         | _ \<Rightarrow> h1)"

definition en_StoreFakePoolState :: "'s store_ops \<Rightarrow> 's enhancer \<Rightarrow> 's enhancer" where
  "en_StoreFakePoolState ops h =
     (case enPool h of Some p \<Rightarrow> h\<lparr>enPool := Some (StoreState ops p)\<rparr> | None \<Rightarrow> h)"

definition NewEnhancer :: "DNSMode \<Rightarrow> 's pool option \<Rightarrow> 's enhancer" where
  "NewEnhancer mode p =
     (if mode \<noteq> DNSNormal then \<lparr>enMode = mode, enPool = p, enMapping = Some ([], lru_new 0 4096 False False)\<rparr>
      else \<lparr>enMode = mode, enPool = None, enMapping = None\<rparr>)"

text \<open>The host mapper of the tunnel that an enhancer is at one moment.\<close>

definition enhancer_mapper :: "'s store_ops \<Rightarrow> int \<Rightarrow> 's enhancer \<Rightarrow> host_mapper" where
  "enhancer_mapper ops now h =
     \<lparr>hm_FakeIPEnabled = en_FakeIPEnabled h, hm_MappingEnabled = en_MappingEnabled h, hm_IsFakeIP = en_IsFakeIP h,
      hm_IsFakeBroadcastIP = en_IsFakeBroadcastIP h, hm_IsExistFakeIP = en_IsExistFakeIP ops h,
      hm_FindHostByIP = (\<lambda>ip. fst (en_FindHostByIP ops now ip h))\<rparr>"

section \<open>The middlewares\<close>

text \<open>\<open>dsType\<close> is the type of the \<open>DNSContext\<close>. A handler returns its answer, the request as it left it, and the state.\<close>

record 's dns_state =
  dsEnhancer :: "'s enhancer"
  dsCache :: msg_cache
  dsType :: string

type_synonym 's handler =
  "dns_msg \<Rightarrow> 's dns_state \<Rightarrow> ((dns_error, dns_msg) go_result \<times> dns_msg \<times> 's dns_state) outcome"

definition set_mapping :: "int \<Rightarrow> addr \<Rightarrow> string \<Rightarrow> int \<Rightarrow> 's dns_state \<Rightarrow> 's dns_state" where
  "set_mapping t ip host x st =
     (case enMapping (dsEnhancer st) of
        None \<Rightarrow> st
      | Some (hp, c) \<Rightarrow>
          st\<lparr>dsEnhancer := (dsEnhancer st)\<lparr>enMapping := Some (lru_setWithExpire (unix_seconds t) ip host (unix_seconds x) hp c)\<rparr>\<rparr>)"

definition handleCName :: "question \<Rightarrow> string \<Rightarrow> dns_msg \<Rightarrow> dns_msg" where
  "handleCName q domain resp =
     resp\<lparr>dmAnswer := RR_CNAME \<lparr>hName = qName q, hRrtype = TypeCNAME, hClass = ClassINET, hTtl = 10\<rparr> (domain @ ''.'')
       # dmAnswer resp\<rparr>"

text \<open>\<open>handleIPs\<close>: one round of its loop, for the message and the state.\<close>

definition handleIP :: "int \<Rightarrow> question \<Rightarrow> string \<Rightarrow> addr \<Rightarrow> dns_msg \<times> 's dns_state \<Rightarrow> dns_msg \<times> 's dns_state" where
  "handleIP t q host ip ms =
     (let (msg, st) = ms
      in if addr_is4 ip \<and> qQtype q = TypeA then
           (msg\<lparr>dmAnswer := dmAnswer msg @ [RR_A \<lparr>hName = qName q, hRrtype = TypeA, hClass = ClassINET, hTtl = 10\<rparr> (addr_as_slice ip)]\<rparr>,
            set_mapping t ip host (t + 10 * 1000000000) st)
         else if qQtype q = TypeAAAA then
           (msg\<lparr>dmAnswer := dmAnswer msg @
              [RR_AAAA \<lparr>hName = qName q, hRrtype = TypeAAAA, hClass = ClassINET, hTtl = 10\<rparr> (be_bytes 16 (addr_as16 ip))]\<rparr>,
            set_mapping t ip host (t + 10 * 1000000000) st)
         else (msg, st))"

definition success_reply :: "dns_lib \<Rightarrow> dns_msg \<Rightarrow> dns_msg \<Rightarrow> dns_msg" where
  "success_reply L msg r = (l_SetRcode L msg r RcodeSuccess)\<lparr>dmAuthoritative := True, dmRecursionAvailable := True\<rparr>"

definition withHosts ::
  "dns_lib \<Rightarrow> int \<Rightarrow> (string \<Rightarrow> bool \<Rightarrow> (HostValue option \<times> bool) outcome) \<Rightarrow> 's handler \<Rightarrow> 's handler" where
  "withHosts L t search nxt r st =
     (case dmQuestion r of
        [] \<Rightarrow> Panicked
      | q # qs \<Rightarrow>
          if \<not> isIPRequest q then nxt r st
          else
            let host = trim_right_set ''.'' (qName q)
            in obind (search host (qQtype q \<noteq> TypeA \<and> qQtype q \<noteq> TypeAAAA)) (\<lambda>(record, ok).
                 case record of
                   None \<Rightarrow> if ok then Panicked else nxt r st
                 | Some hv \<Rightarrow>
                     if \<not> ok then
                       if IsDomain hv then
                         obind (nxt (r\<lparr>dmQuestion := q\<lparr>qName := hvDomain hv @ ''.''\<rparr> # qs\<rparr>) st) (\<lambda>(resp, newR, st1).
                           case resp of
                             Ok m \<Rightarrow> Done (Ok (handleCName q (hvDomain hv) (m\<lparr>dmId := dmId r, dmQuestion := dmQuestion r\<rparr>)), r, st1)
                           | Err e \<Rightarrow> Done (Err e, r, st1))
                       else nxt r st
                     else if qQtype q = TypeA \<or> qQtype q = TypeAAAA then
                       let (msg, st1) = fold (handleIP t q host) (IPs hv) (r, st)
                       in Done (Ok (success_reply L msg r), r, st1\<lparr>dsType := ''host''\<rparr>)
                     else
                       let r' = handleCName q (hvDomain hv) r
                       in Done (Ok (success_reply L r r'), r', st\<lparr>dsType := ''host''\<rparr>)))"

text \<open>One answer in the loop of \<open>withMapping\<close>; a nil mapping would be dereferenced.\<close>

definition map_answer :: "int \<Rightarrow> string \<Rightarrow> rr \<Rightarrow> 's dns_state \<Rightarrow> 's dns_state outcome" where
  "map_answer t host ans st =
     (case ans of
        RR_A h ip \<Rightarrow>
          if enMapping (dsEnhancer st) = None then Panicked
          else Done (set_mapping t (IpToAddr ip) host (t + uint (if hTtl h < 1 then 1 else hTtl h) * 1000000000) st)
      | RR_AAAA h ip \<Rightarrow>
          if enMapping (dsEnhancer st) = None then Panicked
          else Done (set_mapping t (IpToAddr ip) host (t + uint (if hTtl h < 1 then 1 else hTtl h) * 1000000000) st)
      | _ \<Rightarrow> Done st)"

fun map_answers :: "int \<Rightarrow> string \<Rightarrow> rr list \<Rightarrow> 's dns_state \<Rightarrow> 's dns_state outcome" where
  "map_answers t host [] st = Done st"
| "map_answers t host (a # as) st = obind (map_answer t host a st) (map_answers t host as)"

definition withMapping :: "int \<Rightarrow> 's handler \<Rightarrow> 's handler" where
  "withMapping t nxt r st =
     (case dmQuestion r of
        [] \<Rightarrow> Panicked
      | q # _ \<Rightarrow>
          if \<not> isIPRequest q then nxt r st
          else obind (nxt r st) (\<lambda>(resp, r1, st1).
                 case resp of
                   Err e \<Rightarrow> Done (Err e, r1, st1)
                 | Ok msg \<Rightarrow>
                     obind (map_answers t (trim_right_set ''.'' (qName q)) (dmAnswer msg) st1) (\<lambda>st2. Done (Ok msg, r1, st2))))"

definition dnsDefaultTTL :: u32 where "dnsDefaultTTL = 600"

definition withFakeIP :: "dns_lib \<Rightarrow> 's store_ops \<Rightarrow> 's handler \<Rightarrow> 's handler" where
  "withFakeIP L ops nxt r st =
     (case dmQuestion r of
        [] \<Rightarrow> Panicked
      | q # _ \<Rightarrow>
          (case enPool (dsEnhancer st) of
             None \<Rightarrow> Panicked
           | Some p \<Rightarrow>
               let host = trim_right_set ''.'' (qName q)
               in if ShouldSkipped host p then nxt r st
                  else if qQtype q = TypeAAAA \<or> qQtype q = TypeSVCB \<or> qQtype q = TypeHTTPS
                  then Done (Ok (handleMsgWithEmptyAnswer L r), r, st)
                  else if qQtype q \<noteq> TypeA then nxt r st
                  else obind (pool_Lookup ops host p) (\<lambda>(ip, p').
                    let rr = RR_A \<lparr>hName = qName q, hRrtype = TypeA, hClass = ClassINET, hTtl = dnsDefaultTTL\<rparr> (addr_as_slice ip);
                        msg = setMsgTTL 1 (r\<lparr>dmAnswer := [rr]\<rparr>)
                    in Done (Ok (success_reply L msg r), r,
                             st\<lparr>dsEnhancer := (dsEnhancer st)\<lparr>enPool := Some p'\<rparr>, dsType := ''fakeip''\<rparr>))))"

definition withResolver ::
  "dns_lib \<Rightarrow> geo_env \<Rightarrow> dns_net \<Rightarrow> int \<Rightarrow> Resolver \<Rightarrow> 's handler" where
  "withResolver L g N t res r st =
     (case dmQuestion r of
        [] \<Rightarrow> Panicked
      | q # _ \<Rightarrow>
          let st1 = st\<lparr>dsType := ''raw''\<rparr>
          in if \<not> rIpv6 res \<and> qQtype q = TypeAAAA then Done (Ok (handleMsgWithEmptyAnswer L r), r, st1)
             else case Resolver_ExchangeContext L g N t res r (dsCache st1) of
                    (Err e, r1, c) \<Rightarrow> Done (Err e, r1, st1\<lparr>dsCache := c\<rparr>)
                  | (Ok msg, r1, c) \<Rightarrow>
                      Done (Ok ((l_SetRcode L msg r1 (dmRcode msg))\<lparr>dmAuthoritative := True\<rparr>), r1, st1\<lparr>dsCache := c\<rparr>))"

fun compose :: "('s handler \<Rightarrow> 's handler) list \<Rightarrow> 's handler \<Rightarrow> 's handler" where
  "compose [] endpoint = endpoint"
| "compose (m # ms) endpoint = m (compose ms endpoint)"

definition NewHandler ::
  "dns_lib \<Rightarrow> geo_env \<Rightarrow> dns_net \<Rightarrow> 's store_ops \<Rightarrow> int \<Rightarrow>
   (HostValue node \<Rightarrow> string \<Rightarrow> bool \<Rightarrow> (HostValue option \<times> bool) outcome) \<Rightarrow> Resolver \<Rightarrow> DNSMode \<Rightarrow> 's handler" where
  "NewHandler L g N ops t search res mode =
     compose
       ((case rHosts res of Some hosts \<Rightarrow> [withHosts L t (search hosts)] | None \<Rightarrow> []) @
        (if mode = DNSFakeIP then [withFakeIP L ops] else []) @
        (if mode \<noteq> DNSNormal then [withMapping t] else []))
       (withResolver L g N t res)"

definition handlerWithContext :: "'s handler \<Rightarrow> 's handler" where
  "handlerWithContext h msg st = (if dmQuestion msg = [] then Done (Err E_NoQuestion, msg, st) else h msg (st\<lparr>dsType := ''''\<rparr>))"

section \<open>Fake addresses lead back to their names\<close>

lemma success_reply_simps [simp]:
  "dns_library L \<Longrightarrow> dmAnswer (success_reply L msg r) = dmAnswer msg"
  by (simp add: success_reply_def dns_library.SetRcode_sections)

text \<open>What a handler in fake IP mode does with a question for an address that no host value and no filter claims.\<close>

definition plain_question ::
  "'s dns_state \<Rightarrow> Resolver \<Rightarrow> (HostValue node \<Rightarrow> string \<Rightarrow> bool \<Rightarrow> (HostValue option \<times> bool) outcome) \<Rightarrow> question \<Rightarrow> bool" where
  "plain_question st res search q \<longleftrightarrow>
     qQtype q = TypeA \<and> qQclass q = ClassINET \<and>
     (case rHosts res of None \<Rightarrow> True | Some hosts \<Rightarrow> search hosts (trim_right_set ''.'' (qName q)) False = Done (None, False)) \<and>
     (\<exists>p. enPool (dsEnhancer st) = Some p \<and> \<not> ShouldSkipped (trim_right_set ''.'' (qName q)) p)"

lemma withHosts_passes:
  "dmQuestion r = q # qs \<Longrightarrow> qQtype q = TypeA \<Longrightarrow> search (trim_right_set ''.'' (qName q)) False = Done (None, False) \<Longrightarrow>
    withHosts L t search nxt r st = nxt r st"
  by (simp add: withHosts_def)

lemma handler_fake_ip:
  assumes "dmQuestion r = q # qs" "plain_question st res search q"
  shows "NewHandler L g N ops t search res DNSFakeIP r st = withFakeIP L ops (withMapping t (withResolver L g N t res)) r st"
proof (cases "rHosts res")
  case None
  then show ?thesis by (simp add: NewHandler_def)
next
  case (Some hosts)
  with assms show ?thesis by (simp add: NewHandler_def plain_question_def withHosts_passes)
qed

text \<open>The answer of the fake IP middleware, over any store that keeps the contract.\<close>

lemma in_pool_is4:
  assumes "pool_range_ok p" "in_pool p ip" "addr_is4 (pFirst p)"
  shows "IpToAddr (addr_as_slice ip) = ip"
proof -
  have "addr_bitlen ip = 32" using pool_range_bitlen [OF assms(1,2)] assms(3) by (cases "pFirst p") simp_all
  then obtain w where "ip = Addr4 w" by (cases ip) simp_all
  then show ?thesis using be_word_be_bytes [where 'a = 32, of 4 w] by (simp add: IpToAddr_def addr_from_slice_def)
qed

context fake_store
begin

lemma withFakeIP_answer:
  assumes "dns_library L" "dmQuestion r = q # qs" "plain_question st res search q" "enPool (dsEnhancer st) = Some p"
    and "pool_inv p" "okh (to_lower (trim_right_set ''.'' (qName q)))" "addr_is4 (pFirst p)"
  shows "\<exists>msg ip p'. withFakeIP L ops nxt r st =
      Done (Ok msg, r, st\<lparr>dsEnhancer := (dsEnhancer st)\<lparr>enPool := Some p'\<rparr>, dsType := ''fakeip''\<rparr>) \<and>
    msgToIP msg = [ip] \<and> (\<forall>a \<in> set (dmAnswer msg). rr_ttl a = 1) \<and> pool_inv p' \<and> in_pool p ip \<and>
    (to_lower (trim_right_set ''.'' (qName q)), ip) \<in> pairs (pStore p') \<and> oka ip"
proof -
  from Lookup_pairs [OF assms(5,6)] obtain ip p' where
    l: "pool_Lookup ops (trim_right_set ''.'' (qName q)) p = Done (ip, p')" "pool_inv p'" "in_pool p ip"
      "(to_lower (trim_right_set ''.'' (qName q)), ip) \<in> pairs (pStore p')" by blast
  have ok: "pool_range_ok p" "oka ip" using assms(5) l(3) by (auto simp: pool_inv_def)
  note a = in_pool_is4 [OF ok(1) l(3) assms(7)]
  show ?thesis using assms(1-4) l ok a
    by (auto simp: withFakeIP_def plain_question_def Let_def msgToIP_def setMsgTTL_def set_ttl_def)
qed

end

text \<open>What the tunnel makes of a connection to an address that the enhancer knows a name of.\<close>

lemma preHandle_known_ip:
  assumes "tMapper tn = Some (enhancer_mapper ops now h)" "enMode h = DNSFakeIP"
    and "fst (en_FindHostByIP ops now (mDstIP m) h) = Some host" "mHost m = ''''" "addr_valid (mDstIP m)" "xParseAddr x '''' = None"
  shows "preHandleMetadata tn x m = Done (True, m\<lparr>mHost := host, mDstIP := NoAddr, mDNSMode := DNSFakeIP\<rparr>)"
  using assms by (simp add: preHandleMetadata_def Let_def needLookupIP_def MappingEnabled_def FakeIPEnabled_def FindHostByIP_def
      enhancer_mapper_def en_MappingEnabled_def en_FakeIPEnabled_def)

lemma FindHostByIP_pool:
  "enPool h = Some p \<Longrightarrow> fst (pool_LookBack ops ip p) = Some host \<Longrightarrow> fst (en_FindHostByIP ops now ip h) = Some host"
  by (cases "pool_LookBack ops ip p") (simp add: en_FindHostByIP_def Let_def)


definition sample_state :: "memory_store dns_state" where
  "sample_state = \<lparr>dsEnhancer = \<lparr>enMode = DNSFakeIP, enPool = Some example_pool, enMapping = None\<rparr>,
     dsCache = new_msg_cache, dsType = ''''\<rparr>"


section \<open>The mapping\<close>

text \<open>The times to live that the middlewares put on the mapping have no effect: the mapping cache has no age, so it finds
  an entry at any later time, however long ago its expiry is.\<close>

theorem mapping_ignores_expiry:
  assumes "enPool (dsEnhancer st) = None" "enMapping (dsEnhancer st) = Some (hp, c)" "lru_sync hp c" "maxAge c \<le> 0"
  shows "fst (en_FindHostByIP ops now ip (dsEnhancer (set_mapping t ip host x st))) = Some host"
proof -
  obtain hp' c' where s: "lru_setWithExpire (unix_seconds t) ip host (unix_seconds x) hp c = (hp', c')" by (metis prod.exhaust)
  from setWithExpire_found [OF assms(3,4) s, of now] assms(1,2) s show ?thesis
    by (simp add: en_FindHostByIP_def set_mapping_def)
qed

theorem mapping_ignores_expiry_witness:
  "fst (en_FindHostByIP (memory_ops 0) 1000 (Addr4 1) (dsEnhancer (set_mapping 0 (Addr4 1) ''a.com'' 10000000000
     \<lparr>dsEnhancer = NewEnhancer DNSMapping None, dsCache = new_msg_cache, dsType = ''''\<rparr>))) = Some ''a.com''"
  using mapping_ignores_expiry [where st = "\<lparr>dsEnhancer = NewEnhancer DNSMapping None, dsCache = new_msg_cache, dsType = ''''\<rparr>"
      and hp = "[]" and c = "lru_new 0 4096 False False"]
  by (simp add: NewEnhancer_def lru_new_def) (simp flip: lru_new_def)

section \<open>The hosts middleware\<close>

lemma fold_handleIP_A:
  "qQtype q = TypeA \<Longrightarrow>
    dmAnswer (fst (fold (handleIP t q host) ips (m, st))) = dmAnswer m @
      map (\<lambda>ip. RR_A \<lparr>hName = qName q, hRrtype = TypeA, hClass = ClassINET, hTtl = 10\<rparr> (addr_as_slice ip)) (filter addr_is4 ips)"
  by (induction ips arbitrary: m st) (simp_all add: handleIP_def)

lemma IpToAddr_4: "IpToAddr (be_bytes 4 w) = Addr4 w"
  using be_word_be_bytes [where 'a = 32, of 4 w] by (simp add: IpToAddr_def addr_from_slice_def)

lemma answer_ips_A: "answer_ips (map (\<lambda>ip. RR_A h (addr_as_slice ip)) (filter addr_is4 ips)) = filter addr_is4 ips"
proof (induction ips)
  case (Cons ip ips)
  then show ?case by (cases ip) (simp_all add: IpToAddr_4)
qed simp


text \<open>A question for the canonical name of a name in the hosts table gets an answer without it: the record is put into the
  request after the reply was copied from it.\<close>

theorem hosts_cname_lost:
  assumes "dns_library L" "dmQuestion r = q # qs" "qQtype q = TypeCNAME" "qQclass q = ClassINET" "dmAnswer r = []"
    and "search (trim_right_set ''.'' (qName q)) True = Done (Some hv, True)"
  shows "\<exists>msg r' st'. withHosts L t search nxt r st = Done (Ok msg, r', st') \<and> dmAnswer msg = [] \<and>
    dmAnswer r' = [RR_CNAME \<lparr>hName = qName q, hRrtype = TypeCNAME, hClass = ClassINET, hTtl = 10\<rparr> (hvDomain hv @ ''.'')]"
  using assms by (simp add: withHosts_def isIPRequest_def handleCName_def Let_def)

definition sample_host :: HostValue where
  "sample_host = \<lparr>IsDomain = False, IPs = [Addr4 1, Addr6 2 [], Addr4 3], hvDomain = ''''\<rparr>"

lemma sample_query_simps:
  "dmQuestion sample_query = [sample_q]" "dmAnswer sample_query = []" "qQtype sample_q = TypeA" "qQclass sample_q = ClassINET"
  by (simp_all add: sample_query_def empty_msg_def sample_q_def)


theorem hosts_cname_lost_witness:
  "\<exists>msg r' st'. withHosts std_lib 0 (\<lambda>n b. Done (Some (sample_host\<lparr>IsDomain := True, hvDomain := ''b.com''\<rparr>), True))
     (\<lambda>r st. Panicked) (sample_query\<lparr>dmQuestion := [sample_q\<lparr>qQtype := TypeCNAME\<rparr>]\<rparr>) sample_state =
     Done (Ok msg, r', st') \<and> dmAnswer msg = []"
  using hosts_cname_lost [OF std.dns_library_axioms, where r = "sample_query\<lparr>dmQuestion := [sample_q\<lparr>qQtype := TypeCNAME\<rparr>]\<rparr>"
      and search = "\<lambda>n b. Done (Some (sample_host\<lparr>IsDomain := True, hvDomain := ''b.com''\<rparr>), True)" and t = 0
      and nxt = "\<lambda>r st. Panicked" and st = sample_state]
  by (fastforce simp: sample_query_simps sample_q_def)

end
