(* ===== verification/AdapterProxy.thy ===== *)
theory AdapterProxy
  imports Metadata IntRanges
begin

text \<open>
  A proxy with its delay history (\<open>adapter/adapter.go\<close>, \<open>common/queue/queue.go\<close>): the record of the health
  checks by which the groups choose. A queue is the list of its items; its lock is not modelled, every operation runs
  under it. The HTTP exchange of a health check, \<open>url.Parse\<close> and the clock are arguments.
\<close>

section \<open>The queue\<close>

definition q_New :: "'a list" where "q_New = []"

definition q_Put :: "'a list \<Rightarrow> 'a list \<Rightarrow> 'a list" where
  "q_Put items q = (if items = [] then q else q @ items)"

text \<open>\<open>None\<close> stands for the zero value of the item type.\<close>

definition q_Pop :: "'a list \<Rightarrow> 'a option \<times> 'a list" where
  "q_Pop q = (case q of [] \<Rightarrow> (None, q) | x # xs \<Rightarrow> (Some x, xs))"

definition q_Last :: "'a list \<Rightarrow> 'a option" where
  "q_Last q = (if length q = 0 then None else Some (q ! (length q - 1)))"

definition q_Copy :: "'a list \<Rightarrow> 'a list" where
  "q_Copy q = q"

definition q_Len :: "'a list \<Rightarrow> nat" where
  "q_Len q = length q"

section \<open>The proxy\<close>

record delay_history =
  dhTime :: int
  dhDelay :: u16

datatype store_type = OriginalHistory | ExtraHistory | DropHistory

definition defaultHistoriesNum :: nat where "defaultHistoriesNum = 10"
definition DefaultMaxHealthCheckUrlNum :: nat where "DefaultMaxHealthCheckUrlNum = 16"

record extra_state =
  exHistory :: "delay_history list"
  exAlive :: bool

text \<open>What the adapter contributes is its name, its type and whether it carries UDP. The map of extra states is an association list, with
  one entry for a URL.\<close>

record aproxy =
  apName :: string
  apType :: AdapterType
  apUDP :: bool
  apHistory :: "delay_history list"
  apAlive :: bool
  apUrl :: string
  apExtra :: "(string \<times> extra_state) list"

definition NewProxy :: "string \<Rightarrow> AdapterType \<Rightarrow> bool \<Rightarrow> aproxy" where
  "NewProxy name ty udp = \<lparr>apName = name, apType = ty, apUDP = udp, apHistory = q_New, apAlive = True, apUrl = '''', apExtra = []\<rparr>"

definition AliveForTestUrl :: "string \<Rightarrow> aproxy \<Rightarrow> bool" where
  "AliveForTestUrl url p = (case map_of (apExtra p) url of Some state \<Rightarrow> exAlive state | None \<Rightarrow> apAlive p)"

definition DelayHistory :: "aproxy \<Rightarrow> delay_history list" where
  "DelayHistory p = q_Copy (apHistory p)"

text \<open>\<open>Copy\<close> never returns nil, so the history of a known URL is used even when it is empty.\<close>

definition DelayHistoryForTestUrl :: "string \<Rightarrow> aproxy \<Rightarrow> delay_history list" where
  "DelayHistoryForTestUrl url p =
     (case map_of (apExtra p) url of Some state \<Rightarrow> q_Copy (exHistory state) | None \<Rightarrow> q_Copy (apHistory p))"

definition ExtraDelayHistory :: "aproxy \<Rightarrow> (string \<times> delay_history list) list" where
  "ExtraDelayHistory p = map (\<lambda>(url, state). (url, q_Copy (exHistory state))) (apExtra p)"

abbreviation max_delay :: u16 where "max_delay \<equiv> 0xffff"

definition last_delay :: "bool \<Rightarrow> delay_history list \<Rightarrow> u16" where
  "last_delay alive hist =
     (if \<not> alive then max_delay
      else let d = (case q_Last hist of Some h \<Rightarrow> dhDelay h | None \<Rightarrow> 0) in if d = 0 then max_delay else d)"

definition LastDelay :: "aproxy \<Rightarrow> u16" where
  "LastDelay p = last_delay (apAlive p) (apHistory p)"

definition LastDelayForTestUrl :: "string \<Rightarrow> aproxy \<Rightarrow> u16" where
  "LastDelayForTestUrl url p =
     (case map_of (apExtra p) url of
        Some state \<Rightarrow> last_delay (exAlive state) (exHistory state)
      | None \<Rightarrow> last_delay (apAlive p) (apHistory p))"

definition determineFinalStoreType :: "store_type \<Rightarrow> string \<Rightarrow> aproxy \<Rightarrow> store_type" where
  "determineFinalStoreType store url p =
     (if store \<noteq> DropHistory then store
      else if length (apUrl p) = 0 \<or> url = apUrl p then OriginalHistory
      else if length (apExtra p) < 2 * DefaultMaxHealthCheckUrlNum then ExtraHistory
      else if map_of (apExtra p) url \<noteq> None then ExtraHistory
      else store)"

definition put_history :: "delay_history \<Rightarrow> delay_history list \<Rightarrow> delay_history list" where
  "put_history r q = (let q1 = q_Put [r] q in if q_Len q1 > defaultHistoriesNum then snd (q_Pop q1) else q1)"

text \<open>What \<open>URLTest\<close> records: the deferred function, \<open>res\<close> the delay or \<open>None\<close> for an error.\<close>

definition record_test :: "int \<Rightarrow> string \<Rightarrow> u16 option \<Rightarrow> store_type \<Rightarrow> aproxy \<Rightarrow> aproxy" where
  "record_test now url res store0 p =
     (let alive = (res \<noteq> None);
          r = \<lparr>dhTime = now, dhDelay = (case res of Some t \<Rightarrow> t | None \<Rightarrow> 0)\<rparr>
      in case determineFinalStoreType store0 url p of
           OriginalHistory \<Rightarrow>
             let p1 = p\<lparr>apAlive := alive, apHistory := put_history r (apHistory p)\<rparr>
             in if length (apUrl p1) = 0 then p1\<lparr>apUrl := url\<rparr> else p1
         | ExtraHistory \<Rightarrow>
             let p1 = p\<lparr>apHistory := put_history r (apHistory p)\<rparr>;
                 state = (case map_of (apExtra p1) url of Some s \<Rightarrow> s | None \<Rightarrow> \<lparr>exHistory = q_New, exAlive = True\<rparr>)
             in p1\<lparr>apExtra := AList.update url (state\<lparr>exAlive := alive, exHistory := put_history r (exHistory state)\<rparr>) (apExtra p1)\<rparr>
         | DropHistory \<Rightarrow> p)"

text \<open>The URL of a test: scheme, host name and port (empty when it has none), as \<open>url.Parse\<close> finds them.\<close>

definition urlToMetadata :: "(string \<Rightarrow> (string \<times> string \<times> string) option) \<Rightarrow> string \<Rightarrow> metadata option" where
  "urlToMetadata url_parse rawURL =
     (case url_parse rawURL of
        None \<Rightarrow> None
      | Some (scheme, host, port0) \<Rightarrow>
          (case (if port0 = '''' then (if scheme = ''https'' then Some ''443'' else if scheme = ''http'' then Some ''80'' else None)
                 else Some port0) of
             None \<Rightarrow> None
           | Some port \<Rightarrow> map_option (\<lambda>n. metadata0\<lparr>mHost := host, mDstIP := NoAddr, mDstPort := of_nat n\<rparr>) (parse_uint 16 port)))"

text \<open>One exchange of the test: when it started and ended (in nanoseconds), and the status; \<open>None\<close> for an error. With a unified
  delay the response of the second exchange is looked at although it is nil when that exchange failed.\<close>

definition URLTest ::
  "(string \<Rightarrow> metadata option) \<Rightarrow> (metadata \<Rightarrow> bool) \<Rightarrow> (int \<times> int \<times> u16) option \<Rightarrow> (int \<times> int \<times> u16) option \<Rightarrow> bool \<Rightarrow>
   string \<Rightarrow> u16 range list option \<Rightarrow> store_type \<Rightarrow> int \<Rightarrow> aproxy \<Rightarrow> (u16 option \<times> aproxy) outcome" where
  "URLTest to_meta dials first second unifiedDelay url expectedStatus store now p =
     obind
       (case to_meta url of
          None \<Rightarrow> Done None
        | Some m \<Rightarrow>
            if \<not> dials m then Done None
            else case first of
                   None \<Rightarrow> Done None
                 | Some (s1, e1, status1) \<Rightarrow>
                     (case (if unifiedDelay then second else Some (s1, e1, status1)) of
                        None \<Rightarrow> if expectedStatus \<noteq> None then Panicked else Done None
                      | Some (s, e, status) \<Rightarrow>
                          if (case expectedStatus of Some rs \<Rightarrow> \<not> IntRanges_Check rs status | None \<Rightarrow> False) then Done None
                          else Done (Some (word_of_int ((e - s) div 1000000)))))
       (\<lambda>res. Done (res, record_test now url res store p))"

section \<open>Histories\<close>

definition history_wf :: "delay_history list \<Rightarrow> bool" where
  "history_wf q \<longleftrightarrow> length q \<le> defaultHistoriesNum"

definition proxy_wf :: "aproxy \<Rightarrow> bool" where
  "proxy_wf p \<longleftrightarrow> history_wf (apHistory p) \<and> distinct (map fst (apExtra p)) \<and>
     (\<forall>(url, state) \<in> set (apExtra p). history_wf (exHistory state))"

lemma put_history_wf [inv_intros]: "history_wf q \<Longrightarrow> history_wf (put_history r q)"
  by (cases q) (auto simp: put_history_def history_wf_def q_Put_def q_Pop_def q_Len_def defaultHistoriesNum_def Let_def)

lemma q_Last_put: "history_wf q \<Longrightarrow> q_Last (put_history r q) = Some r"
proof -
  assume "history_wf q"
  have l: "q_Last (xs @ [r]) = Some r" for xs :: "delay_history list" by (simp add: q_Last_def)
  show ?thesis
  proof (cases "length q < defaultHistoriesNum")
    case True
    then show ?thesis using l [of q] by (simp add: put_history_def q_Put_def q_Len_def Let_def)
  next
    case False
    then obtain x xs where "q = x # xs" by (cases q) (auto simp: defaultHistoriesNum_def)
    then show ?thesis using l [of xs] l [of q] by (simp add: put_history_def q_Put_def q_Pop_def q_Len_def Let_def)
  qed
qed

lemma record_test_wf:
  assumes "proxy_wf p"
  shows "proxy_wf (record_test now url res store p)"
proof (cases "determineFinalStoreType store url p")
  case ExtraHistory
  let ?r = "\<lparr>dhTime = now, dhDelay = (case res of Some t \<Rightarrow> t | None \<Rightarrow> 0)\<rparr>"
  define state where "state = (case map_of (apExtra p) url of Some s \<Rightarrow> s | None \<Rightarrow> \<lparr>exHistory = q_New, exAlive = True\<rparr>)"
  have s: "history_wf (exHistory state)"
    using assms map_of_SomeD [of "apExtra p" url]
    by (auto simp: state_def proxy_wf_def history_wf_def q_New_def split: option.split)
  show ?thesis
    using assms ExtraHistory s set_AList_update [of url "state\<lparr>exAlive := res \<noteq> None, exHistory := put_history ?r (exHistory state)\<rparr>" "apExtra p"]
    by (fastforce simp: record_test_def proxy_wf_def Let_def state_def [symmetric] intro: inv_intros distinct_update)
qed (use assms in \<open>auto simp: record_test_def proxy_wf_def Let_def intro: inv_intros\<close>)

text \<open>A run of health checks: time, URL, result and where it is asked to be stored.\<close>

type_synonym health_check = "int \<times> string \<times> u16 option \<times> store_type"

definition record_tests :: "health_check list \<Rightarrow> aproxy \<Rightarrow> aproxy" where
  "record_tests ts p = fold (\<lambda>(now, url, res, store). record_test now url res store) ts p"

lemma record_tests_wf: "proxy_wf p \<Longrightarrow> proxy_wf (record_tests ts p)"
  unfolding record_tests_def by (induction ts arbitrary: p) (auto intro: record_test_wf)

text \<open>C23: whatever health checks a new proxy goes through, it stays well formed: no history ever holds more than ten entries,
  and no URL has two states.\<close>

theorem histories_well_formed:
  "proxy_wf (record_tests ts (NewProxy name ty udp))"
  by (rule record_tests_wf) (simp add: proxy_wf_def NewProxy_def q_New_def history_wf_def)

text \<open>The delay a proxy reports for its own URL is the one of the last check that was stored there, and the greatest delay
  when that check failed or took no time.\<close>

theorem LastDelay_after_test:
  assumes "proxy_wf p" "determineFinalStoreType store url p = OriginalHistory"
  shows "LastDelay (record_test now url res store p) = (case res of Some t \<Rightarrow> if t = 0 then max_delay else t | None \<Rightarrow> max_delay)"
  using assms by (auto simp: record_test_def LastDelay_def last_delay_def proxy_wf_def q_Last_put Let_def split: option.split)

theorem LastDelay_after_test_witness:
  "LastDelay (record_test 0 ''u'' (Some 17) DropHistory (NewProxy ''p'' A_Direct True)) = 17"
  using LastDelay_after_test [of "NewProxy ''p'' A_Direct True" DropHistory "''u''" 0 "Some 17"]
  by (simp add: proxy_wf_def NewProxy_def q_New_def history_wf_def determineFinalStoreType_def)

text \<open>A check of an extra URL also changes the delay that the proxy reports for its own URL: that history gets the
  record, although the liveness does not change.\<close>

theorem extra_test_disturbs_LastDelay:
  assumes "proxy_wf p" "apAlive p"
  shows "LastDelay (record_test now url res ExtraHistory p) = (case res of Some t \<Rightarrow> if t = 0 then max_delay else t | None \<Rightarrow> max_delay)"
  using assms by (auto simp: record_test_def LastDelay_def last_delay_def proxy_wf_def q_Last_put Let_def
      determineFinalStoreType_def split: option.split)

theorem extra_test_disturbs_LastDelay_witness:
  "LastDelay (record_test 1 ''other'' (Some 900) ExtraHistory
     (record_test 0 ''u'' (Some 17) OriginalHistory (NewProxy ''p'' A_Direct True))) = 900"
proof -
  have "proxy_wf (record_test 0 ''u'' (Some 17) OriginalHistory (NewProxy ''p'' A_Direct True))"
    by (rule record_test_wf) (simp add: proxy_wf_def NewProxy_def q_New_def history_wf_def)
  from extra_test_disturbs_LastDelay [OF this, of 1 "''other''" "Some 900"] show ?thesis
    by (simp add: record_test_def determineFinalStoreType_def Let_def NewProxy_def)
qed

end
