(* ===== verification/Murmur3.thy ===== *)
theory Murmur3
  imports Prelude
begin

text \<open>
  The hash function Murmur3 (\<open>common/murmur3/murmur.go\<close>, \<open>common/murmur3/murmur32.go\<close>), on words of 32 bits:
  the function on a whole slice and the one that takes its input in pieces, on a little endian machine (the sources read a
  word through a pointer). The buffer behind the pending bytes is not modelled apart from its contents.
\<close>

section \<open>The digest\<close>

definition c1_32 :: u32 where "c1_32 = 0xcc9e2d51"
definition c2_32 :: u32 where "c2_32 = 0x1b873593"

abbreviation rotl32 :: "nat \<Rightarrow> u32 \<Rightarrow> u32" where
  "rotl32 k w \<equiv> word_rotl k w"

record digest =
  dgClen :: nat
  dgTail :: bytes
  dgSeed :: u32
  dgH1 :: u32

definition load_word :: "u8 \<Rightarrow> u8 \<Rightarrow> u8 \<Rightarrow> u8 \<Rightarrow> u32" where
  "load_word a b c d = ucast a OR push_bit 8 (ucast b) OR push_bit 16 (ucast c) OR push_bit 24 (ucast d)"

definition mix_block :: "u32 \<Rightarrow> u32 \<Rightarrow> u32" where
  "mix_block h1 k =
     (let k1 = rotl32 15 (k * c1_32) * c2_32;
          h = rotl32 13 (h1 XOR k1)
      in h * 4 + h + 0xe6546b64)"

text \<open>The loop over the blocks; the bytes that do not fill a block are returned.\<close>

fun bmix :: "u32 \<Rightarrow> bytes \<Rightarrow> u32 \<times> bytes" where
  "bmix h1 (a # b # c # d # p) = bmix (mix_block h1 (load_word a b c d)) p"
| "bmix h1 p = (h1, p)"

definition dg_Reset :: "digest \<Rightarrow> digest" where
  "dg_Reset d = d\<lparr>dgClen := 0, dgTail := [], dgH1 := dgSeed d\<rparr>"

definition New32WithSeed :: "u32 \<Rightarrow> digest" where
  "New32WithSeed seed = dg_Reset \<lparr>dgClen = 0, dgTail = [], dgSeed = seed, dgH1 = 0\<rparr>"

definition dg_Write :: "bytes \<Rightarrow> digest \<Rightarrow> digest" where
  "dg_Write p0 d =
     (let d1 = d\<lparr>dgClen := dgClen d + length p0\<rparr>;
          (h, p) =
            (if length (dgTail d1) > 0 then
               let nfree = 4 - length (dgTail d1)
               in if nfree < length p0 then (fst (bmix (dgH1 d1) (dgTail d1 @ take nfree p0)), drop nfree p0)
                  else (dgH1 d1, dgTail d1 @ p0)
             else (dgH1 d1, p0));
          (h', tl') = bmix h p
      in d1\<lparr>dgH1 := h', dgTail := tl'\<rparr>)"

text \<open>The \<open>switch\<close> on the number of pending bytes, with its cases falling through.\<close>

definition mix_tail :: "bytes \<Rightarrow> u32 \<Rightarrow> u32" where
  "mix_tail t h1 =
     (let n = length t mod 4;
          k3 = (if n = 3 then push_bit 16 (ucast (t ! 2)) else 0);
          k2 = (if 2 \<le> n then k3 XOR push_bit 8 (ucast (t ! 1)) else k3)
      in if 1 \<le> n then h1 XOR (rotl32 15 ((k2 XOR ucast (t ! 0)) * c1_32) * c2_32) else h1)"

definition final_mix :: "u32 \<Rightarrow> u32" where
  "final_mix h0 =
     (let h1 = (h0 XOR drop_bit 16 h0) * 0x85ebca6b;
          h2 = (h1 XOR drop_bit 13 h1) * 0xc2b2ae35
      in h2 XOR drop_bit 16 h2)"

definition dg_Sum32 :: "digest \<Rightarrow> u32" where
  "dg_Sum32 d = final_mix (mix_tail (dgTail d) (dgH1 d) XOR of_nat (dgClen d))"

definition dg_Sum :: "bytes \<Rightarrow> digest \<Rightarrow> bytes" where
  "dg_Sum b d = (let h = dg_Sum32 d in b @ [ucast (drop_bit 24 h), ucast (drop_bit 16 h), ucast (drop_bit 8 h), ucast h])"

section \<open>The function on a slice\<close>

definition Sum32WithSeed :: "bytes \<Rightarrow> u32 \<Rightarrow> u32" where
  "Sum32WithSeed data seed =
     (let (h1, t) = bmix seed data
      in final_mix (mix_tail t h1 XOR of_nat (length data)))"

definition Sum32 :: "bytes \<Rightarrow> u32" where
  "Sum32 data = Sum32WithSeed data 0"

section \<open>Hashing in pieces\<close>

lemma bmix_append: "bmix h (xs @ ys) = (let (h', t) = bmix h xs in bmix h' (t @ ys))"
  by (induction h xs rule: bmix.induct) (simp_all add: Let_def)

lemma length_bmix_tail: "length (snd (bmix h xs)) < 4"
  by (induction h xs rule: bmix.induct) simp_all

lemma bmix_block: "length xs = 4 \<Longrightarrow> snd (bmix h xs) = []"
  by (auto simp: length_Suc_conv numeral_eq_Suc)

text \<open>What a digest is after the bytes \<open>bs\<close>.\<close>

definition digested :: "u32 \<Rightarrow> bytes \<Rightarrow> digest \<Rightarrow> bool" where
  "digested seed bs d \<longleftrightarrow> dgClen d = length bs \<and> bmix seed bs = (dgH1 d, dgTail d)"

lemma digested_Write:
  assumes "digested seed bs d"
  shows "digested seed (bs @ p) (dg_Write p d)"
proof -
  have d: "dgClen d = length bs" "bmix seed bs = (dgH1 d, dgTail d)" using assms by (simp_all add: digested_def)
  have t: "length (dgTail d) < 4" using length_bmix_tail [of seed bs] d(2) by simp
  have all: "bmix seed (bs @ p) = bmix (dgH1 d) (dgTail d @ p)" using bmix_append [of seed bs p] d(2) by simp
  show ?thesis
  proof (cases "dgTail d \<noteq> [] \<and> 4 - length (dgTail d) < length p")
    case True
    let ?n = "4 - length (dgTail d)"
    have "length (dgTail d @ take ?n p) = 4" using True t by simp
    then have "snd (bmix (dgH1 d) (dgTail d @ take ?n p)) = []"
      by (rule bmix_block)
    then have "bmix (dgH1 d) (dgTail d @ p) = bmix (fst (bmix (dgH1 d) (dgTail d @ take ?n p))) (drop ?n p)"
      using bmix_append [of "dgH1 d" "dgTail d @ take ?n p" "drop ?n p"] by (simp add: split_beta Let_def)
    with True all d(1) show ?thesis by (simp add: digested_def dg_Write_def Let_def split_beta)
  next
    case False
    then show ?thesis using all d(1) by (cases "dgTail d = []") (simp_all add: digested_def dg_Write_def Let_def split_beta)
  qed
qed

lemma digested_New: "digested seed [] (New32WithSeed seed)"
  by (simp add: digested_def New32WithSeed_def dg_Reset_def)

lemma digested_fold: "digested seed bs d \<Longrightarrow> digested seed (bs @ concat ps) (fold dg_Write ps d)"
proof (induction ps arbitrary: bs d)
  case (Cons p ps)
  from Cons.IH [OF digested_Write [OF Cons.prems]] show ?case by simp
qed simp

text \<open>C33: however the input is cut into pieces, hashing them one after the other gives the hash of the whole.\<close>

theorem Sum32_pieces: "dg_Sum32 (fold dg_Write ps (New32WithSeed seed)) = Sum32WithSeed (concat ps) seed"
  using digested_fold [OF digested_New, of seed ps]
  by (simp add: digested_def dg_Sum32_def Sum32WithSeed_def)

end
