(* ===== verification/Float64.thy ===== *)
theory Float64
  imports Prelude "HOL-Library.Log_Nat"
begin

text \<open>
  The positive normal numbers of Go's \<open>float64\<close>: a number is a numerator with a power of two as denominator. Every operation
  rounds its exact result to 53 significant bits, to the nearest number and to the even one of two that are equally near
  (IEEE 754). The range of the exponent is not modelled: the program computes with numbers between 1 and \<open>2^62\<close> only, which
  \<open>f64_round_ge\<close> and \<open>f64_round_le\<close> show of what uses them.
\<close>

section \<open>Rounding\<close>

type_synonym f64 = "nat \<times> nat"

text \<open>\<open>n / d\<close> to the nearest integer.\<close>

definition round_even :: "nat \<Rightarrow> nat \<Rightarrow> nat" where
  "round_even n d =
     (if 2 * (n mod d) < d \<or> (2 * (n mod d) = d \<and> even (n div d)) then n div d else n div d + 1)"

text \<open>\<open>n / d\<close> to 53 bits. The scale is large enough for the quotient to have more of them.\<close>

definition f64_round :: "nat \<Rightarrow> nat \<Rightarrow> f64" where
  "f64_round n d =
     (let s = 53 + floorlog 2 d; k = floorlog 2 (n * 2 ^ s div d) - 53
      in (round_even (n * 2 ^ s) (d * 2 ^ k) * 2 ^ k, s))"

definition f64_of_nat :: "nat \<Rightarrow> f64" where
  "f64_of_nat n = f64_round n 1"

fun f64_mul :: "f64 \<Rightarrow> f64 \<Rightarrow> f64" where
  "f64_mul (a, s) (b, t) = f64_round (a * b) (2 ^ (s + t))"

fun f64_div :: "f64 \<Rightarrow> f64 \<Rightarrow> f64" where
  "f64_div (a, s) (b, t) = f64_round (a * 2 ^ t) (b * 2 ^ s)"

text \<open>The conversion to an integer drops the fraction.\<close>

fun f64_trunc :: "f64 \<Rightarrow> nat" where
  "f64_trunc (a, s) = a div 2 ^ s"

section \<open>Bounds\<close>

lemma round_even_ge: "0 < d \<Longrightarrow> r * d \<le> n \<Longrightarrow> r \<le> round_even n d"
  using div_le_mono [of "r * d" n d] by (simp add: round_even_def)

lemma round_even_le: "0 < d \<Longrightarrow> n \<le> r * d \<Longrightarrow> round_even n d \<le> r"
proof -
  assume d: "0 < d" "n \<le> r * d"
  show ?thesis
  proof (cases "n = r * d")
    case False
    with d have "n div d < r" by (simp add: div_less_iff_less_mult)
    then show ?thesis by (simp add: round_even_def)
  qed (use d in \<open>simp add: round_even_def\<close>)
qed

lemma round_even_exact: "0 < d \<Longrightarrow> round_even (a * d) d = a"
  by (simp add: round_even_def)

lemma quotient_bits:
  assumes "0 < n" "0 < d"
  shows "2 ^ 53 \<le> n * 2 ^ (53 + floorlog 2 d) div d"
proof -
  have "d \<le> 2 ^ floorlog 2 d" using floorlog_bounds [of d 2] assms by auto
  then have "2 ^ 53 * d \<le> 2 ^ 53 * 2 ^ floorlog 2 d" by (rule mult_left_mono) simp
  also have "\<dots> = 1 * 2 ^ (53 + floorlog 2 d)" by (simp only: power_add mult_1)
  also have "\<dots> \<le> n * 2 ^ (53 + floorlog 2 d)" using assms(1) by (intro mult_le_mono1) simp
  finally show ?thesis using assms(2) by (simp only: less_eq_div_iff_mult_less_eq)
qed

text \<open>With the scale and the number of bits that are dropped, rounding is monotone at the powers of two and at the integers of up to 53 bits.\<close>

lemma f64_round_cut:
  assumes "0 < n" "0 < d"
  obtains s k where "f64_round n d = (round_even (n * 2 ^ s) (d * 2 ^ k) * 2 ^ k, s)" "2 ^ (52 + k) \<le> n * 2 ^ s div d"
proof -
  define q where "q = n * 2 ^ (53 + floorlog 2 d) div d"
  define l where "l = floorlog 2 q"
  have q: "2 ^ 53 \<le> q" unfolding q_def using assms by (rule quotient_bits)
  have "(0 :: nat) < 2 ^ 53" by simp
  then have "0 < q" using q by (rule less_le_trans)
  then have b: "2 ^ (l - 1) \<le> q" "q < 2 ^ l" unfolding l_def using floorlog_bounds [of q 2] by auto
  have "(2 :: nat) ^ 53 < 2 ^ l" using q b(2) by (rule le_less_trans)
  then have "53 < l" by (rule power_less_imp_less_exp [rotated]) simp
  then have "l - 1 = 52 + (l - 53)" by simp
  with b(1) have "2 ^ (52 + (l - 53)) \<le> q" by (simp only:)
  then show thesis by (intro that [of "53 + floorlog 2 d" "l - 53"]) (simp_all only: f64_round_def Let_def l_def q_def)
qed

lemma f64_round_ge:
  assumes "0 < n" "0 < d" "r \<le> 2 ^ 53" "r * d \<le> n"
  shows "r \<le> f64_trunc (f64_round n d)" "r * 2 ^ snd (f64_round n d) \<le> fst (f64_round n d)"
proof -
  obtain s k where f: "f64_round n d = (round_even (n * 2 ^ s) (d * 2 ^ k) * 2 ^ k, s)" and q: "2 ^ (52 + k) \<le> n * 2 ^ s div d"
    using f64_round_cut [OF assms(1,2)] .
  have dk: "0 < d * 2 ^ k" using assms(2) by simp
  have "r * 2 ^ s \<le> round_even (n * 2 ^ s) (d * 2 ^ k) * 2 ^ k"
  proof (cases "k \<le> s")
    case True
    then have e: "(2 :: nat) ^ s = 2 ^ (s - k) * 2 ^ k" by (simp add: power_add [symmetric])
    have "r * 2 ^ (s - k) * (d * 2 ^ k) = (r * d) * 2 ^ s" unfolding e by (simp only: ac_simps)
    also have "\<dots> \<le> n * 2 ^ s" using assms(4) by (rule mult_right_mono) simp
    finally have "r * 2 ^ (s - k) \<le> round_even (n * 2 ^ s) (d * 2 ^ k)" by (rule round_even_ge [OF dk])
    then have "r * 2 ^ (s - k) * 2 ^ k \<le> round_even (n * 2 ^ s) (d * 2 ^ k) * 2 ^ k" by (rule mult_right_mono) simp
    then show ?thesis unfolding e by (simp only: mult.assoc)
  next
    case False
    have "2 ^ (52 + k) * d \<le> n * 2 ^ s" using q assms(2) by (simp only: less_eq_div_iff_mult_less_eq)
    then have "2 ^ 52 * (d * 2 ^ k) \<le> n * 2 ^ s" by (simp only: power_add ac_simps)
    then have "2 ^ 52 \<le> round_even (n * 2 ^ s) (d * 2 ^ k)" by (rule round_even_ge [OF dk])
    then have "2 ^ 52 * 2 ^ k \<le> round_even (n * 2 ^ s) (d * 2 ^ k) * 2 ^ k" by (rule mult_right_mono) simp
    moreover have "r * 2 ^ s \<le> 2 ^ 53 * 2 ^ s" using assms(3) by (rule mult_right_mono) simp
    moreover have "(2 :: nat) ^ 53 * 2 ^ s \<le> 2 ^ 52 * 2 ^ k"
      unfolding power_add [symmetric] using False by (intro power_increasing) simp_all
    ultimately show ?thesis by linarith
  qed
  then show "r * 2 ^ snd (f64_round n d) \<le> fst (f64_round n d)" by (simp add: f)
  then show "r \<le> f64_trunc (f64_round n d)" by (simp add: f less_eq_div_iff_mult_less_eq)
qed

lemma f64_round_le:
  assumes "0 < n" "0 < d" "n \<le> 2 ^ j * d"
  shows "f64_trunc (f64_round n d) \<le> 2 ^ j" "fst (f64_round n d) \<le> 2 ^ j * 2 ^ snd (f64_round n d)"
proof -
  obtain s k where f: "f64_round n d = (round_even (n * 2 ^ s) (d * 2 ^ k) * 2 ^ k, s)" and q: "2 ^ (52 + k) \<le> n * 2 ^ s div d"
    using f64_round_cut [OF assms(1,2)] .
  have dk: "0 < d * 2 ^ k" using assms(2) by simp
  have "2 ^ (52 + k) * d \<le> n * 2 ^ s" using q assms(2) by (simp only: less_eq_div_iff_mult_less_eq)
  also have "n * 2 ^ s \<le> 2 ^ j * d * 2 ^ s" using assms(3) by (rule mult_right_mono) simp
  finally have "2 ^ (52 + k) * d \<le> 2 ^ (j + s) * d" by (simp only: power_add ac_simps)
  then have "(2 :: nat) ^ (52 + k) \<le> 2 ^ (j + s)" using assms(2) by (simp only: mult_le_cancel2)
  then have le: "52 + k \<le> j + s" by (rule power_le_imp_le_exp [rotated]) simp
  then have e: "(2 :: nat) ^ j * 2 ^ s = 2 ^ (j + s - k) * 2 ^ k" by (simp add: power_add [symmetric])
  have "n * 2 ^ s \<le> 2 ^ j * d * 2 ^ s" using assms(3) by (rule mult_right_mono) simp
  also have "\<dots> = 2 ^ j * 2 ^ s * d" by (simp only: ac_simps)
  also have "\<dots> = 2 ^ (j + s - k) * (d * 2 ^ k)" unfolding e by (simp only: ac_simps)
  finally have "round_even (n * 2 ^ s) (d * 2 ^ k) \<le> 2 ^ (j + s - k)" by (rule round_even_le [OF dk])
  then have "round_even (n * 2 ^ s) (d * 2 ^ k) * 2 ^ k \<le> 2 ^ (j + s - k) * 2 ^ k" by (rule mult_right_mono) simp
  then show u: "fst (f64_round n d) \<le> 2 ^ j * 2 ^ snd (f64_round n d)" by (simp add: f e)
  then have "fst (f64_round n d) div 2 ^ snd (f64_round n d) \<le> 2 ^ j * 2 ^ snd (f64_round n d) div 2 ^ snd (f64_round n d)"
    by (rule div_le_mono)
  then show "f64_trunc (f64_round n d) \<le> 2 ^ j" by (simp add: f)
qed

text \<open>An integer of up to 53 bits is exact.\<close>

lemma f64_of_nat_exact: "n \<le> 2 ^ 53 \<Longrightarrow> fst (f64_of_nat n) = n * 2 ^ snd (f64_of_nat n)"
proof (cases "n = 0")
  case False
  assume n: "n \<le> 2 ^ 53"
  obtain s k where f: "f64_round n 1 = (round_even (n * 2 ^ s) (1 * 2 ^ k) * 2 ^ k, s)" and q: "2 ^ (52 + k) \<le> n * 2 ^ s div 1"
    using f64_round_cut [of n 1] False by (metis gr0I zero_less_one)
  have "2 ^ (52 + k) \<le> n * 2 ^ s" using q by simp
  also have "\<dots> \<le> 2 ^ 53 * 2 ^ s" using n by (rule mult_right_mono) simp
  finally have "(2 :: nat) ^ (52 + k) \<le> 2 ^ (53 + s)" by (simp only: power_add)
  then have ks: "k \<le> s + 1" by (subst (asm) power_increasing_iff) simp_all
  show ?thesis
  proof (cases "k \<le> s")
    case True
    then have e: "n * 2 ^ s = n * 2 ^ (s - k) * 2 ^ k" by (simp add: power_add [symmetric])
    have "round_even (n * 2 ^ s) (1 * 2 ^ k) * 2 ^ k = n * 2 ^ s" unfolding e mult_1 by (simp only: round_even_exact zero_less_power zero_less_numeral)
    then show ?thesis unfolding f64_of_nat_def f by simp
  next
    case False
    with ks have k: "k = s + 1" by simp
    with q have "2 ^ 53 * 2 ^ s \<le> n * 2 ^ s" by (simp add: power_add)
    then have "2 ^ 53 \<le> n" by (simp only: mult_le_cancel2) simp
    with n have "n = 2 ^ 53" by (rule antisym)
    then have "n * 2 ^ s = 2 ^ 52 * 2 ^ k" by (simp add: k)
    then have "round_even (n * 2 ^ s) (1 * 2 ^ k) * 2 ^ k = n * 2 ^ s" by (simp add: round_even_def)
    then show ?thesis unfolding f64_of_nat_def f by simp
  qed
qed (simp add: f64_of_nat_def f64_round_def Let_def round_even_def)
end
