(* ===== verification/ProxyGroups.thy ===== *)
theory ProxyGroups
  imports AdapterProxy LruCache Float64
begin

text \<open>
  The proxy groups (\<open>adapter/outboundgroup\<close>): the list of proxies of a group, the count of failed dials, and the way each kind of
  group chooses a proxy.

  Proxies are shared by groups and providers, so they are references into a store of proxies, \<open>px\<close>; the groups only read it.
  Regular expressions, the hash of a string, the public suffix list, and
  the clock are arguments.
\<close>

section \<open>The common part of groups\<close>

type_synonym pref = nat
type_synonym px_store = "pref \<Rightarrow> aproxy"

record provider =
  pvName :: string
  pvCompatible :: bool
  pvVersion :: u32
  pvProxies :: "pref list"
  pvTouched :: nat

definition pv_Touch :: "provider \<Rightarrow> provider" where
  "pv_Touch pd = pd\<lparr>pvTouched := pvTouched pd + 1\<rparr>"

record group_base =
  gbName :: string
  gbProviders :: "provider list"
  gbFilterRegs :: "(string \<Rightarrow> bool) list"
  gbExcludeFilterReg :: "(string \<Rightarrow> bool) option"
  gbExcludeTypeArray :: "string list option"
  gbFailedTimes :: int
  gbFailedTime :: int
  gbFailedTesting :: bool
  gbProxies :: "pref list list"
  gbVersions :: "u32 list"

text \<open>\<open>regexp2.MustCompile\<close> panics where \<open>compile\<close> is \<open>None\<close>; a match that runs into an error is no match.\<close>

fun compile_all :: "(string \<Rightarrow> (string \<Rightarrow> bool) option) \<Rightarrow> string list \<Rightarrow> (string \<Rightarrow> bool) list outcome" where
  "compile_all compile [] = Done []"
| "compile_all compile (f # fs) =
     (case compile f of None \<Rightarrow> Panicked | Some r \<Rightarrow> obind (compile_all compile fs) (\<lambda>rs. Done (r # rs)))"

definition NewGroupBase ::
  "(string \<Rightarrow> (string \<Rightarrow> bool) option) \<Rightarrow> string \<Rightarrow> string \<Rightarrow> string \<Rightarrow> string \<Rightarrow> provider list \<Rightarrow> group_base outcome" where
  "NewGroupBase compile name fltr excludeFilter excludeType providers =
     obind (if excludeFilter \<noteq> '''' then (case compile excludeFilter of None \<Rightarrow> Panicked | Some r \<Rightarrow> Done (Some r)) else Done None)
       (\<lambda>excludeReg.
     obind (if fltr \<noteq> '''' then compile_all compile (split_on (CHR 0x60) fltr) else Done []) (\<lambda>regs.
       Done \<lparr>gbName = name, gbProviders = providers, gbFilterRegs = regs, gbExcludeFilterReg = excludeReg,
              gbExcludeTypeArray = (if excludeType \<noteq> '''' then Some (split_on (CHR ''|'') excludeType) else None),
              gbFailedTimes = 0, gbFailedTime = 0, gbFailedTesting = False,
              gbProxies = replicate (length providers) [], gbVersions = replicate (length providers) 0\<rparr>))"

definition gb_Touch :: "group_base \<Rightarrow> group_base" where
  "gb_Touch gb = gb\<lparr>gbProviders := map pv_Touch (gbProviders gb)\<rparr>"

text \<open>One step of the loops that collect proxies: a proxy is added unless one with its name already is (\<open>proxiesSet\<close> holds
  the names of what was added).\<close>

definition add_new :: "px_store \<Rightarrow> pref \<Rightarrow> pref list \<Rightarrow> pref list" where
  "add_new px p acc = (if apName (px p) \<in> (\<lambda>q. apName (px q)) ` set acc then acc else acc @ [p])"

definition add_matching :: "px_store \<Rightarrow> (string \<Rightarrow> bool) \<Rightarrow> pref list \<Rightarrow> pref list \<Rightarrow> pref list" where
  "add_matching px reg proxies acc = fold (\<lambda>p acc. if reg (apName (px p)) then add_new px p acc else acc) proxies acc"

definition filter_proxies :: "px_store \<Rightarrow> (string \<Rightarrow> bool) list \<Rightarrow> pref list \<Rightarrow> pref list" where
  "filter_proxies px regs proxies = fold (\<lambda>reg acc. add_matching px reg proxies acc) regs []"

text \<open>The cached proxies of one provider and their version.\<close>

definition refresh :: "px_store \<Rightarrow> (string \<Rightarrow> bool) list \<Rightarrow> provider \<Rightarrow> u32 \<Rightarrow> pref list \<Rightarrow> u32 \<times> pref list" where
  "refresh px regs pd version cached =
     (if pvCompatible pd then (pvVersion pd, pvProxies pd)
      else if version \<noteq> pvVersion pd then (pvVersion pd, filter_proxies px regs (pvProxies pd))
      else (version, cached))"

fun refresh_all :: "px_store \<Rightarrow> (string \<Rightarrow> bool) list \<Rightarrow> provider list \<Rightarrow> u32 list \<Rightarrow> pref list list \<Rightarrow> u32 list \<times> pref list list" where
  "refresh_all px regs (pd # pds) (v # vs) (c # cs) =
     (let (v', c') = refresh px regs pd v c; (vs', cs') = refresh_all px regs pds vs cs in (v' # vs', c' # cs'))"
| "refresh_all px regs pds vs cs = (vs, cs)"

definition sort_proxies :: "px_store \<Rightarrow> (string \<Rightarrow> bool) list \<Rightarrow> pref list \<Rightarrow> pref list" where
  "sort_proxies px regs proxies = fold (add_new px) proxies (filter_proxies px regs proxies)"

definition exclude_types :: "px_store \<Rightarrow> string list \<Rightarrow> pref list \<Rightarrow> pref list" where
  "exclude_types px types proxies =
     filter (\<lambda>p. \<not> (\<exists>t \<in> set types. equal_fold (AdapterType_String (apType (px p))) t)) proxies"

text \<open>\<open>dflt\<close> is the proxy \<open>COMPATIBLE\<close> of the tunnel.\<close>

definition collect_proxies :: "px_store \<Rightarrow> group_base \<Rightarrow> pref list \<times> group_base" where
  "collect_proxies px gb =
     (if gbFilterRegs gb = [] then (concat (map pvProxies (gbProviders gb)), gb)
      else case refresh_all px (gbFilterRegs gb) (gbProviders gb) (gbVersions gb) (gbProxies gb) of
             (vs, cs) \<Rightarrow> (concat cs, gb\<lparr>gbVersions := vs, gbProxies := cs\<rparr>))"

definition exclude_proxies :: "px_store \<Rightarrow> group_base \<Rightarrow> pref list \<Rightarrow> pref list" where
  "exclude_proxies px gb ps =
     (let ps1 = (case gbExcludeTypeArray gb of Some types \<Rightarrow> exclude_types px types ps | None \<Rightarrow> ps)
      in case gbExcludeFilterReg gb of Some reg \<Rightarrow> filter (\<lambda>p. \<not> reg (apName (px p))) ps1 | None \<Rightarrow> ps1)"

definition GetProxies :: "px_store \<Rightarrow> pref \<Rightarrow> bool \<Rightarrow> group_base \<Rightarrow> pref list \<times> group_base" where
  "GetProxies px dflt touch gb0 =
     (let (ps1, gb) = collect_proxies px (if touch then gb_Touch gb0 else gb0);
          ps2 = (if length (gbProviders gb) > 1 \<and> length (gbFilterRegs gb) > 1 then sort_proxies px (gbFilterRegs gb) ps1 else ps1);
          ps3 = exclude_proxies px gb ps2
      in (if ps3 = [] then [dflt] else ps3, gb))"

text \<open>\<open>GroupBase.URLTest\<close>: the delays by name of the proxies whose test succeeds (\<open>None\<close> when none does); \<open>test\<close> gives each proxy's result.\<close>

definition gb_URLTest :: "px_store \<Rightarrow> pref \<Rightarrow> (pref \<Rightarrow> u16 option) \<Rightarrow> group_base \<Rightarrow> (string \<rightharpoonup> u16) option \<times> group_base" where
  "gb_URLTest px dflt test gb =
     (let (ps, gb1) = GetProxies px dflt False gb;
          mp = fold (\<lambda>p m. case test p of Some d \<Rightarrow> m(apName (px p) \<mapsto> d) | None \<Rightarrow> m) ps Map.empty
      in (if \<exists>p \<in> set ps. test p \<noteq> None then Some mp else None, gb1))"

section \<open>Failed dials\<close>

definition maxFailedTimes :: int where "maxFailedTimes = 5"
definition failedTimeoutInterval :: int where "failedTimeoutInterval = 5 * 1000000000"

text \<open>The health check of the providers is an argument.\<close>

definition healthCheck :: "(provider \<Rightarrow> provider) \<Rightarrow> group_base \<Rightarrow> group_base" where
  "healthCheck check gb =
     (if gbFailedTesting gb then gb
      else gb\<lparr>gbProviders := map check (gbProviders gb), gbFailedTesting := False, gbFailedTimes := 0\<rparr>)"

text \<open>\<open>onDialFailed\<close> with the goroutine it starts, at the time \<open>now\<close>; the flag tells whether the health check was called.\<close>

definition onDialFailed ::
  "(provider \<Rightarrow> provider) \<Rightarrow> AdapterType \<Rightarrow> string \<Rightarrow> int \<Rightarrow> group_base \<Rightarrow> bool \<times> group_base" where
  "onDialFailed check ty err now gb =
     (if ty = A_Direct \<or> ty = A_Compatible \<or> ty = A_Reject \<or> ty = A_Pass then (False, gb)
      else if contains_str err ''connection refused'' then (True, healthCheck check gb)
      else
        let gb1 = gb\<lparr>gbFailedTimes := gbFailedTimes gb + 1\<rparr>
        in if gbFailedTimes gb1 = 1 then (False, gb1\<lparr>gbFailedTime := now\<rparr>)
           else if now - gbFailedTime gb1 > failedTimeoutInterval then (False, gb1\<lparr>gbFailedTimes := 0\<rparr>)
           else if gbFailedTimes gb1 \<ge> maxFailedTimes then (True, healthCheck check gb1)
           else (False, gb1))"

definition onDialSuccess :: "group_base \<Rightarrow> group_base" where
  "onDialSuccess gb = (if \<not> gbFailedTesting gb then gb\<lparr>gbFailedTimes := 0\<rparr> else gb)"

section \<open>Selector\<close>

record selector =
  slBase :: group_base
  slDisableUDP :: bool
  slSelected :: string

definition select_name :: "px_store \<Rightarrow> string \<Rightarrow> pref list \<Rightarrow> pref" where
  "select_name px name proxies = (case find (\<lambda>p. apName (px p) = name) proxies of Some p \<Rightarrow> p | None \<Rightarrow> hd proxies)"

definition selectedProxy :: "px_store \<Rightarrow> pref \<Rightarrow> bool \<Rightarrow> selector \<Rightarrow> pref \<times> selector" where
  "selectedProxy px dflt touch s =
     (let (proxies, gb) = GetProxies px dflt touch (slBase s)
      in (select_name px (slSelected s) proxies, s\<lparr>slBase := gb\<rparr>))"

text \<open>\<open>Set\<close>; the flag is \<open>False\<close> for the error.\<close>

definition selector_Set :: "px_store \<Rightarrow> pref \<Rightarrow> string \<Rightarrow> selector \<Rightarrow> bool \<times> selector" where
  "selector_Set px dflt name s =
     (let (proxies, gb) = GetProxies px dflt False (slBase s); s1 = s\<lparr>slBase := gb\<rparr>
      in if find (\<lambda>p. apName (px p) = name) proxies \<noteq> None then (True, s1\<lparr>slSelected := name\<rparr>) else (False, s1))"

definition selector_ForceSet :: "string \<Rightarrow> selector \<Rightarrow> selector" where
  "selector_ForceSet name s = s\<lparr>slSelected := name\<rparr>"

definition selector_SupportUDP :: "px_store \<Rightarrow> pref \<Rightarrow> selector \<Rightarrow> bool" where
  "selector_SupportUDP px dflt s = (if slDisableUDP s then False else apUDP (px (fst (selectedProxy px dflt False s))))"

definition selector_Now :: "px_store \<Rightarrow> pref \<Rightarrow> selector \<Rightarrow> string" where
  "selector_Now px dflt s = apName (px (fst (selectedProxy px dflt False s)))"

definition NewSelector where
  "NewSelector compile name fltr excludeFilter excludeType disableUDP providers =
     obind (NewGroupBase compile name fltr excludeFilter excludeType providers) (\<lambda>gb.
       Done \<lparr>slBase = gb, slDisableUDP = disableUDP, slSelected = ''COMPATIBLE''\<rparr>)"

section \<open>Fallback\<close>

record fallback =
  fbBase :: group_base
  fbDisableUDP :: bool
  fbTestUrl :: string
  fbSelected :: string
  fbExpectedStatus :: string

text \<open>The loop of \<open>findAliveProxy\<close>, with the name selected so far.\<close>

fun find_alive :: "px_store \<Rightarrow> string \<Rightarrow> string \<Rightarrow> pref list \<Rightarrow> pref option \<times> string" where
  "find_alive px url selected [] = (None, selected)"
| "find_alive px url selected (p # ps) =
     (if length selected = 0 then
        (if AliveForTestUrl url (px p) then (Some p, selected) else find_alive px url selected ps)
      else if apName (px p) = selected then
        (if AliveForTestUrl url (px p) then (Some p, selected) else find_alive px url '''' ps)
      else find_alive px url selected ps)"

definition findAliveProxy :: "px_store \<Rightarrow> pref \<Rightarrow> bool \<Rightarrow> fallback \<Rightarrow> pref \<times> fallback" where
  "findAliveProxy px dflt touch f =
     (let (proxies, gb) = GetProxies px dflt touch (fbBase f);
          (r, sel) = find_alive px (fbTestUrl f) (fbSelected f) proxies
      in (case r of Some p \<Rightarrow> p | None \<Rightarrow> hd proxies, f\<lparr>fbBase := gb, fbSelected := sel\<rparr>))"

text \<open>\<open>Set\<close>: the error flag, and the proxy whose URL it tests when it is not alive.\<close>

definition fallback_Set :: "px_store \<Rightarrow> pref \<Rightarrow> string \<Rightarrow> fallback \<Rightarrow> bool \<times> pref option \<times> fallback" where
  "fallback_Set px dflt name f =
     (let (proxies, gb) = GetProxies px dflt False (fbBase f); f1 = f\<lparr>fbBase := gb\<rparr>
      in case find (\<lambda>p. apName (px p) = name) proxies of
           None \<Rightarrow> (False, None, f1)
         | Some p \<Rightarrow> (True, if \<not> AliveForTestUrl (fbTestUrl f) (px p) then Some p else None, f1\<lparr>fbSelected := name\<rparr>))"

definition fallback_ForceSet :: "string \<Rightarrow> fallback \<Rightarrow> fallback" where
  "fallback_ForceSet name f = f\<lparr>fbSelected := name\<rparr>"

definition fallback_Now :: "px_store \<Rightarrow> pref \<Rightarrow> fallback \<Rightarrow> string \<times> fallback" where
  "fallback_Now px dflt f = (case findAliveProxy px dflt False f of (p, f') \<Rightarrow> (apName (px p), f'))"

definition fallback_SupportUDP :: "px_store \<Rightarrow> pref \<Rightarrow> fallback \<Rightarrow> bool \<times> fallback" where
  "fallback_SupportUDP px dflt f =
     (if fbDisableUDP f then (False, f) else (case findAliveProxy px dflt False f of (p, f') \<Rightarrow> (apUDP (px p), f')))"

text \<open>\<open>DialContext\<close>: the error of the dial or \<open>None\<close>, and the error of the first write of a connection that needs a handshake
  (\<open>None\<close> when it needs none).\<close>

definition fallback_DialContext ::
  "(provider \<Rightarrow> provider) \<Rightarrow> px_store \<Rightarrow> pref \<Rightarrow> (pref \<Rightarrow> string option) \<Rightarrow> string option option \<Rightarrow> int \<Rightarrow> fallback \<Rightarrow> string option \<times> fallback" where
  "fallback_DialContext check px dflt dial first_write now f =
     (let (p, f1) = findAliveProxy px dflt True f;
          after = (\<lambda>e g. case e of None \<Rightarrow> onDialSuccess g | Some msg \<Rightarrow> snd (onDialFailed check (apType (px p)) msg now g));
          f2 = (case dial p of None \<Rightarrow> f1 | Some msg \<Rightarrow> f1\<lparr>fbBase := after (Some msg) (fbBase f1)\<rparr>);
          f3 = (case first_write of None \<Rightarrow> f2 | Some e \<Rightarrow> f2\<lparr>fbBase := after e (fbBase f2)\<rparr>)
      in (dial p, f3))"

definition NewFallback where
  "NewFallback compile name fltr excludeFilter excludeType disableUDP url expected providers =
     obind (NewGroupBase compile name fltr excludeFilter excludeType providers) (\<lambda>gb.
       Done \<lparr>fbBase = gb, fbDisableUDP = disableUDP, fbTestUrl = url, fbSelected = '''', fbExpectedStatus = expected\<rparr>)"

section \<open>URL test\<close>

text \<open>\<open>singledo.Single\<close> for calls that do not overlap: when it last ran, and its result.\<close>

record 'a single =
  sgLast :: int
  sgWait :: int
  sgResult :: "'a option"

text \<open>The zero time is long before any other. A result is there whenever the time is.\<close>

definition zero_time :: int where "zero_time = -62135596800000000000"

definition single_New :: "int \<Rightarrow> 'a single" where
  "single_New wait = \<lparr>sgLast = zero_time, sgWait = wait, sgResult = None\<rparr>"

definition single_Reset :: "'a single \<Rightarrow> 'a single" where
  "single_Reset s = s\<lparr>sgLast := zero_time\<rparr>"

definition single_shared :: "int \<Rightarrow> 'a single \<Rightarrow> bool" where
  "single_shared now s \<longleftrightarrow> now < sgLast s + sgWait s"

record urltest =
  utBase :: group_base
  utSelected :: string
  utTestUrl :: string
  utExpectedStatus :: string
  utTolerance :: u16
  utDisableUDP :: bool
  utFastNode :: "pref option"
  utFastSingle :: "pref single"

text \<open>The loop over the proxies after the first: the fastest so far, its delay, and whether the fast node was met.\<close>

definition fast_step :: "px_store \<Rightarrow> string \<Rightarrow> pref option \<Rightarrow> pref \<Rightarrow> pref \<times> u16 \<times> bool \<Rightarrow> pref \<times> u16 \<times> bool" where
  "fast_step px url fastNode p st =
     (let (fast, least, notExist) = st;
          notExist1 = (if (case fastNode of Some n \<Rightarrow> apName (px p) = apName (px n) | None \<Rightarrow> False) then False else notExist)
      in if \<not> AliveForTestUrl url (px p) then (fast, least, notExist1)
         else let delay = LastDelayForTestUrl url (px p)
              in if delay < least then (p, delay, notExist1) else (fast, least, notExist1))"

definition fast_node :: "px_store \<Rightarrow> string \<Rightarrow> u16 \<Rightarrow> pref option \<Rightarrow> pref list \<Rightarrow> pref" where
  "fast_node px url tolerance fastNode proxies =
     (let (fast, least, notExist) =
            fold (fast_step px url fastNode) (tl proxies) (hd proxies, LastDelayForTestUrl url (px (hd proxies)), True)
      in case fastNode of
           None \<Rightarrow> fast
         | Some n \<Rightarrow>
             if notExist \<or> \<not> AliveForTestUrl url (px n) \<or>
                LastDelayForTestUrl url (px n) > LastDelayForTestUrl url (px fast) + tolerance
             then fast else n)"

definition ut_fast :: "px_store \<Rightarrow> pref \<Rightarrow> int \<Rightarrow> bool \<Rightarrow> urltest \<Rightarrow> pref \<times> urltest" where
  "ut_fast px dflt now touch u =
     (let (proxies, gb) = GetProxies px dflt touch (utBase u); u1 = u\<lparr>utBase := gb\<rparr>
      in case (if utSelected u1 \<noteq> '''' then find (\<lambda>p. apAlive (px p) \<and> apName (px p) = utSelected u1) proxies else None) of
           Some p \<Rightarrow> (p, u1\<lparr>utFastNode := Some p\<rparr>)
         | None \<Rightarrow>
             if single_shared now (utFastSingle u1)
             then (the (sgResult (utFastSingle u1)), if touch then u1\<lparr>utBase := gb_Touch (utBase u1)\<rparr> else u1)
             else let n = fast_node px (utTestUrl u1) (utTolerance u1) (utFastNode u1) proxies
                  in (n, u1\<lparr>utFastNode := Some n, utFastSingle := (utFastSingle u1)\<lparr>sgLast := now, sgResult := Some n\<rparr>\<rparr>))"

definition urltest_Set :: "px_store \<Rightarrow> pref \<Rightarrow> int \<Rightarrow> string \<Rightarrow> urltest \<Rightarrow> bool \<times> urltest" where
  "urltest_Set px dflt now name u =
     (let (proxies, gb) = GetProxies px dflt False (utBase u); u1 = u\<lparr>utBase := gb\<rparr>
      in if find (\<lambda>p. apName (px p) = name) proxies = None then (False, u1)
         else (True, snd (ut_fast px dflt now False (u1\<lparr>utSelected := name\<rparr>))))"

definition urltest_ForceSet :: "string \<Rightarrow> urltest \<Rightarrow> urltest" where
  "urltest_ForceSet name u = u\<lparr>utSelected := name\<rparr>"

definition urltest_Now where
  "urltest_Now px dflt now u = (case ut_fast px dflt now False u of (p, u') \<Rightarrow> (apName (px p), u'))"

definition urltest_SupportUDP where
  "urltest_SupportUDP px dflt now u =
     (if utDisableUDP u then (False, u) else (case ut_fast px dflt now False u of (p, u') \<Rightarrow> (apUDP (px p), u')))"

text \<open>\<open>parseURLTestOption\<close>: the tolerance of the configuration, when it is an integer.\<close>

definition NewURLTest where
  "NewURLTest compile name fltr excludeFilter excludeType disableUDP url expected (tolerance :: int option) providers =
     obind (NewGroupBase compile name fltr excludeFilter excludeType providers) (\<lambda>gb.
       Done \<lparr>utBase = gb, utSelected = '''', utTestUrl = url, utExpectedStatus = expected,
              utTolerance = (case tolerance of Some n \<Rightarrow> word_of_int n | None \<Rightarrow> 0), utDisableUDP = disableUDP,
              utFastNode = None, utFastSingle = single_New (10 * 1000000000)\<rparr>)"

section \<open>Load balancing\<close>

text \<open>\<open>net.ParseIP\<close> as whether it succeeds, the public suffix list, and \<open>Addr.String\<close>.\<close>

record lb_ext =
  lxIsIP :: "string \<Rightarrow> bool"
  lxEtld :: "string \<Rightarrow> string option"
  lxAddrString :: "addr \<Rightarrow> string"
  lxMapHash :: "string \<Rightarrow> u64"

definition getKey :: "lb_ext \<Rightarrow> metadata option \<Rightarrow> string" where
  "getKey X metadata =
     (case metadata of
        None \<Rightarrow> ''''
      | Some m \<Rightarrow>
          (let dst = (if \<not> addr_valid (mDstIP m) then '''' else lxAddrString X (mDstIP m))
           in if mHost m \<noteq> '''' then
                (if lxIsIP X (mHost m) then mHost m
                 else case lxEtld X (mHost m) of Some etld \<Rightarrow> etld | None \<Rightarrow> dst)
              else dst))"

definition getKeyWithSrcAndDst :: "lb_ext \<Rightarrow> metadata option \<Rightarrow> string" where
  "getKeyWithSrcAndDst X metadata =
     (let dst = getKey X metadata;
          src = (case metadata of None \<Rightarrow> '''' | Some m \<Rightarrow> lxAddrString X (mSrcIP m))
      in src @ dst)"

text \<open>The floating point expression of \<open>jumpHash\<close>, \<open>int64(float64(b+1) * (float64(int64(1)<<31) / float64((key>>33)+1)))\<close>. The numbers
  of the loop stay below \<open>2^62\<close>, so those that Go has in 64 bits are integers here.\<close>

definition jump_next :: "int \<Rightarrow> u64 \<Rightarrow> int" where
  "jump_next b key =
     int (f64_trunc (f64_mul (f64_of_nat (nat (b + 1))) (f64_div (f64_of_nat (2 ^ 31)) (f64_of_nat (unat (drop_bit 33 key) + 1)))))"

partial_function (option) jump_loop :: "u64 \<Rightarrow> int \<Rightarrow> int \<Rightarrow> int \<Rightarrow> int option" where
  "jump_loop key b j buckets =
     (if j < buckets
      then let key1 = key * 2862933555777941757 + 1 in jump_loop key1 j (jump_next j key1) buckets
      else Some b)"

definition jumpHash :: "u64 \<Rightarrow> int \<Rightarrow> int outcome" where
  "jumpHash key buckets = (case jump_loop key 0 0 buckets of None \<Rightarrow> NoFuel | Some b \<Rightarrow> Done b)"

text \<open>\<open>int32(len(proxies))\<close>.\<close>

definition buckets_of :: "pref list \<Rightarrow> int" where
  "buckets_of proxies = sint (word_of_nat (length proxies) :: 32 word)"

text \<open>A strategy with the state of its closure.\<close>

datatype strategy_state =
  RoundRobin nat
| ConsistentHashing
| StickySessions "(u64, int) eheap" "(u64, int) lru_cache"

definition round_robin :: "px_store \<Rightarrow> string \<Rightarrow> nat \<Rightarrow> pref list \<Rightarrow> bool \<Rightarrow> pref \<times> nat" where
  "round_robin px url idx proxies touch =
     (let n = length proxies;
          found = find (\<lambda>i. AliveForTestUrl url (px (proxies ! ((idx + i) mod n)))) [0..<n];
          i = (case found of Some i \<Rightarrow> i + 1 | None \<Rightarrow> n)
      in (case found of Some i \<Rightarrow> proxies ! ((idx + i) mod n) | None \<Rightarrow> hd proxies, if touch then (idx + i) mod n else idx))"

text \<open>An index out of range panics.\<close>

definition index_proxy :: "pref list \<Rightarrow> int \<Rightarrow> pref outcome" where
  "index_proxy proxies i = (if 0 \<le> i \<and> i < int (length proxies) then Done (proxies ! nat i) else Panicked)"

fun consistent_loop :: "lb_ext \<Rightarrow> px_store \<Rightarrow> string \<Rightarrow> pref list \<Rightarrow> nat \<Rightarrow> u64 \<Rightarrow> pref option outcome" where
  "consistent_loop X px url proxies 0 key = Done None"
| "consistent_loop X px url proxies (Suc k) key =
     obind (jumpHash key (buckets_of proxies)) (\<lambda>idx.
     obind (index_proxy proxies idx) (\<lambda>p.
       if AliveForTestUrl url (px p) then Done (Some p) else consistent_loop X px url proxies k (key + 1)))"

definition consistent_hashing :: "lb_ext \<Rightarrow> px_store \<Rightarrow> string \<Rightarrow> pref list \<Rightarrow> metadata option \<Rightarrow> pref outcome" where
  "consistent_hashing X px url proxies metadata =
     obind (consistent_loop X px url proxies 5 (lxMapHash X (getKey X metadata))) (\<lambda>r. Done
       (case r of
          Some p \<Rightarrow> p
        | None \<Rightarrow> (case find (\<lambda>p. AliveForTestUrl url (px p)) proxies of Some p \<Rightarrow> p | None \<Rightarrow> hd proxies)))"

text \<open>The loop of the sticky sessions runs four times; \<open>clock i\<close> is the reading of the clock of its round \<open>i\<close>. The result: the proxy and
  its index, or \<open>None\<close> when none of the rounds met a proxy that is alive.\<close>

fun sticky_loop :: "lb_ext \<Rightarrow> px_store \<Rightarrow> string \<Rightarrow> (nat \<Rightarrow> u64) \<Rightarrow> u64 \<Rightarrow> pref list \<Rightarrow> nat \<Rightarrow> nat \<Rightarrow> int \<Rightarrow> (pref \<times> int) option outcome" where
  "sticky_loop X px url clock key proxies 0 i nowIdx = Done None"
| "sticky_loop X px url clock key proxies (Suc k) i nowIdx =
     obind (index_proxy proxies nowIdx) (\<lambda>p.
       if AliveForTestUrl url (px p) then Done (Some (p, nowIdx))
       else obind (jumpHash (key + clock i) (buckets_of proxies)) (\<lambda>j.
              sticky_loop X px url clock key proxies k (Suc i) j))"

text \<open>\<open>now\<close> is the time in seconds.\<close>

definition sticky_sessions ::
  "lb_ext \<Rightarrow> px_store \<Rightarrow> string \<Rightarrow> int \<Rightarrow> (nat \<Rightarrow> u64) \<Rightarrow> (u64, int) eheap \<Rightarrow> (u64, int) lru_cache \<Rightarrow> pref list \<Rightarrow> metadata option \<Rightarrow>
   (pref \<times> (u64, int) eheap \<times> (u64, int) lru_cache) outcome" where
  "sticky_sessions X px url now clock h c proxies metadata =
     (let key = lxMapHash X (getKeyWithSrcAndDst X metadata)
      in case lru_get now key h c of
           (hit, h1, c1) \<Rightarrow>
             obind (case hit of Some idx \<Rightarrow> Done idx | None \<Rightarrow> jumpHash (key + clock 0) (buckets_of proxies)) (\<lambda>idx.
             obind (sticky_loop X px url clock key proxies 4 1 idx) (\<lambda>r. Done
               (case r of
                  Some (p, nowIdx) \<Rightarrow>
                    if nowIdx \<noteq> idx then (p, lru_set now key nowIdx h1 (lru_delete key h1 c1)) else (p, h1, c1)
                | None \<Rightarrow> (hd proxies, lru_set now key 0 h1 (lru_delete key h1 c1))))))"

record load_balance =
  lbBase :: group_base
  lbDisableUDP :: bool
  lbStrategy :: strategy_state
  lbTestUrl :: string
  lbExpectedStatus :: string

definition run_strategy ::
  "lb_ext \<Rightarrow> px_store \<Rightarrow> string \<Rightarrow> int \<Rightarrow> (nat \<Rightarrow> u64) \<Rightarrow> strategy_state \<Rightarrow> pref list \<Rightarrow> metadata option \<Rightarrow> bool \<Rightarrow> (pref \<times> strategy_state) outcome" where
  "run_strategy X px url now clock s proxies metadata touch =
     (case s of
        RoundRobin idx \<Rightarrow> (case round_robin px url idx proxies touch of (p, idx') \<Rightarrow> Done (p, RoundRobin idx'))
      | ConsistentHashing \<Rightarrow> obind (consistent_hashing X px url proxies metadata) (\<lambda>p. Done (p, ConsistentHashing))
      | StickySessions h c \<Rightarrow>
          obind (sticky_sessions X px url now clock h c proxies metadata) (\<lambda>(p, h', c'). Done (p, StickySessions h' c')))"

definition lb_Unwrap ::
  "lb_ext \<Rightarrow> px_store \<Rightarrow> pref \<Rightarrow> int \<Rightarrow> (nat \<Rightarrow> u64) \<Rightarrow> metadata option \<Rightarrow> bool \<Rightarrow> load_balance \<Rightarrow> (pref \<times> load_balance) outcome" where
  "lb_Unwrap X px dflt now clock metadata touch lb =
     (let (proxies, gb) = GetProxies px dflt touch (lbBase lb)
      in obind (run_strategy X px (lbTestUrl lb) now clock (lbStrategy lb) proxies metadata touch) (\<lambda>(p, s).
           Done (p, lb\<lparr>lbBase := gb, lbStrategy := s\<rparr>)))"

definition parseStrategy :: "string option \<Rightarrow> string" where
  "parseStrategy cfg = (case cfg of Some s \<Rightarrow> s | None \<Rightarrow> ''consistent-hashing'')"

definition NewLoadBalance where
  "NewLoadBalance compile name fltr excludeFilter excludeType disableUDP url expected providers strategy =
     (case (if strategy = ''consistent-hashing'' then Some ConsistentHashing
            else if strategy = ''round-robin'' then Some (RoundRobin 0)
            else if strategy = ''sticky-sessions'' then Some (StickySessions [] (lru_new 600 1000 False False))
            else None) of
        None \<Rightarrow> Done None
      | Some s \<Rightarrow>
          obind (NewGroupBase compile name fltr excludeFilter excludeType providers) (\<lambda>gb.
            Done (Some \<lparr>lbBase = gb, lbDisableUDP = disableUDP, lbStrategy = s, lbTestUrl = url, lbExpectedStatus = expected\<rparr>)))"

section \<open>Relay\<close>

text \<open>The chain of groups that a proxy unwraps to; the nesting of groups has no cycle.\<close>

datatype chain_proxy = ChainProxy (cpRef: pref) (cpUnwrap: "chain_proxy option")

primrec unwrap_all :: "chain_proxy \<Rightarrow> pref list" where
  "unwrap_all (ChainProxy p sub) = p # (case map_option unwrap_all sub of None \<Rightarrow> [] | Some ps \<Rightarrow> ps)"

text \<open>The target proxies and the chain.\<close>

definition relay_proxies :: "px_store \<Rightarrow> chain_proxy list \<Rightarrow> pref list \<times> pref list" where
  "relay_proxies px raw =
     (filter (\<lambda>p. apType (px p) \<noteq> A_Direct \<and> apType (px p) \<noteq> A_Compatible) (map (\<lambda>c. last (unwrap_all c)) raw),
      concat (map unwrap_all raw))"

text \<open>What \<open>SupportUDP\<close> asks of each proxy: whether it supports UDP, UDP over TCP, and UDP with a dialer. The loop goes from the last.\<close>

fun relay_udp :: "(bool \<times> bool \<times> bool) list \<Rightarrow> bool" where
  "relay_udp [] = True"
| "relay_udp ((udp, uot, dialer) # ps) =
     (if \<not> udp then False else if uot then True else if dialer then relay_udp ps else False)"

definition relay_SupportUDP :: "(bool \<times> bool \<times> bool) list \<Rightarrow> bool" where
  "relay_SupportUDP proxies = (if proxies = [] then True else relay_udp (rev proxies))"

section \<open>Parsing\<close>

text \<open>\<open>getProxies\<close> and \<open>getProviders\<close>: the name that is not found, or not allowed, for an error.\<close>

fun getProxies :: "(string \<rightharpoonup> 'p) \<Rightarrow> string list \<Rightarrow> (string, 'p list) go_result" where
  "getProxies mapping [] = Ok []"
| "getProxies mapping (name # names) =
     (case mapping name of
        None \<Rightarrow> Err name
      | Some p \<Rightarrow> (case getProxies mapping names of Err e \<Rightarrow> Err e | Ok ps \<Rightarrow> Ok (p # ps)))"

fun getProviders :: "(string \<rightharpoonup> provider) \<Rightarrow> string list \<Rightarrow> (string, provider list) go_result" where
  "getProviders mapping [] = Ok []"
| "getProviders mapping (name # names) =
     (case mapping name of
        None \<Rightarrow> Err name
      | Some p \<Rightarrow>
          if pvCompatible p then Err name
          else (case getProviders mapping names of Err e \<Rightarrow> Err e | Ok ps \<Rightarrow> Ok (p # ps)))"

end
