(* ===== verification/GroupProps.thy ===== *)
theory GroupProps
  imports ProxyGroups
begin

text \<open>
  What the proxy groups promise: which proxies a group offers, that a choice is alive when one is, in which order round
  robin goes, when failed dials lead to a health check; and the cases in which the choice is not the one meant.
\<close>

section \<open>The proxies of a group\<close>

lemma collect_fields:
  assumes "collect_proxies px gb = (ps, gb')"
  shows "gbExcludeTypeArray gb' = gbExcludeTypeArray gb" "gbExcludeFilterReg gb' = gbExcludeFilterReg gb"
  using assms by (auto simp: collect_proxies_def split: if_splits prod.splits)

lemma gb_Touch_simps [simp]:
  "gbExcludeTypeArray (gb_Touch gb) = gbExcludeTypeArray gb" "gbExcludeFilterReg (gb_Touch gb) = gbExcludeFilterReg gb"
  by (simp_all add: gb_Touch_def)

text \<open>The last steps of \<open>GetProxies\<close>, whatever was collected.\<close>

lemma GetProxies_last:
  "\<exists>ps. fst (GetProxies px dflt touch gb) = (if exclude_proxies px gb ps = [] then [dflt] else exclude_proxies px gb ps)"
proof -
  obtain ps gb' where c: "collect_proxies px (if touch then gb_Touch gb else gb) = (ps, gb')" by (metis prod.exhaust)
  have "exclude_proxies px gb' = exclude_proxies px gb"
    using collect_fields [OF c] by (intro ext) (auto simp: exclude_proxies_def split: if_splits)
  with c show ?thesis by (auto simp: GetProxies_def Let_def)
qed

lemma GetProxies_nonempty: "fst (GetProxies px dflt touch gb) \<noteq> []"
  using GetProxies_last [of px dflt touch gb] by (metis list.distinct(1))

text \<open>C28: a group never offers an empty list, and what it offers is the proxy \<open>COMPATIBLE\<close> or has neither an excluded type
  nor an excluded name.\<close>

theorem GetProxies_filters:
  "fst (GetProxies px dflt touch gb) \<noteq> [] \<and>
   (\<forall>p \<in> set (fst (GetProxies px dflt touch gb)). p = dflt \<or>
      (case gbExcludeTypeArray gb of None \<Rightarrow> True | Some types \<Rightarrow> \<not> (\<exists>t \<in> set types. equal_fold (AdapterType_String (apType (px p))) t)) \<and>
      (case gbExcludeFilterReg gb of None \<Rightarrow> True | Some reg \<Rightarrow> \<not> reg (apName (px p))))"
proof -
  obtain ps where p: "fst (GetProxies px dflt touch gb) =
      (if exclude_proxies px gb ps = [] then [dflt] else exclude_proxies px gb ps)" using GetProxies_last by blast
  have "(case gbExcludeTypeArray gb of None \<Rightarrow> True | Some types \<Rightarrow> \<not> (\<exists>t \<in> set types. equal_fold (AdapterType_String (apType (px q))) t)) \<and>
      (case gbExcludeFilterReg gb of None \<Rightarrow> True | Some reg \<Rightarrow> \<not> reg (apName (px q)))" if "q \<in> set (exclude_proxies px gb ps)" for q
    using that by (cases "gbExcludeTypeArray gb"; cases "gbExcludeFilterReg gb")
      (simp_all add: exclude_proxies_def exclude_types_def)
  with p show ?thesis by (cases "exclude_proxies px gb ps = []") auto
qed

lemma find_or_hd:
  "xs \<noteq> [] \<Longrightarrow> (case find P xs of Some x \<Rightarrow> x | None \<Rightarrow> hd xs) \<in> set xs \<and>
    ((\<exists>x \<in> set xs. P x) \<longrightarrow> P (case find P xs of Some x \<Rightarrow> x | None \<Rightarrow> hd xs))"
  using find_None_iff [of P xs] by (auto split: option.splits simp: find_Some_iff)

section \<open>Jump hash\<close>

text \<open>The second factor of the floating point expression is at least one, so the expression grows: rounding does not go below a number
  that is exact. It is also at most \<open>2^62\<close>.\<close>

lemma unat_drop_33: "unat (drop_bit 33 (key :: u64)) + 1 \<le> 2 ^ 31"
proof -
  have div: "x < 18446744073709551616 \<Longrightarrow> x div 8589934592 < 2147483648" for x :: nat by (simp add: div_less_iff_less_mult)
  have "unat key < 18446744073709551616" using unsigned_less [of key, where ?'a = nat] by simp
  from div [OF this] have "unat key div 2 ^ 33 < 2 ^ 31" by simp
  moreover have "unat (drop_bit 33 key) = unat key div 2 ^ 33"
    by (simp add: drop_bit_eq_div unat_div_distrib)
  ultimately show ?thesis by simp
qed

lemma jump_next_bounds:
  assumes "0 \<le> b" "b < 2 ^ 31"
  shows "b < jump_next b key" "jump_next b key \<le> 2 ^ 62"
proof -
  define n where "n = nat (b + 1)"
  have n: "0 < n" "n \<le> 2 ^ 31" "int n = b + 1" using assms by (simp_all add: n_def)
  define d where "d = unat (drop_bit 33 key) + 1"
  have d: "0 < d" "d \<le> 2 ^ 31" using unat_drop_33 [of key] by (simp_all only: d_def)
  obtain x s where x: "f64_of_nat n = (x, s)" "x = n * 2 ^ s" using f64_of_nat_exact [of n] n(2) by (cases "f64_of_nat n") simp
  obtain y t where y: "f64_of_nat d = (y, t)" "y = d * 2 ^ t" using f64_of_nat_exact [of d] d(2) by (cases "f64_of_nat d") simp
  obtain z u where z: "f64_of_nat (2 ^ 31) = (z, u)" "z = 2 ^ 31 * 2 ^ u"
    using f64_of_nat_exact [of "2 ^ 31"] by (cases "f64_of_nat (2 ^ 31)") simp
  obtain q v where q: "f64_div (z, u) (y, t) = (q, v)" by (cases "f64_div (z, u) (y, t)")
  have zy: "0 < z * 2 ^ t" "0 < y * 2 ^ u" using d by (simp_all add: z(2) y(2))
  have r1: "1 * (y * 2 ^ u) \<le> z * 2 ^ t"
    unfolding y(2) z(2) using mult_right_mono [OF d(2), of "2 ^ t * 2 ^ u"] by (simp add: ac_simps)
  have "(2 ^ 31 * 2 ^ u) * 2 ^ t \<le> 2 ^ 31 * ((d * 2 ^ t) * 2 ^ u)" using d(1) by simp
  then have r2: "z * 2 ^ t \<le> 2 ^ 31 * (y * 2 ^ u)" by (simp only: y(2) z(2))
  have qv: "f64_round (z * 2 ^ t) (y * 2 ^ u) = (q, v)" using q by simp
  have ql: "1 * 2 ^ v \<le> q" using f64_round_ge(2) [OF zy _ r1] by (simp add: qv)
  have qu: "q \<le> 2 ^ 31 * 2 ^ v" using f64_round_le(2) [OF zy r2] by (simp only: qv fst_conv snd_conv)
  have j: "jump_next b key = int (f64_trunc (f64_round (x * q) (2 ^ (s + v))))"
    unfolding jump_next_def n_def [symmetric] d_def [symmetric] x(1) y(1) z(1) q by (simp only: f64_mul.simps)
  have q0: "0 < q" using ql by (metis gr0I mult_1 not_le zero_less_numeral zero_less_power)
  have p: "0 < x * q" "0 < (2 :: nat) ^ (s + v)" using n(1) q0 by (simp_all add: x(2))
  have "n * 2 ^ (s + v) = x * (1 * 2 ^ v)" by (simp add: x(2) power_add)
  also have "\<dots> \<le> x * q" using ql by (rule mult_left_mono) simp
  finally have "n * 2 ^ (s + v) \<le> x * q" .
  with p n(2) have "n \<le> f64_trunc (f64_round (x * q) (2 ^ (s + v)))" by (intro f64_round_ge) simp_all
  then show "b < jump_next b key" unfolding j using n(3) by linarith
  have "x * q \<le> (2 ^ 31 * 2 ^ s) * (2 ^ 31 * 2 ^ v)" unfolding x(2) using n(2) qu by (intro mult_mono) simp_all
  also have "\<dots> = 2 ^ 62 * 2 ^ (s + v)" by (simp add: power_add)
  finally have "f64_trunc (f64_round (x * q) (2 ^ (s + v))) \<le> 2 ^ 62" using p by (intro f64_round_le) simp_all
  then show "jump_next b key \<le> 2 ^ 62" unfolding j by (metis of_nat_le_iff of_nat_numeral of_nat_power)
qed

lemma jump_loop_range:
  "0 \<le> b \<Longrightarrow> b < buckets \<Longrightarrow> b \<le> j \<Longrightarrow> buckets \<le> 2 ^ 31 \<Longrightarrow> \<exists>r. jump_loop key b j buckets = Some r \<and> 0 \<le> r \<and> r < buckets"
proof (induction "nat (buckets - j)" arbitrary: key b j rule: less_induct)
  case less
  show ?case
  proof (cases "j < buckets")
    case True
    let ?key = "key * 2862933555777941757 + 1"
    have "j < jump_next j ?key" using less.prems True by (intro jump_next_bounds) simp_all
    with less.hyps [of "jump_next j ?key" j ?key] True less.prems show ?thesis
      by (subst jump_loop.simps) (simp add: Let_def)
  next
    case False
    with less.prems show ?thesis by (subst jump_loop.simps) simp
  qed
qed

lemma jumpHash_range: "0 < buckets \<Longrightarrow> buckets \<le> 2 ^ 31 \<Longrightarrow> \<exists>r. jumpHash key buckets = Done r \<and> 0 \<le> r \<and> r < buckets"
  using jump_loop_range [of 0 buckets 0 key] by (auto simp: jumpHash_def)

lemma buckets_of_length: "length proxies < 2 ^ 31 \<Longrightarrow> buckets_of proxies = int (length proxies)"
  by (simp add: buckets_of_def signed_of_nat signed_take_bit_int_eq_self_iff)

lemma index_jump:
  assumes "proxies \<noteq> []" "length proxies < 2 ^ 31"
  shows "\<exists>r p. jumpHash key (buckets_of proxies) = Done r \<and> index_proxy proxies r = Done p \<and> p \<in> set proxies"
proof -
  have "0 < buckets_of proxies" "buckets_of proxies \<le> 2 ^ 31" using assms by (simp_all add: buckets_of_length)
  from jumpHash_range [OF this, of key] obtain r where
    r: "jumpHash key (buckets_of proxies) = Done r" "0 \<le> r" "r < int (length proxies)" using buckets_of_length [OF assms(2)] by auto
  then have "proxies ! nat r \<in> set proxies" by simp
  with r show ?thesis by (auto simp: index_proxy_def)
qed

lemma consistent_loop_total:
  assumes "proxies \<noteq> []" "length proxies < 2 ^ 31"
  shows "\<exists>r. consistent_loop X px url proxies k key = Done r \<and>
    (\<forall>p. r = Some p \<longrightarrow> p \<in> set proxies \<and> AliveForTestUrl url (px p))"
proof (induction k arbitrary: key)
  case (Suc k)
  from index_jump [OF assms, of key] obtain r p where
    "jumpHash key (buckets_of proxies) = Done r" "index_proxy proxies r = Done p" "p \<in> set proxies" by blast
  with Suc.IH [of "key + 1"] show ?case by auto
qed simp

text \<open>C20: consistent hashing always returns, without an index out of range, one of the proxies of the group, and one that is
  alive when any is, whatever the hash of the destination. The hash is computed with the rounding of 64-bit floating point numbers; the
  group has between 1 and \<open>2^31 - 1\<close> proxies.\<close>

theorem consistent_hashing_alive:
  assumes "proxies \<noteq> []" "length proxies < 2 ^ 31"
  shows "\<exists>p. consistent_hashing X px url proxies metadata = Done p \<and> p \<in> set proxies \<and>
    ((\<exists>q \<in> set proxies. AliveForTestUrl url (px q)) \<longrightarrow> AliveForTestUrl url (px p))"
proof -
  from consistent_loop_total [OF assms, of X px url 5] obtain r where
    r: "consistent_loop X px url proxies 5 (lxMapHash X (getKey X metadata)) = Done r"
      "\<forall>p. r = Some p \<longrightarrow> p \<in> set proxies \<and> AliveForTestUrl url (px p)" by blast
  then show ?thesis
    using find_or_hd [OF assms(1), of "\<lambda>p. AliveForTestUrl url (px p)"] by (cases r) (auto simp: consistent_hashing_def)
qed


definition example_proxy :: "string \<Rightarrow> bool \<Rightarrow> u16 \<Rightarrow> aproxy" where
  "example_proxy name up delay =
     (let st = delay_history.make 0 delay
      in (NewProxy name A_Socks5 True)\<lparr>apAlive := up, apHistory := q_Put [st] (apHistory (NewProxy name A_Socks5 True))\<rparr>)"

section \<open>Round robin\<close>

text \<open>The proxies of \<open>k\<close> connections in a row.\<close>

fun rr_run :: "px_store \<Rightarrow> string \<Rightarrow> pref list \<Rightarrow> nat \<Rightarrow> nat \<Rightarrow> pref list" where
  "rr_run px url proxies idx 0 = []"
| "rr_run px url proxies idx (Suc k) =
     (case round_robin px url idx proxies True of (p, idx') \<Rightarrow> p # rr_run px url proxies idx' k)"

lemma round_robin_first:
  assumes "q < length proxies" "AliveForTestUrl url (px (proxies ! q))"
  shows "\<exists>i. i \<le> (q + length proxies - idx mod length proxies) mod length proxies \<and>
    AliveForTestUrl url (px (proxies ! ((idx + i) mod length proxies))) \<and>
    round_robin px url idx proxies True = (proxies ! ((idx + i) mod length proxies), (idx + i + 1) mod length proxies)"
proof -
  let ?n = "length proxies" and ?P = "\<lambda>i. AliveForTestUrl url (px (proxies ! ((idx + i) mod length proxies)))"
  let ?d = "(q + ?n - idx mod ?n) mod ?n"
  have n: "0 < ?n" using assms(1) by linarith
  have "(idx + ?d) mod ?n = (idx mod ?n + (q + ?n - idx mod ?n)) mod ?n" by presburger
  also have "idx mod ?n + (q + ?n - idx mod ?n) = q + ?n" using n by (simp add: less_imp_le trans_le_add2)
  finally have "(idx + ?d) mod ?n = q" using assms(1) by simp
  with assms(2) have d: "?P ?d" "?d < ?n" using n by simp_all
  then obtain i where i: "find ?P [0..<?n] = Some i" by (cases "find ?P [0..<?n]") (auto simp: find_None_iff)
  then have "?P i" "\<forall>j < i. \<not> ?P j" "i < ?n" by (auto simp: find_Some_iff)
  moreover from this d have "i \<le> ?d" by (meson not_le)
  ultimately show ?thesis using i by (auto simp: round_robin_def Let_def)
qed

text \<open>How far \<open>q\<close> is ahead of \<open>a\<close> in a circle of \<open>n\<close>.\<close>

lemma ahead_eq: "a < n \<Longrightarrow> q < n \<Longrightarrow> (q + n - a) mod n = (if a \<le> q then q - a else q + n - a)" for a :: nat
  by (simp add: mod_if [of "q + n - a" n])

lemma round_robin_distance:
  fixes n :: nat
  assumes "q < n" "i \<le> (q + n - idx mod n) mod n" "(idx + i) mod n \<noteq> q"
  shows "(q + n - ((idx + i + 1) mod n) mod n) mod n < (q + n - idx mod n) mod n"
proof -
  let ?a = "idx mod n"
  have "(?a + (i + 1)) mod n = (idx + (i + 1)) mod n" by (rule mod_add_left_eq)
  then have n: "?a < n" "((idx + i + 1) mod n) mod n = (?a + i + 1) mod n" "(idx + i) mod n = (?a + i) mod n"
    using assms(1) by (simp_all add: mod_simps)
  show ?thesis
  proof (cases "?a \<le> q")
    case True
    with assms n have "i < q - ?a" by (cases "i = q - ?a") (auto simp: ahead_eq)
    then have "(?a + i + 1) mod n = ?a + i + 1" "?a + i + 1 \<le> q" using True assms(1) by simp_all
    with True assms(1) n \<open>i < q - ?a\<close> show ?thesis by (simp add: ahead_eq)
  next
    case False
    with assms n have i: "i < q + n - ?a" by (cases "i = q + n - ?a") (auto simp: ahead_eq)
    show ?thesis
    proof (cases "?a + i + 1 < n")
      case True
      with False assms(1) n i show ?thesis by (simp add: ahead_eq)
    next
      case False
      then have "?a + i + 1 - n < n" "(?a + i + 1) mod n = (?a + i + 1 - n) mod n"
        using \<open>\<not> ?a \<le> q\<close> assms(1) n(1) i by (linarith, simp add: le_mod_geq)
      then have "(?a + i + 1) mod n = ?a + i + 1 - n" "?a + i + 1 - n \<le> q" using i by simp_all
      then have "(q + n - ((idx + i + 1) mod n) mod n) mod n = q - (?a + i + 1 - n)"
        using ahead_eq [OF \<open>?a + i + 1 - n < n\<close> assms(1)] unfolding n(2) by simp
      moreover have "(q + n - ?a) mod n = q + n - ?a" using ahead_eq [OF n(1) assms(1)] \<open>\<not> ?a \<le> q\<close> by simp
      ultimately show ?thesis using False n(1) assms(1) by linarith
    qed
  qed
qed

lemma rr_run_visits:
  assumes "q < length proxies" "AliveForTestUrl url (px (proxies ! q))"
  shows "(q + length proxies - idx mod length proxies) mod length proxies < k \<Longrightarrow> proxies ! q \<in> set (rr_run px url proxies idx k)"
proof (induction k arbitrary: idx)
  case (Suc k)
  from round_robin_first [where url = url and px = px and q = q and proxies = proxies and idx = idx, OF assms] obtain i where i: "i \<le> (q + length proxies - idx mod length proxies) mod length proxies"
    "round_robin px url idx proxies True = (proxies ! ((idx + i) mod length proxies), (idx + i + 1) mod length proxies)" by blast
  show ?case
  proof (cases "(idx + i) mod length proxies = q")
    case False
    from round_robin_distance [OF assms(1) i(1) this] Suc i(2) show ?thesis by (simp only: rr_run.simps) simp
  qed (simp add: i(2))
qed simp

lemma rr_run_alive:
  assumes "q < length proxies" "AliveForTestUrl url (px (proxies ! q))"
  shows "p \<in> set (rr_run px url proxies idx k) \<Longrightarrow> AliveForTestUrl url (px p)"
proof (induction k arbitrary: idx)
  case (Suc k)
  from round_robin_first [where url = url and px = px and q = q and proxies = proxies and idx = idx, OF assms] obtain i where i: "AliveForTestUrl url (px (proxies ! ((idx + i) mod length proxies)))"
    "round_robin px url idx proxies True = (proxies ! ((idx + i) mod length proxies), (idx + i + 1) mod length proxies)" by blast
  with Suc show ?case by (auto simp: i(2))
qed simp


definition example_px :: px_store where
  "example_px p = (if p = 1 then example_proxy ''b'' False 0 else if p = 2 then example_proxy ''c'' True 300
                   else example_proxy ''a'' True 500)"

lemma example_px_alive [simp]: "AliveForTestUrl url (example_px p) \<longleftrightarrow> p \<noteq> 1"
  by (simp add: AliveForTestUrl_def example_px_def example_proxy_def NewProxy_def Let_def)


definition example_lb :: lb_ext where
  "example_lb = \<lparr>lxIsIP = (\<lambda>s. False), lxEtld = (\<lambda>s. None), lxAddrString = (\<lambda>a. ''''), lxMapHash = (\<lambda>s. of_nat (length s))\<rparr>"

lemma consistent_hashing_alive_witness:
  "consistent_hashing example_lb example_px ''u'' [1, 1, 2] None = Done 2"
proof -
  from consistent_hashing_alive [of "[1, 1, 2]" example_lb example_px "''u''" None] obtain p where
    "consistent_hashing example_lb example_px ''u'' [1, 1, 2] None = Done p" "p \<in> set [1, 1, 2]" "p \<noteq> 1"
    by auto
  then show ?thesis by auto
qed


section \<open>Sticky sessions\<close>

text \<open>What a sticky session first picks is not remembered: when the proxy that is picked without an entry in the cache is
  alive, the empty cache stays empty, so the next connection of the same pair of addresses picks anew, with another
  reading of the clock.\<close>

theorem sticky_first_pick_forgotten:
  assumes "sticky_sessions X px url now clock [] (lru_new age sz stale upd) proxies metadata = Done (p, h, c)"
    and "jumpHash (lxMapHash X (getKeyWithSrcAndDst X metadata) + clock 0) (buckets_of proxies) = Done idx"
    and "AliveForTestUrl url (px (proxies ! nat idx))"
  shows "h = [] \<and> c = lru_new age sz stale upd"
  using assms by (auto simp: sticky_sessions_def lru_get_def lru_get_ref_def lru_new_def Let_def numeral_eq_Suc index_proxy_def
      split: if_splits)

text \<open>A session that remembers an index panics when the group has shrunk to no more proxies than the index.\<close>

lemma sticky_shrunk_panics:
  assumes "lru_get now (lxMapHash X (getKeyWithSrcAndDst X metadata)) h c = (Some idx, h1, c1)"
    and "int (length proxies) \<le> idx"
  shows "sticky_sessions X px url now clock h c proxies metadata = Panicked"
  using assms by (simp add: sticky_sessions_def Let_def numeral_eq_Suc index_proxy_def)

lemma sticky_first_pick_forgotten_witness:
  "\<exists>p. sticky_sessions example_lb example_px ''u'' 0 (\<lambda>i. 0) [] (lru_new 600 1000 False False) [0] None =
     Done (p, [], lru_new 600 1000 False False)"
proof -
  have j: "jumpHash 0 (buckets_of [0 :: pref]) = Done 0"
    using jumpHash_range [of 1 0] by (auto simp: buckets_of_length)
  then obtain p h c where s: "sticky_sessions example_lb example_px ''u'' 0 (\<lambda>i. 0) [] (lru_new 600 1000 False False) [0] None = Done (p, h, c)"
    by (simp add: sticky_sessions_def lru_get_def lru_get_ref_def lru_new_def Let_def numeral_eq_Suc index_proxy_def
        getKeyWithSrcAndDst_def getKey_def example_lb_def)
  from sticky_first_pick_forgotten [OF this] j have "h = [] \<and> c = lru_new 600 1000 False False"
    by (simp add: getKeyWithSrcAndDst_def getKey_def example_lb_def)
  with s show ?thesis by simp
qed

section \<open>Fallback\<close>

lemma find_alive_none_selected: "find_alive px url '''' ps = (find (\<lambda>p. AliveForTestUrl url (px p)) ps, '''')"
  by (induction ps) simp_all

lemma find_alive_selected:
  "selected \<noteq> '''' \<Longrightarrow> \<forall>q \<in> set pre. apName (px q) \<noteq> selected \<Longrightarrow> apName (px p) = selected \<Longrightarrow>
   find_alive px url selected (pre @ p # post) =
     (if AliveForTestUrl url (px p) then (Some p, selected) else (find (\<lambda>p. AliveForTestUrl url (px p)) post, ''''))"
  by (induction pre) (auto simp: find_alive_none_selected)

text \<open>What a fallback group with a selected proxy picks: the selected proxy when it is alive; when it is not, the first one
  alive \<^emph>\<open>after it\<close>, or else the first of the list, even if that one is dead and one between it and the selected one is alive.\<close>

theorem findAliveProxy_spec:
  assumes "fst (GetProxies px dflt touch (fbBase f)) = pre @ p # post" "fbSelected f \<noteq> ''''"
    and "\<forall>q \<in> set pre. apName (px q) \<noteq> fbSelected f" "apName (px p) = fbSelected f"
  shows "fst (findAliveProxy px dflt touch f) =
    (if AliveForTestUrl (fbTestUrl f) (px p) then p
     else case find (\<lambda>p. AliveForTestUrl (fbTestUrl f) (px p)) post of Some q \<Rightarrow> q | None \<Rightarrow> hd (pre @ [p]))"
  using assms find_alive_selected [OF assms(2-4), of "fbTestUrl f" post]
  by (cases "GetProxies px dflt touch (fbBase f)") (auto simp: findAliveProxy_def hd_append split: option.splits)

definition example_base :: "pref list \<Rightarrow> group_base" where
  "example_base ps = \<lparr>gbName = ''g'', gbProviders = [\<lparr>pvName = ''p'', pvCompatible = True, pvVersion = 0, pvProxies = ps, pvTouched = 0\<rparr>],
     gbFilterRegs = [], gbExcludeFilterReg = None, gbExcludeTypeArray = None, gbFailedTimes = 0, gbFailedTime = 0,
     gbFailedTesting = False, gbProxies = [[]], gbVersions = [0]\<rparr>"

lemma example_base_proxies [simp]: "ps \<noteq> [] \<Longrightarrow> fst (GetProxies px dflt False (example_base ps)) = ps"
  by (simp add: GetProxies_def collect_proxies_def exclude_proxies_def example_base_def Let_def)

text \<open>Proxy 2 is alive, and the group chooses proxy 1, which is dead.\<close>

definition example_store :: px_store where
  "example_store p = example_proxy (if p = 1 then ''b'' else if p = 2 then ''c'' else ''a'') (p = 2) 300"

lemma findAliveProxy_spec_witness:
  "fst (findAliveProxy example_store 9 False
     \<lparr>fbBase = example_base [1, 2, 3], fbDisableUDP = False, fbTestUrl = ''u'', fbSelected = ''a'', fbExpectedStatus = ''''\<rparr>) = 1"
  using findAliveProxy_spec [of example_store 9 False
    "\<lparr>fbBase = example_base [1, 2, 3], fbDisableUDP = False, fbTestUrl = ''u'', fbSelected = ''a'', fbExpectedStatus = ''''\<rparr>" "[1, 2]" 3 "[]"]
  by (simp add: AliveForTestUrl_def example_store_def example_proxy_def NewProxy_def Let_def)


section \<open>URL test\<close>

lemma dead_delay: "\<not> AliveForTestUrl url p \<Longrightarrow> LastDelayForTestUrl url p = max_delay"
  by (simp add: AliveForTestUrl_def LastDelayForTestUrl_def last_delay_def split: option.splits)

lemma le_max_delay [simp]: "d \<le> max_delay"
proof -
  have "unat d < 2 ^ 16" using unsigned_less [of d] by simp
  then show ?thesis by (simp add: word_le_nat_alt)
qed

definition same_name :: "px_store \<Rightarrow> pref option \<Rightarrow> pref \<Rightarrow> bool" where
  "same_name px fastNode p \<longleftrightarrow> (case fastNode of Some n \<Rightarrow> apName (px p) = apName (px n) | None \<Rightarrow> False)"

lemma fast_fold:
  assumes "least = LastDelayForTestUrl url (px fast)"
    and "fold (fast_step px url fn) ps (fast, least, ne) = (fast', least', ne')"
  shows "fast' \<in> insert fast (set ps) \<and> least' = LastDelayForTestUrl url (px fast') \<and> least' \<le> least \<and>
    (\<forall>p \<in> set ps. least' \<le> LastDelayForTestUrl url (px p)) \<and>
    (ne' \<longleftrightarrow> ne \<and> (\<forall>p \<in> set ps. \<not> same_name px fn p))"
  using assms
proof (induction ps arbitrary: fast least ne)
  case (Cons p ps)
  obtain f1 l1 n1 where s: "fast_step px url fn p (fast, least, ne) = (f1, l1, n1)" by (metis prod.exhaust)
  have st: "f1 \<in> {fast, p}" "l1 = LastDelayForTestUrl url (px f1)" "l1 \<le> least" "l1 \<le> LastDelayForTestUrl url (px p)"
    "n1 \<longleftrightarrow> ne \<and> \<not> same_name px fn p"
    using s Cons.prems(1) dead_delay [of url "px p"]
    by (auto simp: fast_step_def same_name_def Let_def not_less split: if_splits)
  have "fold (fast_step px url fn) ps (f1, l1, n1) = (fast', least', ne')" using Cons.prems(2) s by simp
  from Cons.IH [OF st(2) this] have ih: "fast' \<in> insert f1 (set ps)" "least' = LastDelayForTestUrl url (px fast')"
    "least' \<le> l1" "\<forall>p \<in> set ps. least' \<le> LastDelayForTestUrl url (px p)"
    "ne' \<longleftrightarrow> n1 \<and> (\<forall>p \<in> set ps. \<not> same_name px fn p)" by blast+
  from ih(1) st(1) have "fast' \<in> insert fast (set (p # ps))" by auto
  moreover have "least' \<le> least" "\<forall>q \<in> set (p # ps). least' \<le> LastDelayForTestUrl url (px q)"
    using ih(3,4) st(3,4) by (auto intro: order_trans)
  ultimately show ?case using ih(2,5) st(5) by simp
qed simp

lemma fast_node_cases:
  assumes "proxies \<noteq> []"
  shows "\<exists>fast \<in> set proxies. (\<forall>p \<in> set proxies. LastDelayForTestUrl url (px fast) \<le> LastDelayForTestUrl url (px p)) \<and>
    fast_node px url tol fn proxies =
      (case fn of
         None \<Rightarrow> fast
       | Some n \<Rightarrow>
           if (\<exists>q \<in> set (tl proxies). apName (px q) = apName (px n)) \<and> AliveForTestUrl url (px n) \<and>
              unat (LastDelayForTestUrl url (px n)) \<le> (unat (LastDelayForTestUrl url (px fast)) + unat tol) mod 65536
           then n else fast)"
proof -
  from assms obtain x xs where p: "proxies = x # xs" by (cases proxies) auto
  obtain fast least ne where f: "fold (fast_step px url fn) xs (x, LastDelayForTestUrl url (px x), True) = (fast, least, ne)"
    by (metis prod.exhaust)
  from fast_fold [OF refl f] show ?thesis
    by (intro bexI [of _ fast] conjI)
      (auto simp: p fast_node_def f same_name_def word_less_nat_alt unat_word_ariths not_less split: option.splits)
qed

text \<open>C32: the choice of a URL-test group, in every case. A selected proxy that the group offers and that is alive is the choice.
  Otherwise the result of the last ten seconds is given again. Otherwise the proxy chosen before stays the choice exactly when one of the
  proxies after the first has its name, it is alive, and its delay exceeds the least delay of the group by no more than the
  tolerance (the sum is taken modulo \<open>2^16\<close>, as the code does); if not, the choice is a proxy with the least delay. The choice is
  remembered as the one to keep, and as the result of the next ten seconds.\<close>

theorem urltest_choice:
  assumes "ut_fast px dflt now touch u = (p, u')"
  shows "let proxies = fst (GetProxies px dflt touch (utBase u));
      delay = (\<lambda>q. LastDelayForTestUrl (utTestUrl u) (px q));
      picked = (\<lambda>q. apAlive (px q) \<and> apName (px q) = utSelected u)
    in if utSelected u \<noteq> '''' \<and> (\<exists>q \<in> set proxies. picked q)
       then p \<in> set proxies \<and> picked p \<and> utFastNode u' = Some p \<and> utFastSingle u' = utFastSingle u
       else if now < sgLast (utFastSingle u) + sgWait (utFastSingle u)
       then p = the (sgResult (utFastSingle u)) \<and> utFastNode u' = utFastNode u \<and> utFastSingle u' = utFastSingle u
       else (\<exists>fast \<in> set proxies. (\<forall>q \<in> set proxies. delay fast \<le> delay q) \<and>
               p = (case utFastNode u of
                      None \<Rightarrow> fast
                    | Some n \<Rightarrow>
                        if (\<exists>q \<in> set (tl proxies). apName (px q) = apName (px n)) \<and> AliveForTestUrl (utTestUrl u) (px n) \<and>
                           unat (delay n) \<le> (unat (delay fast) + unat (utTolerance u)) mod 65536
                        then n else fast)) \<and>
            utFastNode u' = Some p \<and> utFastSingle u' = (utFastSingle u)\<lparr>sgLast := now, sgResult := Some p\<rparr>"
proof -
  obtain proxies gb where g: "GetProxies px dflt touch (utBase u) = (proxies, gb)" by force
  with GetProxies_nonempty [of px dflt touch "utBase u"] have ne: "proxies \<noteq> []" by simp
  let ?picked = "\<lambda>q. apAlive (px q) \<and> apName (px q) = utSelected u"
  have some: "\<exists>q \<in> set proxies. ?picked q" "q \<in> set proxies" "?picked q" if "find ?picked proxies = Some q" for q
    using that by (auto simp: find_Some_iff)
  have none: "\<not> (\<exists>q \<in> set proxies. ?picked q)" if "find ?picked proxies = None" using that by (auto simp: find_None_iff)
  show ?thesis
  proof (cases "if utSelected u \<noteq> '''' then find ?picked proxies else None")
    case (Some q)
    then have s: "utSelected u \<noteq> ''''" "find ?picked proxies = Some q" by (simp_all split: if_splits)
    with assms g have "p = q" "u' = u\<lparr>utBase := gb, utFastNode := Some q\<rparr>" by (auto simp: ut_fast_def Let_def)
    with s(1) some [OF s(2)] show ?thesis by (auto simp: g Let_def)
  next
    case None
    then have n: "\<not> (utSelected u \<noteq> '''' \<and> (\<exists>q \<in> set proxies. ?picked q))" using none by (auto split: if_splits)
    show ?thesis
    proof (cases "now < sgLast (utFastSingle u) + sgWait (utFastSingle u)")
      case True
      with assms g None have "p = the (sgResult (utFastSingle u))" "utFastNode u' = utFastNode u" "utFastSingle u' = utFastSingle u"
        by (auto simp: ut_fast_def Let_def single_shared_def split: if_splits)
      with n True show ?thesis by (simp only: g Let_def fst_conv if_False if_True simp_thms)
    next
      case False
      with assms g None have "p = fast_node px (utTestUrl u) (utTolerance u) (utFastNode u) proxies" "utFastNode u' = Some p"
        "utFastSingle u' = (utFastSingle u)\<lparr>sgLast := now, sgResult := Some p\<rparr>"
        by (auto simp: ut_fast_def Let_def single_shared_def split: if_splits)
      with n False fast_node_cases [OF ne, of "utTestUrl u" px "utTolerance u" "utFastNode u"] show ?thesis
        by (simp only: g Let_def fst_conv if_False simp_thms)
    qed
  qed
qed

text \<open>The tolerance does not hold for the first proxy of the list: when it is the current choice and another proxy is any
  faster, the group leaves it, whatever the tolerance.\<close>

theorem first_proxy_no_tolerance:
  assumes "\<forall>q \<in> set (tl proxies). apName (px q) \<noteq> apName (px (hd proxies))"
    and "p \<in> set (tl proxies)" "LastDelayForTestUrl url (px p) < LastDelayForTestUrl url (px (hd proxies))"
  shows "fast_node px url tol (Some (hd proxies)) proxies \<noteq> hd proxies"
proof -
  from assms(2) have "proxies \<noteq> []" "p \<in> set proxies" by (cases proxies; simp)+
  with fast_node_cases [OF this(1), of url px tol "Some (hd proxies)"] assms(1) obtain fast where
    "LastDelayForTestUrl url (px fast) \<le> LastDelayForTestUrl url (px p)" "fast_node px url tol (Some (hd proxies)) proxies = fast"
    by auto
  with assms(3) show ?thesis by auto
qed

definition ex_fast :: px_store where
  "ex_fast p = (if p = 0 then example_proxy ''a'' True 301 else example_proxy ''b'' True 300)"

lemma ex_fast_name: "apName (ex_fast p) = (if p = 0 then ''a'' else ''b'')"
  by (simp add: ex_fast_def example_proxy_def NewProxy_def Let_def)

lemma ex_fast_delay: "LastDelayForTestUrl url (ex_fast p) = (if p = 0 then 301 else 300)"
  by (simp add: LastDelayForTestUrl_def last_delay_def ex_fast_def example_proxy_def NewProxy_def q_New_def q_Put_def q_Last_def
      delay_history.make_def Let_def)

text \<open>A group that chose the second proxy before: the first is as fast within the tolerance, so the second stays.\<close>

definition ex_urltest :: urltest where
  "ex_urltest = \<lparr>utBase = example_base [1, 0], utSelected = '''', utTestUrl = ''u'', utExpectedStatus = '''', utTolerance = 50,
     utDisableUDP = False, utFastNode = Some 0, utFastSingle = single_New 10\<rparr>"

lemma urltest_choice_witness: "fst (ut_fast ex_fast 9 20 False ex_urltest) = 0"
proof -
  obtain p u' where c: "ut_fast ex_fast 9 20 False ex_urltest = (p, u')" by force
  have s: "\<not> (20 :: int) < sgLast (utFastSingle ex_urltest) + sgWait (utFastSingle ex_urltest)" "utSelected ex_urltest = ''''"
      "utFastNode ex_urltest = Some 0" "utTestUrl ex_urltest = ''u''" "utTolerance ex_urltest = 50"
      "fst (GetProxies ex_fast 9 False (utBase ex_urltest)) = [1, 0]"
    by (simp_all add: ex_urltest_def single_New_def zero_time_def)
  have a: "AliveForTestUrl ''u'' (ex_fast 0)"
    by (simp add: AliveForTestUrl_def ex_fast_def example_proxy_def NewProxy_def Let_def)
  from urltest_choice [OF c] show ?thesis unfolding c Let_def s using s(1) a by (auto simp: ex_fast_delay)
qed

lemma first_proxy_no_tolerance_witness: "fast_node ex_fast ''u'' 50 (Some 0) [0, 1] \<noteq> 0"
  using first_proxy_no_tolerance [of "[0, 1]" ex_fast 1 "''u''" 50] by (simp add: ex_fast_name ex_fast_delay)


section \<open>Failed dials\<close>

text \<open>The dials of a group, in their order: a success, or a failure of a proxy of the type with the message; each with its time.\<close>

datatype dial = DialOk int | DialFailed int AdapterType string

definition dial_step :: "(provider \<Rightarrow> provider) \<Rightarrow> dial \<Rightarrow> group_base \<Rightarrow> bool \<times> group_base" where
  "dial_step check d gb = (case d of DialOk t \<Rightarrow> (False, onDialSuccess gb) | DialFailed t ty msg \<Rightarrow> onDialFailed check ty msg t gb)"

fun dial_run :: "(provider \<Rightarrow> provider) \<Rightarrow> dial list \<Rightarrow> group_base \<Rightarrow> group_base" where
  "dial_run check [] gb = gb"
| "dial_run check (d # ds) gb = dial_run check ds (snd (dial_step check d gb))"

text \<open>A failure that counts: of a proxy proper, and not a refused connection.\<close>

fun counts :: "dial \<Rightarrow> bool" where
  "counts (DialOk t) = False"
| "counts (DialFailed t ty msg) \<longleftrightarrow>
     ty \<notin> {A_Direct, A_Compatible, A_Reject, A_Pass} \<and> \<not> contains_str msg ''connection refused''"

fun dial_ok :: "dial \<Rightarrow> bool" where
  "dial_ok (DialOk t) = True" | "dial_ok d = False"

fun dial_time :: "dial \<Rightarrow> int" where
  "dial_time (DialOk t) = t" | "dial_time (DialFailed t ty msg) = t"

lemma dial_run_snoc: "dial_run check (ds @ [d]) gb = snd (dial_step check d (dial_run check ds gb))"
  by (induction ds arbitrary: gb) simp_all

text \<open>The failures the counter stands for: the last dials since the one that set the time, with no success among them.\<close>

definition failed_since :: "dial list \<Rightarrow> group_base \<Rightarrow> bool" where
  "failed_since ds gb \<longleftrightarrow> \<not> gbFailedTesting gb \<and> 0 \<le> gbFailedTimes gb \<and> gbFailedTimes gb < maxFailedTimes \<and>
     (0 < gbFailedTimes gb \<longrightarrow> (\<exists>pre d post. ds = pre @ d # post \<and> counts d \<and> gbFailedTime gb = dial_time d \<and>
        (\<forall>e \<in> set post. \<not> dial_ok e) \<and> gbFailedTimes gb \<le> int (length (filter counts (d # post)))))"

lemma failed_since_step:
  assumes "failed_since ds gb"
  shows "failed_since (ds @ [d]) (snd (dial_step check d gb))"
proof (cases "0 < gbFailedTimes (snd (dial_step check d gb))")
  case False
  then show ?thesis using assms
    by (cases d) (auto simp: failed_since_def dial_step_def onDialSuccess_def onDialFailed_def healthCheck_def maxFailedTimes_def Let_def
        split: if_splits)
next
  case True
  have ok: "\<not> dial_ok d" using True assms by (cases d) (auto simp: failed_since_def dial_step_def onDialSuccess_def)
  have g: "\<not> gbFailedTesting gb" "0 \<le> gbFailedTimes gb" "gbFailedTimes gb < maxFailedTimes" using assms by (auto simp: failed_since_def)
  show ?thesis
  proof (cases "0 < gbFailedTimes gb")
    case old: True
    then obtain pre e post where e: "ds = pre @ e # post" "counts e" "gbFailedTime gb = dial_time e"
      "\<forall>e \<in> set post. \<not> dial_ok e" "gbFailedTimes gb \<le> int (length (filter counts (e # post)))"
      using assms by (auto simp: failed_since_def)
    have "\<exists>pre e' post'. ds @ [d] = pre @ e' # post' \<and> counts e' \<and> gbFailedTime (snd (dial_step check d gb)) = dial_time e' \<and>
        (\<forall>e \<in> set post'. \<not> dial_ok e) \<and>
        gbFailedTimes (snd (dial_step check d gb)) \<le> int (length (filter counts (e' # post')))"
      using e ok g True old
      by (intro exI [of _ pre] exI [of _ e] exI [of _ "post @ [d]"], cases d)
        (auto simp: dial_step_def onDialFailed_def healthCheck_def Let_def split: if_splits)
    with True g ok show ?thesis
      by (cases d) (auto simp: failed_since_def dial_step_def onDialFailed_def healthCheck_def Let_def maxFailedTimes_def split: if_splits)
  next
    case new: False
    with g True ok have "counts d" "gbFailedTimes (snd (dial_step check d gb)) = 1" "gbFailedTime (snd (dial_step check d gb)) = dial_time d"
        "\<not> gbFailedTesting (snd (dial_step check d gb))"
      by (cases d; auto simp: dial_step_def onDialFailed_def healthCheck_def Let_def split: if_splits)+
    then show ?thesis unfolding failed_since_def maxFailedTimes_def
      by (intro conjI impI exI [of _ ds] exI [of _ d] exI [of _ "[]"]) simp_all
  qed
qed

lemma failed_since_run: "gbFailedTimes gb = 0 \<Longrightarrow> \<not> gbFailedTesting gb \<Longrightarrow> failed_since ds (dial_run check ds gb)"
proof (induction ds rule: rev_induct)
  case (snoc d ds)
  then show ?case unfolding dial_run_snoc by (intro failed_since_step) simp
qed (simp add: failed_since_def maxFailedTimes_def)

text \<open>C22: a failed dial starts a health check only when the connection was refused, or when it is the last of five failures,
  with no success between them, and the first of them at most five seconds ago.\<close>

theorem healthCheck_needs_failures:
  assumes "gbFailedTimes gb = 0" "\<not> gbFailedTesting gb" "fst (dial_step check (DialFailed now ty msg) (dial_run check ds gb))"
    and "\<not> contains_str msg ''connection refused''"
  shows "\<exists>pre d post. ds = pre @ d # post \<and> now - dial_time d \<le> 5000000000 \<and> (\<forall>e \<in> set post. \<not> dial_ok e) \<and>
    5 \<le> length (filter counts (d # post @ [DialFailed now ty msg]))"
proof -
  let ?g = "dial_run check ds gb"
  from failed_since_run [OF assms(1,2), of ds check] have i: "failed_since ds ?g" .
  from assms(3,4) have ty: "ty \<notin> {A_Direct, A_Compatible, A_Reject, A_Pass}" and n: "gbFailedTimes ?g + 1 \<noteq> 1"
    "now - gbFailedTime ?g \<le> 5000000000" "5 \<le> gbFailedTimes ?g + 1"
    by (auto simp: dial_step_def onDialFailed_def Let_def maxFailedTimes_def failedTimeoutInterval_def split: if_splits)
  with i obtain pre d post where "ds = pre @ d # post" "gbFailedTime ?g = dial_time d"
    "\<forall>e \<in> set post. \<not> dial_ok e" "gbFailedTimes ?g \<le> int (length (filter counts (d # post)))"
    by (auto simp: failed_since_def)
  with n ty assms(4) show ?thesis by (intro exI [of _ pre] exI [of _ d] exI [of _ post]) (auto split: if_splits)
qed

lemma healthCheck_needs_failures_witness:
  "\<exists>pre d post. replicate 4 (DialFailed 7 A_Socks5 ''eof'') = pre @ d # post \<and> 9 - dial_time d \<le> 5000000000 \<and> (\<forall>e \<in> set post. \<not> dial_ok e) \<and>
    5 \<le> length (filter counts (d # post @ [DialFailed 9 A_Socks5 ''eof'']))"
proof (rule healthCheck_needs_failures [of "example_base [0]" id 9 A_Socks5 "''eof''"])
  show "gbFailedTimes (example_base [0]) = 0" "\<not> gbFailedTesting (example_base [0])" by (simp_all add: example_base_def)
  have c: "\<not> contains_str ''eof'' ''connection refused''" by code_simp
  then show "\<not> contains_str ''eof'' ''connection refused''" .
  from c show "fst (dial_step id (DialFailed 9 A_Socks5 ''eof'') (dial_run id (replicate 4 (DialFailed 7 A_Socks5 ''eof'')) (example_base [0])))"
    by (simp add: numeral_eq_Suc dial_step_def onDialFailed_def example_base_def maxFailedTimes_def failedTimeoutInterval_def Let_def)
qed


lemma GetProxies_filters_witness:
  "set (fst (GetProxies example_px 9 False ((example_base [0, 2])\<lparr>gbExcludeTypeArray := Some [''socks5'']\<rparr>))) = {9}"
proof -
  have f: "equal_fold (AdapterType_String A_Socks5) ''socks5''" by code_simp
  have t: "apType (example_px p) = A_Socks5" for p by (simp add: example_px_def example_proxy_def NewProxy_def Let_def)
  have "p = 9" if "p \<in> set (fst (GetProxies example_px 9 False ((example_base [0, 2])\<lparr>gbExcludeTypeArray := Some [''socks5'']\<rparr>)))" for p
    using GetProxies_filters [of example_px 9 False "(example_base [0, 2])\<lparr>gbExcludeTypeArray := Some [''socks5'']\<rparr>"] that t f by auto
  moreover have "fst (GetProxies example_px 9 False ((example_base [0, 2])\<lparr>gbExcludeTypeArray := Some [''socks5'']\<rparr>)) \<noteq> []"
    using GetProxies_filters [of example_px 9 False "(example_base [0, 2])\<lparr>gbExcludeTypeArray := Some [''socks5'']\<rparr>"] by blast
  then obtain q qs where "fst (GetProxies example_px 9 False ((example_base [0, 2])\<lparr>gbExcludeTypeArray := Some [''socks5'']\<rparr>)) = q # qs"
    by (meson neq_Nil_conv)
  ultimately show ?thesis by auto
qed

end
