(* ===== verification/Lookup.thy ===== *)
theory Lookup
  imports Hosts
begin

text \<open>
  The functions by which the rest of the program resolves names (\<open>component/resolver/resolver.go\<close>): first the hosts table,
  then literal addresses, then a resolver or, without one that can be used, the system.

  The interface \<open>Resolver\<close> is a record of its functions, \<open>None\<close> is a nil one; the state behind it (its cache) is not seen
  here, so a call stands for one answer. The package's variables, \<open>netip.ParseAddr\<close>, the system's resolver and the random number
  generator are a record. A lookup in the hosts table that does not return makes its caller not return, \<open>NoFuel\<close>.
\<close>

datatype lookup_error = ErrIPNotFound | ErrIPVersion | ErrIPv6Disabled | ErrLookup string

type_synonym lookup_result = "(lookup_error, addr list) go_result outcome"

record resolver_if =
  rifLookupIP :: "string \<Rightarrow> (lookup_error, addr list) go_result"
  rifLookupIPv4 :: "string \<Rightarrow> (lookup_error, addr list) go_result"
  rifLookupIPv6 :: "string \<Rightarrow> (lookup_error, addr list) go_result"
  rifInvalid :: bool

record lookup_env =
  leHosts :: "HostValue node"
  leDisableIPv6 :: bool
  leDefaultResolver :: "resolver_if option"
  leProxyServerHostResolver :: "resolver_if option"
  leStatic :: "string \<Rightarrow> string list"
  leParseAddr :: "string \<Rightarrow> addr option"
  leSystem :: "string \<Rightarrow> string \<Rightarrow> (lookup_error, addr list) go_result"
  leRandom :: "nat \<Rightarrow> nat"

section \<open>Lookups\<close>

text \<open>\<open>DefaultHosts.Search(host, false)\<close>: the addresses of the value if the second result is true. A nil value comes with false.\<close>

definition hosts_ips :: "lookup_env \<Rightarrow> string \<Rightarrow> addr list option outcome" where
  "hosts_ips E host =
     (case Hosts_Search (leStatic E) (leParseAddr E) (leHosts E) host False of
        None \<Rightarrow> NoFuel
      | Some (Some hv, True) \<Rightarrow> Done (Some (IPs hv))
      | Some _ \<Rightarrow> Done None)"

definition usable_resolver :: "resolver_if option \<Rightarrow> resolver_if option" where
  "usable_resolver r = (case r of Some r' \<Rightarrow> if rifInvalid r' then Some r' else None | None \<Rightarrow> None)"

definition system_lookup :: "lookup_env \<Rightarrow> string \<Rightarrow> string \<Rightarrow> (lookup_error, addr list) go_result" where
  "system_lookup E net host = (case leSystem E net host of Err e \<Rightarrow> Err e | Ok ips \<Rightarrow> if ips = [] then Err ErrIPNotFound else Ok ips)"

definition LookupIPv4WithResolver :: "lookup_env \<Rightarrow> string \<Rightarrow> resolver_if option \<Rightarrow> lookup_result" where
  "LookupIPv4WithResolver E host r =
     obind (hosts_ips E host) (\<lambda>node. Done
       (let addrs = filter addr_is4 (case node of Some ips \<Rightarrow> ips | None \<Rightarrow> [])
        in if addrs \<noteq> [] then Ok addrs
           else case leParseAddr E host of
                  Some ip \<Rightarrow> if addr_is4 ip \<or> addr_is4in6 ip then Ok [ip] else Err ErrIPVersion
                | None \<Rightarrow>
                    (case usable_resolver r of
                       Some r' \<Rightarrow> rifLookupIPv4 r' host
                     | None \<Rightarrow> system_lookup E ''ip4'' host)))"

text \<open>\<open>Addr.Is6\<close> holds of mapped addresses too.\<close>

fun addr_is6 :: "addr \<Rightarrow> bool" where
  "addr_is6 (Addr6 a z) = True"
| "addr_is6 a = False"

definition LookupIPv6WithResolver :: "lookup_env \<Rightarrow> string \<Rightarrow> resolver_if option \<Rightarrow> lookup_result" where
  "LookupIPv6WithResolver E host r =
     (if leDisableIPv6 E then Done (Err ErrIPv6Disabled)
      else obind (hosts_ips E host) (\<lambda>node. Done
        (let addrs = filter addr_is6 (case node of Some ips \<Rightarrow> ips | None \<Rightarrow> [])
         in if addrs \<noteq> [] then Ok addrs
            else case leParseAddr E host of
                   Some ip \<Rightarrow> if contains_str host '':'' then Ok [ip] else Err ErrIPVersion
                 | None \<Rightarrow>
                     (case usable_resolver r of
                        Some r' \<Rightarrow> rifLookupIPv6 r' host
                      | None \<Rightarrow> system_lookup E ''ip6'' host))))"

definition LookupIPWithResolver :: "lookup_env \<Rightarrow> string \<Rightarrow> resolver_if option \<Rightarrow> lookup_result" where
  "LookupIPWithResolver E host r =
     obind (hosts_ips E host) (\<lambda>node.
       case node of
         Some ips \<Rightarrow> Done (Ok ips)
       | None \<Rightarrow>
           (case usable_resolver r of
              Some r' \<Rightarrow> Done (if leDisableIPv6 E then rifLookupIPv4 r' host else rifLookupIP r' host)
            | None \<Rightarrow>
                if leDisableIPv6 E then LookupIPv4WithResolver E host r
                else case leParseAddr E host of
                       Some ip \<Rightarrow> Done (Ok [ip])
                     | None \<Rightarrow> Done (system_lookup E ''ip'' host)))"

definition pkg_LookupIPv4 where "pkg_LookupIPv4 E host = LookupIPv4WithResolver E host (leDefaultResolver E)"
definition pkg_LookupIPv6 where "pkg_LookupIPv6 E host = LookupIPv6WithResolver E host (leDefaultResolver E)"
definition pkg_LookupIP where "pkg_LookupIP E host = LookupIPWithResolver E host (leDefaultResolver E)"

section \<open>One address\<close>

type_synonym resolve_result = "(lookup_error, addr) go_result outcome"

text \<open>\<open>ips[fastrand.Intn(len(ips))]\<close>; an empty list makes \<open>Intn\<close> panic.\<close>

definition pick_random :: "lookup_env \<Rightarrow> addr list \<Rightarrow> resolve_result" where
  "pick_random E ips =
     (let i = leRandom E (length ips) in if ips = [] \<or> length ips \<le> i then Panicked else Done (Ok (ips ! i)))"

definition resolve_one :: "(addr list \<Rightarrow> resolve_result) \<Rightarrow> lookup_result \<Rightarrow> resolve_result" where
  "resolve_one pick res =
     obind res (\<lambda>r. case r of
       Err e \<Rightarrow> Done (Err e)
     | Ok ips \<Rightarrow> if ips = [] then Done (Err ErrIPNotFound) else pick ips)"

definition ResolveIPv4WithResolver where
  "ResolveIPv4WithResolver E host r = resolve_one (pick_random E) (LookupIPv4WithResolver E host r)"

definition ResolveIPv6WithResolver where
  "ResolveIPv6WithResolver E host r = resolve_one (pick_random E) (LookupIPv6WithResolver E host r)"

definition SortationAddr :: "addr list \<Rightarrow> addr list \<times> addr list" where
  "SortationAddr ips = (filter (\<lambda>v. addr_is4 (addr_unmap v)) ips, filter (\<lambda>v. \<not> addr_is4 (addr_unmap v)) ips)"

definition ResolveIPWithResolver :: "lookup_env \<Rightarrow> string \<Rightarrow> resolver_if option \<Rightarrow> resolve_result" where
  "ResolveIPWithResolver E host r =
     resolve_one (\<lambda>ips. case SortationAddr ips of (ipv4s, ipv6s) \<Rightarrow> pick_random E (if ipv4s \<noteq> [] then ipv4s else ipv6s))
       (LookupIPWithResolver E host r)"

definition ResolveIPv4 where "ResolveIPv4 E host = ResolveIPv4WithResolver E host (leDefaultResolver E)"
definition ResolveIPv6 where "ResolveIPv6 E host = ResolveIPv6WithResolver E host (leDefaultResolver E)"
definition ResolveIP where "ResolveIP E host = ResolveIPWithResolver E host (leDefaultResolver E)"

section \<open>Hosts of proxy servers\<close>

definition with_server_resolver ::
  "lookup_env \<Rightarrow> (resolver_if option \<Rightarrow> resolve_result) \<Rightarrow> resolve_result \<Rightarrow> resolve_result" where
  "with_server_resolver E f dflt =
     (case leProxyServerHostResolver E of
        None \<Rightarrow> dflt
      | Some r \<Rightarrow> obind (f (Some r)) (\<lambda>res. case res of Err e \<Rightarrow> dflt | Ok ip \<Rightarrow> Done (Ok ip)))"

definition ResolveIPv4ProxyServerHost where
  "ResolveIPv4ProxyServerHost E host = with_server_resolver E (ResolveIPv4WithResolver E host) (ResolveIPv4 E host)"

definition ResolveIPv6ProxyServerHost where
  "ResolveIPv6ProxyServerHost E host = with_server_resolver E (ResolveIPv6WithResolver E host) (ResolveIPv6 E host)"

definition ResolveProxyServerHost where
  "ResolveProxyServerHost E host = with_server_resolver E (ResolveIPWithResolver E host) (ResolveIP E host)"

definition LookupIPv6ProxyServerHost where
  "LookupIPv6ProxyServerHost E host =
     (case leProxyServerHostResolver E of Some r \<Rightarrow> LookupIPv6WithResolver E host (Some r) | None \<Rightarrow> pkg_LookupIPv6 E host)"

definition LookupIPv4ProxyServerHost where
  "LookupIPv4ProxyServerHost E host =
     (case leProxyServerHostResolver E of Some r \<Rightarrow> LookupIPv4WithResolver E host (Some r) | None \<Rightarrow> pkg_LookupIPv4 E host)"

definition LookupIPProxyServerHost where
  "LookupIPProxyServerHost E host =
     (case leProxyServerHostResolver E of Some r \<Rightarrow> LookupIPWithResolver E host (Some r) | None \<Rightarrow> pkg_LookupIP E host)"

section \<open>What the functions promise\<close>

lemma hosts_ips_returns: "ranked (leHosts E) rk \<Longrightarrow> hosts_ips E host \<noteq> NoFuel \<and> hosts_ips E host \<noteq> Panicked"
  using Hosts_Search_returns [of "leHosts E" rk "leStatic E" "leParseAddr E" host]
  by (auto simp: hosts_ips_def split: option.splits bool.splits)

lemma LookupIP_returns:
  assumes "ranked (leHosts E) rk"
  shows "\<exists>res. LookupIPWithResolver E host r = Done res"
proof -
  from hosts_ips_returns [OF assms, of host] obtain node where "hosts_ips E host = Done node" by (cases "hosts_ips E host") auto
  then show ?thesis by (auto simp: LookupIPWithResolver_def LookupIPv4WithResolver_def Let_def split: option.split)
qed

text \<open>C30: with a hosts table without cycles and random numbers in their range, resolving a name always returns, and never
  panics. It follows the lookup exactly: when the lookup fails, its result is that error; when the lookup gives no address, it is
  "couldn't find ip"; and when the lookup gives addresses, it is one of them, an IPv4 one when there is any.\<close>

theorem ResolveIP_prefers_ipv4:
  assumes "ranked (leHosts E) rk" "\<forall>n > 0. leRandom E n < n"
  shows "\<exists>res. LookupIPWithResolver E host r = Done res \<and>
    (case res of
       Err e \<Rightarrow> ResolveIPWithResolver E host r = Done (Err e)
     | Ok ips \<Rightarrow>
         if ips = [] then ResolveIPWithResolver E host r = Done (Err ErrIPNotFound)
         else (\<exists>ip \<in> set ips. ResolveIPWithResolver E host r = Done (Ok ip) \<and>
                ((\<exists>q \<in> set ips. addr_is4 (addr_unmap q)) \<longrightarrow> addr_is4 (addr_unmap ip))))"
proof -
  obtain res where res: "LookupIPWithResolver E host r = Done res" using LookupIP_returns [OF assms(1)] by blast
  show ?thesis
  proof (cases "\<exists>ips. res = Ok ips \<and> ips \<noteq> []")
    case False
    then show ?thesis using res by (cases res) (auto simp: ResolveIPWithResolver_def resolve_one_def)
  next
    case True
    then obtain ips where ips: "res = Ok ips" "ips \<noteq> []" by blast
    let ?four = "filter (\<lambda>v. addr_is4 (addr_unmap v)) ips" and ?six = "filter (\<lambda>v. \<not> addr_is4 (addr_unmap v)) ips"
    let ?l = "if ?four \<noteq> [] then ?four else ?six"
    have l: "?l \<noteq> []" using ips(2) by (auto simp: filter_empty_conv)
    then have i: "leRandom E (length ?l) < length ?l" using assms(2) by simp
    then have "?l ! leRandom E (length ?l) \<in> set ?l" by (rule nth_mem)
    moreover have "ResolveIPWithResolver E host r = Done (Ok (?l ! leRandom E (length ?l)))"
      using res ips l i by (simp add: ResolveIPWithResolver_def resolve_one_def SortationAddr_def pick_random_def Let_def)
    ultimately show ?thesis using res ips by (auto simp: filter_empty_conv split: if_splits)
  qed
qed

definition sample_lookup :: lookup_env where
  "sample_lookup = \<lparr>leHosts = newNode, leDisableIPv6 = False,
     leDefaultResolver = Some \<lparr>rifLookupIP = (\<lambda>h. Ok [Addr6 1 [], Addr4 7]), rifLookupIPv4 = (\<lambda>h. Ok [Addr4 7]), rifLookupIPv6 = (\<lambda>h. Ok [Addr6 1 []]), rifInvalid = True\<rparr>,
     leProxyServerHostResolver = None, leStatic = (\<lambda>h. []), leParseAddr = (\<lambda>h. None), leSystem = (\<lambda>n h. Ok []), leRandom = (\<lambda>n. n - 1)\<rparr>"

lemma Search_empty: "node_data (Search newNode d) = None"
proof -
  have "isEmpty (search_path newNode ps)" for ps :: "string list"
    unfolding isEmpty_iff search_path_candidates by (auto simp: first_some_None_iff)
  then show ?thesis by (auto simp: Search_def Let_def node_data_def split: option.splits)
qed

lemma ranked_empty: "ranked newNode (\<lambda>d. 0)"
  by (simp add: ranked_def Search_empty)

lemma ResolveIP_prefers_ipv4_witness: "ResolveIP sample_lookup ''a.b'' = Done (Ok (Addr4 7))"
proof -
  have "NewHostValue (\<lambda>h. None) (HList []) = None" by code_simp
  then have h: "hosts_ips sample_lookup ''a.b'' = Done None" by (simp add: hosts_ips_def sample_lookup_def Hosts_Search_def Search_empty)
  then have l: "LookupIPWithResolver sample_lookup ''a.b'' (leDefaultResolver sample_lookup) = Done (Ok [Addr6 1 [], Addr4 7])"
    by (simp add: LookupIPWithResolver_def usable_resolver_def) (simp add: sample_lookup_def)
  have "ranked (leHosts sample_lookup) (\<lambda>d. 0)" "\<forall>n > 0. leRandom sample_lookup n < n"
    by (simp_all add: sample_lookup_def ranked_empty)
  from ResolveIP_prefers_ipv4 [OF this, of "''a.b''" "leDefaultResolver sample_lookup"] l
  show ?thesis by (auto simp: ResolveIP_def ResolveIPWithResolver_def resolve_one_def SortationAddr_def pick_random_def)
qed

end
