(* ===== verification/GroupSort.thy ===== *)
theory GroupSort
  imports Prelude "HOL-Library.Multiset"
begin

text \<open>
  The order of the proxy groups (\<open>proxyGroupsDagSort\<close> of \<open>config/utils.go\<close>): a topological sort, which puts a group after
  the groups it uses, and the report of the groups in a loop.

  The graph is an association list. Go goes over a map in any order; \<open>ord i\<close> is the order of the \<open>i\<close>th loop over the graph.
  The decoder of the configuration is an argument. A nil pointer that is dereferenced panics.
\<close>

record group_option =
  goName :: string
  goProxies :: "string list"

record 'm gnode =
  gnIndegree :: int
  gnTopo :: int
  gnData :: "'m option"
  gnOutdegree :: int
  gnOption :: "string list option"
  gnFrom :: "string list"

type_synonym 'm ggraph = "(string \<times> 'm gnode) list"

datatype 'e dag_error = DecodeError 'e | DuplicateName string | LoopDetected "string list"

section \<open>The graph\<close>

fun link_proxies :: "string list \<Rightarrow> 'm ggraph \<Rightarrow> 'm ggraph" where
  "link_proxies [] g = g"
| "link_proxies (p # ps) g =
     link_proxies ps
       (case map_of g p of
          Some nd \<Rightarrow> AList.update p (nd\<lparr>gnIndegree := gnIndegree nd + 1\<rparr>) g
        | None \<Rightarrow> AList.update p
            \<lparr>gnIndegree = 1, gnTopo = -1, gnData = None, gnOutdegree = 0, gnOption = None, gnFrom = []\<rparr> g)"

fun build_graph :: "('m \<Rightarrow> ('e, group_option) go_result) \<Rightarrow> 'm list \<Rightarrow> 'm ggraph \<Rightarrow> ('e dag_error, 'm ggraph) go_result" where
  "build_graph decode [] g = Ok g"
| "build_graph decode (m # ms) g =
     (case decode m of
        Err e \<Rightarrow> Err (DecodeError e)
      | Ok opt \<Rightarrow>
          (case map_of g (goName opt) of
             Some nd \<Rightarrow>
               if gnData nd \<noteq> None then Err (DuplicateName (goName opt))
               else build_graph decode ms (link_proxies (goProxies opt)
                      (AList.update (goName opt) (nd\<lparr>gnData := Some m, gnOption := Some (goProxies opt)\<rparr>) g))
           | None \<Rightarrow>
               build_graph decode ms (link_proxies (goProxies opt)
                 (AList.update (goName opt)
                   \<lparr>gnIndegree = 0, gnTopo = -1, gnData = Some m, gnOutdegree = 0, gnOption = Some (goProxies opt), gnFrom = []\<rparr> g))))"

section \<open>The sort\<close>

text \<open>The edges of one group are taken away: the graph, and the queue with the nodes that are left without one.\<close>

fun dec_in :: "string list \<Rightarrow> 'm ggraph \<Rightarrow> string list \<Rightarrow> ('m ggraph \<times> string list) outcome" where
  "dec_in [] g queue = Done (g, queue)"
| "dec_in (p # ps) g queue =
     (case map_of g p of
        None \<Rightarrow> Panicked
      | Some child \<Rightarrow>
          let child' = child\<lparr>gnIndegree := gnIndegree child - 1\<rparr>
          in dec_in ps (AList.update p child' g) (if gnIndegree child' = 0 then queue @ [p] else queue))"

lemma keys_update_known: "map_of g p = Some x \<Longrightarrow> map fst (AList.update p y g) = map fst g"
  by (induction g) auto

lemma dec_in_keys: "dec_in ps g queue = Done (g', queue') \<Longrightarrow> map fst g' = map fst g"
  by (induction ps g queue rule: dec_in.induct) (auto simp: Let_def keys_update_known split: option.splits)

lemma length_delete_known: "k \<in> fst ` set g \<Longrightarrow> length (AList.delete k g) < length g"
  by (induction g) (auto intro: le_imp_less_Suc length_delete_le)

function kahn :: "'m ggraph \<Rightarrow> string list \<Rightarrow> nat \<Rightarrow> 'm list \<Rightarrow> ('m ggraph \<times> 'm list) outcome" where
  "kahn g [] index groups = Done (g, groups)"
| "kahn g (name # queue) index groups =
     (case map_of g name of
        None \<Rightarrow> Panicked
      | Some nd \<Rightarrow>
          (case gnOption nd of
             None \<Rightarrow> kahn (AList.delete name g) queue index groups
           | Some proxies \<Rightarrow>
               if length groups < index + 1 then Panicked
               else
                 let groups' = groups[length groups - (index + 1) := the (gnData nd)]
                 in if proxies = [] then kahn (AList.delete name g) queue (index + 1) groups'
                    else obind (dec_in proxies g queue) (\<lambda>gq.
                           kahn (AList.delete name (fst gq)) (snd gq) (index + 1) groups')))"
  by pat_completeness auto
termination
proof (relation "measure (\<lambda>(g, queue, index, groups). length g)")
  fix g :: "'m ggraph" and name queue index groups nd proxies groups' gq
  assume "map_of g name = Some nd" "dec_in proxies g queue = Done gq"
  then have "length (AList.delete name (fst gq)) < length (fst gq)" "length (fst gq) = length g"
    using dec_in_keys [of proxies g queue "fst gq" "snd gq"]
    by (metis length_delete_known list.set_map map_of_eq_None_iff option.distinct(1) prod.collapse, metis length_map prod.collapse)
  then show "((AList.delete name (fst gq), snd gq, index + 1, groups'), g, name # queue, index, groups)
      \<in> measure (\<lambda>(g, queue, index, groups). length g)" by simp
qed (force intro!: length_delete_known dest: map_of_SomeD)+

section \<open>The loops\<close>

fun link_from :: "string \<Rightarrow> string list \<Rightarrow> 'm ggraph \<Rightarrow> 'm ggraph outcome" where
  "link_from name [] g = Done g"
| "link_from name (p # ps) g =
     (case map_of g name of
        None \<Rightarrow> Panicked
      | Some nd \<Rightarrow>
          let g1 = AList.update name (nd\<lparr>gnOutdegree := gnOutdegree nd + 1\<rparr>) g
          in case map_of g1 p of
               None \<Rightarrow> Panicked
             | Some child \<Rightarrow> link_from name ps (AList.update p (child\<lparr>gnFrom := gnFrom child @ [name]\<rparr>) g1))"

fun rebuild :: "string list \<Rightarrow> 'm ggraph \<Rightarrow> 'm ggraph outcome" where
  "rebuild [] g = Done g"
| "rebuild (name # names) g =
     (case map_of g name of
        None \<Rightarrow> Panicked
      | Some nd \<Rightarrow>
          (case gnOption nd of
             None \<Rightarrow> rebuild names g
           | Some proxies \<Rightarrow> if proxies = [] then rebuild names g else obind (link_from name proxies g) (rebuild names)))"

fun dec_out :: "string list \<Rightarrow> 'm ggraph \<Rightarrow> string list \<Rightarrow> ('m ggraph \<times> string list) outcome" where
  "dec_out [] g queue = Done (g, queue)"
| "dec_out (f # fs) g queue =
     (case map_of g f of
        None \<Rightarrow> Panicked
      | Some nd \<Rightarrow>
          let nd' = nd\<lparr>gnOutdegree := gnOutdegree nd - 1\<rparr>
          in dec_out fs (AList.update f nd' g) (if gnOutdegree nd' = 0 then queue @ [f] else queue))"

lemma dec_out_keys: "dec_out ps g queue = Done (g', queue') \<Longrightarrow> map fst g' = map fst g"
  by (induction ps g queue rule: dec_out.induct) (auto simp: Let_def keys_update_known split: option.splits)

function prune :: "'m ggraph \<Rightarrow> string list \<Rightarrow> 'm ggraph outcome" where
  "prune g [] = Done g"
| "prune g (name # queue) =
     (case map_of g name of
        None \<Rightarrow> Panicked
      | Some nd \<Rightarrow> obind (dec_out (gnFrom nd) g queue) (\<lambda>gq. prune (AList.delete name (fst gq)) (snd gq)))"
  by pat_completeness auto
termination
proof (relation "measure (\<lambda>(g, queue). length g)")
  fix g :: "'m ggraph" and name queue nd gq
  assume "map_of g name = Some nd" "dec_out (gnFrom nd) g queue = Done gq"
  then have "length (AList.delete name (fst gq)) < length (fst gq)" "length (fst gq) = length g"
    using dec_out_keys [of "gnFrom nd" g queue "fst gq" "snd gq"]
    by (metis length_delete_known list.set_map map_of_eq_None_iff option.distinct(1) prod.collapse, metis length_map prod.collapse)
  then show "((AList.delete name (fst gq), snd gq), g, name # queue) \<in> measure (\<lambda>(g, queue). length g)" by simp
qed simp

definition proxyGroupsDagSort ::
  "('m \<Rightarrow> ('e, group_option) go_result) \<Rightarrow> (nat \<Rightarrow> string list \<Rightarrow> string list) \<Rightarrow> 'm list \<Rightarrow> ('e dag_error, 'm list) go_result outcome" where
  "proxyGroupsDagSort decode ord groupsConfig =
     (case build_graph decode groupsConfig [] of
        Err e \<Rightarrow> Done (Err e)
      | Ok g \<Rightarrow>
          obind (kahn g (filter (\<lambda>n. gnIndegree (the (map_of g n)) = 0) (ord 1 (map fst g))) 0 groupsConfig) (\<lambda>(g1, groups).
            if g1 = [] then Done (Ok groups)
            else obind (rebuild (ord 2 (map fst g1)) g1) (\<lambda>g2.
                 obind (prune g2 (filter (\<lambda>n. gnOutdegree (the (map_of g2 n)) = 0) (ord 3 (map fst g2)))) (\<lambda>g3.
                   Done (Err (LoopDetected (ord 4 (map fst g3))))))))"


section \<open>Peeling a graph\<close>

text \<open>Both loops over a queue do the same: they take away the nodes without an edge, and count down the edges of the nodes next
  to them. What they keep, for the nodes \<open>V\<close>, of which \<open>R\<close> are left and \<open>L\<close> were taken away in this order.\<close>

definition degree :: "(string \<Rightarrow> string list) \<Rightarrow> string set \<Rightarrow> string \<Rightarrow> int" where
  "degree nxt R n = int (\<Sum>m\<in>R. count_list (nxt m) n)"

definition peel_inv ::
  "(string \<Rightarrow> string list) \<Rightarrow> string set \<Rightarrow> string set \<Rightarrow> (string \<Rightarrow> int) \<Rightarrow> string list \<Rightarrow> string list \<Rightarrow> bool" where
  "peel_inv nxt V R deg Q L \<longleftrightarrow>
     finite V \<and> (\<forall>m \<in> V. set (nxt m) \<subseteq> V) \<and> distinct L \<and> set L \<inter> R = {} \<and> set L \<union> R = V \<and>
     (\<forall>n \<in> R. deg n = degree nxt R n) \<and> distinct Q \<and> set Q = {n \<in> R. deg n = 0} \<and>
     (\<forall>L1 n L2. L = L1 @ n # L2 \<longrightarrow> (\<forall>m \<in> V. n \<in> set (nxt m) \<longrightarrow> m \<in> set L1))"

text \<open>The nodes that counting down adds to the queue.\<close>

fun zeros :: "string list \<Rightarrow> (string \<Rightarrow> int) \<Rightarrow> string list" where
  "zeros [] d = []"
| "zeros (p # ps) d = (let d' = d(p := d p - 1) in (if d' p = 0 then [p] else []) @ zeros ps d')"

lemma zeros_spec:
  "(\<And>n. n \<in> set ps \<Longrightarrow> int (count_list ps n) \<le> d n) \<Longrightarrow>
   distinct (zeros ps d) \<and> set (zeros ps d) = {n \<in> set ps. d n = int (count_list ps n)}"
proof (induction ps arbitrary: d)
  case (Cons p ps)
  let ?d = "d(p := d p - 1)"
  have d: "int (count_list ps n) \<le> ?d n" if "n \<in> set ps" for n
    using Cons.prems [of n] that by (auto split: if_splits)
  note ih = Cons.IH [of ?d, OF d]
  have p: "int (count_list ps p) + 1 \<le> d p" using Cons.prems [of p] by simp
  have c: "p \<in> set ps \<longleftrightarrow> count_list ps p \<noteq> 0" by (simp add: count_list_0_iff)
  have s: "{n \<in> set (p # ps). d n = int (count_list (p # ps) n)} =
      (if d p - 1 = 0 then {p} else {}) \<union> {n \<in> set ps. ?d n = int (count_list ps n)}" (is "?l = ?r")
  proof (rule set_eqI)
    fix n show "n \<in> ?l \<longleftrightarrow> n \<in> ?r" using p c by (cases "n = p") auto
  qed
  show ?case
  proof (cases "d p - 1 = 0")
    case True
    with p have "p \<notin> set ps" unfolding c by simp
    moreover have "zeros (p # ps) d = p # zeros ps ?d" using True by (simp add: Let_def)
    ultimately show ?thesis using ih True unfolding s by (simp del: zeros.simps fun_upd_apply)
  next
    case False
    then have "zeros (p # ps) d = zeros ps ?d" by (simp add: Let_def)
    with ih False show ?thesis unfolding s by (simp del: zeros.simps fun_upd_apply)
  qed
qed simp

lemma degree_count: "finite R \<Longrightarrow> m \<in> R \<Longrightarrow> int (count_list (nxt m) n) \<le> degree nxt R n"
  using member_le_sum [of m R "\<lambda>m. count_list (nxt m) n"] unfolding degree_def of_nat_le_iff by simp

lemma degree_remove: "finite R \<Longrightarrow> m \<in> R \<Longrightarrow> degree nxt (R - {m}) n = degree nxt R n - int (count_list (nxt m) n)"
  unfolding degree_def by (subst sum.remove [of R m]) simp_all

lemma degree_0: "finite R \<Longrightarrow> degree nxt R n = 0 \<longleftrightarrow> (\<forall>m \<in> R. n \<notin> set (nxt m))"
  unfolding degree_def of_nat_eq_0_iff by (simp add: count_list_0_iff)

lemma peel_invD:
  assumes "peel_inv nxt V R deg Q L"
  shows "finite V" "\<And>m n. m \<in> V \<Longrightarrow> n \<in> set (nxt m) \<Longrightarrow> n \<in> V" "distinct L" "\<And>n. n \<in> R \<Longrightarrow> n \<notin> set L" "R \<subseteq> V" "finite R"
    "\<And>n. n \<in> V \<Longrightarrow> n \<in> set L \<or> n \<in> R" "\<And>n. n \<in> R \<Longrightarrow> deg n = degree nxt R n" "distinct Q" "\<And>n. n \<in> set Q \<longleftrightarrow> n \<in> R \<and> deg n = 0"
    "\<And>L1 n L2 m. L = L1 @ n # L2 \<Longrightarrow> m \<in> V \<Longrightarrow> n \<in> set (nxt m) \<Longrightarrow> m \<in> set L1" "set L \<union> R = V"
  using assms unfolding peel_inv_def by (blast | simp | metis finite_Un)+

lemma peel_inv_closed:
  assumes "peel_inv nxt V R deg Q L" "x \<in> R" "n \<in> set (nxt x)"
  shows "n \<in> R"
proof -
  note d = peel_invD [OF assms(1)]
  have V: "x \<in> V" using assms(2) d(5) by blast
  have "n \<notin> set L"
  proof
    assume "n \<in> set L"
    then obtain L1 L2 where L: "L = L1 @ n # L2" by (meson split_list)
    with d(11) [OF L V assms(3)] d(4) [OF assms(2)] show False by simp
  qed
  then show ?thesis using d(7) [OF d(2) [OF V assms(3)]] by blast
qed

lemma peel_inv_next:
  assumes "peel_inv nxt V R deg (x # Q) L"
  shows "x \<in> R" "set (nxt x) \<subseteq> R - {x}" "\<And>n. n \<in> R \<Longrightarrow> int (count_list (nxt x) n) \<le> deg n" "finite R"
proof -
  note d = peel_invD [OF assms]
  show f: "finite R" by (rule d(6))
  show x: "x \<in> R" using d(10) [of x] by simp
  show "\<And>n. n \<in> R \<Longrightarrow> int (count_list (nxt x) n) \<le> deg n" using degree_count [OF f x] d(8) by simp
  have "degree nxt R x = 0" using d(10) [of x] d(8) [OF x] by simp
  with x have "x \<notin> set (nxt x)" unfolding degree_0 [OF f] by blast
  then show "set (nxt x) \<subseteq> R - {x}" using peel_inv_closed [OF assms x] by blast
qed

lemma peel_inv_step:
  assumes "peel_inv nxt V R deg (x # Q) L" "\<And>n. n \<in> R - {x} \<Longrightarrow> deg' n = deg n - int (count_list (nxt x) n)"
  shows "peel_inv nxt V (R - {x}) deg' (Q @ zeros (nxt x) deg) (L @ [x])"
proof -
  note nx = peel_inv_next [OF assms(1)] and d = peel_invD [OF assms(1)]
  have "distinct (zeros (nxt x) deg) \<and> set (zeros (nxt x) deg) = {n \<in> set (nxt x). deg n = int (count_list (nxt x) n)}"
    by (rule zeros_spec, rule nx(3)) (use nx(2) in blast)
  then have z: "distinct (zeros (nxt x) deg)" "\<And>n. n \<in> set (zeros (nxt x) deg) \<longleftrightarrow> n \<in> set (nxt x) \<and> deg n = int (count_list (nxt x) n)"
    by simp_all
  have deg: "deg' n = degree nxt (R - {x}) n" if "n \<in> R - {x}" for n
    using assms(2) [OF that] d(8) [of n] that degree_remove [OF nx(4,1), of nxt n] by simp
  have Q: "x \<notin> set Q" "distinct Q" "\<And>n. n \<noteq> x \<Longrightarrow> n \<in> set Q \<longleftrightarrow> n \<in> R \<and> deg n = 0" "deg x = 0" using d(9) d(10) [of x] d(10) by auto
  have mem: "n \<in> set (nxt x) \<longleftrightarrow> count_list (nxt x) n \<noteq> 0" for n by (simp add: count_list_0_iff)
  have s: "n \<in> set Q \<or> n \<in> set (zeros (nxt x) deg) \<longleftrightarrow> n \<in> R - {x} \<and> deg' n = 0" for n
  proof (cases "n \<in> R - {x}")
    case True
    then show ?thesis using Q(3) [of n] z(2) [of n] assms(2) [OF True] mem [of n] nx(3) [of n] by auto
  next
    case False
    then have "n \<notin> set Q" using Q(1) Q(3) [of n] by (cases "n = x") auto
    moreover have "n \<notin> set (nxt x)" using False nx(2) by blast
    ultimately show ?thesis using False z(2) by blast
  qed
  have "n \<notin> set (zeros (nxt x) deg)" if "n \<in> set Q" for n
  proof -
    from that Q have "n \<in> R" "deg n = 0" by (metis, metis)
    then have "count_list (nxt x) n = 0" using nx(3) [of n] by simp
    then show ?thesis using z(2) mem by blast
  qed
  with Q(2) z(1) have dQ: "distinct (Q @ zeros (nxt x) deg)" by auto
  have deg_x: "degree nxt R x = 0" using d(8) [OF nx(1)] Q(4) by simp
  have xs: "m \<in> set L" if "m \<in> V" "x \<in> set (nxt m)" for m
    using d(7) [OF that(1)] deg_x that(2) unfolding degree_0 [OF nx(4)] by blast
  have t: "m \<in> set L1" if "L @ [x] = L1 @ n # L2" "m \<in> V" "n \<in> set (nxt m)" for L1 n L2 m
  proof (cases L2 rule: rev_cases)
    case Nil
    with that xs show ?thesis by simp
  next
    case (snoc L3 y)
    with that(1) have "L = L1 @ n # L3" by simp
    from d(11) [OF this that(2,3)] show ?thesis .
  qed
  show ?thesis unfolding peel_inv_def
  proof (intro conjI ballI allI impI)
    show "finite V" "distinct (Q @ zeros (nxt x) deg)" by (fact d(1), fact dQ)
    show "set (nxt m) \<subseteq> V" if "m \<in> V" for m using d(2) [OF that] by blast
    show "distinct (L @ [x])" using d(3) d(4) [OF nx(1)] by simp
    show "set (L @ [x]) \<inter> (R - {x}) = {}" using d(4) by auto
    show "set (L @ [x]) \<union> (R - {x}) = V" using d(12) nx(1) by auto
    show "set (Q @ zeros (nxt x) deg) = {n \<in> R - {x}. deg' n = 0}" using s by auto
  qed (use deg t in blast)+
qed

text \<open>When the queue is empty, each node that is left has an edge from another one that is left.\<close>

lemma peel_inv_end: "peel_inv nxt V R deg [] L \<Longrightarrow> n \<in> R \<Longrightarrow> \<exists>m \<in> R. n \<in> set (nxt m)"
  using degree_0 [of R nxt n] peel_invD(6,8,10) [of nxt V R deg "[]" L] by auto

definition edges :: "(string \<Rightarrow> string list) \<Rightarrow> string set \<Rightarrow> (string \<times> string) set" where
  "edges nxt V = {(m, n). m \<in> V \<and> n \<in> set (nxt m)}"

lemma peel_inv_acyclic:
  assumes "peel_inv nxt V {} deg Q L"
  shows "acyclic (edges nxt V)"
proof -
  note d = peel_invD [OF assms]
  let ?pos = "\<lambda>n. length (takeWhile (\<lambda>m. m \<noteq> n) L)"
  have pos: "?pos k = length A" if "L = A @ k # B" "k \<notin> set A" for k A B
    using that by (auto simp: takeWhile_append)
  have "?pos m < ?pos n" if m: "m \<in> V" "n \<in> set (nxt m)" for m n
  proof -
    have "n \<in> set L" using d(7) [OF d(2) [OF m]] by simp
    then obtain L1 L2 where L: "L = L1 @ n # L2" "n \<notin> set L1" by (meson split_list_first)
    from d(11) [OF L(1) m] obtain L3 L4 where L3: "L1 = L3 @ m # L4" "m \<notin> set L3" by (meson split_list_first)
    with L(1) have "L = L3 @ m # (L4 @ n # L2)" by simp
    from pos [OF this L3(2)] pos [OF L] L3(1) show ?thesis by simp
  qed
  then have "edges nxt V \<subseteq> measure ?pos" by (auto simp: edges_def)
  then show ?thesis by (meson wf_acyclic wf_measure wf_subset)
qed

lemma all_used_cyclic:
  assumes "finite R" "R \<noteq> {}" "\<And>n. n \<in> R \<Longrightarrow> \<exists>m \<in> R. n \<in> set (nxt m)"
  shows "\<not> acyclic (edges nxt R)"
proof
  assume "acyclic (edges nxt R)"
  moreover have "finite (edges nxt R)"
    by (rule finite_subset [of _ "R \<times> (\<Union>m \<in> R. set (nxt m))"]) (use assms(1) in \<open>auto simp: edges_def\<close>)
  ultimately have "wf (edges nxt R)" by (rule finite_acyclic_wf [rotated])
  then obtain z where z: "z \<in> R" "\<And>y. (y, z) \<in> edges nxt R \<Longrightarrow> y \<notin> R" using assms(2) by (metis wfE_min ex_in_conv)
  with assms(3) [OF z(1)] obtain m where "m \<in> R" "z \<in> set (nxt m)" by blast
  with z(2) [of m] show False by (simp add: edges_def)
qed

lemma edges_mono: "R \<subseteq> V \<Longrightarrow> edges nxt R \<subseteq> edges nxt V"
  by (auto simp: edges_def)


section \<open>The sort is a peeling\<close>

lemma map_of_update_known: "map_of (AList.update p y g) = (map_of g)(p \<mapsto> y)"
  by (rule update_conv')

lemma dec_in_spec:
  assumes "set ps \<subseteq> fst ` set g"
  shows "\<exists>g'. dec_in ps g queue = Done (g', queue @ zeros ps (\<lambda>n. gnIndegree (the (map_of g n)))) \<and> map fst g' = map fst g \<and>
    (\<forall>n. map_of g' n = map_option (\<lambda>nd. nd\<lparr>gnIndegree := gnIndegree nd - int (count_list ps n)\<rparr>) (map_of g n))"
  using assms
proof (induction ps arbitrary: g queue)
  case (Cons p ps)
  then obtain nd where nd: "map_of g p = Some nd" by (cases "map_of g p") (auto simp: map_of_eq_None_iff)
  let ?g = "AList.update p (nd\<lparr>gnIndegree := gnIndegree nd - 1\<rparr>) g"
  have k: "map fst ?g = map fst g" using nd by (rule keys_update_known)
  then have "set ps \<subseteq> fst ` set ?g" using Cons.prems by (metis list.set_map set_subset_Cons subset_trans)
  from Cons.IH [OF this] obtain g' where g': "dec_in ps ?g (if gnIndegree nd - 1 = 0 then queue @ [p] else queue) =
        Done (g', (if gnIndegree nd - 1 = 0 then queue @ [p] else queue) @ zeros ps (\<lambda>n. gnIndegree (the (map_of ?g n))))"
      "map fst g' = map fst ?g"
      "\<forall>n. map_of g' n = map_option (\<lambda>nd. nd\<lparr>gnIndegree := gnIndegree nd - int (count_list ps n)\<rparr>) (map_of ?g n)" by blast
  have d: "(\<lambda>n. gnIndegree (the (map_of ?g n))) = (\<lambda>n. gnIndegree (the (map_of g n)))(p := gnIndegree (the (map_of g p)) - 1)"
    using nd by (auto simp: map_of_update_known fun_eq_iff)
  show ?case using g' nd k unfolding d
    by (intro exI [of _ g']) (auto simp: Let_def map_of_update_known)
qed (simp add: option.map_ident)

lemma dec_out_spec:
  assumes "set ps \<subseteq> fst ` set g"
  shows "\<exists>g'. dec_out ps g queue = Done (g', queue @ zeros ps (\<lambda>n. gnOutdegree (the (map_of g n)))) \<and> map fst g' = map fst g \<and>
    (\<forall>n. map_of g' n = map_option (\<lambda>nd. nd\<lparr>gnOutdegree := gnOutdegree nd - int (count_list ps n)\<rparr>) (map_of g n))"
  using assms
proof (induction ps arbitrary: g queue)
  case (Cons p ps)
  then obtain nd where nd: "map_of g p = Some nd" by (cases "map_of g p") (auto simp: map_of_eq_None_iff)
  let ?g = "AList.update p (nd\<lparr>gnOutdegree := gnOutdegree nd - 1\<rparr>) g"
  have k: "map fst ?g = map fst g" using nd by (rule keys_update_known)
  then have "set ps \<subseteq> fst ` set ?g" using Cons.prems by (metis list.set_map set_subset_Cons subset_trans)
  from Cons.IH [OF this] obtain g' where g': "dec_out ps ?g (if gnOutdegree nd - 1 = 0 then queue @ [p] else queue) =
        Done (g', (if gnOutdegree nd - 1 = 0 then queue @ [p] else queue) @ zeros ps (\<lambda>n. gnOutdegree (the (map_of ?g n))))"
      "map fst g' = map fst ?g"
      "\<forall>n. map_of g' n = map_option (\<lambda>nd. nd\<lparr>gnOutdegree := gnOutdegree nd - int (count_list ps n)\<rparr>) (map_of ?g n)" by blast
  have d: "(\<lambda>n. gnOutdegree (the (map_of ?g n))) = (\<lambda>n. gnOutdegree (the (map_of g n)))(p := gnOutdegree (the (map_of g p)) - 1)"
    using nd by (auto simp: map_of_update_known fun_eq_iff)
  show ?case using g' nd k unfolding d
    by (intro exI [of _ g']) (auto simp: Let_def map_of_update_known)
qed (simp add: option.map_ident)


definition group_of :: "('m \<Rightarrow> group_option) \<Rightarrow> 'm list \<Rightarrow> string \<Rightarrow> 'm option" where
  "group_of opt cs n = find (\<lambda>m. goName (opt m) = n) cs"

text \<open>What a name uses: the proxies of the group of that name.\<close>

definition uses :: "('m \<Rightarrow> group_option) \<Rightarrow> 'm list \<Rightarrow> string \<Rightarrow> string list" where
  "uses opt cs n = (case group_of opt cs n of None \<Rightarrow> [] | Some m \<Rightarrow> goProxies (opt m))"

definition group_names :: "('m \<Rightarrow> group_option) \<Rightarrow> 'm list \<Rightarrow> string list" where
  "group_names opt cs = map (\<lambda>m. goName (opt m)) cs"

definition all_names :: "('m \<Rightarrow> group_option) \<Rightarrow> 'm list \<Rightarrow> string set" where
  "all_names opt cs = (\<Union>m \<in> set cs. insert (goName (opt m)) (set (goProxies (opt m))))"

lemma group_of_None: "group_of opt cs n = None \<longleftrightarrow> n \<notin> set (group_names opt cs)"
  by (auto simp: group_of_def group_names_def find_None_iff)

lemma group_of_name: "distinct (group_names opt cs) \<Longrightarrow> m \<in> set cs \<Longrightarrow> group_of opt cs (goName (opt m)) = Some m"
  unfolding group_of_def group_names_def by (induction cs) force+

lemma group_of_Some: "group_of opt cs n = Some m \<Longrightarrow> m \<in> set cs \<and> goName (opt m) = n"
  unfolding group_of_def by (auto simp: find_Some_iff)

lemma group_of_snoc: "group_of opt (cs @ [m]) n = (case group_of opt cs n of Some x \<Rightarrow> Some x | None \<Rightarrow> if goName (opt m) = n then Some m else None)"
  unfolding group_of_def by (induction cs) auto

lemma finite_all_names: "finite (all_names opt cs)"
  by (simp add: all_names_def)

lemma uses_in_all: "n \<in> set (uses opt cs x) \<Longrightarrow> n \<in> all_names opt cs"
  by (cases "group_of opt cs x") (auto simp: uses_def all_names_def dest!: group_of_Some)

lemma degree_uses:
  assumes "distinct (group_names opt cs)"
  shows "degree (uses opt cs) (all_names opt cs) n = int (\<Sum>m\<leftarrow>cs. count_list (goProxies (opt m)) n)"
proof -
  have "(\<Sum>x\<in>all_names opt cs. count_list (uses opt cs x) n) = (\<Sum>x\<in>set (group_names opt cs). count_list (uses opt cs x) n)"
  proof (rule sum.mono_neutral_right)
    show "set (group_names opt cs) \<subseteq> all_names opt cs" by (auto simp: group_names_def all_names_def)
    show "\<forall>x \<in> all_names opt cs - set (group_names opt cs). count_list (uses opt cs x) n = 0"
      unfolding group_of_None [symmetric, of _ opt cs] uses_def by (auto simp: group_of_None [symmetric])
  qed (rule finite_all_names)
  also have "\<dots> = (\<Sum>x\<leftarrow>group_names opt cs. count_list (uses opt cs x) n)" using assms by (rule sum_list_distinct_conv_sum_set [symmetric])
  also have "\<dots> = (\<Sum>m\<leftarrow>cs. count_list (goProxies (opt m)) n)"
    unfolding group_names_def map_map
    by (intro arg_cong [of _ _ sum_list] map_cong refl) (simp add: uses_def group_of_name [OF assms])
  finally show ?thesis by (simp add: degree_def)
qed

subsection \<open>Building the graph\<close>

definition graph_ok :: "('m \<Rightarrow> group_option) \<Rightarrow> 'm list \<Rightarrow> 'm ggraph \<Rightarrow> bool" where
  "graph_ok opt cs g \<longleftrightarrow> distinct (map fst g) \<and>
     (\<forall>n nd. map_of g n = Some nd \<longrightarrow> gnData nd = group_of opt cs n \<and>
        gnOption nd = map_option (\<lambda>m. goProxies (opt m)) (group_of opt cs n) \<and> gnOutdegree nd = 0 \<and> gnFrom nd = [])"

lemma link_proxies_spec:
  "map_of (link_proxies ps g) n =
     (case map_of g n of
        Some nd \<Rightarrow> Some (nd\<lparr>gnIndegree := gnIndegree nd + int (count_list ps n)\<rparr>)
      | None \<Rightarrow> if n \<in> set ps
          then Some \<lparr>gnIndegree = int (count_list ps n), gnTopo = -1, gnData = None, gnOutdegree = 0, gnOption = None, gnFrom = []\<rparr>
          else None)"
  by (induction ps arbitrary: g) (auto simp: update_conv' split: option.splits)

lemma link_proxies_distinct: "distinct (map fst g) \<Longrightarrow> distinct (map fst (link_proxies ps g))"
  by (induction ps arbitrary: g) (auto simp: distinct_update split: option.splits)

definition build_inv :: "('m \<Rightarrow> group_option) \<Rightarrow> 'm list \<Rightarrow> 'm ggraph \<Rightarrow> bool" where
  "build_inv opt cs g \<longleftrightarrow> graph_ok opt cs g \<and> (\<forall>n. map_of g n = None \<longleftrightarrow> n \<notin> all_names opt cs) \<and>
     (\<forall>n nd. map_of g n = Some nd \<longrightarrow> gnIndegree nd = int (\<Sum>m\<leftarrow>cs. count_list (goProxies (opt m)) n))"

lemma sum_count_0: "n \<notin> all_names opt cs \<Longrightarrow> (\<Sum>m\<leftarrow>cs. count_list (goProxies (opt m)) n) = 0"
  by (induction cs) (auto simp: all_names_def count_list_0_iff)

lemma build_step:
  assumes "build_inv opt cs g" "goName (opt m) \<notin> set (group_names opt cs)"
    and "g1 = link_proxies (goProxies (opt m)) (AList.update (goName (opt m)) nd1 g)"
    and "nd1 = (case map_of g (goName (opt m)) of
        Some nd \<Rightarrow> nd\<lparr>gnData := Some m, gnOption := Some (goProxies (opt m))\<rparr>
      | None \<Rightarrow> \<lparr>gnIndegree = 0, gnTopo = -1, gnData = Some m, gnOutdegree = 0, gnOption = Some (goProxies (opt m)), gnFrom = []\<rparr>)"
  shows "build_inv opt (cs @ [m]) g1"
proof -
  note i = assms(1) [unfolded build_inv_def graph_ok_def]
  let ?n = "goName (opt m)" and ?s = "\<lambda>n. int (\<Sum>m\<leftarrow>cs. count_list (goProxies (opt m)) n)"
  have nd1: "gnIndegree nd1 = ?s ?n" "gnData nd1 = Some m" "gnOption nd1 = Some (goProxies (opt m))" "gnOutdegree nd1 = 0" "gnFrom nd1 = []"
    using i sum_count_0 [of ?n opt cs] unfolding assms(4) by (auto split: option.splits)
  have g: "group_of opt (cs @ [m]) n = (if n = ?n then Some m else group_of opt cs n)" for n
    using assms(2) by (auto simp: group_of_snoc group_of_None [symmetric] split: option.splits)
  have a: "all_names opt (cs @ [m]) = insert ?n (set (goProxies (opt m)) \<union> all_names opt cs)" by (auto simp: all_names_def)
  have "distinct (map fst g1)" using i unfolding assms(3) by (intro link_proxies_distinct) (simp add: distinct_update)
  moreover have "gnData nd = group_of opt (cs @ [m]) n \<and>
        gnOption nd = map_option (\<lambda>m. goProxies (opt m)) (group_of opt (cs @ [m]) n) \<and> gnOutdegree nd = 0 \<and> gnFrom nd = [] \<and>
        gnIndegree nd = int (\<Sum>m\<leftarrow>cs @ [m]. count_list (goProxies (opt m)) n)" if "map_of g1 n = Some nd" for n nd
  proof (cases "n = ?n")
    case True
    with that nd1 show ?thesis by (auto simp: assms(3) link_proxies_spec update_conv' g)
  next
    case False
    show ?thesis
    proof (cases "map_of g n")
      case None
      then have "n \<notin> all_names opt cs" using i by simp
      then have "group_of opt cs n = None" "(\<Sum>m\<leftarrow>cs. count_list (goProxies (opt m)) n) = 0"
        using sum_count_0 by (auto simp: group_of_None group_names_def all_names_def)
      with None False that show ?thesis by (auto simp: assms(3) link_proxies_spec update_conv' g split: if_splits)
    next
      case (Some nd')
      with i have nd': "gnData nd' = group_of opt cs n" "gnOption nd' = map_option (\<lambda>m. goProxies (opt m)) (group_of opt cs n)"
        "gnOutdegree nd' = 0" "gnFrom nd' = []" "gnIndegree nd' = ?s n" by auto
      from Some False that have "nd = nd'\<lparr>gnIndegree := gnIndegree nd' + int (count_list (goProxies (opt m)) n)\<rparr>"
        by (simp add: assms(3) link_proxies_spec update_conv')
      with nd' False show ?thesis by (simp add: g)
    qed
  qed
  moreover have "map_of g1 n = None \<longleftrightarrow> n \<notin> all_names opt (cs @ [m])" for n
  proof -
    have "map_of g n = None \<longleftrightarrow> n \<notin> all_names opt cs" using i by blast
    then show ?thesis
      by (cases "map_of g n") (simp_all add: assms(3) link_proxies_spec update_conv' a)
  qed
  ultimately show ?thesis unfolding build_inv_def graph_ok_def by blast
qed

lemma build_graph_spec:
  assumes "\<forall>m \<in> set ms. decode m = Ok (opt m)" "build_inv opt cs g" "distinct (group_names opt (cs @ ms))"
  shows "\<exists>g'. build_graph decode ms g = Ok g' \<and> build_inv opt (cs @ ms) g'"
  using assms
proof (induction ms arbitrary: cs g)
  case (Cons m ms)
  have n: "goName (opt m) \<notin> set (group_names opt cs)" using Cons.prems(3) by (auto simp: group_names_def)
  then have "group_of opt cs (goName (opt m)) = None" by (simp add: group_of_None)
  then have d: "map_of g (goName (opt m)) = Some nd \<Longrightarrow> gnData nd = None" for nd
    using Cons.prems(2) by (simp add: build_inv_def graph_ok_def)
  from build_step [OF Cons.prems(2) n refl refl] Cons.prems Cons.IH [of "cs @ [m]"] d show ?case
    by (cases "map_of g (goName (opt m))") auto
qed simp


subsection \<open>The loop\<close>

lemma kahn_step:
  assumes "map_of g name = Some nd" "gnOption nd \<noteq> None \<longrightarrow> index < length groups"
  shows "kahn g (name # queue) index groups =
    obind (dec_in (case gnOption nd of None \<Rightarrow> [] | Some ps \<Rightarrow> ps) g queue) (\<lambda>gq.
      kahn (AList.delete name (fst gq)) (snd gq) (if gnOption nd = None then index else index + 1)
        (if gnOption nd = None then groups else groups[length groups - (index + 1) := the (gnData nd)]))"
  using assms by (cases "gnOption nd") (auto simp: Let_def)

text \<open>The groups among the nodes that were taken away, and the slice that they are written into from its end on.\<close>

definition sorted_out :: "('m \<Rightarrow> group_option) \<Rightarrow> 'm list \<Rightarrow> string list \<Rightarrow> 'm list" where
  "sorted_out opt cs L = map (\<lambda>n. the (group_of opt cs n)) (filter (\<lambda>n. group_of opt cs n \<noteq> None) L)"

lemma sorted_out_snoc:
  "sorted_out opt cs (L @ [n]) = sorted_out opt cs L @ (case group_of opt cs n of None \<Rightarrow> [] | Some m \<Rightarrow> [m])"
  by (simp add: sorted_out_def split: option.split)

lemma length_sorted_out:
  assumes "distinct L"
  shows "length (sorted_out opt cs L) \<le> length cs"
proof -
  have "length (sorted_out opt cs L) = card (set (filter (\<lambda>n. group_of opt cs n \<noteq> None) L))"
    using assms by (simp add: sorted_out_def distinct_card del: set_filter)
  also have "\<dots> \<le> card (set (group_names opt cs))" by (intro card_mono) (auto simp: group_of_None)
  also have "\<dots> \<le> length cs" using card_length [of "group_names opt cs"] by (simp add: group_names_def)
  finally show ?thesis .
qed

definition slice_ok :: "('m \<Rightarrow> group_option) \<Rightarrow> 'm list \<Rightarrow> string list \<Rightarrow> nat \<Rightarrow> 'm list \<Rightarrow> bool" where
  "slice_ok opt cs L index groups \<longleftrightarrow> index = length (sorted_out opt cs L) \<and>
     groups = take (length cs - index) cs @ rev (sorted_out opt cs L)"

lemma update_before_end:
  assumes "length os < length cs"
  shows "(take (length cs - length os) cs @ rev os)[length cs - (length os + 1) := x] = take (length cs - (length os + 1)) cs @ rev (os @ [x])"
proof -
  let ?k = "length cs - (length os + 1)"
  have "length cs - length os = Suc ?k" "?k < length cs" using assms by simp_all
  then have "take (length cs - length os) cs @ rev os = take ?k cs @ cs ! ?k # rev os"
    by (simp add: take_Suc_conv_app_nth)
  moreover have "(take ?k cs @ cs ! ?k # rev os)[length (take ?k cs) := x] = take ?k cs @ x # rev os" by (rule list_update_length)
  ultimately show ?thesis using \<open>?k < length cs\<close> by simp
qed

lemma slice_ok_step:
  assumes "slice_ok opt cs L index groups" "distinct (L @ [n])"
  shows "(group_of opt cs n \<noteq> None \<longrightarrow> index < length groups \<and> length groups = length cs) \<and>
    slice_ok opt cs (L @ [n]) (if group_of opt cs n = None then index else index + 1)
      (if group_of opt cs n = None then groups else groups[length groups - (index + 1) := the (group_of opt cs n)])"
proof (cases "group_of opt cs n")
  case None
  then show ?thesis using assms(1) by (simp add: slice_ok_def sorted_out_snoc)
next
  case (Some m)
  from length_sorted_out [OF assms(2), of opt cs] Some have l: "length (sorted_out opt cs L) < length cs" by (simp add: sorted_out_snoc)
  with assms(1) have "length groups = length cs" by (simp add: slice_ok_def)
  with Some l assms(1) update_before_end [OF l, of m] show ?thesis by (simp add: slice_ok_def sorted_out_snoc)
qed

definition kahn_inv :: "('m \<Rightarrow> group_option) \<Rightarrow> 'm list \<Rightarrow> 'm ggraph \<Rightarrow> string list \<Rightarrow> string list \<Rightarrow> bool" where
  "kahn_inv opt cs g queue L \<longleftrightarrow> graph_ok opt cs g \<and>
     peel_inv (uses opt cs) (all_names opt cs) (fst ` set g) (\<lambda>n. gnIndegree (the (map_of g n))) queue L"

lemma graph_ok_delete: "graph_ok opt cs g \<Longrightarrow> graph_ok opt cs (AList.delete n g)"
  by (auto simp: graph_ok_def delete_conv' distinct_delete split: if_splits)

lemma graph_ok_indegree:
  assumes "graph_ok opt cs g" "map fst g' = map fst g"
    and "\<forall>n. map_of g' n = map_option (\<lambda>nd. nd\<lparr>gnIndegree := gnIndegree nd - int (count_list ps n)\<rparr>) (map_of g n)"
  shows "graph_ok opt cs g'"
  unfolding graph_ok_def
proof (intro conjI allI impI)
  show "distinct (map fst g')" using assms(1,2) by (simp add: graph_ok_def)
  fix n nd assume "map_of g' n = Some nd"
  with assms(3) obtain nd0 where "map_of g n = Some nd0" "nd = nd0\<lparr>gnIndegree := gnIndegree nd0 - int (count_list ps n)\<rparr>" by auto
  with assms(1) show "gnData nd = group_of opt cs n" "gnOption nd = map_option (\<lambda>m. goProxies (opt m)) (group_of opt cs n)"
    "gnOutdegree nd = 0" "gnFrom nd = []" by (simp_all add: graph_ok_def)
qed

lemma keys_None: "map_of g n = None \<longleftrightarrow> n \<notin> fst ` set g"
  by (rule map_of_eq_None_iff)

lemma keys_delete: "fst ` set (AList.delete x g) = fst ` set g - {x}"
  using delete_keys [of x g] by (metis list.set_map set_removeAll)

lemma kahn_inv_step:
  assumes "kahn_inv opt cs g (x # queue) L" "slice_ok opt cs L index groups"
  shows "\<exists>g1 queue1 index1 groups1. kahn g (x # queue) index groups = kahn g1 queue1 index1 groups1 \<and> length g1 < length g \<and>
    kahn_inv opt cs g1 queue1 (L @ [x]) \<and> slice_ok opt cs (L @ [x]) index1 groups1"
proof -
  let ?deg = "\<lambda>n. gnIndegree (the (map_of g n))"
  from assms(1) have ok: "graph_ok opt cs g"
    and inv: "peel_inv (uses opt cs) (all_names opt cs) (fst ` set g) ?deg (x # queue) L" by (auto simp: kahn_inv_def)
  note nx = peel_inv_next [OF inv]
  from nx(1) obtain nd where nd: "map_of g x = Some nd" by (cases "map_of g x") (auto simp: keys_None)
  with ok have d: "gnData nd = group_of opt cs x" "gnOption nd = map_option (\<lambda>m. goProxies (opt m)) (group_of opt cs x)"
    by (simp_all add: graph_ok_def)
  then have ps: "(case gnOption nd of None \<Rightarrow> [] | Some ps \<Rightarrow> ps) = uses opt cs x" "gnOption nd = None \<longleftrightarrow> group_of opt cs x = None"
    by (simp_all add: uses_def split: option.split)
  have "distinct (L @ [x])" using peel_invD(3,4) [OF inv] nx(1) by simp
  note sl = slice_ok_step [OF assms(2) this]
  have "set (uses opt cs x) \<subseteq> fst ` set g" using nx(2) by blast
  from dec_in_spec [OF this, of queue] obtain g' where
    g': "dec_in (uses opt cs x) g queue = Done (g', queue @ zeros (uses opt cs x) ?deg)" "map fst g' = map fst g"
      "\<forall>n. map_of g' n = map_option (\<lambda>nd. nd\<lparr>gnIndegree := gnIndegree nd - int (count_list (uses opt cs x) n)\<rparr>) (map_of g n)" by blast
  let ?g1 = "AList.delete x g'"
  have keys: "fst ` set g' = fst ` set g" using g'(2) by (metis list.set_map)
  have "length ?g1 < length g" using length_delete_known [of x g'] keys nx(1) g'(2) by (metis length_map)
  moreover have "peel_inv (uses opt cs) (all_names opt cs) (fst ` set g - {x}) (\<lambda>n. gnIndegree (the (map_of ?g1 n)))
      (queue @ zeros (uses opt cs x) ?deg) (L @ [x])"
  proof (rule peel_inv_step [OF inv])
    fix n assume "n \<in> fst ` set g - {x}"
    then obtain nd where "map_of g n = Some nd" "n \<noteq> x" by (cases "map_of g n") (auto simp: keys_None)
    with g'(3) show "gnIndegree (the (map_of ?g1 n)) = ?deg n - int (count_list (uses opt cs x) n)" by (simp add: delete_conv')
  qed
  then have "kahn_inv opt cs ?g1 (queue @ zeros (uses opt cs x) ?deg) (L @ [x])"
    using graph_ok_delete [OF graph_ok_indegree [OF ok g'(2,3)]] unfolding kahn_inv_def keys_delete keys by simp
  moreover have "kahn g (x # queue) index groups = kahn ?g1 (queue @ zeros (uses opt cs x) ?deg)
      (if group_of opt cs x = None then index else index + 1)
      (if group_of opt cs x = None then groups else groups[length groups - (index + 1) := the (group_of opt cs x)])"
  proof -
    have c: "gnOption nd \<noteq> None \<longrightarrow> index < length groups" unfolding ps(2) using conjunct1 [OF sl] by auto
    show ?thesis unfolding kahn_step [OF nd c] ps g'(1) d(1) by simp
  qed
  ultimately show ?thesis using sl by blast
qed

lemma kahn_spec:
  assumes "kahn_inv opt cs g queue L" "slice_ok opt cs L index groups"
  shows "\<exists>g' L' index' groups'. kahn g queue index groups = Done (g', groups') \<and> kahn_inv opt cs g' [] L' \<and> slice_ok opt cs L' index' groups'"
  using assms
proof (induction "length g" arbitrary: g queue L index groups rule: less_induct)
  case less
  show ?case
  proof (cases queue)
    case Nil
    with less.prems show ?thesis by auto
  next
    case (Cons x queue')
    from kahn_inv_step [OF less.prems [unfolded Cons]] obtain g1 queue1 index1 groups1 where
      "kahn g (x # queue') index groups = kahn g1 queue1 index1 groups1" "length g1 < length g"
      "kahn_inv opt cs g1 queue1 (L @ [x])" "slice_ok opt cs (L @ [x]) index1 groups1" by blast
    with less.hyps [OF this(2-4)] Cons show ?thesis by simp
  qed
qed


section \<open>The report of the loops\<close>

lemma map_of_change:
  "map_of g p = Some x \<Longrightarrow> map_of (AList.update p (f x) g) n = map_option (\<lambda>y. if n = p then f y else y) (map_of g n)"
  by (simp add: update_conv' option.map_ident)

lemma link_from_spec:
  assumes "name \<in> fst ` set g" "set ps \<subseteq> fst ` set g"
  shows "\<exists>g'. link_from name ps g = Done g' \<and> map fst g' = map fst g \<and>
    (\<forall>n. map_of g' n = map_option (\<lambda>nd. nd\<lparr>gnOutdegree := gnOutdegree nd + (if n = name then int (length ps) else 0),
        gnFrom := gnFrom nd @ replicate (count_list ps n) name\<rparr>) (map_of g n))"
  using assms
proof (induction ps arbitrary: g)
  case (Cons p ps)
  then obtain nd where nd: "map_of g name = Some nd" by (cases "map_of g name") (auto simp: keys_None)
  let ?g1 = "AList.update name (nd\<lparr>gnOutdegree := gnOutdegree nd + 1\<rparr>) g"
  have k1: "map fst ?g1 = map fst g" using nd by (rule keys_update_known)
  then have s1: "fst ` set ?g1 = fst ` set g" by (metis list.set_map)
  with Cons.prems obtain child where child: "map_of ?g1 p = Some child" by (cases "map_of ?g1 p") (auto simp: keys_None)
  let ?g2 = "AList.update p (child\<lparr>gnFrom := gnFrom child @ [name]\<rparr>) ?g1"
  have k2: "map fst ?g2 = map fst g" using keys_update_known [OF child] k1 by simp
  then have "fst ` set ?g2 = fst ` set g" by (metis list.set_map)
  with Cons.prems have "name \<in> fst ` set ?g2" "set ps \<subseteq> fst ` set ?g2" by auto
  from Cons.IH [OF this] obtain g' where g': "link_from name ps ?g2 = Done g'" "map fst g' = map fst ?g2"
    "\<forall>n. map_of g' n = map_option (\<lambda>nd. nd\<lparr>gnOutdegree := gnOutdegree nd + (if n = name then int (length ps) else 0),
        gnFrom := gnFrom nd @ replicate (count_list ps n) name\<rparr>) (map_of ?g2 n)" by blast
  have g1: "map_of ?g1 n = map_option (\<lambda>nd. if n = name then nd\<lparr>gnOutdegree := gnOutdegree nd + 1\<rparr> else nd) (map_of g n)" for n
    by (rule map_of_change [OF nd])
  have h: "map_of ?g2 n = map_option (\<lambda>nd. if n = p then nd\<lparr>gnFrom := gnFrom nd @ [name]\<rparr> else nd) (map_of ?g1 n)" for n
    by (rule map_of_change [OF child])
  have g2: "map_of ?g2 n = map_option (\<lambda>nd. nd\<lparr>gnOutdegree := gnOutdegree nd + (if n = name then 1 else 0),
        gnFrom := gnFrom nd @ (if n = p then [name] else [])\<rparr>) (map_of g n)" for n
    unfolding h g1 by (cases "map_of g n") auto
  have "map_of g' n = map_option (\<lambda>nd. nd\<lparr>gnOutdegree := gnOutdegree nd + (if n = name then int (length (p # ps)) else 0),
        gnFrom := gnFrom nd @ replicate (count_list (p # ps) n) name\<rparr>) (map_of g n)" for n
    unfolding g'(3) [rule_format, of n] g2 [of n] by (cases "map_of g n") auto
  with nd child g'(1,2) k2 show ?case by (auto simp: Let_def)
qed (simp add: option.map_ident)

definition node_uses :: "'m ggraph \<Rightarrow> string \<Rightarrow> string list" where
  "node_uses g n = (case gnOption (the (map_of g n)) of None \<Rightarrow> [] | Some ps \<Rightarrow> ps)"

lemma rebuild_spec:
  assumes "set names \<subseteq> fst ` set g" "distinct names" "\<And>n. n \<in> fst ` set g \<Longrightarrow> set (node_uses g n) \<subseteq> fst ` set g"
  shows "\<exists>g'. rebuild names g = Done g' \<and> map fst g' = map fst g \<and>
    (\<forall>n. map_of g' n = map_option (\<lambda>nd. nd\<lparr>gnOutdegree := gnOutdegree nd + (if n \<in> set names then int (length (node_uses g n)) else 0),
        gnFrom := gnFrom nd @ concat (map (\<lambda>f. replicate (count_list (node_uses g f) n) f) names)\<rparr>) (map_of g n))"
  using assms
proof (induction names arbitrary: g)
  case (Cons name names)
  then obtain nd where nd: "map_of g name = Some nd" by (cases "map_of g name") (auto simp: keys_None)
  have u: "node_uses g name = (case gnOption nd of None \<Rightarrow> [] | Some ps \<Rightarrow> ps)" using nd by (simp add: node_uses_def)
  have "name \<in> fst ` set g" "set (node_uses g name) \<subseteq> fst ` set g" using Cons.prems by auto
  from link_from_spec [OF this] obtain g1 where g1: "link_from name (node_uses g name) g = Done g1" "map fst g1 = map fst g"
    "\<forall>n. map_of g1 n = map_option (\<lambda>nd. nd\<lparr>gnOutdegree := gnOutdegree nd + (if n = name then int (length (node_uses g name)) else 0),
        gnFrom := gnFrom nd @ replicate (count_list (node_uses g name) n) name\<rparr>) (map_of g n)" by blast
  have s: "rebuild (name # names) g = rebuild names g1"
    using nd g1(1) by (auto simp: u split: option.splits)
  have keys: "fst ` set g1 = fst ` set g" using g1(2) by (metis list.set_map)
  have u1: "n \<in> fst ` set g \<Longrightarrow> node_uses g1 n = node_uses g n" for n
    using g1(3) by (cases "map_of g n") (auto simp: node_uses_def keys_None)
  have nm: "set names \<subseteq> fst ` set g1" "distinct names" "name \<notin> set names" using Cons.prems keys by auto
  have u2: "n \<in> fst ` set g1 \<Longrightarrow> set (node_uses g1 n) \<subseteq> fst ` set g1" for n
    unfolding keys using u1 Cons.prems(3) by simp
  from Cons.IH [OF nm(1,2) u2] obtain g' where g': "rebuild names g1 = Done g'" "map fst g' = map fst g1"
    "\<forall>n. map_of g' n = map_option (\<lambda>nd. nd\<lparr>gnOutdegree := gnOutdegree nd + (if n \<in> set names then int (length (node_uses g1 n)) else 0),
        gnFrom := gnFrom nd @ concat (map (\<lambda>f. replicate (count_list (node_uses g1 f) n) f) names)\<rparr>) (map_of g1 n)"
    by blast
  have c: "map (\<lambda>f. replicate (count_list (node_uses g1 f) n) f) names = map (\<lambda>f. replicate (count_list (node_uses g f) n) f) names" for n
  proof (intro map_cong refl)
    fix f assume "f \<in> set names"
    then have "f \<in> fst ` set g" using nm(1) keys by blast
    then show "replicate (count_list (node_uses g1 f) n) f = replicate (count_list (node_uses g f) n) f" by (simp only: u1)
  qed
  have "map_of g' n = map_option (\<lambda>nd. nd\<lparr>gnOutdegree := gnOutdegree nd + (if n \<in> set (name # names) then int (length (node_uses g n)) else 0),
        gnFrom := gnFrom nd @ concat (map (\<lambda>f. replicate (count_list (node_uses g f) n) f) (name # names))\<rparr>) (map_of g n)" for n
  proof (cases "map_of g n")
    case None
    then show ?thesis unfolding g'(3) [rule_format, of n] g1(3) [rule_format, of n] by simp
  next
    case (Some nd)
    then have "n \<in> fst ` set g" by (metis keys_None option.distinct(1))
    then have n: "node_uses g1 n = node_uses g n" by (rule u1)
    show ?thesis unfolding g'(3) [rule_format, of n] g1(3) [rule_format, of n] c n Some using nm(3) by (cases "n = name") simp_all
  qed
  with s g'(1,2) g1(2) show ?case by auto
qed (simp add: option.map_ident)


definition node_from :: "'m ggraph \<Rightarrow> string \<Rightarrow> string list" where
  "node_from g n = gnFrom (the (map_of g n))"

definition prune_inv :: "(string \<Rightarrow> string list) \<Rightarrow> string set \<Rightarrow> 'm ggraph \<Rightarrow> string list \<Rightarrow> string list \<Rightarrow> bool" where
  "prune_inv frm V g queue L \<longleftrightarrow> (\<forall>n nd. map_of g n = Some nd \<longrightarrow> gnFrom nd = frm n) \<and>
     peel_inv frm V (fst ` set g) (\<lambda>n. gnOutdegree (the (map_of g n))) queue L"

lemma prune_inv_step:
  assumes "prune_inv frm V g (x # queue) L"
  shows "\<exists>g1 queue1. prune g (x # queue) = prune g1 queue1 \<and> length g1 < length g \<and> prune_inv frm V g1 queue1 (L @ [x])"
proof -
  let ?deg = "\<lambda>n. gnOutdegree (the (map_of g n))"
  from assms have fr: "\<forall>n nd. map_of g n = Some nd \<longrightarrow> gnFrom nd = frm n"
    and inv: "peel_inv frm V (fst ` set g) ?deg (x # queue) L" by (auto simp: prune_inv_def)
  note nx = peel_inv_next [OF inv]
  from nx(1) obtain nd where nd: "map_of g x = Some nd" by (cases "map_of g x") (auto simp: keys_None)
  with fr have f: "gnFrom nd = frm x" by simp
  have "set (frm x) \<subseteq> fst ` set g" using nx(2) by blast
  from dec_out_spec [OF this, of queue] obtain g' where
    g': "dec_out (frm x) g queue = Done (g', queue @ zeros (frm x) ?deg)" "map fst g' = map fst g"
      "\<forall>n. map_of g' n = map_option (\<lambda>nd. nd\<lparr>gnOutdegree := gnOutdegree nd - int (count_list (frm x) n)\<rparr>) (map_of g n)" by blast
  let ?g1 = "AList.delete x g'"
  have keys: "fst ` set g' = fst ` set g" using g'(2) by (metis list.set_map)
  have len: "length ?g1 < length g" using length_delete_known [of x g'] keys nx(1) g'(2) by (metis length_map)
  have "peel_inv frm V (fst ` set g - {x}) (\<lambda>n. gnOutdegree (the (map_of ?g1 n))) (queue @ zeros (frm x) ?deg) (L @ [x])"
  proof (rule peel_inv_step [OF inv])
    fix n assume "n \<in> fst ` set g - {x}"
    then obtain nd where "map_of g n = Some nd" "n \<noteq> x" by (cases "map_of g n") (auto simp: keys_None)
    with g'(3) show "gnOutdegree (the (map_of ?g1 n)) = ?deg n - int (count_list (frm x) n)" by (simp add: delete_conv')
  qed
  moreover have "\<forall>n nd. map_of ?g1 n = Some nd \<longrightarrow> gnFrom nd = frm n"
    using fr g'(3) by (auto simp: delete_conv' split: if_splits)
  ultimately have "prune_inv frm V ?g1 (queue @ zeros (frm x) ?deg) (L @ [x])"
    unfolding prune_inv_def keys_delete keys by blast
  moreover have "prune g (x # queue) = prune ?g1 (queue @ zeros (frm x) ?deg)" using nd by (simp add: f g'(1))
  ultimately show ?thesis using len by blast
qed

lemma prune_spec:
  "prune_inv frm V g queue L \<Longrightarrow> \<exists>g' L'. prune g queue = Done g' \<and> prune_inv frm V g' [] L'"
proof (induction "length g" arbitrary: g queue L rule: less_induct)
  case less
  show ?case
  proof (cases queue)
    case Nil
    with less.prems show ?thesis by auto
  next
    case (Cons x queue')
    from prune_inv_step [OF less.prems [unfolded Cons]] obtain g1 queue1 where
      "prune g (x # queue') = prune g1 queue1" "length g1 < length g" "prune_inv frm V g1 queue1 (L @ [x])" by blast
    with less.hyps [OF this(2,3)] Cons show ?thesis by simp
  qed
qed

text \<open>The graph after the sort, with a loop in it, and what is filled into it.\<close>

lemma count_list_replicate [simp]: "count_list (replicate k x) y = (if x = y then k else 0)"
  by (induction k) auto

lemma count_concat_replicate: "distinct names \<Longrightarrow> count_list (concat (map (\<lambda>f. replicate (c f) f) names)) n = (if n \<in> set names then c n else 0)"
  by (induction names) auto

lemma set_concat_replicate: "set (concat (map (\<lambda>f. replicate (c f) f) names)) \<subseteq> set names"
  by auto

lemma kahn_end_closed: "kahn_inv opt cs g [] L \<Longrightarrow> n \<in> fst ` set g \<Longrightarrow> set (uses opt cs n) \<subseteq> fst ` set g"
  unfolding kahn_inv_def using peel_inv_closed by blast

lemma loop_graph:
  assumes "kahn_inv opt cs g [] L" "mset names = mset (map fst g)"
  shows "\<exists>g'. rebuild names g = Done g' \<and> map fst g' = map fst g \<and> (\<forall>n \<in> fst ` set g.
    gnOutdegree (the (map_of g' n)) = int (length (uses opt cs n)) \<and>
    (\<forall>f \<in> fst ` set g. count_list (node_from g' n) f = count_list (uses opt cs f) n) \<and> set (node_from g' n) \<subseteq> fst ` set g)"
proof -
  from assms(1) have ok: "graph_ok opt cs g" by (simp add: kahn_inv_def)
  have names: "set names = fst ` set g" "distinct names"
    using assms(2) ok mset_eq_setD [OF assms(2)] mset_eq_imp_distinct_iff [OF assms(2)] by (simp_all add: graph_ok_def)
  have u: "node_uses g n = uses opt cs n" if "n \<in> fst ` set g" for n
    using ok that by (cases "map_of g n") (auto simp: node_uses_def uses_def graph_ok_def keys_None split: option.splits)
  have "set (node_uses g n) \<subseteq> fst ` set g" if "n \<in> fst ` set g" for n
    unfolding u [OF that] by (rule kahn_end_closed [OF assms(1) that])
  from rebuild_spec [OF equalityD1 [OF names(1)] names(2) this] obtain g' where
    g': "rebuild names g = Done g'" "map fst g' = map fst g"
      "\<forall>n. map_of g' n = map_option (\<lambda>nd. nd\<lparr>gnOutdegree := gnOutdegree nd + (if n \<in> set names then int (length (node_uses g n)) else 0),
        gnFrom := gnFrom nd @ concat (map (\<lambda>f. replicate (count_list (node_uses g f) n) f) names)\<rparr>) (map_of g n)" by blast
  have "gnOutdegree (the (map_of g' n)) = int (length (uses opt cs n)) \<and>
      (\<forall>f \<in> fst ` set g. count_list (node_from g' n) f = count_list (uses opt cs f) n) \<and> set (node_from g' n) \<subseteq> fst ` set g"
    if n: "n \<in> fst ` set g" for n
  proof -
    from n obtain nd where nd: "map_of g n = Some nd" by (cases "map_of g n") (auto simp: keys_None)
    with ok have "gnOutdegree nd = 0" "gnFrom nd = []" by (auto simp: graph_ok_def)
    with g'(3) nd n names(1) have out: "gnOutdegree (the (map_of g' n)) = int (length (node_uses g n))"
      and frm: "node_from g' n = concat (map (\<lambda>f. replicate (count_list (node_uses g f) n) f) names)" by (simp_all add: node_from_def)
    have "count_list (node_from g' n) f = count_list (uses opt cs f) n" if "f \<in> fst ` set g" for f
      unfolding frm count_concat_replicate [OF names(2)] names(1) using that u [OF that] by simp
    moreover have "set (node_from g' n) \<subseteq> fst ` set g" unfolding frm names(1) [symmetric] by (rule set_concat_replicate)
    ultimately show ?thesis using out u [OF n] by simp
  qed
  with g'(1,2) show ?thesis by blast
qed


section \<open>Correctness\<close>

lemma perm_keys: "mset (ord i ns) = mset ns \<Longrightarrow> distinct ns \<Longrightarrow> distinct (ord i ns) \<and> set (ord i ns) = set ns"
  using mset_eq_imp_distinct_iff mset_eq_setD by blast

lemma start_inv:
  assumes "build_inv opt cs g" "distinct (group_names opt cs)" "mset names = mset (map fst g)"
  shows "kahn_inv opt cs g (filter (\<lambda>n. gnIndegree (the (map_of g n)) = 0) names) []"
proof -
  from assms(1) have ok: "graph_ok opt cs g" and keys: "fst ` set g = all_names opt cs"
    and deg: "\<And>n nd. map_of g n = Some nd \<Longrightarrow> gnIndegree nd = int (\<Sum>m\<leftarrow>cs. count_list (goProxies (opt m)) n)"
    unfolding build_inv_def keys_None by blast+
  have names: "distinct names" "set names = fst ` set g"
    using ok mset_eq_setD [OF assms(3)] mset_eq_imp_distinct_iff [OF assms(3)] by (simp_all add: graph_ok_def)
  have "gnIndegree (the (map_of g n)) = degree (uses opt cs) (all_names opt cs) n" if "n \<in> all_names opt cs" for n
    using that deg [of n] keys unfolding degree_uses [OF assms(2)] by (cases "map_of g n") (simp_all add: keys_None)
  then show ?thesis using ok names finite_all_names uses_in_all unfolding kahn_inv_def peel_inv_def keys by auto
qed

lemma sorted_all:
  assumes "distinct (group_names opt cs)" "distinct L" "set (group_names opt cs) \<subseteq> set L"
  shows "mset (sorted_out opt cs L) = mset cs"
proof -
  have "set (filter (\<lambda>n. group_of opt cs n \<noteq> None) L) = set (group_names opt cs)"
    using assms(3) by (auto simp: group_of_None)
  then have "mset (filter (\<lambda>n. group_of opt cs n \<noteq> None) L) = mset (group_names opt cs)"
    using assms(1,2) by (simp add: set_eq_iff_mset_eq_distinct del: set_filter)
  then have "mset (sorted_out opt cs L) = mset (map (\<lambda>n. the (group_of opt cs n)) (group_names opt cs))"
    unfolding sorted_out_def by (metis mset_map)
  also have "map (\<lambda>n. the (group_of opt cs n)) (group_names opt cs) = cs"
    unfolding group_names_def map_map by (rule map_idI) (simp add: group_of_name [OF assms(1)])
  finally show ?thesis .
qed

lemma filter_split:
  "filter P L = F1 @ n # F2 \<Longrightarrow> \<exists>L1 L2. L = L1 @ n # L2 \<and> F2 = filter P L2 \<and> P n"
proof (induction L arbitrary: F1)
  case (Cons x L)
  show ?case
  proof (cases "P x \<and> F1 = []")
    case True
    with Cons.prems show ?thesis by (intro exI [of _ "[]"] exI [of _ L]) auto
  next
    case False
    with Cons.prems obtain F where "filter P L = F @ n # F2" by (cases F1) (auto split: if_splits)
    from Cons.IH [OF this] obtain L1 L2 where "L = L1 @ n # L2" "F2 = filter P L2" "P n" by blast
    then show ?thesis by (intro exI [of _ "x # L1"] exI [of _ L2]) simp
  qed
qed simp

text \<open>A group that another one uses was taken away after it, so it comes before it in the reversed list.\<close>

lemma sorted_order:
  assumes "peel_inv (uses opt cs) V {} deg [] L" "set (group_names opt cs) \<subseteq> V" "sorted_out opt cs L = A @ m # B" "m' \<in> set (m # B)"
  shows "goName (opt m) \<notin> set (goProxies (opt m'))"
proof
  assume use: "goName (opt m) \<in> set (goProxies (opt m'))"
  note d = peel_invD [OF assms(1)]
  let ?f = "\<lambda>n. group_of opt cs n \<noteq> None"
  from assms(3) obtain X n Y where X: "filter ?f L = X @ n # Y" "m = the (group_of opt cs n)" "B = map (\<lambda>n. the (group_of opt cs n)) Y"
    by (auto simp: sorted_out_def map_eq_append_conv)
  from filter_split [OF X(1)] obtain L1 L2 where L: "L = L1 @ n # L2" "Y = filter ?f L2" "?f n" by blast
  from assms(4) X(2,3) obtain n' where n': "n' \<in> set (n # Y)" "m' = the (group_of opt cs n')" by auto
  then have f': "group_of opt cs n' = Some m'" "n' \<in> set (n # L2)" using L(2,3) by auto
  have "goName (opt m) = n" using L(3) X(2) group_of_Some [of opt cs n m] by auto
  then have "n \<in> set (uses opt cs n')" using use f' by (simp add: uses_def)
  moreover have "n' \<in> V" using group_of_Some [OF f'(1)] assms(2) by (auto simp: group_names_def)
  ultimately have "n' \<in> set L1" using d(11) [OF L(1)] by blast
  with f'(2) d(3) L(1) show False by auto
qed

lemma sort_acyclic:
  assumes "kahn_inv opt cs [] [] L" "slice_ok opt cs L index groups" "distinct (group_names opt cs)"
  shows "mset groups = mset cs \<and> (\<forall>i j. i \<le> j \<and> j < length groups \<longrightarrow> goName (opt (groups ! j)) \<notin> set (goProxies (opt (groups ! i))))"
proof -
  from assms(1) obtain deg where inv: "peel_inv (uses opt cs) (all_names opt cs) {} deg [] L" by (auto simp: kahn_inv_def)
  note d = peel_invD [OF inv]
  have gn: "set (group_names opt cs) \<subseteq> all_names opt cs" by (auto simp: group_names_def all_names_def)
  then have all: "mset (sorted_out opt cs L) = mset cs" using sorted_all [OF assms(3) d(3)] d(12) by auto
  then have len: "length (sorted_out opt cs L) = length cs" by (rule mset_eq_length)
  with assms(2) have g: "groups = rev (sorted_out opt cs L)" by (simp add: slice_ok_def)
  have "goName (opt (groups ! j)) \<notin> set (goProxies (opt (groups ! i)))" if ij: "i \<le> j" "j < length groups" for i j
  proof -
    let ?out = "sorted_out opt cs L" and ?k = "length groups - Suc j"
    have k: "?k < length ?out" "groups ! j = ?out ! ?k" using ij by (simp_all add: g rev_nth)
    have i: "groups ! i = ?out ! (length groups - Suc i)" using ij by (simp add: g rev_nth)
    have split: "?out = take ?k ?out @ groups ! j # drop (Suc ?k) ?out" unfolding k(2) by (rule id_take_nth_drop [OF k(1)])
    have "groups ! i \<in> set (drop ?k ?out)"
      unfolding i in_set_conv_nth using ij by (intro exI [of _ "j - i"]) (simp add: g)
    moreover have "drop ?k ?out = groups ! j # drop (Suc ?k) ?out" unfolding k(2) using Cons_nth_drop_Suc [OF k(1)] by simp
    ultimately have "groups ! i \<in> set (groups ! j # drop (Suc ?k) ?out)" by metis
    from sorted_order [OF inv gn split this] show ?thesis .
  qed
  with all g show ?thesis by simp
qed

lemma loop_report:
  assumes "kahn_inv opt cs g1 [] L" "g1 \<noteq> []" "\<forall>i ns. mset (ord i ns) = mset ns"
  shows "\<exists>g2 g3. rebuild (ord 2 (map fst g1)) g1 = Done g2 \<and>
    prune g2 (filter (\<lambda>n. gnOutdegree (the (map_of g2 n)) = 0) (ord (3::nat) (map fst g2))) = Done g3 \<and> g3 \<noteq> [] \<and>
    (\<forall>n \<in> fst ` set g3. (\<exists>p \<in> fst ` set g3. n \<in> set (uses opt cs p)) \<and> (\<exists>s \<in> fst ` set g3. s \<in> set (uses opt cs n)))"
proof -
  let ?R = "fst ` set g1" and ?ns = "ord 3 (map fst g1)"
  from assms(1) have ok: "graph_ok opt cs g1" and inv1: "peel_inv (uses opt cs) (all_names opt cs) ?R (\<lambda>n. gnIndegree (the (map_of g1 n))) [] L"
    by (simp_all add: kahn_inv_def)
  from loop_graph [OF assms(1) assms(3) [rule_format, of 2 "map fst g1"]] obtain g2 where
    h: "rebuild (ord 2 (map fst g1)) g1 = Done g2" "map fst g2 = map fst g1"
      "\<forall>n \<in> ?R. gnOutdegree (the (map_of g2 n)) = int (length (uses opt cs n)) \<and>
        (\<forall>f \<in> ?R. count_list (node_from g2 n) f = count_list (uses opt cs f) n) \<and> set (node_from g2 n) \<subseteq> ?R" by (elim exE conjE)
  note g2 = h(1,2) conjunct1 [OF bspec [OF h(3)]] bspec [OF conjunct1 [OF conjunct2 [OF bspec [OF h(3)]]]] conjunct2 [OF conjunct2 [OF bspec [OF h(3)]]]
  have keys: "fst ` set g2 = ?R" using g2(2) by (metis list.set_map)
  have ns: "distinct ?ns" "set ?ns = ?R" using perm_keys [of ord 3 "map fst g1"] assms(3) ok by (simp_all add: graph_ok_def)
  have frm: "f \<in> set (node_from g2 n) \<longleftrightarrow> n \<in> set (uses opt cs f)" if "n \<in> ?R" "f \<in> ?R" for n f
    using g2(4) [OF that] by (metis count_list_0_iff)
  have closed: "set (uses opt cs n) \<subseteq> ?R" if "n \<in> ?R" for n using kahn_end_closed [OF assms(1) that] .
  have "gnOutdegree (the (map_of g2 n)) = degree (node_from g2) ?R n" if n: "n \<in> ?R" for n
  proof -
    have "(\<Sum>m\<in>?R. count_list (node_from g2 m) n) = (\<Sum>m\<in>?R. count_list (uses opt cs n) m)"
      by (rule sum.cong) (simp_all add: g2(4) n)
    also have "\<dots> = length (uses opt cs n)" by (rule sum_count_set [OF closed [OF n]]) simp
    finally show ?thesis by (simp add: degree_def g2(3) [OF n])
  qed
  then have "peel_inv (node_from g2) ?R ?R (\<lambda>n. gnOutdegree (the (map_of g2 n))) (filter (\<lambda>n. gnOutdegree (the (map_of g2 n)) = 0) ?ns) []"
    unfolding peel_inv_def using ns g2(5) by auto
  then have "prune_inv (node_from g2) ?R g2 (filter (\<lambda>n. gnOutdegree (the (map_of g2 n)) = 0) ?ns) []"
    unfolding prune_inv_def keys by (simp add: node_from_def)
  from prune_spec [OF this] obtain g3 L3 where g3: "prune g2 (filter (\<lambda>n. gnOutdegree (the (map_of g2 n)) = 0) ?ns) = Done g3"
    "prune_inv (node_from g2) ?R g3 [] L3" by blast
  let ?R3 = "fst ` set g3"
  from g3(2) have inv3: "peel_inv (node_from g2) ?R ?R3 (\<lambda>n. gnOutdegree (the (map_of g3 n))) [] L3" by (simp add: prune_inv_def)
  note d = peel_invD [OF inv3]
  have used: "\<exists>p \<in> ?R. n \<in> set (uses opt cs p)" if "n \<in> ?R" for n using peel_inv_end [OF inv1 that] .
  have pred: "\<exists>p \<in> ?R3. n \<in> set (uses opt cs p)" if n: "n \<in> ?R3" for n
  proof -
    have nR: "n \<in> ?R" using n d(5) by blast
    from used [OF this] obtain p where p: "p \<in> ?R" "n \<in> set (uses opt cs p)" by blast
    then have "p \<in> set (node_from g2 n)" using frm [OF nR p(1)] by simp
    then have "p \<in> ?R3" by (rule peel_inv_closed [OF inv3 n])
    with p(2) show ?thesis by blast
  qed
  have succ: "\<exists>s \<in> ?R3. s \<in> set (uses opt cs n)" if n: "n \<in> ?R3" for n
  proof -
    from peel_inv_end [OF inv3 n] obtain s where "s \<in> ?R3" "n \<in> set (node_from g2 s)" by blast
    moreover from this n d(5) have "s \<in> ?R" "n \<in> ?R" by auto
    ultimately show ?thesis using frm by blast
  qed
  have "?R3 \<noteq> {}"
  proof
    assume "?R3 = {}"
    with inv3 have "acyclic (edges (node_from g2) ?R)" by (intro peel_inv_acyclic) simp
    moreover have "(a, b) \<in> edges (node_from g2) ?R \<longleftrightarrow> (b, a) \<in> edges (uses opt cs) ?R" for a b
      unfolding edges_def mem_Collect_eq case_prod_conv using frm [of a b] g2(5) [of a] closed [of b] by blast
    then have "edges (node_from g2) ?R = (edges (uses opt cs) ?R)\<inverse>" by auto
    ultimately have "acyclic (edges (uses opt cs) ?R)" by simp
    with all_used_cyclic [of ?R "uses opt cs"] used assms(2) show False by auto
  qed
  then have "g3 \<noteq> []" by auto
  have p: "prune g2 (filter (\<lambda>n. gnOutdegree (the (map_of g2 n)) = 0) (ord 3 (map fst g2))) = Done g3"
    unfolding h(2) by (rule g3(1))
  show ?thesis by (intro exI [of _ g2] exI [of _ g3] conjI ballI) (fact h(1) p \<open>g3 \<noteq> []\<close> | erule pred succ)+
qed


section \<open>Correctness\<close>

text \<open>C11: given groups with different names, the sort never panics and always ends. When no group uses itself, not even by way of
  others, the result is the same groups in an order in which each comes after those that it uses. Otherwise it is the
  error that names a loop: some names, each of which is used by one of them and uses one of them.\<close>

theorem proxyGroupsDagSort_correct:
  assumes "\<forall>m \<in> set cs. decode m = Ok (opt m)" "distinct (group_names opt cs)" "\<forall>i ns. mset (ord i ns) = mset ns"
  shows "if acyclic (edges (uses opt cs) (all_names opt cs))
    then \<exists>gs. proxyGroupsDagSort decode ord cs = Done (Ok gs) \<and> mset gs = mset cs \<and>
      (\<forall>i j. i \<le> j \<and> j < length gs \<longrightarrow> goName (opt (gs ! j)) \<notin> set (goProxies (opt (gs ! i))))
    else \<exists>names. proxyGroupsDagSort decode ord cs = Done (Err (LoopDetected names)) \<and> names \<noteq> [] \<and>
      (\<forall>n \<in> set names. (\<exists>p \<in> set names. n \<in> set (uses opt cs p)) \<and> (\<exists>s \<in> set names. s \<in> set (uses opt cs n)))"
proof -
  have "build_inv opt [] []" by (simp add: build_inv_def graph_ok_def all_names_def)
  from build_graph_spec [OF assms(1) this] assms(2) obtain g where g: "build_graph decode cs [] = Ok g" "build_inv opt cs g" by auto
  let ?q = "filter (\<lambda>n. gnIndegree (the (map_of g n)) = 0) (ord 1 (map fst g))"
  have "kahn_inv opt cs g ?q []" using assms(3) by (intro start_inv [OF g(2) assms(2)]) blast
  moreover have "slice_ok opt cs [] 0 cs" by (simp add: slice_ok_def sorted_out_def)
  ultimately obtain g1 L index gs where k: "kahn g ?q 0 cs = Done (g1, gs)" "kahn_inv opt cs g1 [] L" "slice_ok opt cs L index gs"
    using kahn_spec by blast
  show ?thesis
  proof (cases "g1 = []")
    case True
    with k(2) have "acyclic (edges (uses opt cs) (all_names opt cs))" by (auto simp: kahn_inv_def intro: peel_inv_acyclic)
    moreover have "proxyGroupsDagSort decode ord cs = Done (Ok gs)" using g k(1) True by (simp add: proxyGroupsDagSort_def)
    ultimately show ?thesis using sort_acyclic [OF k(2) [unfolded True] k(3) assms(2)] by simp
  next
    case False
    from k(2) have inv: "peel_inv (uses opt cs) (all_names opt cs) (fst ` set g1) (\<lambda>n. gnIndegree (the (map_of g1 n))) [] L"
      by (simp add: kahn_inv_def)
    from peel_invD(5,6) [OF inv] have "fst ` set g1 \<subseteq> all_names opt cs" "finite (fst ` set g1)" by blast+
    with all_used_cyclic [of "fst ` set g1" "uses opt cs"] peel_inv_end [OF inv] False
    have cyc: "\<not> acyclic (edges (uses opt cs) (all_names opt cs))" by (meson acyclic_subset edges_mono image_is_empty set_empty)
    from loop_report [OF k(2) False assms(3)] obtain g2 g3 where
      l: "rebuild (ord 2 (map fst g1)) g1 = Done g2"
        "prune g2 (filter (\<lambda>n. gnOutdegree (the (map_of g2 n)) = 0) (ord 3 (map fst g2))) = Done g3" "g3 \<noteq> []"
        "\<forall>n \<in> fst ` set g3. (\<exists>p \<in> fst ` set g3. n \<in> set (uses opt cs p)) \<and> (\<exists>s \<in> fst ` set g3. s \<in> set (uses opt cs n))"
      by (elim exE conjE)
    let ?names = "ord 4 (map fst g3)"
    have "mset ?names = mset (map fst g3)" using assms(3) by blast
    from mset_eq_setD [OF this] have names: "set ?names = fst ` set g3" by simp
    have "proxyGroupsDagSort decode ord cs = Done (Err (LoopDetected ?names))"
      using g k(1) l(1,2) False by (simp add: proxyGroupsDagSort_def)
    moreover have "?names \<noteq> []" using names l(3) by auto
    ultimately show ?thesis using cyc l(4) by (simp only: names [symmetric] if_False) blast
  qed
qed


definition example_groups :: "group_option list" where
  "example_groups = [\<lparr>goName = ''a'', goProxies = [''b'', ''DIRECT'']\<rparr>, \<lparr>goName = ''b'', goProxies = [''DIRECT'']\<rparr>]"

lemma proxyGroupsDagSort_correct_witness:
  "acyclic (edges (uses id example_groups) (all_names id example_groups)) \<and>
   proxyGroupsDagSort (Ok :: _ \<Rightarrow> (unit, _) go_result) (\<lambda>i ns. ns) example_groups = Done (Ok (rev example_groups))"
proof -
  have s: "proxyGroupsDagSort (Ok :: _ \<Rightarrow> (unit, _) go_result) (\<lambda>i ns. ns) example_groups = Done (Ok (rev example_groups))" by code_simp
  have "distinct (group_names id example_groups)" by code_simp
  with proxyGroupsDagSort_correct [of example_groups "Ok :: _ \<Rightarrow> (unit, _) go_result" id "\<lambda>i ns. ns"] s show ?thesis by (auto split: if_splits)
qed

end
