(* ===== verification/GoList.thy ===== *)
theory GoList
  imports LruCache
begin

text \<open>
  The doubly linked list (\<open>common/generics/list/list.go\<close>) as pointers in a heap: a ring of elements through the root
  of the list, which is at the address that also stands for the list itself. The theory shows that the pointer
  operations do to the list of elements what the functions on lists do by which the cache of \<open>LruCache\<close> is modelled.

  A nil pointer is \<open>None\<close>; reading or writing a field through one panics.
\<close>

section \<open>The heap\<close>

record 'v lnode =
  lnNext :: "nat option"
  lnPrev :: "nat option"
  lnList :: "nat option"
  lnValue :: "'v option"

text \<open>\<open>lhLen\<close> is the field \<open>len\<close> of the list whose root has the address; \<open>lhFresh\<close> is the address of the next allocation.\<close>

record 'v lheap =
  lhNodes :: "nat \<Rightarrow> 'v lnode option"
  lhLen :: "nat \<Rightarrow> int"
  lhFresh :: nat

definition read_node :: "'v lheap \<Rightarrow> nat option \<Rightarrow> 'v lnode outcome" where
  "read_node h p = (case p of None \<Rightarrow> Panicked | Some a \<Rightarrow> (case lhNodes h a of None \<Rightarrow> Panicked | Some nd \<Rightarrow> Done nd))"

definition write_node :: "nat option \<Rightarrow> ('v lnode \<Rightarrow> 'v lnode) \<Rightarrow> 'v lheap \<Rightarrow> 'v lheap outcome" where
  "write_node p f h =
     (case p of
        None \<Rightarrow> Panicked
      | Some a \<Rightarrow>
          (case lhNodes h a of None \<Rightarrow> Panicked | Some nd \<Rightarrow> Done (h\<lparr>lhNodes := (lhNodes h)(a \<mapsto> f nd)\<rparr>)))"

abbreviation set_next :: "nat option \<Rightarrow> nat option \<Rightarrow> 'v lheap \<Rightarrow> 'v lheap outcome" where
  "set_next p q \<equiv> write_node p (lnNext_update (\<lambda>_. q))"

abbreviation set_prev :: "nat option \<Rightarrow> nat option \<Rightarrow> 'v lheap \<Rightarrow> 'v lheap outcome" where
  "set_prev p q \<equiv> write_node p (lnPrev_update (\<lambda>_. q))"

abbreviation set_list :: "nat option \<Rightarrow> nat option \<Rightarrow> 'v lheap \<Rightarrow> 'v lheap outcome" where
  "set_list p q \<equiv> write_node p (lnList_update (\<lambda>_. q))"

definition alloc_node :: "'v lnode \<Rightarrow> 'v lheap \<Rightarrow> nat \<times> 'v lheap" where
  "alloc_node nd h = (lhFresh h, h\<lparr>lhNodes := (lhNodes h)(lhFresh h \<mapsto> nd), lhFresh := lhFresh h + 1\<rparr>)"

section \<open>Operations\<close>

definition el_Next :: "'v lheap \<Rightarrow> nat \<Rightarrow> nat option outcome" where
  "el_Next h e = obind (read_node h (Some e)) (\<lambda>nd. Done
     (if lnList nd \<noteq> None \<and> lnNext nd \<noteq> lnList nd then lnNext nd else None))"

definition el_Prev :: "'v lheap \<Rightarrow> nat \<Rightarrow> nat option outcome" where
  "el_Prev h e = obind (read_node h (Some e)) (\<lambda>nd. Done
     (if lnList nd \<noteq> None \<and> lnPrev nd \<noteq> lnList nd then lnPrev nd else None))"

definition ls_Init :: "nat \<Rightarrow> 'v lheap \<Rightarrow> 'v lheap outcome" where
  "ls_Init l h =
     obind (set_next (Some l) (Some l) h) (\<lambda>h1.
     obind (set_prev (Some l) (Some l) h1) (\<lambda>h2. Done (h2\<lparr>lhLen := (lhLen h2)(l := 0)\<rparr>)))"

definition ls_New :: "'v lheap \<Rightarrow> (nat \<times> 'v lheap) outcome" where
  "ls_New h =
     (let (l, h1) = alloc_node \<lparr>lnNext = None, lnPrev = None, lnList = None, lnValue = None\<rparr> h
      in obind (ls_Init l h1) (\<lambda>h2. Done (l, h2)))"

definition ls_Len :: "'v lheap \<Rightarrow> nat \<Rightarrow> int" where
  "ls_Len h l = lhLen h l"

definition ls_Front :: "'v lheap \<Rightarrow> nat \<Rightarrow> nat option outcome" where
  "ls_Front h l = (if lhLen h l = 0 then Done None else obind (read_node h (Some l)) (\<lambda>nd. Done (lnNext nd)))"

definition ls_Back :: "'v lheap \<Rightarrow> nat \<Rightarrow> nat option outcome" where
  "ls_Back h l = (if lhLen h l = 0 then Done None else obind (read_node h (Some l)) (\<lambda>nd. Done (lnPrev nd)))"

definition ls_lazyInit :: "nat \<Rightarrow> 'v lheap \<Rightarrow> 'v lheap outcome" where
  "ls_lazyInit l h = obind (read_node h (Some l)) (\<lambda>nd. if lnNext nd = None then ls_Init l h else Done h)"

text \<open>The four assignments that put \<open>e\<close> behind \<open>p\<close>.\<close>

definition link_after :: "nat \<Rightarrow> nat option \<Rightarrow> 'v lheap \<Rightarrow> 'v lheap outcome" where
  "link_after e p h =
     obind (set_prev (Some e) p h) (\<lambda>h1.
     obind (read_node h1 p) (\<lambda>pn.
     obind (set_next (Some e) (lnNext pn) h1) (\<lambda>h2.
     obind (read_node h2 (Some e)) (\<lambda>en2.
     obind (set_next (lnPrev en2) (Some e) h2) (\<lambda>h3.
     obind (read_node h3 (Some e)) (\<lambda>en3. set_prev (lnNext en3) (Some e) h3))))))"

text \<open>The two that take it out of its place.\<close>

definition unlink :: "nat \<Rightarrow> 'v lheap \<Rightarrow> 'v lheap outcome" where
  "unlink e h =
     obind (read_node h (Some e)) (\<lambda>en.
     obind (set_next (lnPrev en) (lnNext en) h) (\<lambda>h1.
     obind (read_node h1 (Some e)) (\<lambda>en1. set_prev (lnNext en1) (lnPrev en1) h1)))"

definition ls_insert :: "nat \<Rightarrow> nat \<Rightarrow> nat option \<Rightarrow> 'v lheap \<Rightarrow> 'v lheap outcome" where
  "ls_insert l e p h =
     obind (link_after e p h) (\<lambda>h1.
     obind (set_list (Some e) (Some l) h1) (\<lambda>h2. Done (h2\<lparr>lhLen := (lhLen h2)(l := lhLen h2 l + 1)\<rparr>)))"

definition ls_insertValue :: "nat \<Rightarrow> 'v \<Rightarrow> nat option \<Rightarrow> 'v lheap \<Rightarrow> (nat \<times> 'v lheap) outcome" where
  "ls_insertValue l v p h =
     (let (e, h1) = alloc_node \<lparr>lnNext = None, lnPrev = None, lnList = None, lnValue = Some v\<rparr> h
      in obind (ls_insert l e p h1) (\<lambda>h2. Done (e, h2)))"

definition ls_remove :: "nat \<Rightarrow> nat \<Rightarrow> 'v lheap \<Rightarrow> 'v lheap outcome" where
  "ls_remove l e h =
     obind (unlink e h) (\<lambda>h1.
     obind (set_next (Some e) None h1) (\<lambda>h2.
     obind (set_prev (Some e) None h2) (\<lambda>h3.
     obind (set_list (Some e) None h3) (\<lambda>h4. Done (h4\<lparr>lhLen := (lhLen h4)(l := lhLen h4 l - 1)\<rparr>)))))"

definition ls_move :: "nat \<Rightarrow> nat option \<Rightarrow> 'v lheap \<Rightarrow> 'v lheap outcome" where
  "ls_move e p h = (if Some e = p then Done h else obind (unlink e h) (link_after e p))"

definition ls_Remove :: "nat \<Rightarrow> nat \<Rightarrow> 'v lheap \<Rightarrow> ('v option \<times> 'v lheap) outcome" where
  "ls_Remove l e h =
     obind (read_node h (Some e)) (\<lambda>en.
     obind (if lnList en = Some l then ls_remove l e h else Done h) (\<lambda>h1.
     obind (read_node h1 (Some e)) (\<lambda>en1. Done (lnValue en1, h1))))"

definition ls_PushFront :: "nat \<Rightarrow> 'v \<Rightarrow> 'v lheap \<Rightarrow> (nat \<times> 'v lheap) outcome" where
  "ls_PushFront l v h = obind (ls_lazyInit l h) (ls_insertValue l v (Some l))"

definition ls_PushBack :: "nat \<Rightarrow> 'v \<Rightarrow> 'v lheap \<Rightarrow> (nat \<times> 'v lheap) outcome" where
  "ls_PushBack l v h =
     obind (ls_lazyInit l h) (\<lambda>h1. obind (read_node h1 (Some l)) (\<lambda>ln. ls_insertValue l v (lnPrev ln) h1))"

text \<open>The results of the two insertions: the element, \<open>None\<close> for nil.\<close>

definition ls_InsertBefore :: "nat \<Rightarrow> 'v \<Rightarrow> nat \<Rightarrow> 'v lheap \<Rightarrow> (nat option \<times> 'v lheap) outcome" where
  "ls_InsertBefore l v mark h =
     obind (read_node h (Some mark)) (\<lambda>mn.
       if lnList mn \<noteq> Some l then Done (None, h)
       else obind (ls_insertValue l v (lnPrev mn) h) (\<lambda>(e, h1). Done (Some e, h1)))"

definition ls_InsertAfter :: "nat \<Rightarrow> 'v \<Rightarrow> nat \<Rightarrow> 'v lheap \<Rightarrow> (nat option \<times> 'v lheap) outcome" where
  "ls_InsertAfter l v mark h =
     obind (read_node h (Some mark)) (\<lambda>mn.
       if lnList mn \<noteq> Some l then Done (None, h)
       else obind (ls_insertValue l v (Some mark) h) (\<lambda>(e, h1). Done (Some e, h1)))"

definition ls_MoveToFront :: "nat \<Rightarrow> nat \<Rightarrow> 'v lheap \<Rightarrow> 'v lheap outcome" where
  "ls_MoveToFront l e h =
     obind (read_node h (Some e)) (\<lambda>en. obind (read_node h (Some l)) (\<lambda>ln.
       if lnList en \<noteq> Some l \<or> lnNext ln = Some e then Done h else ls_move e (Some l) h))"

definition ls_MoveToBack :: "nat \<Rightarrow> nat \<Rightarrow> 'v lheap \<Rightarrow> 'v lheap outcome" where
  "ls_MoveToBack l e h =
     obind (read_node h (Some e)) (\<lambda>en. obind (read_node h (Some l)) (\<lambda>ln.
       if lnList en \<noteq> Some l \<or> lnPrev ln = Some e then Done h else ls_move e (lnPrev ln) h))"

definition ls_MoveBefore :: "nat \<Rightarrow> nat \<Rightarrow> nat \<Rightarrow> 'v lheap \<Rightarrow> 'v lheap outcome" where
  "ls_MoveBefore l e mark h =
     obind (read_node h (Some e)) (\<lambda>en. obind (read_node h (Some mark)) (\<lambda>mn.
       if lnList en \<noteq> Some l \<or> e = mark \<or> lnList mn \<noteq> Some l then Done h else ls_move e (lnPrev mn) h))"

definition ls_MoveAfter :: "nat \<Rightarrow> nat \<Rightarrow> nat \<Rightarrow> 'v lheap \<Rightarrow> 'v lheap outcome" where
  "ls_MoveAfter l e mark h =
     obind (read_node h (Some e)) (\<lambda>en. obind (read_node h (Some mark)) (\<lambda>mn.
       if lnList en \<noteq> Some l \<or> e = mark \<or> lnList mn \<noteq> Some l then Done h else ls_move e (Some mark) h))"

text \<open>The loops that copy another list, \<open>i\<close> times. A value is there in each element of a list.\<close>

fun push_back_loop :: "nat \<Rightarrow> nat \<Rightarrow> nat option \<Rightarrow> 'v lheap \<Rightarrow> 'v lheap outcome" where
  "push_back_loop l 0 e h = Done h"
| "push_back_loop l (Suc i) e h =
     obind (read_node h e) (\<lambda>en. obind (read_node h (Some l)) (\<lambda>ln.
     obind (ls_insertValue l (the (lnValue en)) (lnPrev ln) h) (\<lambda>(_, h1).
     obind (el_Next h1 (the e)) (\<lambda>e1. push_back_loop l i e1 h1))))"

definition ls_PushBackList :: "nat \<Rightarrow> nat \<Rightarrow> 'v lheap \<Rightarrow> 'v lheap outcome" where
  "ls_PushBackList l other h =
     obind (ls_lazyInit l h) (\<lambda>h1. obind (ls_Front h1 other) (\<lambda>e. push_back_loop l (nat (ls_Len h1 other)) e h1))"

fun push_front_loop :: "nat \<Rightarrow> nat \<Rightarrow> nat option \<Rightarrow> 'v lheap \<Rightarrow> 'v lheap outcome" where
  "push_front_loop l 0 e h = Done h"
| "push_front_loop l (Suc i) e h =
     obind (read_node h e) (\<lambda>en.
     obind (ls_insertValue l (the (lnValue en)) (Some l) h) (\<lambda>(_, h1).
     obind (el_Prev h1 (the e)) (\<lambda>e1. push_front_loop l i e1 h1)))"

definition ls_PushFrontList :: "nat \<Rightarrow> nat \<Rightarrow> 'v lheap \<Rightarrow> 'v lheap outcome" where
  "ls_PushFrontList l other h =
     obind (ls_lazyInit l h) (\<lambda>h1. obind (ls_Back h1 other) (\<lambda>e. push_front_loop l (nat (ls_Len h1 other)) e h1))"


section \<open>Segments of a ring\<close>

definition nx :: "'v lheap \<Rightarrow> nat \<Rightarrow> nat option" where
  "nx h a = (case lhNodes h a of None \<Rightarrow> None | Some nd \<Rightarrow> lnNext nd)"

definition pv :: "'v lheap \<Rightarrow> nat \<Rightarrow> nat option" where
  "pv h a = (case lhNodes h a of None \<Rightarrow> None | Some nd \<Rightarrow> lnPrev nd)"

definition ow :: "'v lheap \<Rightarrow> nat \<Rightarrow> nat option" where
  "ow h a = (case lhNodes h a of None \<Rightarrow> None | Some nd \<Rightarrow> lnList nd)"

definition vl :: "'v lheap \<Rightarrow> nat \<Rightarrow> 'v option" where
  "vl h a = (case lhNodes h a of None \<Rightarrow> None | Some nd \<Rightarrow> lnValue nd)"

fun seg :: "(nat \<Rightarrow> nat option) \<Rightarrow> (nat \<Rightarrow> nat option) \<Rightarrow> nat \<Rightarrow> nat list \<Rightarrow> nat \<Rightarrow> bool" where
  "seg n p a [] b \<longleftrightarrow> n a = Some b \<and> p b = Some a"
| "seg n p a (x # xs) b \<longleftrightarrow> n a = Some x \<and> p x = Some a \<and> seg n p x xs b"

lemma seg_cong:
  "(\<And>x. x \<in> set (a # xs) \<Longrightarrow> n x = n' x) \<Longrightarrow> (\<And>x. x \<in> insert b (set xs) \<Longrightarrow> p x = p' x) \<Longrightarrow> seg n p a xs b = seg n' p' a xs b"
  by (induction xs arbitrary: a) auto

lemma seg_ends: "seg n p a xs b \<Longrightarrow> n a = Some (hd (xs @ [b])) \<and> p b = Some (last (a # xs))"
  by (induction xs arbitrary: a) auto

lemma seg_append: "seg n p a (ys @ y # zs) b \<longleftrightarrow> seg n p a ys y \<and> seg n p y zs b"
  by (induction ys arbitrary: a) auto

lemma seg_insert:
  assumes "seg n p a (ys @ zs) b" "distinct (ys @ zs)" "a \<notin> set (ys @ zs)" "b \<notin> set (ys @ zs)" "e \<notin> insert a (insert b (set (ys @ zs)))"
  shows "seg (n(last (a # ys) := Some e, e := Some (hd (zs @ [b])))) (p(e := Some (last (a # ys)), hd (zs @ [b]) := Some e)) a (ys @ e # zs) b"
  using assms
proof (induction ys arbitrary: a)
  case Nil
  show ?case
  proof (cases zs)
    case (Cons z ws)
    with Nil have "seg n p z ws b" by simp
    then have "seg (n(a := Some e, e := Some z)) (p(e := Some a, z := Some e)) z ws b"
      by (subst seg_cong [of z ws _ n b _ p]) (use Nil Cons in auto)
    then have "seg (n(last [a] := Some e, e := Some (hd (zs @ [b])))) (p(e := Some (last [a]), hd (zs @ [b]) := Some e)) z ws b"
      unfolding Cons by simp
    moreover have "z \<noteq> e" "e \<noteq> a" using Nil Cons by auto
    ultimately show ?thesis unfolding Cons append_Nil seg.simps by simp
  qed (use Nil in auto)
next
  case (Cons y ys)
  from Cons.prems have "seg n p y (ys @ zs) b" "distinct (ys @ zs)" "y \<notin> set (ys @ zs)" "b \<notin> set (ys @ zs)"
    "e \<notin> insert y (insert b (set (ys @ zs)))" by auto
  note ih = Cons.IH [OF this]
  define t d where "t = last (y # ys)" and "d = hd (zs @ [b])"
  have t: "t \<in> set (y # ys)" unfolding t_def by (rule last_in_set) simp
  have d: "d \<in> insert b (set zs)" unfolding d_def by (cases zs) auto
  have l: "last (a # y # ys) = t" by (simp add: t_def)
  have "a \<noteq> t" "a \<noteq> e" "y \<noteq> d" "y \<noteq> e" "n a = Some y" "p y = Some a" using t d Cons.prems by auto
  then show ?case unfolding l d_def [symmetric] append_Cons seg.simps
    by (intro conjI) (simp, simp, rule ih [folded t_def d_def])
qed

lemma seg_delete:
  assumes "seg n p a (ys @ e # zs) b" "distinct (ys @ e # zs)" "a \<notin> set (ys @ e # zs)" "b \<notin> set (ys @ e # zs)"
  shows "seg (n(last (a # ys) := Some (hd (zs @ [b])))) (p(hd (zs @ [b]) := Some (last (a # ys)))) a (ys @ zs) b \<and>
    n e = Some (hd (zs @ [b])) \<and> p e = Some (last (a # ys))"
  using assms
proof (induction ys arbitrary: a)
  case Nil
  show ?case
  proof (cases zs)
    case (Cons z ws)
    with Nil have "seg n p z ws b" by simp
    then have "seg (n(a := Some z)) (p(z := Some a)) z ws b"
      by (subst seg_cong [of z ws _ n b _ p]) (use Nil Cons in auto)
    moreover have "z \<noteq> a" "n e = Some z" "p e = Some a" using Nil Cons by auto
    ultimately show ?thesis unfolding Cons append_Nil seg.simps by simp
  qed (use Nil in auto)
next
  case (Cons y ys)
  from Cons.prems have "seg n p y (ys @ e # zs) b" "distinct (ys @ e # zs)" "y \<notin> set (ys @ e # zs)" "b \<notin> set (ys @ e # zs)" by auto
  note ih = Cons.IH [OF this]
  define t d where "t = last (y # ys)" and "d = hd (zs @ [b])"
  have t: "t \<in> set (y # ys)" unfolding t_def by (rule last_in_set) simp
  have d: "d \<in> insert b (set zs)" unfolding d_def by (cases zs) auto
  have l: "last (a # y # ys) = t" by (simp add: t_def)
  have "a \<noteq> t" "y \<noteq> d" "n a = Some y" "p y = Some a" using t d Cons.prems by auto
  then show ?case unfolding l d_def [symmetric] append_Cons seg.simps
    by (intro conjI) (simp, simp, (rule ih [folded t_def d_def, THEN conjunct1] ih [folded t_def d_def, THEN conjunct2, THEN conjunct1] ih [folded t_def d_def, THEN conjunct2, THEN conjunct2])+)
qed

section \<open>Single writes\<close>

definition same_rest :: "'v lheap \<Rightarrow> 'v lheap \<Rightarrow> bool" where
  "same_rest h h' \<longleftrightarrow> lhLen h' = lhLen h \<and> lhFresh h' = lhFresh h \<and> (\<forall>x. lhNodes h' x = None \<longleftrightarrow> lhNodes h x = None) \<and>
     ow h' = ow h \<and> vl h' = vl h"

lemma same_rest_trans: "same_rest h h1 \<Longrightarrow> same_rest h1 h2 \<Longrightarrow> same_rest h h2"
  by (simp add: same_rest_def)

lemma read_spec:
  "lhNodes h a \<noteq> None \<Longrightarrow> \<exists>nd. read_node h (Some a) = Done nd \<and> lnNext nd = nx h a \<and> lnPrev nd = pv h a \<and> lnList nd = ow h a \<and> lnValue nd = vl h a"
  by (auto simp: read_node_def nx_def pv_def ow_def vl_def)

lemma set_next_spec:
  "lhNodes h a \<noteq> None \<Longrightarrow> \<exists>h'. set_next (Some a) q h = Done h' \<and> nx h' = (nx h)(a := q) \<and> pv h' = pv h \<and> same_rest h h'"
  by (auto simp: write_node_def nx_def pv_def ow_def vl_def same_rest_def fun_eq_iff)

lemma set_prev_spec:
  "lhNodes h a \<noteq> None \<Longrightarrow> \<exists>h'. set_prev (Some a) q h = Done h' \<and> pv h' = (pv h)(a := q) \<and> nx h' = nx h \<and> same_rest h h'"
  by (auto simp: write_node_def nx_def pv_def ow_def vl_def same_rest_def fun_eq_iff)

lemma set_list_spec:
  "lhNodes h a \<noteq> None \<Longrightarrow> \<exists>h'. set_list (Some a) q h = Done h' \<and> nx h' = nx h \<and> pv h' = pv h \<and> ow h' = (ow h)(a := q) \<and> vl h' = vl h \<and>
    lhLen h' = lhLen h \<and> lhFresh h' = lhFresh h \<and> (\<forall>x. lhNodes h' x = None \<longleftrightarrow> lhNodes h x = None)"
  by (auto simp: write_node_def nx_def pv_def ow_def vl_def fun_eq_iff)

lemma link_after_spec:
  assumes "lhNodes h e \<noteq> None" "lhNodes h a \<noteq> None" "nx h a = Some b" "lhNodes h b \<noteq> None" "e \<noteq> a"
  shows "\<exists>h'. link_after e (Some a) h = Done h' \<and> nx h' = (nx h)(a := Some e, e := Some b) \<and> pv h' = (pv h)(e := Some a, b := Some e) \<and> same_rest h h'"
proof -
  from set_prev_spec [OF assms(1), of "Some a"] obtain h1 where
    h1: "set_prev (Some e) (Some a) h = Done h1" "pv h1 = (pv h)(e := Some a)" "nx h1 = nx h" "same_rest h h1" by blast
  then have n1: "lhNodes h1 x \<noteq> None \<longleftrightarrow> lhNodes h x \<noteq> None" for x by (simp add: same_rest_def)
  from read_spec [of h1 a] n1 assms(2,3) h1(3) obtain pn where pn: "read_node h1 (Some a) = Done pn" "lnNext pn = Some b" by auto
  from set_next_spec [of h1 e "Some b"] n1 assms(1) obtain h2 where
    h2: "set_next (Some e) (Some b) h1 = Done h2" "nx h2 = (nx h1)(e := Some b)" "pv h2 = pv h1" "same_rest h1 h2" by blast
  then have n2: "lhNodes h2 x \<noteq> None \<longleftrightarrow> lhNodes h x \<noteq> None" for x using n1 [of x] by (simp add: same_rest_def)
  from read_spec [of h2 e] n2 assms(1) h1(2) h2(3) obtain en2 where en2: "read_node h2 (Some e) = Done en2" "lnPrev en2 = Some a" by auto
  from set_next_spec [of h2 a "Some e"] n2 assms(2) obtain h3 where
    h3: "set_next (Some a) (Some e) h2 = Done h3" "nx h3 = (nx h2)(a := Some e)" "pv h3 = pv h2" "same_rest h2 h3" by blast
  then have n3: "lhNodes h3 x \<noteq> None \<longleftrightarrow> lhNodes h x \<noteq> None" for x using n2 [of x] by (simp add: same_rest_def)
  from read_spec [of h3 e] n3 assms(1,5) h2(2) h3(2) obtain en3 where en3: "read_node h3 (Some e) = Done en3" "lnNext en3 = Some b" by auto
  from set_prev_spec [of h3 b "Some e"] n3 assms(4) obtain h4 where
    h4: "set_prev (Some b) (Some e) h3 = Done h4" "pv h4 = (pv h3)(b := Some e)" "nx h4 = nx h3" "same_rest h3 h4" by blast
  have "link_after e (Some a) h = Done h4" by (simp add: link_after_def h1(1) pn h2(1) en2 h3(1) en3 h4(1))
  moreover have "nx h4 = (nx h)(a := Some e, e := Some b)" using h1 h2 h3 h4 assms(5) by (auto simp: fun_eq_iff)
  moreover have "pv h4 = (pv h)(e := Some a, b := Some e)" using h1 h2 h3 h4 by simp
  moreover have "same_rest h h4" using h1(4) h2(4) h3(4) h4(4) by (meson same_rest_trans)
  ultimately show ?thesis by blast
qed

lemma unlink_spec:
  assumes "lhNodes h e \<noteq> None" "nx h e = Some b" "pv h e = Some a" "lhNodes h a \<noteq> None" "lhNodes h b \<noteq> None" "e \<noteq> a"
  shows "\<exists>h'. unlink e h = Done h' \<and> nx h' = (nx h)(a := Some b) \<and> pv h' = (pv h)(b := Some a) \<and> same_rest h h'"
proof -
  from read_spec [OF assms(1)] assms(2,3) obtain en where en: "read_node h (Some e) = Done en" "lnNext en = Some b" "lnPrev en = Some a" by auto
  from set_next_spec [OF assms(4), of "Some b"] obtain h1 where
    h1: "set_next (Some a) (Some b) h = Done h1" "nx h1 = (nx h)(a := Some b)" "pv h1 = pv h" "same_rest h h1" by blast
  then have n1: "lhNodes h1 x \<noteq> None \<longleftrightarrow> lhNodes h x \<noteq> None" for x by (simp add: same_rest_def)
  from read_spec [of h1 e] n1 assms(1-3,6) h1(2,3) obtain en1 where
    en1: "read_node h1 (Some e) = Done en1" "lnNext en1 = Some b" "lnPrev en1 = Some a" by auto
  from set_prev_spec [of h1 b "Some a"] n1 assms(5) obtain h2 where
    h2: "set_prev (Some b) (Some a) h1 = Done h2" "pv h2 = (pv h1)(b := Some a)" "nx h2 = nx h1" "same_rest h1 h2" by blast
  have "unlink e h = Done h2" by (simp add: unlink_def en h1(1) en1 h2(1))
  moreover have "same_rest h h2" using h1(4) h2(4) by (rule same_rest_trans)
  ultimately show ?thesis using h1 h2 by auto
qed


section \<open>The ring of a list\<close>

text \<open>The list \<open>l\<close> has the elements \<open>xs\<close>, in this order; the elements that name it as their list are these, and no others.\<close>

definition ring :: "'v lheap \<Rightarrow> nat \<Rightarrow> nat list \<Rightarrow> bool" where
  "ring h l xs \<longleftrightarrow> seg (nx h) (pv h) l xs l \<and> distinct (l # xs) \<and> (\<forall>x. ow h x = Some l \<longleftrightarrow> x \<in> set xs) \<and>
     (\<forall>x \<in> set (l # xs). lhNodes h x \<noteq> None) \<and> lhLen h l = int (length xs) \<and> (\<forall>x \<in> set xs. vl h x \<noteq> None)"

definition heap_ok :: "'v lheap \<Rightarrow> bool" where
  "heap_ok h \<longleftrightarrow> (\<forall>a. lhNodes h a \<noteq> None \<longleftrightarrow> a < lhFresh h)"

lemma ringD:
  assumes "ring h l xs"
  shows "seg (nx h) (pv h) l xs l" "distinct xs" "l \<notin> set xs" "\<And>x. ow h x = Some l \<longleftrightarrow> x \<in> set xs"
    "lhNodes h l \<noteq> None" "\<And>x. x \<in> set xs \<Longrightarrow> lhNodes h x \<noteq> None" "lhLen h l = int (length xs)" "\<And>x. x \<in> set xs \<Longrightarrow> vl h x \<noteq> None"
  using assms by (auto simp: ring_def)

lemma last_mem: "last (l # ys) \<in> insert l (set ys)"
  using last_in_set [of "l # ys"] by simp

lemma hd_mem: "hd (zs @ [l]) \<in> insert l (set zs)"
  by (cases zs) auto

lemma ring_front: "ring h l xs \<Longrightarrow> nx h l = Some (hd (xs @ [l])) \<and> pv h l = Some (last (l # xs))"
  using seg_ends ringD(1) by blast

text \<open>An element is put between two parts of a list.\<close>

lemma ring_insert:
  assumes "heap_ok h" "ring h l (ys @ zs)"
  shows "\<exists>h'. ls_insertValue l v (Some (last (l # ys))) h = Done (lhFresh h, h') \<and> heap_ok h' \<and> lhFresh h' = lhFresh h + 1 \<and>
    vl h' = (vl h)(lhFresh h \<mapsto> v) \<and> ring h' l (ys @ lhFresh h # zs)"
proof -
  note r = ringD [OF assms(2)]
  let ?e = "lhFresh h" and ?a = "last (l # ys)" and ?b = "hd (zs @ [l])"
  let ?h = "snd (alloc_node \<lparr>lnNext = None, lnPrev = None, lnList = None, lnValue = Some v\<rparr> h)"
  have a: "?a \<in> insert l (set (ys @ zs))" and b: "?b \<in> insert l (set (ys @ zs))" using last_mem [of l ys] hd_mem [of zs l] by auto
  have old: "lhNodes h x \<noteq> None" "x \<noteq> ?e" if "x \<in> insert l (set (ys @ zs))" for x
    using that r(5,6) assms(1) by (auto simp: heap_ok_def)
  have none: "lhNodes h ?e = None" using assms(1) by (auto simp: heap_ok_def)
  have h0: "nx ?h x = nx h x" "pv ?h x = pv h x" "ow ?h x = ow h x" "vl ?h x = ((vl h)(?e \<mapsto> v)) x"
    "lhNodes ?h x \<noteq> None \<longleftrightarrow> x < lhFresh h + 1" "lhLen ?h = lhLen h" "lhFresh ?h = lhFresh h + 1" for x
    using assms(1) none by (auto simp: alloc_node_def nx_def pv_def ow_def vl_def heap_ok_def)
  have s: "seg (nx ?h) (pv ?h) l (ys @ zs) l" using r(1) h0(1,2) by (subst seg_cong [of _ _ _ "nx h" _ _ "pv h"]) auto
  have dj: "distinct (ys @ zs)" "l \<notin> set (ys @ zs)" "?e \<notin> insert l (insert l (set (ys @ zs)))"
    using r(2,3) old by auto
  have "nx h ?a = Some ?b"
  proof (cases ys rule: rev_cases)
    case Nil
    then show ?thesis using seg_ends [OF r(1)] by simp
  next
    case (snoc us u)
    then show ?thesis using r(1) seg_ends [of "nx h" "pv h" u zs l] by (simp add: seg_append)
  qed
  then have nb: "nx ?h ?a = Some ?b" using h0(1) by simp
  have "lhNodes ?h ?e \<noteq> None" "lhNodes ?h ?a \<noteq> None" "lhNodes ?h ?b \<noteq> None" "?e \<noteq> ?a"
    using h0(5) old [OF a] old [OF b] assms(1) by (auto simp: heap_ok_def intro: less_SucI)
  from link_after_spec [OF this(1,2) nb this(3,4)] obtain h1 where
    h1: "link_after ?e (Some ?a) ?h = Done h1" "nx h1 = (nx ?h)(?a := Some ?e, ?e := Some ?b)"
      "pv h1 = (pv ?h)(?e := Some ?a, ?b := Some ?e)" "same_rest ?h h1" by blast
  have "lhNodes h1 ?e \<noteq> None" using h1(4) h0(5) by (simp add: same_rest_def)
  from set_list_spec [OF this, of "Some l"] obtain h2 where
    h2: "set_list (Some ?e) (Some l) h1 = Done h2" "nx h2 = nx h1" "pv h2 = pv h1" "ow h2 = (ow h1)(?e := Some l)" "vl h2 = vl h1"
      "lhLen h2 = lhLen h1" "lhFresh h2 = lhFresh h1" "\<forall>x. lhNodes h2 x = None \<longleftrightarrow> lhNodes h1 x = None" by blast
  let ?h' = "h2\<lparr>lhLen := (lhLen h2)(l := lhLen h2 l + 1)\<rparr>"
  have f: "nx ?h' = nx h2" "pv ?h' = pv h2" "ow ?h' = ow h2" "vl ?h' = vl h2" by (auto simp: nx_def pv_def ow_def vl_def fun_eq_iff)
  have dom: "lhNodes ?h' x \<noteq> None \<longleftrightarrow> x < lhFresh h + 1" for x
    using h2(8) h1(4) h0(5) [of x] by (simp add: same_rest_def)
  have own: "ow ?h' x = Some l \<longleftrightarrow> x \<in> set (ys @ ?e # zs)" for x
    using f(3) h2(4) h1(4) h0(3) [of x] r(4) [of x] by (auto simp: same_rest_def)
  have val: "vl ?h' = (vl h)(?e \<mapsto> v)" using f(4) h2(5) h1(4) h0(4) by (simp add: same_rest_def fun_eq_iff)
  have "ring ?h' l (ys @ ?e # zs)"
    unfolding ring_def
  proof (intro conjI allI ballI)
    show "seg (nx ?h') (pv ?h') l (ys @ ?e # zs) l"
      unfolding f h2(2,3) h1(2,3) by (rule seg_insert [OF s dj(1,2,2,3)])
    show "distinct (l # ys @ ?e # zs)" using dj by auto
    show "lhNodes ?h' x \<noteq> None" if "x \<in> set (l # ys @ ?e # zs)" for x
      unfolding dom using that old(1) [of x] assms(1) by (auto simp: heap_ok_def intro: less_SucI)
    show "lhLen ?h' l = int (length (ys @ ?e # zs))" using r(7) h0(6) h1(4) h2(6) by (simp add: same_rest_def)
    show "vl ?h' x \<noteq> None" if "x \<in> set (ys @ ?e # zs)" for x using that r(8) [of x] by (auto simp: val)
  qed (rule own)
  moreover have "ls_insertValue l v (Some ?a) h = Done (?e, ?h')"
    using h1(1) h2(1) by (simp add: ls_insertValue_def ls_insert_def alloc_node_def)
  moreover have "heap_ok ?h'" "lhFresh ?h' = lhFresh h + 1"
    using dom h2(7) h1(4) h0(7) by (simp_all add: heap_ok_def same_rest_def)
  ultimately show ?thesis using val by blast
qed


text \<open>An element is taken out of its place: what the heap is then, apart from the element's own pointers.\<close>

lemma ring_unlink:
  assumes "ring h l (ys @ e # zs)"
  shows "\<exists>h'. unlink e h = Done h' \<and> seg (nx h') (pv h') l (ys @ zs) l \<and> same_rest h h'"
proof -
  note r = ringD [OF assms]
  let ?a = "last (l # ys)" and ?b = "hd (zs @ [l])"
  have a: "?a \<in> insert l (set ys)" and b: "?b \<in> insert l (set zs)" by (rule last_mem, rule hd_mem)
  have dj: "distinct (ys @ e # zs)" "l \<notin> set (ys @ e # zs)" using r(2,3) .
  note d = seg_delete [OF r(1) dj(1,2,2)]
  have "lhNodes h e \<noteq> None" "lhNodes h ?a \<noteq> None" "lhNodes h ?b \<noteq> None" "e \<noteq> ?a"
    using a b r(5,6) dj by auto
  from unlink_spec [OF this(1) conjunct1 [OF conjunct2 [OF d]] conjunct2 [OF conjunct2 [OF d]] this(2-4)] d show ?thesis by metis
qed

lemma ring_remove:
  assumes "heap_ok h" "ring h l (ys @ e # zs)"
  shows "\<exists>h'. ls_remove l e h = Done h' \<and> heap_ok h' \<and> lhFresh h' = lhFresh h \<and> vl h' = vl h \<and> ring h' l (ys @ zs)"
proof -
  note r = ringD [OF assms(2)]
  from ring_unlink [OF assms(2)] obtain h1 where h1: "unlink e h = Done h1" "seg (nx h1) (pv h1) l (ys @ zs) l" "same_rest h h1" by blast
  have e: "lhNodes h e \<noteq> None" "e \<noteq> l" "e \<notin> set (ys @ zs)" using r(2,3,6) by auto
  have n1: "lhNodes h1 x \<noteq> None \<longleftrightarrow> lhNodes h x \<noteq> None" for x using h1(3) by (simp add: same_rest_def)
  from set_next_spec [of h1 e None] n1 e(1) obtain h2 where
    h2: "set_next (Some e) None h1 = Done h2" "nx h2 = (nx h1)(e := None)" "pv h2 = pv h1" "same_rest h1 h2" by blast
  have n2: "lhNodes h2 x \<noteq> None \<longleftrightarrow> lhNodes h x \<noteq> None" for x using n1 h2(4) by (simp add: same_rest_def)
  from set_prev_spec [of h2 e None] n2 e(1) obtain h3 where
    h3: "set_prev (Some e) None h2 = Done h3" "pv h3 = (pv h2)(e := None)" "nx h3 = nx h2" "same_rest h2 h3" by blast
  have s3: "same_rest h h3" using h1(3) h2(4) h3(4) by (meson same_rest_trans)
  have n3: "lhNodes h3 x \<noteq> None \<longleftrightarrow> lhNodes h x \<noteq> None" for x using s3 by (simp add: same_rest_def)
  from set_list_spec [of h3 e None] n3 e(1) obtain h4 where
    h4: "set_list (Some e) None h3 = Done h4" "nx h4 = nx h3" "pv h4 = pv h3" "ow h4 = (ow h3)(e := None)" "vl h4 = vl h3"
      "lhLen h4 = lhLen h3" "lhFresh h4 = lhFresh h3" "\<forall>x. lhNodes h4 x = None \<longleftrightarrow> lhNodes h3 x = None" by blast
  let ?h' = "h4\<lparr>lhLen := (lhLen h4)(l := lhLen h4 l - 1)\<rparr>"
  have f: "nx ?h' = nx h4" "pv ?h' = pv h4" "ow ?h' = ow h4" "vl ?h' = vl h4" by (auto simp: nx_def pv_def ow_def vl_def fun_eq_iff)
  have dom: "lhNodes ?h' x \<noteq> None \<longleftrightarrow> lhNodes h x \<noteq> None" for x using h4(8) n3 by simp
  have "ls_remove l e h = Done ?h'" by (simp add: ls_remove_def h1(1) h2(1) h3(1) h4(1))
  moreover have "ring ?h' l (ys @ zs)"
    unfolding ring_def
  proof (intro conjI allI ballI)
    show "seg (nx ?h') (pv ?h') l (ys @ zs) l"
      unfolding f h4(2,3) h3(2,3) h2(2,3)
      by (subst seg_cong [of _ _ _ "nx h1" _ _ "pv h1"]) (use e h1(2) in auto)
    show "ow ?h' x = Some l \<longleftrightarrow> x \<in> set (ys @ zs)" for x
      unfolding f h4(4) using s3 r(4) [of x] e(3) by (auto simp: same_rest_def)
    show "lhNodes ?h' x \<noteq> None" if "x \<in> set (l # ys @ zs)" for x unfolding dom using that r(5,6) by auto
    show "lhLen ?h' l = int (length (ys @ zs))" using r(7) s3 h4(6) by (simp add: same_rest_def)
    show "vl ?h' x \<noteq> None" if "x \<in> set (ys @ zs)" for x unfolding f h4(5) using that r(8) [of x] s3 by (auto simp: same_rest_def)
  qed (use r(2,3) in auto)
  moreover have "heap_ok ?h'" "lhFresh ?h' = lhFresh h" "vl ?h' = vl h"
    using assms(1) dom h4(5,7) f(4) s3 by (simp_all add: heap_ok_def same_rest_def)
  ultimately show ?thesis by blast
qed

lemma ring_move:
  assumes "heap_ok h" "ring h l (ys @ e # zs)" "ys @ zs = us @ vs"
  shows "\<exists>h'. ls_move e (Some (last (l # us))) h = Done h' \<and> heap_ok h' \<and> lhFresh h' = lhFresh h \<and> vl h' = vl h \<and> ring h' l (us @ e # vs)"
proof -
  note r = ringD [OF assms(2)]
  from ring_unlink [OF assms(2)] obtain h1 where h1: "unlink e h = Done h1" "seg (nx h1) (pv h1) l (us @ vs) l" "same_rest h h1"
    using assms(3) by auto
  let ?a = "last (l # us)" and ?b = "hd (vs @ [l])"
  have st: "set (ys @ zs) = set (us @ vs)" using assms(3) by simp
  have dj: "distinct (us @ vs)" "l \<notin> set (us @ vs)" "e \<notin> insert l (insert l (set (us @ vs)))"
    using r(2,3) unfolding assms(3) [symmetric] by auto
  have a: "?a \<in> insert l (set (us @ vs))" and b: "?b \<in> insert l (set (us @ vs))" using last_mem [of l us] hd_mem [of vs l] by auto
  have n1: "lhNodes h1 x \<noteq> None" if "x \<in> insert e (insert l (set (us @ vs)))" for x
    using that r(5,6) h1(3) st by (auto simp: same_rest_def)
  have nb: "nx h1 ?a = Some ?b"
  proof (cases us rule: rev_cases)
    case Nil
    then show ?thesis using seg_ends [OF h1(2)] by simp
  next
    case (snoc ws w)
    then show ?thesis using h1(2) seg_ends [of "nx h1" "pv h1" w vs l] by (simp add: seg_append)
  qed
  have "lhNodes h1 e \<noteq> None" "lhNodes h1 ?a \<noteq> None" "lhNodes h1 ?b \<noteq> None" "e \<noteq> ?a" using n1 a b dj(3) by blast+
  from link_after_spec [OF this(1,2) nb this(3,4)] obtain h2 where
    h2: "link_after e (Some ?a) h1 = Done h2" "nx h2 = (nx h1)(?a := Some e, e := Some ?b)"
      "pv h2 = (pv h1)(e := Some ?a, ?b := Some e)" "same_rest h1 h2" by blast
  have s: "same_rest h h2" using h1(3) h2(4) by (rule same_rest_trans)
  have "ring h2 l (us @ e # vs)"
    unfolding ring_def
  proof (intro conjI allI ballI)
    show "seg (nx h2) (pv h2) l (us @ e # vs) l" unfolding h2(2,3) by (rule seg_insert [OF h1(2) dj(1,2,2,3)])
    show "distinct (l # us @ e # vs)" using dj by auto
    have sx: "set (us @ e # vs) = set (ys @ e # zs)" using st by auto
    show "ow h2 x = Some l \<longleftrightarrow> x \<in> set (us @ e # vs)" for x
      unfolding sx using s r(4) [of x] by (simp add: same_rest_def)
    show "vl h2 x \<noteq> None" if "x \<in> set (us @ e # vs)" for x
      using that s r(8) [of x] unfolding sx by (simp add: same_rest_def)
    show "lhNodes h2 x \<noteq> None" if "x \<in> set (l # us @ e # vs)" for x
    proof -
      from that sx have "x = l \<or> x \<in> set (ys @ e # zs)" by auto
      then show ?thesis using s r(5) r(6) [of x] by (auto simp only: same_rest_def)
    qed
    show "lhLen h2 l = int (length (us @ e # vs))"
      using s r(7) arg_cong [OF assms(3), of length] by (simp add: same_rest_def)
  qed
  moreover have "ls_move e (Some ?a) h = Done h2" using \<open>e \<noteq> ?a\<close> h1(1) h2(1) by (simp add: ls_move_def)
  moreover have "heap_ok h2" "lhFresh h2 = lhFresh h" "vl h2 = vl h" using assms(1) s by (simp_all add: heap_ok_def same_rest_def)
  ultimately show ?thesis by blast
qed


section \<open>What the operations do to the list\<close>

text \<open>An operation with its pointers.\<close>

datatype 'v list_op =
  PushFrontOp 'v | PushBackOp 'v | InsertBeforeOp 'v nat | InsertAfterOp 'v nat | RemoveOp nat
| MoveToFrontOp nat | MoveToBackOp nat | MoveBeforeOp nat nat | MoveAfterOp nat nat

fun list_exec :: "nat \<Rightarrow> 'v list_op \<Rightarrow> 'v lheap \<Rightarrow> 'v lheap outcome" where
  "list_exec l (PushFrontOp v) h = obind (ls_PushFront l v h) (\<lambda>r. Done (snd r))"
| "list_exec l (PushBackOp v) h = obind (ls_PushBack l v h) (\<lambda>r. Done (snd r))"
| "list_exec l (InsertBeforeOp v m) h = obind (ls_InsertBefore l v m h) (\<lambda>r. Done (snd r))"
| "list_exec l (InsertAfterOp v m) h = obind (ls_InsertAfter l v m h) (\<lambda>r. Done (snd r))"
| "list_exec l (RemoveOp e) h = obind (ls_Remove l e h) (\<lambda>r. Done (snd r))"
| "list_exec l (MoveToFrontOp e) h = ls_MoveToFront l e h"
| "list_exec l (MoveToBackOp e) h = ls_MoveToBack l e h"
| "list_exec l (MoveBeforeOp e m) h = ls_MoveBefore l e m h"
| "list_exec l (MoveAfterOp e m) h = ls_MoveAfter l e m h"

definition insert_before :: "nat \<Rightarrow> nat \<Rightarrow> nat list \<Rightarrow> nat list" where
  "insert_before m e xs = takeWhile (\<lambda>x. x \<noteq> m) xs @ e # dropWhile (\<lambda>x. x \<noteq> m) xs"

definition insert_after :: "nat \<Rightarrow> nat \<Rightarrow> nat list \<Rightarrow> nat list" where
  "insert_after m e xs = takeWhile (\<lambda>x. x \<noteq> m) xs @ m # e # tl (dropWhile (\<lambda>x. x \<noteq> m) xs)"

text \<open>The same on a list, where the next allocation has the address \<open>n\<close>.\<close>

fun list_step :: "'v list_op \<Rightarrow> nat \<Rightarrow> nat list \<Rightarrow> nat list" where
  "list_step (PushFrontOp v) n xs = n # xs"
| "list_step (PushBackOp v) n xs = xs @ [n]"
| "list_step (InsertBeforeOp v m) n xs = (if m \<in> set xs then insert_before m n xs else xs)"
| "list_step (InsertAfterOp v m) n xs = (if m \<in> set xs then insert_after m n xs else xs)"
| "list_step (RemoveOp e) n xs = remove1 e xs"
| "list_step (MoveToFrontOp e) n xs = (if e \<in> set xs then e # remove1 e xs else xs)"
| "list_step (MoveToBackOp e) n xs = MoveToBack e xs"
| "list_step (MoveBeforeOp e m) n xs = (if e \<in> set xs \<and> m \<in> set xs \<and> e \<noteq> m then insert_before m e (remove1 e xs) else xs)"
| "list_step (MoveAfterOp e m) n xs = (if e \<in> set xs \<and> m \<in> set xs \<and> e \<noteq> m then insert_after m e (remove1 e xs) else xs)"

fun list_alloc :: "'v list_op \<Rightarrow> nat list \<Rightarrow> 'v option" where
  "list_alloc (PushFrontOp v) xs = Some v"
| "list_alloc (PushBackOp v) xs = Some v"
| "list_alloc (InsertBeforeOp v m) xs = (if m \<in> set xs then Some v else None)"
| "list_alloc (InsertAfterOp v m) xs = (if m \<in> set xs then Some v else None)"
| "list_alloc op xs = None"

fun list_ptrs :: "'v list_op \<Rightarrow> nat list" where
  "list_ptrs (PushFrontOp v) = []"
| "list_ptrs (PushBackOp v) = []"
| "list_ptrs (InsertBeforeOp v m) = [m]"
| "list_ptrs (InsertAfterOp v m) = [m]"
| "list_ptrs (RemoveOp e) = [e]"
| "list_ptrs (MoveToFrontOp e) = [e]"
| "list_ptrs (MoveToBackOp e) = [e]"
| "list_ptrs (MoveBeforeOp e m) = [e, m]"
| "list_ptrs (MoveAfterOp e m) = [e, m]"

definition list_fresh :: "'v list_op \<Rightarrow> nat list \<Rightarrow> nat \<Rightarrow> nat" where
  "list_fresh op xs n = (if list_alloc op xs = None then n else n + 1)"

definition list_values :: "'v list_op \<Rightarrow> nat list \<Rightarrow> nat \<Rightarrow> (nat \<Rightarrow> 'v option) \<Rightarrow> (nat \<Rightarrow> 'v option)" where
  "list_values op xs n vals = (case list_alloc op xs of None \<Rightarrow> vals | Some v \<Rightarrow> vals(n \<mapsto> v))"

lemma insert_before_split: "m \<notin> set ys \<Longrightarrow> insert_before m e (ys @ m # zs) = ys @ e # m # zs"
  by (simp add: insert_before_def takeWhile_append dropWhile_append)

lemma insert_after_split: "m \<notin> set ys \<Longrightarrow> insert_after m e (ys @ m # zs) = (ys @ [m]) @ e # zs"
  by (simp add: insert_after_def takeWhile_append dropWhile_append)

lemma ring_lazyInit: "ring h l xs \<Longrightarrow> ls_lazyInit l h = Done h"
proof -
  assume r: "ring h l xs"
  from read_spec [OF ringD(5) [OF r]] ring_front [OF r] show ?thesis by (auto simp: ls_lazyInit_def)
qed

lemma ring_pv_at:
  assumes "ring h l (ys @ m # zs)"
  shows "pv h m = Some (last (l # ys))"
  using seg_ends [of "nx h" "pv h" l ys m] ringD(1) [OF assms] by (simp add: seg_append)

lemma heap_ok_read:
  assumes "heap_ok h" "p < lhFresh h"
  shows "\<exists>nd. read_node h (Some p) = Done nd \<and> lnNext nd = nx h p \<and> lnPrev nd = pv h p \<and> lnList nd = ow h p \<and> lnValue nd = vl h p"
  by (rule read_spec) (use assms in \<open>auto simp: heap_ok_def\<close>)

text \<open>What is shown of each operation: it returns, and the new heap holds the new list.\<close>

definition list_refined :: "nat \<Rightarrow> 'v list_op \<Rightarrow> 'v lheap \<Rightarrow> nat list \<Rightarrow> bool" where
  "list_refined l op h xs \<longleftrightarrow> (\<exists>h'. list_exec l op h = Done h' \<and> heap_ok h' \<and> ring h' l (list_step op (lhFresh h) xs) \<and>
     lhFresh h' = list_fresh op xs (lhFresh h) \<and> vl h' = list_values op xs (lhFresh h) (vl h))"

lemmas refined_defs = list_refined_def list_fresh_def list_values_def

lemma ring_root:
  assumes "ring h l xs"
  shows "\<exists>ln. read_node h (Some l) = Done ln \<and> lnNext ln = Some (hd (xs @ [l])) \<and> lnPrev ln = Some (last (l # xs))"
  using read_spec [OF ringD(5) [OF assms]] ring_front [OF assms] by auto

lemma ring_move_any:
  assumes "heap_ok h" "ring h l xs" "e \<in> set xs" "remove1 e xs = us @ vs"
  shows "\<exists>h'. ls_move e (Some (last (l # us))) h = Done h' \<and> heap_ok h' \<and> lhFresh h' = lhFresh h \<and> vl h' = vl h \<and> ring h' l (us @ e # vs)"
proof -
  from assms(3) obtain ys zs where "xs = ys @ e # zs" "e \<notin> set ys" by (meson split_list_first)
  with ring_move [OF assms(1), of l ys e zs us vs] assms(2,4) show ?thesis by (simp add: remove1_append)
qed

lemma push_refined:
  assumes "heap_ok h" "ring h l xs"
  shows "list_refined l (PushFrontOp v) h xs" "list_refined l (PushBackOp v) h xs"
proof -
  note lazy = ring_lazyInit [OF assms(2)]
  from ring_root [OF assms(2)] obtain ln where "read_node h (Some l) = Done ln" "lnPrev ln = Some (last (l # xs))" by blast
  with ring_insert [OF assms(1), of l "[]" xs v] ring_insert [OF assms(1), of l xs "[]" v] assms(2) lazy
  show "list_refined l (PushFrontOp v) h xs" "list_refined l (PushBackOp v) h xs"
    by (auto simp: ls_PushFront_def ls_PushBack_def refined_defs)
qed

lemma insert_before_refined:
  assumes "heap_ok h" "ring h l xs" "m < lhFresh h"
  shows "list_refined l (InsertBeforeOp v m) h xs"
proof -
  note o = ringD(4) [OF assms(2), of m]
  from heap_ok_read [OF assms(1,3)] obtain mn where mn: "read_node h (Some m) = Done mn" "lnPrev mn = pv h m" "lnList mn = ow h m" by auto
  show ?thesis
  proof (cases "m \<in> set xs")
    case True
    then obtain ys zs where x: "xs = ys @ m # zs" "m \<notin> set ys" by (meson split_list_first)
    with ring_insert [OF assms(1), of l ys "m # zs" v] ring_pv_at [of h l ys m zs] assms(2) mn o True show ?thesis
      by (auto simp: ls_InsertBefore_def refined_defs insert_before_split)
  next
    case False
    with mn o assms(1,2) show ?thesis by (auto simp: ls_InsertBefore_def refined_defs)
  qed
qed

lemma insert_after_refined:
  assumes "heap_ok h" "ring h l xs" "m < lhFresh h"
  shows "list_refined l (InsertAfterOp v m) h xs"
proof -
  note o = ringD(4) [OF assms(2), of m]
  from heap_ok_read [OF assms(1,3)] obtain mn where mn: "read_node h (Some m) = Done mn" "lnList mn = ow h m" by auto
  show ?thesis
  proof (cases "m \<in> set xs")
    case True
    then obtain ys zs where x: "xs = ys @ m # zs" "m \<notin> set ys" by (meson split_list_first)
    with ring_insert [OF assms(1), of l "ys @ [m]" zs v] assms(2) mn o True show ?thesis
      by (auto simp: ls_InsertAfter_def refined_defs insert_after_split)
  next
    case False
    with mn o assms(1,2) show ?thesis by (auto simp: ls_InsertAfter_def refined_defs)
  qed
qed

lemma remove_refined:
  assumes "heap_ok h" "ring h l xs" "e < lhFresh h"
  shows "list_refined l (RemoveOp e) h xs"
proof -
  note o = ringD(4) [OF assms(2), of e]
  from heap_ok_read [OF assms(1,3)] obtain en where en: "read_node h (Some e) = Done en" "lnList en = ow h e" by auto
  show ?thesis
  proof (cases "e \<in> set xs")
    case True
    then obtain ys zs where x: "xs = ys @ e # zs" "e \<notin> set ys" by (meson split_list_first)
    with ring_remove [OF assms(1), of l ys e zs] assms(2) obtain h' where
      h': "ls_remove l e h = Done h'" "heap_ok h'" "lhFresh h' = lhFresh h" "vl h' = vl h" "ring h' l (ys @ zs)" by blast
    from heap_ok_read [OF h'(2), of e] h'(3) assms(3) obtain en1 where "read_node h' (Some e) = Done en1" by auto
    with h' x en o True show ?thesis by (auto simp: ls_Remove_def refined_defs remove1_append)
  next
    case False
    with en o assms(1,2) show ?thesis by (auto simp: ls_Remove_def refined_defs remove1_idem)
  qed
qed

lemma move_to_front_refined:
  assumes "heap_ok h" "ring h l xs" "e < lhFresh h"
  shows "list_refined l (MoveToFrontOp e) h xs"
proof -
  note r = ringD [OF assms(2)] and o = ringD(4) [OF assms(2), of e]
  from heap_ok_read [OF assms(1,3)] obtain en where en: "read_node h (Some e) = Done en" "lnList en = ow h e" by auto
  from ring_root [OF assms(2)] obtain ln where ln: "read_node h (Some l) = Done ln" "lnNext ln = Some (hd (xs @ [l]))" by blast
  consider "e \<notin> set xs" | "e \<in> set xs" "hd (xs @ [l]) = e" | "e \<in> set xs" "hd (xs @ [l]) \<noteq> e" by blast
  then show ?thesis
  proof cases
    case 2
    then obtain ws where "xs = e # ws" using r(3) by (cases xs) auto
    with en ln o assms(1,2) show ?thesis by (auto simp: ls_MoveToFront_def refined_defs)
  next
    case 3
    with ring_move_any [OF assms(1,2), of e "[]" "remove1 e xs"] en ln o show ?thesis
      by (auto simp: ls_MoveToFront_def refined_defs)
  qed (use en ln o assms(1,2) in \<open>auto simp: ls_MoveToFront_def refined_defs\<close>)
qed

lemma last_remove1: "last (l # ys) \<noteq> e \<Longrightarrow> distinct ys \<Longrightarrow> last (l # remove1 e ys) = last (l # ys)"
  by (cases ys rule: rev_cases) (auto simp: remove1_append)

lemma move_to_back_refined:
  assumes "heap_ok h" "ring h l xs" "e < lhFresh h"
  shows "list_refined l (MoveToBackOp e) h xs"
proof -
  note r = ringD [OF assms(2)] and o = ringD(4) [OF assms(2), of e]
  from heap_ok_read [OF assms(1,3)] obtain en where en: "read_node h (Some e) = Done en" "lnList en = ow h e" by auto
  from ring_root [OF assms(2)] obtain ln where ln: "read_node h (Some l) = Done ln" "lnPrev ln = Some (last (l # xs))" by blast
  consider "e \<notin> set xs" | "e \<in> set xs" "last (l # xs) = e" | "e \<in> set xs" "last (l # xs) \<noteq> e" by blast
  then show ?thesis
  proof cases
    case 2
    then obtain ws where x: "xs = ws @ [e]" using r(3) by (cases xs rule: rev_cases) auto
    then have "remove1 e xs @ [e] = xs" using r(2) by (simp add: remove1_append)
    with 2 en ln o assms(1,2) show ?thesis by (auto simp: ls_MoveToBack_def MoveToBack_def refined_defs)
  next
    case 3
    with last_remove1 [OF 3(2) r(2)] ring_move_any [OF assms(1,2), of e "remove1 e xs" "[]"] en ln o show ?thesis
      by (auto simp: ls_MoveToBack_def MoveToBack_def refined_defs)
  qed (use en ln o assms(1,2) in \<open>auto simp: ls_MoveToBack_def MoveToBack_def refined_defs\<close>)
qed

lemma move_before_refined:
  assumes "heap_ok h" "ring h l xs" "e < lhFresh h" "m < lhFresh h"
  shows "list_refined l (MoveBeforeOp e m) h xs"
proof -
  note r = ringD [OF assms(2)] and o = ringD(4) [OF assms(2), of e] ringD(4) [OF assms(2), of m]
  from heap_ok_read [OF assms(1,3)] obtain en where en: "read_node h (Some e) = Done en" "lnList en = ow h e" by auto
  from heap_ok_read [OF assms(1,4)] obtain mn where mn: "read_node h (Some m) = Done mn" "lnPrev mn = pv h m" "lnList mn = ow h m" by auto
  show ?thesis
  proof (cases "e \<in> set xs \<and> m \<in> set xs \<and> e \<noteq> m")
    case True
    then obtain ys zs where x: "xs = ys @ m # zs" "m \<notin> set ys" by (meson split_list_first)
    have p: "lnPrev mn = Some (last (l # ys))" using ring_pv_at [of h l ys m zs] assms(2) x(1) mn(2) by simp
    have exec: "list_exec l (MoveBeforeOp e m) h = ls_move e (Some (last (l # ys))) h"
      using True en mn o p by (simp add: ls_MoveBefore_def)
    show ?thesis
    proof (cases "last (l # ys) = e")
      case same: True
      then obtain ws where "ys = ws @ [e]" using True r(3) by (cases ys rule: rev_cases) auto
      then have "insert_before m e (remove1 e xs) = xs" using x r(2) by (simp add: remove1_append insert_before_split)
      with same True exec assms(1,2) show ?thesis by (simp add: refined_defs ls_move_def)
    next
      case False
      let ?zs = "if e \<in> set ys then zs else remove1 e zs"
      have rm: "remove1 e xs = remove1 e ys @ m # ?zs" using x(1) True by (simp add: remove1_append remove1_idem)
      have "last (l # remove1 e ys) = last (l # ys)" using last_remove1 [OF False] r(2) x(1) by simp
      moreover have "insert_before m e (remove1 e xs) = remove1 e ys @ e # m # ?zs"
        unfolding rm by (rule insert_before_split) (use x(2) notin_set_remove1 in fast)
      ultimately show ?thesis using ring_move_any [OF assms(1,2) conjunct1 [OF True] rm] True exec by (auto simp: refined_defs)
    qed
  next
    case False
    with en mn o assms(1,2) show ?thesis by (auto simp: ls_MoveBefore_def refined_defs)
  qed
qed

lemma move_after_refined:
  assumes "heap_ok h" "ring h l xs" "e < lhFresh h" "m < lhFresh h"
  shows "list_refined l (MoveAfterOp e m) h xs"
proof -
  note r = ringD [OF assms(2)] and o = ringD(4) [OF assms(2), of e] ringD(4) [OF assms(2), of m]
  from heap_ok_read [OF assms(1,3)] obtain en where en: "read_node h (Some e) = Done en" "lnList en = ow h e" by auto
  from heap_ok_read [OF assms(1,4)] obtain mn where mn: "read_node h (Some m) = Done mn" "lnList mn = ow h m" by auto
  show ?thesis
  proof (cases "e \<in> set xs \<and> m \<in> set xs \<and> e \<noteq> m")
    case True
    then have "m \<in> set (remove1 e xs)" by (simp add: in_set_remove1)
    then obtain us vs where x: "remove1 e xs = us @ m # vs" "m \<notin> set us" by (meson split_list_first)
    then have "remove1 e xs = (us @ [m]) @ vs" by simp
    from ring_move_any [OF assms(1,2) conjunct1 [OF True] this] True en mn o x show ?thesis
      by (auto simp: ls_MoveAfter_def refined_defs insert_after_split)
  next
    case False
    with en mn o assms(1,2) show ?thesis by (auto simp: ls_MoveAfter_def refined_defs)
  qed
qed

lemma list_exec_refined:
  assumes "heap_ok h" "ring h l xs" "\<forall>p \<in> set (list_ptrs op). p < lhFresh h"
  shows "list_refined l op h xs"
  using assms
  by (cases op) (simp_all add: push_refined insert_before_refined insert_after_refined remove_refined move_to_front_refined
    move_to_back_refined move_before_refined move_after_refined)

section \<open>Sequences of operations\<close>

fun list_run :: "nat \<Rightarrow> 'v list_op list \<Rightarrow> 'v lheap \<Rightarrow> 'v lheap outcome" where
  "list_run l [] h = Done h"
| "list_run l (op # ops) h = obind (list_exec l op h) (list_run l ops)"

fun spec_run :: "'v list_op list \<Rightarrow> nat \<Rightarrow> nat list \<Rightarrow> nat list" where
  "spec_run [] n xs = xs"
| "spec_run (op # ops) n xs = spec_run ops (list_fresh op xs n) (list_step op n xs)"

fun spec_values :: "'v list_op list \<Rightarrow> nat \<Rightarrow> nat list \<Rightarrow> (nat \<Rightarrow> 'v option) \<Rightarrow> (nat \<Rightarrow> 'v option)" where
  "spec_values [] n xs vals = vals"
| "spec_values (op # ops) n xs vals = spec_values ops (list_fresh op xs n) (list_step op n xs) (list_values op xs n vals)"

text \<open>The pointers given to an operation point to elements that were allocated.\<close>

fun ptrs_ok :: "'v list_op list \<Rightarrow> nat \<Rightarrow> nat list \<Rightarrow> bool" where
  "ptrs_ok [] n xs = True"
| "ptrs_ok (op # ops) n xs \<longleftrightarrow> list_all (\<lambda>p. p < n) (list_ptrs op) \<and> ptrs_ok ops (list_fresh op xs n) (list_step op n xs)"

text \<open>C15: whatever sequence of \<open>PushFront\<close>, \<open>PushBack\<close>, \<open>InsertBefore\<close>, \<open>InsertAfter\<close>, \<open>Remove\<close>, \<open>MoveToFront\<close>,
  \<open>MoveToBack\<close>, \<open>MoveBefore\<close> and \<open>MoveAfter\<close> is done on a list, with pointers to elements that were allocated (of this list
  or not, removed or not), none panics, and the ring of elements stays well formed: its elements, in their order, are those
  of a plain list on which the corresponding functions were done, and each has the value it was made with. The operations
  that copy a whole list, \<open>PushBackList\<close> and \<open>PushFrontList\<close>, are not among them, and neither is \<open>Init\<close>, after which the
  statement is false (\<open>remove_after_Init\<close>).\<close>

theorem list_run_refines:
  assumes "heap_ok h" "ring h l xs" "ptrs_ok ops (lhFresh h) xs"
  shows "\<exists>h'. list_run l ops h = Done h' \<and> heap_ok h' \<and> ring h' l (spec_run ops (lhFresh h) xs) \<and> vl h' = spec_values ops (lhFresh h) xs (vl h)"
  using assms
proof (induction ops arbitrary: h xs)
  case (Cons op ops)
  from Cons.prems(3) have "\<forall>p \<in> set (list_ptrs op). p < lhFresh h" by (simp add: list_all_iff)
  from list_exec_refined [OF Cons.prems(1,2) this] obtain h1 where h1: "list_exec l op h = Done h1" "heap_ok h1"
    "ring h1 l (list_step op (lhFresh h) xs)" "lhFresh h1 = list_fresh op xs (lhFresh h)" "vl h1 = list_values op xs (lhFresh h) (vl h)"
    by (auto simp: list_refined_def)
  with Cons.IH [OF h1(2,3)] Cons.prems(3) show ?case by simp
qed simp

text \<open>Going through a list, and its length.\<close>

lemma ring_walk:
  assumes "ring h l (ys @ e # zs)"
  shows "el_Next h e = Done (case zs of [] \<Rightarrow> None | z # _ \<Rightarrow> Some z)" "el_Prev h e = Done (if ys = [] then None else Some (last ys))"
proof -
  note r = ringD [OF assms]
  from read_spec [of h e] r(6) obtain nd where nd: "read_node h (Some e) = Done nd" "lnNext nd = nx h e" "lnPrev nd = pv h e" "lnList nd = ow h e"
    by auto
  have "ow h e = Some l" using r(4) by simp
  moreover have "nx h e = Some (hd (zs @ [l]))" using seg_ends [of "nx h" "pv h" e zs l] r(1) by (simp add: seg_append)
  moreover note ring_pv_at [OF assms]
  ultimately show "el_Next h e = Done (case zs of [] \<Rightarrow> None | z # _ \<Rightarrow> Some z)" "el_Prev h e = Done (if ys = [] then None else Some (last ys))"
    using nd r(3) by (cases "ys = []"; cases zs; force simp: el_Next_def el_Prev_def)+
qed

lemma ring_ends:
  assumes "ring h l xs"
  shows "ls_Front h l = Done (case xs of [] \<Rightarrow> None | x # _ \<Rightarrow> Some x)" "ls_Back h l = Done (if xs = [] then None else Some (last xs))"
    "ls_Len h l = int (length xs)"
proof -
  from ring_root [OF assms] obtain ln where "read_node h (Some l) = Done ln" "lnNext ln = Some (hd (xs @ [l]))" "lnPrev ln = Some (last (l # xs))"
    by blast
  with ringD(7) [OF assms] show "ls_Front h l = Done (case xs of [] \<Rightarrow> None | x # _ \<Rightarrow> Some x)"
    "ls_Back h l = Done (if xs = [] then None else Some (last xs))" "ls_Len h l = int (length xs)"
    by (auto simp: ls_Front_def ls_Back_def ls_Len_def split: list.split)
qed

lemma ring_new:
  assumes "heap_ok h" "\<forall>a. ow h a \<noteq> Some (lhFresh h)"
  shows "\<exists>h'. ls_New h = Done (lhFresh h, h') \<and> heap_ok h' \<and> ring h' (lhFresh h) [] \<and> lhFresh h' = lhFresh h + 1"
  using assms
  by (auto simp: ls_New_def ls_Init_def alloc_node_def write_node_def heap_ok_def ring_def nx_def pv_def ow_def vl_def split: if_splits option.splits)

text \<open>\<open>Init\<close> does not take the elements out: \<open>Remove\<close> still believes that an element from before is in the list, and the
  length becomes negative.\<close>

lemma remove_after_Init:
  "\<exists>l h1 e h2 h3 r h4. ls_New \<lparr>lhNodes = (\<lambda>a. None), lhLen = (\<lambda>a. 0), lhFresh = 0\<rparr> = Done (l, h1) \<and>
     ls_PushBack l v h1 = Done (e, h2) \<and> ls_Init l h2 = Done h3 \<and> ls_Remove l e h3 = Done (r, h4) \<and>
     ls_Front h3 l = Done None \<and> ls_Len h4 l = -1"
  by (simp add: ls_New_def ls_Init_def ls_PushBack_def ls_lazyInit_def ls_insertValue_def ls_insert_def link_after_def
      ls_Remove_def ls_remove_def unlink_def alloc_node_def write_node_def read_node_def ls_Front_def ls_Len_def Let_def)

definition example_list :: "string lheap" where
  "example_list = snd (case ls_New \<lparr>lhNodes = (\<lambda>a. None), lhLen = (\<lambda>a. 0), lhFresh = 0\<rparr> of Done r \<Rightarrow> r)"

lemma list_run_refines_witness:
  "\<exists>h'. list_run 0 [PushBackOp ''a'', PushBackOp ''b'', PushFrontOp ''c'', MoveToBackOp 1, RemoveOp 3] example_list = Done h' \<and>
     ring h' 0 [2, 1] \<and> vl h' 2 = Some ''b''"
proof -
  let ?h = "\<lparr>lhNodes = (\<lambda>a. None), lhLen = (\<lambda>a. 0), lhFresh = 0\<rparr> :: string lheap"
  have "heap_ok ?h" "\<forall>a. ow ?h a \<noteq> Some (lhFresh ?h)" by (simp_all add: heap_ok_def ow_def)
  from ring_new [OF this] have h: "heap_ok example_list" "ring example_list 0 []" "lhFresh example_list = 1"
    by (auto simp: example_list_def)
  have "ptrs_ok [PushBackOp ''a'', PushBackOp ''b'', PushFrontOp ''c'', MoveToBackOp 1, RemoveOp 3] (lhFresh example_list) []"
    unfolding h(3) by code_simp
  from list_run_refines [OF h(1,2) this] obtain h' where
    h': "list_run 0 [PushBackOp ''a'', PushBackOp ''b'', PushFrontOp ''c'', MoveToBackOp 1, RemoveOp 3] example_list = Done h'"
      "ring h' 0 (spec_run [PushBackOp ''a'', PushBackOp ''b'', PushFrontOp ''c'', MoveToBackOp 1, RemoveOp 3] 1 [])"
      "vl h' = spec_values [PushBackOp ''a'', PushBackOp ''b'', PushFrontOp ''c'', MoveToBackOp 1, RemoveOp 3] 1 [] (vl example_list)"
    unfolding h(3) by blast
  have "spec_run [PushBackOp ''a'', PushBackOp ''b'', PushFrontOp ''c'', MoveToBackOp 1, RemoveOp 3] 1 [] = [2, 1]" by code_simp
  moreover have "vl h' 2 = Some ''b''" unfolding h'(3) by (simp add: list_fresh_def list_values_def)
  ultimately show ?thesis using h'(1,2) by (intro exI [of _ h']) simp
qed
end
