(* ===== verification/Sniffer.thy ===== *)
theory Sniffer
  imports GoBytes Metadata IntRanges LruCache
begin

text \<open>
  The sniffers, which read the name of the host from the first bytes of a connection (\<open>component/sniffer\<close>): the parser of the
  TLS client hello, that of the HTTP request, and the dispatcher that runs them.
  \<open>net.SplitHostPort\<close>, \<open>net.ParseIP\<close> and the connection with its buffer are arguments.
\<close>

section \<open>TLS\<close>

datatype sniff_error = ErrNoClue | ErrNotTLS | ErrNotClientHello | ErrNotHTTPMethod | ErrHostIsIP | ErrAddr | ErrOther string | ErrorSniffFailed | ErrPeek | ErrOpError

text \<open>The loop over the names of the server name extension; \<open>None\<close> when it ends without a host name.\<close>

function names_loop :: "bytes \<Rightarrow> (sniff_error, string) go_result option outcome" where
  "names_loop d =
     (if length d = 0 then Done None
      else if length d < 3 then Done (Some (Err ErrNotClientHello))
      else obind (at_idx d 0) (\<lambda>nameType.
           obind (u16_at d 1) (\<lambda>nameLen.
           obind (from_idx d 3) (\<lambda>d1.
             if length d1 < nameLen then Done (Some (Err ErrNotClientHello))
             else if nameType = 0 then
               obind (upto_idx d1 nameLen) (\<lambda>name.
                 let serverName = bytes_str name
                 in Done (Some (if has_suffix serverName ''.'' then Err ErrNotClientHello else Ok serverName)))
             else obind (from_idx d1 nameLen) names_loop))))"
  by pat_completeness auto
termination by (relation "measure length") (auto simp: from_idx_eq)

declare names_loop.simps [simp del]

definition server_name :: "bytes \<Rightarrow> (sniff_error, string) go_result option outcome" where
  "server_name d =
     (if length d < 2 then Done (Some (Err ErrNotClientHello))
      else obind (u16_at d 0) (\<lambda>namesLen. obind (from_idx d 2) (\<lambda>d1.
        if length d1 \<noteq> namesLen then Done (Some (Err ErrNotClientHello)) else names_loop d1)))"

text \<open>The loop over the extensions.\<close>

function ext_loop :: "bytes \<Rightarrow> (sniff_error, string) go_result outcome" where
  "ext_loop data =
     (if length data = 0 then Done (Err ErrNotTLS)
      else if length data < 4 then Done (Err ErrNotClientHello)
      else obind (u16_at data 0) (\<lambda>extension.
           obind (u16_at data 2) (\<lambda>len.
           obind (from_idx data 4) (\<lambda>data1.
             if length data1 < len then Done (Err ErrNotClientHello)
             else obind (if extension = 0 then obind (upto_idx data1 len) server_name else Done None) (\<lambda>r.
               case r of Some res \<Rightarrow> Done res | None \<Rightarrow> obind (from_idx data1 len) ext_loop)))))"
  by pat_completeness auto
termination by (relation "measure length") (auto simp: from_idx_eq)

declare ext_loop.simps [simp del]

text \<open>\<open>ReadClientHello\<close> up to the extensions: the session, the cipher suites and the compression methods are skipped.\<close>

definition ReadClientHello :: "bytes \<Rightarrow> (sniff_error, string) go_result outcome" where
  "ReadClientHello data =
     (if length data < 42 then Done (Err ErrNoClue)
      else obind (at_idx data 38) (\<lambda>s. let sessionIDLen = unat s in
        if sessionIDLen > 32 \<or> length data < 39 + sessionIDLen then Done (Err ErrNoClue)
        else obind (from_idx data (39 + sessionIDLen)) (\<lambda>data1.
          if length data1 < 2 then Done (Err ErrNoClue)
          else obind (u16_at data1 0) (\<lambda>cipherSuiteLen.
            if cipherSuiteLen mod 2 = 1 \<or> length data1 < 2 + cipherSuiteLen then Done (Err ErrNotClientHello)
            else obind (from_idx data1 (2 + cipherSuiteLen)) (\<lambda>data2.
              if length data2 < 1 then Done (Err ErrNoClue)
              else obind (at_idx data2 0) (\<lambda>c. let compressionMethodsLen = unat c in
                if length data2 < 1 + compressionMethodsLen then Done (Err ErrNoClue)
                else obind (from_idx data2 (1 + compressionMethodsLen)) (\<lambda>data3.
                  if length data3 = 0 then Done (Err ErrNotClientHello)
                  else if length data3 < 2 then Done (Err ErrNotClientHello)
                  else obind (u16_at data3 0) (\<lambda>extensionsLength.
                    obind (from_idx data3 2) (\<lambda>data4.
                      if extensionsLength \<noteq> length data4 then Done (Err ErrNotClientHello) else ext_loop data4)))))))))"

definition IsValidTLSVersion :: "u8 \<Rightarrow> u8 \<Rightarrow> bool" where
  "IsValidTLSVersion major minor \<longleftrightarrow> major = 3"

definition SniffTLS :: "bytes \<Rightarrow> (sniff_error, string) go_result outcome" where
  "SniffTLS b =
     (if length b < 5 then Done (Err ErrNoClue)
      else obind (at_idx b 0) (\<lambda>t.
        if t \<noteq> 0x16 then Done (Err ErrNotTLS)
        else obind (at_idx b 1) (\<lambda>major. obind (at_idx b 2) (\<lambda>minor.
          if \<not> IsValidTLSVersion major minor then Done (Err ErrNotTLS)
          else obind (u16_at b 3) (\<lambda>headerLen.
            if 5 + headerLen > length b then Done (Err ErrNoClue)
            else obind (sub_idx b 5 (5 + headerLen)) ReadClientHello)))))"

subsection \<open>It never panics\<close>

lemma names_loop_total: "\<exists>r. names_loop d = Done r"
proof (induction d rule: length_induct)
  case (1 d)
  then show ?case by (subst names_loop.simps) (auto simp: go_simps Let_def)
qed

lemma server_name_total: "\<exists>r. server_name d = Done r"
  using names_loop_total by (auto simp: server_name_def go_simps)

lemma ext_loop_total: "\<exists>r. ext_loop d = Done r"
proof (induction d rule: length_induct)
  case (1 d)
  define n where "n = be16_of (d ! 2) (d ! 3)"
  define r where "r = (if be16_of (d ! 0) (d ! 1) = 0 then server_name (take n (drop 4 d)) else Done None)"
  obtain res where res: "r = Done res"
    using server_name_total [of "take n (drop 4 d)"] by (cases "be16_of (d ! 0) (d ! 1) = 0") (auto simp: r_def)
  have step: "ext_loop d = obind r (\<lambda>x. case x of Some y \<Rightarrow> Done y | None \<Rightarrow> ext_loop (drop n (drop 4 d)))"
    if "4 \<le> length d" "n \<le> length d - 4"
  proof -
    from that have "d \<noteq> []" "\<not> length d < 4" "0 + 1 < length d" "2 + 1 < length d" by auto
    with that show ?thesis
      by (subst ext_loop.simps) (simp add: go_simps n_def r_def del: One_nat_def cong: if_cong split: option.split)
  qed
  consider "d = []" | "d \<noteq> []" "length d < 4" | "4 \<le> length d" "length d - 4 < n" | "4 \<le> length d" "n \<le> length d - 4"
    by linarith
  then show ?case
  proof cases
    case 4
    have "\<exists>s. ext_loop (drop n (drop 4 d)) = Done s"
      using 1 4 by (metis diff_less drop_drop length_drop less_le_trans zero_less_numeral add_gr_0 length_greater_0_conv)
    with 4 show ?thesis by (auto simp: step res split: option.split)
  qed (subst ext_loop.simps, simp add: go_simps n_def eval_nat_numeral)+
qed

lemma ReadClientHello_total: "\<exists>r. ReadClientHello d = Done r"
  using ext_loop_total by (auto simp: ReadClientHello_def go_simps Let_def)

text \<open>Whatever bytes arrive, the TLS sniffer returns a name or an error: no index is out of range, and its loops end.\<close>

theorem SniffTLS_total: "\<exists>r. SniffTLS b = Done r"
proof (cases "length b < 5")
  case False
  then have "0 < length b" "1 < length b" "2 < length b" "3 + 1 < length b" by auto
  with False show ?thesis
    using ReadClientHello_total by (simp add: SniffTLS_def go_simps)
qed (simp add: SniffTLS_def)


subsection \<open>It finds the name\<close>

text \<open>An extension on the wire, the server name extension for a host name, and a client hello in its record.\<close>

definition ext_bytes :: "nat \<times> bytes \<Rightarrow> bytes" where
  "ext_bytes e = be16 (fst e) @ be16 (length (snd e)) @ snd e"

definition sni_body :: "string \<Rightarrow> bytes" where
  "sni_body host = be16 (length host + 3) @ 0 # be16 (length host) @ str_bytes host"

record client_hello =
  ch_front :: bytes
  ch_session :: bytes
  ch_suites :: bytes
  ch_compression :: bytes
  ch_before :: "(nat \<times> bytes) list"
  ch_after :: bytes

definition ch_exts :: "client_hello \<Rightarrow> string \<Rightarrow> bytes" where
  "ch_exts h host = concat (map ext_bytes (ch_before h)) @ ext_bytes (0, sni_body host) @ ch_after h"

definition ch_bytes :: "client_hello \<Rightarrow> string \<Rightarrow> bytes" where
  "ch_bytes h host = ch_front h @ of_nat (length (ch_session h)) # ch_session h @
     be16 (length (ch_suites h)) @ ch_suites h @ of_nat (length (ch_compression h)) # ch_compression h @
     be16 (length (ch_exts h host)) @ ch_exts h host"

definition record_bytes :: "u8 \<Rightarrow> bytes \<Rightarrow> bytes" where
  "record_bytes minor body = 0x16 # 3 # minor # be16 (length body) @ body"

definition wf_hello :: "client_hello \<Rightarrow> string \<Rightarrow> bool" where
  "wf_hello h host \<longleftrightarrow> length (ch_front h) = 38 \<and> length (ch_session h) \<le> 32 \<and> even (length (ch_suites h)) \<and>
     length (ch_compression h) < 256 \<and> length (ch_bytes h host) < 65536 \<and>
     list_all (\<lambda>e. 0 < fst e \<and> fst e < 65536) (ch_before h)"

lemma names_loop_host:
  assumes "length host < 65536" "\<not> has_suffix host ''.''"
  shows "names_loop (0 # be16 (length host) @ str_bytes host) = Done (Some (Ok host))"
  using assms by (subst names_loop.simps) (simp add: go_simps be16_def be16_of_be16)

lemma server_name_sni:
  assumes "length host + 3 < 65536" "\<not> has_suffix host ''.''"
  shows "server_name (sni_body host) = Done (Some (Ok host))"
  using assms names_loop_host [of host] be16_of_be16 [of "length host + 3"]
  by (simp add: server_name_def sni_body_def go_simps be16_def)

lemma ext_loop_ext:
  assumes "t < 65536" "length b < 65536"
  shows "ext_loop (ext_bytes (t, b) @ r) =
     obind (if t = 0 then server_name b else Done None) (\<lambda>x. case x of Some y \<Rightarrow> Done y | None \<Rightarrow> ext_loop r)"
  using assms by (subst ext_loop.simps) (simp add: go_simps ext_bytes_def be16_of_be16 be16_def)

lemma ext_loop_before:
  assumes "list_all (\<lambda>e. 0 < fst e \<and> fst e < 65536) es" "length (concat (map ext_bytes es)) < 65536"
  shows "ext_loop (concat (map ext_bytes es) @ r) = ext_loop r"
  using assms
proof (induction es)
  case (Cons e es)
  have "length (snd e) < 65536" using Cons.prems by (simp add: ext_bytes_def)
  moreover have "length (concat (map ext_bytes es)) < 65536" using Cons.prems by simp
  ultimately show ?case using Cons ext_loop_ext [of "fst e" "snd e"] by simp
qed simp

lemma ReadClientHello_finds:
  assumes wf: "wf_hello h host" and dot: "\<not> has_suffix host ''.''"
  shows "ReadClientHello (ch_bytes h host) = Done (Ok host)"
proof -
  have len: "length (ch_suites h) < 65536" "length (ch_exts h host) < 65536"
      "length (concat (map ext_bytes (ch_before h))) < 65536" "length (sni_body host) < 65536"
    using wf by (auto simp: wf_hello_def ch_bytes_def ch_exts_def ext_bytes_def)
  have "ext_loop (ch_exts h host) = Done (Ok host)"
    using wf dot len server_name_sni [of host]
    by (simp add: ch_exts_def wf_hello_def ext_loop_before ext_loop_ext) (simp add: sni_body_def)
  then show ?thesis
    using wf len by (simp add: ReadClientHello_def ch_bytes_def wf_hello_def go_simps nth_append be16_of_be16 be16_def
        unat_of_nat take_bit_eq_mod Let_def mod2_eq_if)
qed

text \<open>C12: the TLS sniffer finds the host name of every well formed client hello, whatever its session, suites, other
  extensions and the bytes that follow the record are; a name with a final dot is left out, as RFC 6066 asks.\<close>

theorem SniffTLS_finds:
  "wf_hello h host \<Longrightarrow> \<not> has_suffix host ''.'' \<Longrightarrow>
   SniffTLS (record_bytes minor (ch_bytes h host) @ rest) = Done (Ok host)"
  using ReadClientHello_finds [of h host]
  by (simp add: SniffTLS_def record_bytes_def IsValidTLSVersion_def go_simps be16_of_be16 be16_def wf_hello_def)


text \<open>A client hello with one extension before the server name.\<close>

definition hello0 :: client_hello where
  "hello0 = \<lparr>ch_front = replicate 38 7, ch_session = [1, 2], ch_suites = [0x13, 1], ch_compression = [0],
     ch_before = [(43, [2, 3, 4])], ch_after = []\<rparr>"

lemma SniffTLS_finds_witness:
  "SniffTLS (record_bytes 1 (ch_bytes hello0 ''a.b'') @ [9]) = Done (Ok ''a.b'')"
  by (rule SniffTLS_finds)
    (simp_all add: wf_hello_def hello0_def ch_bytes_def ch_exts_def ext_bytes_def sni_body_def has_suffix_def)

section \<open>HTTP\<close>

definition http_methods :: "string list" where
  "http_methods = [''get'', ''post'', ''head'', ''put'', ''delete'', ''options'', ''connect'', ''patch'', ''trace'']"

fun method_loop :: "string list \<Rightarrow> string \<Rightarrow> sniff_error option" where
  "method_loop [] b = Some ErrNotHTTPMethod"
| "method_loop (m # ms) b =
     (if length b \<ge> length m \<and> equal_fold (take (length m) b) m then None
      else if length b < length m then Some ErrNoClue
      else method_loop ms b)"

definition beginWithHTTPMethod :: "string \<Rightarrow> sniff_error option" where
  "beginWithHTTPMethod b = method_loop http_methods b"

text \<open>Whether \<open>net.SplitHostPort\<close>, when it fails, says that the port is missing.\<close>

definition missing_port :: "string \<Rightarrow> bool" where
  "missing_port s =
     (case last_byte s (CHR '':'') of
        None \<Rightarrow> True
      | Some i \<Rightarrow>
          if hd s = CHR ''['' then
            (case index_byte s (CHR '']'') of
               None \<Rightarrow> False
             | Some e \<Rightarrow> if e + 1 = length s then True else if e + 1 = i then False else s ! (e + 1) \<noteq> CHR '':'')
          else False)"

definition parseHost :: "(string \<Rightarrow> addr option) \<Rightarrow> string \<Rightarrow> (sniff_error, string) go_result" where
  "parseHost parse_ip host =
     (if has_prefix host ''['' \<and> has_suffix host '']'' \<and> parse_ip (take (length host - 2) (drop 1 host)) \<noteq> None then Err ErrHostIsIP
      else if parse_ip host \<noteq> None then Err ErrHostIsIP
      else Ok host)"

text \<open>The value of the \<open>Host\<close> header, and the loop over the lines after the first.\<close>

definition host_value :: "(string \<Rightarrow> addr option) \<Rightarrow> string \<Rightarrow> (sniff_error, string) go_result" where
  "host_value parse_ip v =
     (let rawHost = to_lower (trim_space v)
      in case SplitHostPort rawHost of
           None \<Rightarrow> if missing_port rawHost then parseHost parse_ip rawHost else Err ErrAddr
         | Some (host, port) \<Rightarrow> if parse_ip host \<noteq> None then Err ErrHostIsIP else Ok host)"

fun header_loop :: "(string \<Rightarrow> addr option) \<Rightarrow> string list \<Rightarrow> (sniff_error, string) go_result" where
  "header_loop parse_ip [] = Err ErrNoClue"
| "header_loop parse_ip (h # hs) =
     (if h = [] then Err ErrNoClue
      else case index_byte h (CHR '':'') of
             None \<Rightarrow> header_loop parse_ip hs
           | Some i \<Rightarrow> if to_lower (take i h) = ''host'' then host_value parse_ip (drop (i + 1) h) else header_loop parse_ip hs)"

definition SniffHTTP :: "(string \<Rightarrow> addr option) \<Rightarrow> bytes \<Rightarrow> (sniff_error, string) go_result" where
  "SniffHTTP parse_ip b =
     (case beginWithHTTPMethod (bytes_str b) of
        Some e \<Rightarrow> Err e
      | None \<Rightarrow> header_loop parse_ip (drop 1 (split_on (CHR 0x0A) (bytes_str b))))"

subsection \<open>It finds the host\<close>

text \<open>A request: its lines end with a carriage return and a line feed. A header is a name and a value.\<close>

definition http_line :: "string \<Rightarrow> string" where
  "http_line l = l @ [CHR 0x0D, CHR 0x0A]"

definition header_line :: "string \<times> string \<Rightarrow> string" where
  "header_line h = http_line (fst h @ '': '' @ snd h)"

definition request_text :: "string \<Rightarrow> (string \<times> string) list \<Rightarrow> string \<Rightarrow> string" where
  "request_text first headers rest = http_line first @ concat (map header_line headers) @ rest"

definition other_header :: "string \<times> string \<Rightarrow> bool" where
  "other_header h \<longleftrightarrow> CHR '':'' \<notin> set (fst h) \<and> CHR 0x0A \<notin> set (fst h) \<and> CHR 0x0A \<notin> set (snd h) \<and> to_lower (fst h) \<noteq> ''host''"

lemma split_header_line: "CHR 0x0A \<notin> set (fst h) \<Longrightarrow> CHR 0x0A \<notin> set (snd h) \<Longrightarrow>
    split_on (CHR 0x0A) (header_line h @ r) = (fst h @ '': '' @ snd h @ [CHR 0x0D]) # split_on (CHR 0x0A) r"
  using split_on_append [of "CHR 0x0A" "fst h @ '': '' @ snd h @ [CHR 0x0D]" r]
  by (simp add: header_line_def http_line_def)

lemma header_loop_step: "CHR '':'' \<notin> set k \<Longrightarrow>
    header_loop p ((k @ '': '' @ v) # hs) =
      (if to_lower k = ''host'' then host_value p (CHR '' '' # v) else header_loop p hs)"
  using index_byte_append [of "CHR '':''" k "CHR '' '' # v"] by (cases k) (simp_all del: split_paired_Ex)

lemma header_loop_others:
  assumes "list_all other_header hs"
  shows "header_loop p (split_on (CHR 0x0A) (concat (map header_line hs) @ r)) = header_loop p (split_on (CHR 0x0A) r)"
  using assms
proof (induction hs)
  case (Cons h hs)
  then show ?case
    using header_loop_step [of "fst h" p "snd h @ [CHR 0x0D]"]
    by (simp add: other_header_def split_header_line)
qed simp

lemma trim_set_mid:
  assumes "s \<noteq> []" "hd s \<notin> set cs" "last s \<notin> set cs" "set a \<subseteq> set cs" "set b \<subseteq> set cs"
  shows "trim_set cs (a @ s @ b) = s"
proof -
  have "dropWhile (\<lambda>c. c \<in> set cs) (a @ s @ b) = s @ b" using assms by (cases s) (auto simp: dropWhile_append2 subset_eq)
  moreover have "dropWhile (\<lambda>c. c \<in> set cs) (rev b @ rev s) = rev s"
    using assms dropWhile_append2 [of "rev b" "\<lambda>c. c \<in> set cs" "rev s"]
    by (cases s rule: rev_cases) (auto simp: subset_eq)
  ultimately show ?thesis by (simp add: trim_set_def)
qed


lemma in_to_lower: "x \<in> {CHR '':'', CHR ''['', CHR '']'', CHR 0x0A} \<Longrightarrow> x \<in> set (to_lower s) \<longleftrightarrow> x \<in> set s"
  by (rule in_to_lower_iff) (auto simp: less_eq_char_def)

definition host_name :: "string \<Rightarrow> bool" where
  "host_name h \<longleftrightarrow> h \<noteq> [] \<and> hd h \<notin> set space_chars \<and> last h \<notin> set space_chars \<and>
     list_all (\<lambda>c. c \<notin> {CHR '':'', CHR ''['', CHR '']'', CHR 0x0A}) h"

definition port_suffix :: "nat option \<Rightarrow> string" where
  "port_suffix p = (case p of None \<Rightarrow> [] | Some n \<Rightarrow> CHR '':'' # format_uint n)"

lemma trim_host: "host_name h \<Longrightarrow> trim_space (CHR '' '' # h @ port_suffix p @ [CHR 0x0D]) = h @ port_suffix p"
proof -
  assume h: "host_name h"
  have "last (format_uint n) \<notin> set space_chars" for n
  proof -
    have "is_digit (last (format_uint n))" using format_uint_digits [of n] by (auto simp: list_all_iff)
    then show ?thesis by (auto simp: space_chars_def is_digit_def less_eq_char_def)
  qed
  then have "last (h @ port_suffix p) \<notin> set space_chars"
    using h format_uint_digits by (auto simp: host_name_def port_suffix_def split: option.split)
  with h show ?thesis
    using trim_set_mid [of "h @ port_suffix p" space_chars "'' ''" "[CHR 0x0D]"]
    by (auto simp: trim_space_def host_name_def space_chars_def)
qed

lemma host_value_host:
  assumes h: "host_name h" and ip: "parse_ip (to_lower h) = None"
  shows "host_value parse_ip (CHR '' '' # h @ port_suffix p @ [CHR 0x0D]) = Ok (to_lower h)"
proof (cases p)
  case None
  have "CHR '':'' \<notin> set (to_lower h)" "CHR ''['' \<notin> set (to_lower h)" using h in_to_lower by (auto simp: host_name_def list_all_iff)
  moreover from this have "index_byte (rev (to_lower h)) (CHR '':'') = None" by (simp add: index_byte_None)
  then have "last_byte (to_lower h) (CHR '':'') = None" by (simp add: last_byte_def)
  moreover have "\<not> has_prefix (to_lower h) ''[''" using calculation(2) by (auto simp: has_prefix_iff prefix_def)
  ultimately show ?thesis
    using trim_host [OF h, of None] ip None by (simp add: host_value_def port_suffix_def SplitHostPort_def missing_port_def parseHost_def)
next
  case (Some n)
  have c: "x \<notin> set (to_lower h)" if "x \<in> {CHR '':'', CHR ''['', CHR '']''}" for x
    using h that in_to_lower [of x h] by (auto simp: host_name_def list_all_iff)
  have d: "x \<notin> set (to_lower (format_uint n))" if "x \<in> {CHR '':'', CHR ''['', CHR '']''}" for x
    using that in_to_lower [of x "format_uint n"] format_uint_chars [of x n] by auto
  have "to_lower (h @ port_suffix p) = JoinHostPort (to_lower h) (to_lower (format_uint n))"
    using c [of "CHR '':''"] Some by (simp add: JoinHostPort_def port_suffix_def) (simp add: to_lower_def ascii_lower_def less_eq_char_def)
  then show ?thesis
    using trim_host [OF h, of p] ip Some c d by (simp add: host_value_def Split_JoinHostPort)
qed

lemma method_loop_ok:
  assumes "m \<in> set ms" "equal_fold (take (length m) b) m" "list_all (\<lambda>m. length m \<le> length b) ms"
  shows "method_loop ms b = None"
  using assms by (induction ms) auto

text \<open>C29: in a request that starts with one of the methods, in any case, the HTTP sniffer finds the first host header,
  behind any headers that are not \<open>Host\<close>, with or without a port; the name comes back in lower case. Whatever follows is ignored.\<close>

theorem SniffHTTP_finds:
  assumes "m \<in> set http_methods" "to_lower (take (length m) first) = m" "CHR 0x0A \<notin> set first" "7 \<le> length first"
    and "list_all other_header hs" "to_lower k = ''host''" "host_name h" "parse_ip (to_lower h) = None"
  shows "SniffHTTP parse_ip (str_bytes (request_text first (hs @ [(k, h @ port_suffix p)]) rest)) = Ok (to_lower h)"
proof -
  let ?t = "request_text first (hs @ [(k, h @ port_suffix p)]) rest"
  have ms: "list_all (\<lambda>m. length m \<le> 7 \<and> to_lower m = m) http_methods" by code_simp
  with assms(1) have lm: "length m \<le> 7" "to_lower m = m" by (auto simp: list_all_iff)
  have "7 \<le> length ?t" using assms(4) by (simp add: request_text_def http_line_def)
  with ms have lt: "list_all (\<lambda>m. length m \<le> length ?t) http_methods" by (fastforce simp: list_all_iff)
  have "take (length m) ?t = take (length m) first" using lm assms(4) by (simp add: request_text_def http_line_def)
  then have mth: "beginWithHTTPMethod ?t = None"
    unfolding beginWithHTTPMethod_def using assms(1,2) lm lt
    by (intro method_loop_ok [of m]) (simp_all add: equal_fold_def)
  have k: "CHR '':'' \<notin> set k" "CHR 0x0A \<notin> set k" using in_to_lower [of "CHR '':''" k] in_to_lower [of "CHR 0x0A" k] assms(6) by simp_all
  have nl: "CHR 0x0A \<notin> set (h @ port_suffix p)"
  proof -
    have "CHR 0x0A \<notin> set (format_uint n)" for n using format_uint_digits [of n] by (auto simp: list_all_iff is_digit_def less_eq_char_def)
    then show ?thesis using assms(7) by (auto simp: host_name_def list_all_iff port_suffix_def split: option.split)
  qed
  have "split_on (CHR 0x0A) ?t = (first @ [CHR 0x0D]) #
      split_on (CHR 0x0A) (concat (map header_line hs) @ header_line (k, h @ port_suffix p) @ rest)"
    using split_on_append [of "CHR 0x0A" "first @ [CHR 0x0D]"] assms(3) by (simp add: request_text_def http_line_def)
  moreover have "header_loop parse_ip (split_on (CHR 0x0A) (concat (map header_line hs) @ header_line (k, h @ port_suffix p) @ rest))
      = Ok (to_lower h)"
    using header_loop_others [OF assms(5)] k nl host_value_host [where parse_ip = parse_ip, OF assms(7,8), of p] assms(6)
      header_loop_step [of k parse_ip "h @ port_suffix p @ [CHR 0x0D]"]
    by (simp add: split_header_line)
  ultimately show ?thesis using mth by (simp add: SniffHTTP_def)
qed

lemma SniffHTTP_finds_witness:
  "SniffHTTP (\<lambda>s. None) (str_bytes (request_text ''GET / HTTP/1.1'' ([(''Accept'', ''*/*'')] @ [(''Host'', ''A.b'' @ port_suffix (Some 80))]) ''x''))
     = Ok (to_lower ''A.b'')"
proof (rule SniffHTTP_finds [where m = "''get''"])
  show "to_lower (take (length ''get'') ''GET / HTTP/1.1'') = ''get''" by code_simp
  show "list_all other_header [(''Accept'', ''*/*'')]" by code_simp
  show "to_lower ''Host'' = ''host''" by code_simp
  show "host_name ''A.b''" by code_simp
qed (simp_all add: http_methods_def)

text \<open>The loop stops at an empty line, but the line that ends the headers of a request is a carriage return: the body is searched too.\<close>

lemma split_http_line: "CHR 0x0A \<notin> set l \<Longrightarrow> split_on (CHR 0x0A) (http_line l @ r) = (l @ [CHR 0x0D]) # split_on (CHR 0x0A) r"
  using split_on_append [of "CHR 0x0A" "l @ [CHR 0x0D]" r] by (simp add: http_line_def)

lemma SniffHTTP_body:
  "SniffHTTP (\<lambda>s. None) (str_bytes (request_text ''POST / HTTP/1.0'' [] (http_line [] @ header_line (''host'', ''a.b'') @ []))) = Ok ''a.b''"
proof -
  have "beginWithHTTPMethod (''POST / HTTP/1.0'' @ r) = None" for r
  proof -
    have "equal_fold ''POST'' ''post''" by code_simp
    then show ?thesis unfolding beginWithHTTPMethod_def
      by (intro method_loop_ok [of "''post''"]) (simp_all add: http_methods_def)
  qed
  then have m: "beginWithHTTPMethod (request_text ''POST / HTTP/1.0'' [] r) = None" for r
    by (simp add: request_text_def http_line_def)
  have "host_value (\<lambda>s. None) (CHR '' '' # ''a.b'' @ port_suffix None @ [CHR 0x0D]) = Ok (to_lower ''a.b'')"
    by (rule host_value_host) code_simp+
  then have "header_loop (\<lambda>s. None) [[CHR 0x0D], ''host: a.b'' @ [CHR 0x0D], []] = Ok ''a.b''"
    using header_loop_step [of "''host''" "\<lambda>s. None" "''a.b'' @ [CHR 0x0D]" "[[]]"]
    by (simp add: index_byte_def to_lower_def ascii_lower_def less_eq_char_def port_suffix_def)
  then show ?thesis
    unfolding SniffHTTP_def bytes_str_bytes m option.case
    unfolding request_text_def split_http_line
    using split_header_line [of "(''host'', ''a.b'')" "[]"] by (simp add: split_http_line del: header_loop.simps)
qed


section \<open>The sniffers\<close>

datatype sniffer_type = SniffT_TLS | SniffT_HTTP | SniffT_QUIC | SniffT_Other int

fun SniffType_String :: "sniffer_type \<Rightarrow> string" where
  "SniffType_String SniffT_TLS = ''TLS''"
| "SniffType_String SniffT_HTTP = ''HTTP''"
| "SniffType_String SniffT_QUIC = ''QUIC''"
| "SniffType_String (SniffT_Other n) = ''Unknown''"

record SnifferConfig =
  scOverrideDest :: bool
  scPorts :: "u16 range list"

text \<open>The three sniffers with their \<open>BaseSniffer\<close>.\<close>

datatype sniffer_kind = TLSSniffer | HTTPSniffer | QuicSniffer

record sniffer =
  snKind :: sniffer_kind
  snPorts :: "u16 range list"
  snNet :: NetWork

definition NewTLSSniffer :: "SnifferConfig \<Rightarrow> sniffer" where
  "NewTLSSniffer cfg = \<lparr>snKind = TLSSniffer, snPorts = (if scPorts cfg = [] then [NewRange 443 443] else scPorts cfg), snNet = TCP\<rparr>"

definition NewHTTPSniffer :: "SnifferConfig \<Rightarrow> sniffer" where
  "NewHTTPSniffer cfg = \<lparr>snKind = HTTPSniffer, snPorts = (if scPorts cfg = [] then [NewRange 80 80] else scPorts cfg), snNet = TCP\<rparr>"

definition NewQuicSniffer :: "SnifferConfig \<Rightarrow> sniffer" where
  "NewQuicSniffer cfg = \<lparr>snKind = QuicSniffer, snPorts = (if scPorts cfg = [] then [NewRange 443 443] else scPorts cfg), snNet = UDP\<rparr>"

fun NewSniffer :: "sniffer_type \<Rightarrow> SnifferConfig \<Rightarrow> sniffer option" where
  "NewSniffer SniffT_TLS cfg = Some (NewTLSSniffer cfg)"
| "NewSniffer SniffT_HTTP cfg = Some (NewHTTPSniffer cfg)"
| "NewSniffer SniffT_QUIC cfg = Some (NewQuicSniffer cfg)"
| "NewSniffer (SniffT_Other n) cfg = None"

fun Sniffer_Protocol :: "sniffer_kind \<Rightarrow> string" where
  "Sniffer_Protocol TLSSniffer = ''tls''"
| "Sniffer_Protocol HTTPSniffer = ''http1''"
| "Sniffer_Protocol QuicSniffer = ''quic''"

definition SupportNetwork :: "sniffer \<Rightarrow> NetWork" where
  "SupportNetwork s = (case snKind s of TLSSniffer \<Rightarrow> TCP | HTTPSniffer \<Rightarrow> TCP | QuicSniffer \<Rightarrow> UDP)"

definition SupportPort :: "sniffer \<Rightarrow> u16 \<Rightarrow> bool" where
  "SupportPort s port = IntRanges_Check (snPorts s) port"

text \<open>What the sniffers call: \<open>net.ParseIP\<close>, \<open>netip.ParseAddr\<close>, \<open>netip.Addr.String\<close> and the QUIC sniffer.\<close>

record sniff_env =
  seParseIP :: "string \<Rightarrow> addr option"
  seParseAddr :: "string \<Rightarrow> addr option"
  seAddrStr :: "addr \<Rightarrow> string"
  seQuic :: "bytes \<Rightarrow> (sniff_error, string) go_result outcome"

definition SniffData :: "sniff_env \<Rightarrow> sniffer \<Rightarrow> bytes \<Rightarrow> (sniff_error, string) go_result outcome" where
  "SniffData env s b =
     (case snKind s of
        TLSSniffer \<Rightarrow> SniffTLS b
      | HTTPSniffer \<Rightarrow> Done (SniffHTTP (seParseIP env) b)
      | QuicSniffer \<Rightarrow> seQuic env b)"

section \<open>The dispatcher\<close>

text \<open>The two domain sets are the functions \<open>Has\<close>. A \<open>map\<close> of sniffers is the list of its entries; a loop over it takes the
  order it meets them in as an argument.\<close>

record sniffer_dispatcher =
  sdEnable :: bool
  sdSniffers :: "(sniffer \<times> SnifferConfig) list"
  sdForceDomain :: "string \<Rightarrow> bool"
  sdSkipSNI :: "string \<Rightarrow> bool"
  sdSkipList :: "(string, u8) eheap \<times> (string, u8) lru_cache"
  sdForceDnsMapping :: bool
  sdParsePureIp :: bool

definition Dispatcher_Enable :: "sniffer_dispatcher \<Rightarrow> bool" where
  "Dispatcher_Enable sd = sdEnable sd"

definition NewCloseSnifferDispatcher :: sniffer_dispatcher where
  "NewCloseSnifferDispatcher = \<lparr>sdEnable = False, sdSniffers = [], sdForceDomain = (\<lambda>h. False), sdSkipSNI = (\<lambda>h. False),
     sdSkipList = ([], lru_new 0 0 False False), sdForceDnsMapping = False, sdParsePureIp = False\<rparr>"

fun add_sniffers :: "(sniffer_type \<times> SnifferConfig) list \<Rightarrow> (sniffer \<times> SnifferConfig) list option" where
  "add_sniffers [] = Some []"
| "add_sniffers ((name, cfg) # cs) =
     (case NewSniffer name cfg of
        None \<Rightarrow> None
      | Some s \<Rightarrow> (case add_sniffers cs of None \<Rightarrow> None | Some ss \<Rightarrow> Some ((s, cfg) # ss)))"

definition NewSnifferDispatcher ::
  "(sniffer_type \<times> SnifferConfig) list \<Rightarrow> (string \<Rightarrow> bool) \<Rightarrow> (string \<Rightarrow> bool) \<Rightarrow> bool \<Rightarrow> bool \<Rightarrow> sniffer_dispatcher \<times> bool" where
  "NewSnifferDispatcher cfgs forceDomain skipSNI forceDnsMapping parsePureIp =
     (case add_sniffers cfgs of
        None \<Rightarrow> (NewCloseSnifferDispatcher, False)
      | Some ss \<Rightarrow>
          (\<lparr>sdEnable = True, sdSniffers = ss, sdForceDomain = forceDomain, sdSkipSNI = skipSNI,
            sdSkipList = ([], lru_new 600 128 False False), sdForceDnsMapping = forceDnsMapping, sdParsePureIp = parsePureIp\<rparr>, True))"

definition shouldOverride :: "sniffer_dispatcher \<Rightarrow> metadata \<Rightarrow> bool" where
  "shouldOverride sd m \<longleftrightarrow> (mHost m = '''' \<and> sdParsePureIp sd) \<or> sdForceDomain sd (mHost m) \<or>
     (mDNSMode m = DNSMapping \<and> sdForceDnsMapping sd)"

definition replaceDomain :: "metadata \<Rightarrow> string \<Rightarrow> bool \<Rightarrow> metadata" where
  "replaceDomain m host overrideDest =
     (let m1 = m\<lparr>mSniffHost := host\<rparr>;
          m2 = (if overrideDest then m1\<lparr>mHost := host\<rparr> else m1)
      in m2\<lparr>mDNSMode := DNSNormal\<rparr>)"

fun udp_loop :: "sniff_env \<Rightarrow> bytes \<Rightarrow> metadata \<Rightarrow> (sniffer \<times> SnifferConfig) list \<Rightarrow> (bool \<times> metadata) outcome" where
  "udp_loop env dat m [] = Done (False, m)"
| "udp_loop env dat m ((s, cfg) # ss) =
     (if (SupportNetwork s = UDP \<or> SupportNetwork s = ALLNet) \<and> SupportPort s (mDstPort m) then
        obind (SniffData env s dat) (\<lambda>r. case r of
          Err e \<Rightarrow> udp_loop env dat m ss
        | Ok host \<Rightarrow> Done (True, replaceDomain m host (scOverrideDest cfg)))
      else udp_loop env dat m ss)"

definition UDPSniff ::
  "sniff_env \<Rightarrow> (sniffer \<times> SnifferConfig) list \<Rightarrow> sniffer_dispatcher \<Rightarrow> bytes \<Rightarrow> metadata \<Rightarrow> (bool \<times> metadata) outcome" where
  "UDPSniff env ord sd dat m = (if shouldOverride sd m then udp_loop env dat m ord else Done (False, m))"

definition skip_key :: "sniff_env \<Rightarrow> metadata \<Rightarrow> string" where
  "skip_key env m = seAddrStr env (mDstIP m) @ '':'' @ format_uint (unat (mDstPort m))"

text \<open>\<open>count\<close> stays at 6 from then on.\<close>

definition cacheSniffFailed :: "sniff_env \<Rightarrow> int \<Rightarrow> metadata \<Rightarrow> sniffer_dispatcher \<Rightarrow> sniffer_dispatcher" where
  "cacheSniffFailed env now m sd =
     (let dst = skip_key env m;
          (r, h, c) = lru_get now dst (fst (sdSkipList sd)) (snd (sdSkipList sd));
          count = (case r of None \<Rightarrow> 0 | Some n \<Rightarrow> n);
          count = (if count \<le> 5 then count + 1 else count)
      in sd\<lparr>sdSkipList := lru_set now dst count h c\<rparr>)"

text \<open>What a connection answers at one turn of the loop of \<open>sniffDomain\<close>: \<open>Peek(1)\<close> fails with a \<open>net.OpError\<close> or another error,
  or succeeds; then \<open>Peek\<close> of what is buffered fails (\<open>None\<close>) or returns it.\<close>

datatype peek_result = PeekOpErr | PeekOtherErr | Peeked "bytes option"

text \<open>The result, whether the connection was closed, and the dispatcher after it.\<close>

fun sniff_loop ::
  "sniff_env \<Rightarrow> int \<Rightarrow> (nat \<Rightarrow> peek_result) \<Rightarrow> metadata \<Rightarrow> (sniffer \<times> SnifferConfig) list \<Rightarrow> nat \<Rightarrow> sniffer_dispatcher
    \<Rightarrow> ((sniff_error, string) go_result \<times> bool \<times> sniffer_dispatcher) outcome" where
  "sniff_loop env now conn m [] i sd = Done (Err ErrorSniffFailed, False, sd)"
| "sniff_loop env now conn m ((s, cfg) # ss) i sd =
     (if SupportNetwork s = TCP then
        (case conn i of
           PeekOpErr \<Rightarrow> Done (Err ErrOpError, True, cacheSniffFailed env now m sd)
         | PeekOtherErr \<Rightarrow> Done (Err ErrPeek, False, sd)
         | Peeked None \<Rightarrow> sniff_loop env now conn m ss (i + 1) sd
         | Peeked (Some dat) \<Rightarrow>
             obind (SniffData env s dat) (\<lambda>r. case r of
               Err e \<Rightarrow> sniff_loop env now conn m ss (i + 1) sd
             | Ok host \<Rightarrow> if seParseAddr env host \<noteq> None then sniff_loop env now conn m ss (i + 1) sd
                         else Done (Ok host, False, sd)))
      else sniff_loop env now conn m ss i sd)"

definition sniffDomain ::
  "sniff_env \<Rightarrow> int \<Rightarrow> (sniffer \<times> SnifferConfig) list \<Rightarrow> (nat \<Rightarrow> peek_result) \<Rightarrow> metadata \<Rightarrow> sniffer_dispatcher
    \<Rightarrow> ((sniff_error, string) go_result \<times> bool \<times> sniffer_dispatcher) outcome" where
  "sniffDomain env now ord conn m sd = sniff_loop env now conn m ord 0 sd"

text \<open>The first loop of \<open>TCPSniff\<close>: \<open>None\<close> where no sniffer takes the port, otherwise \<open>overrideDest\<close>.\<close>

fun port_loop :: "u16 \<Rightarrow> (sniffer \<times> SnifferConfig) list \<Rightarrow> bool option" where
  "port_loop port [] = None"
| "port_loop port ((s, cfg) # ss) =
     (if (SupportNetwork s = TCP \<or> SupportNetwork s = ALLNet) \<and> SupportPort s port then Some (scOverrideDest cfg)
      else port_loop port ss)"

record sniff_out =
  soSniffed :: bool
  soMetadata :: metadata
  soClosed :: bool
  soDispatcher :: sniffer_dispatcher

text \<open>The clock is read at the lookup in the skip list, and again after the connection has been read.\<close>

definition TCPSniff ::
  "sniff_env \<Rightarrow> int \<Rightarrow> int \<Rightarrow> (sniffer \<times> SnifferConfig) list \<Rightarrow> (sniffer \<times> SnifferConfig) list \<Rightarrow> (nat \<Rightarrow> peek_result) \<Rightarrow> metadata
    \<Rightarrow> sniffer_dispatcher \<Rightarrow> sniff_out outcome" where
  "TCPSniff env now now1 ord1 ord2 conn m sd =
     (let no = (\<lambda>closed d. \<lparr>soSniffed = False, soMetadata = m, soClosed = closed, soDispatcher = d\<rparr>)
      in if \<not> shouldOverride sd m then Done (no False sd)
         else case port_loop (mDstPort m) ord1 of
           None \<Rightarrow> Done (no False sd)
         | Some overrideDest \<Rightarrow>
             let dst = skip_key env m;
                 (r, h, c) = lru_get now dst (fst (sdSkipList sd)) (snd (sdSkipList sd));
                 sd1 = sd\<lparr>sdSkipList := (h, c)\<rparr>
             in if (case r of None \<Rightarrow> False | Some count \<Rightarrow> count > 5) then Done (no False sd1)
                else obind (sniffDomain env now1 ord2 conn m sd1) (\<lambda>(r, closed, sd2).
                  case r of
                    Err e \<Rightarrow> Done (no closed (cacheSniffFailed env now1 m sd2))
                  | Ok host \<Rightarrow>
                      if sdSkipSNI sd2 host then Done (no closed sd2)
                      else Done \<lparr>soSniffed = True, soMetadata = replaceDomain m host overrideDest, soClosed = closed,
                             soDispatcher = sd2\<lparr>sdSkipList := (fst (sdSkipList sd2), lru_delete dst (fst (sdSkipList sd2)) (snd (sdSkipList sd2)))\<rparr>\<rparr>))"


subsection \<open>What it does to a connection\<close>

lemma SniffData_total: "SupportNetwork s = TCP \<Longrightarrow> \<exists>r. SniffData env s b = Done r"
  using SniffTLS_total [of b] by (cases "snKind s") (auto simp: SupportNetwork_def SniffData_def)

lemma sniff_loop_result:
  "\<exists>r closed sd'. sniff_loop env now conn m ord i sd = Done (r, closed, sd') \<and>
     sd' = (if closed then cacheSniffFailed env now m sd else sd) \<and>
     (case r of Err e \<Rightarrow> True
      | Ok host \<Rightarrow> \<not> closed \<and> seParseAddr env host = None \<and>
          (\<exists>s cfg j dat. (s, cfg) \<in> set ord \<and> SupportNetwork s = TCP \<and> conn j = Peeked (Some dat) \<and> SniffData env s dat = Done (Ok host)))"
proof (induction ord arbitrary: i)
  case (Cons p ord)
  obtain s cfg where p: "p = (s, cfg)" by force
  have ih: "\<exists>r closed sd'. sniff_loop env now conn m ord j sd = Done (r, closed, sd') \<and>
     sd' = (if closed then cacheSniffFailed env now m sd else sd) \<and>
     (case r of Err e \<Rightarrow> True
      | Ok host \<Rightarrow> \<not> closed \<and> seParseAddr env host = None \<and>
          (\<exists>s cfg j dat. (s, cfg) \<in> set (p # ord) \<and> SupportNetwork s = TCP \<and> conn j = Peeked (Some dat) \<and> SniffData env s dat = Done (Ok host)))" for j
    using Cons.IH [of j] by (fastforce split: go_result.splits)
  show ?case
  proof (cases "SupportNetwork s = TCP")
    case True
    show ?thesis
    proof (cases "conn i")
      case (Peeked d)
      show ?thesis
      proof (cases d)
        case (Some dat)
        obtain r where r: "SniffData env s dat = Done r" using SniffData_total [OF True] by blast
        have dn: "(\<exists>s cfg j dat. (s, cfg) \<in> set (p # ord) \<and> SupportNetwork s = TCP \<and> conn j = Peeked (Some dat) \<and> SniffData env s dat = Done (Ok host))"
          if "r = Ok host" for host using p True Peeked Some r that by auto
        show ?thesis
        proof (cases r)
          case (Ok host)
          show ?thesis
          proof (cases "seParseAddr env host")
            case None
            with dn [OF Ok] show ?thesis using p True Peeked Some r Ok by auto
          qed (use ih p True Peeked Some r Ok in simp)
        qed (use ih p True Peeked Some r in simp)
      qed (use ih p True Peeked in simp)
    qed (auto simp: p True)
  qed (use ih p in simp)
qed auto

text \<open>C10: the TCP sniffer never panics, whatever the connection answers. If it reports success then it was asked to override, a sniffer
  of a TCP protocol found the new name in the bytes read, the name is no address and not one of the skipped ones, and the metadata is
  that of the connection with its sniffed name, its DNS mode and, where the configuration says so, its host replaced; otherwise the
  metadata is left as it was.\<close>

theorem TCPSniff_sound:
  "\<exists>out. TCPSniff env now now1 ord1 ord2 conn m sd = Done out \<and>
     (if soSniffed out then
        shouldOverride sd m \<and>
        (\<exists>host ov s cfg j dat. port_loop (mDstPort m) ord1 = Some ov \<and> (s, cfg) \<in> set ord2 \<and> SupportNetwork s = TCP \<and>
           conn j = Peeked (Some dat) \<and> SniffData env s dat = Done (Ok host) \<and> seParseAddr env host = None \<and> \<not> sdSkipSNI sd host \<and>
           soMetadata out = replaceDomain m host ov)
      else soMetadata out = m)"
proof (cases "shouldOverride sd m")
  case ov: True
  show ?thesis
  proof (cases "port_loop (mDstPort m) ord1")
    case (Some b)
    obtain r h c where g: "lru_get now (skip_key env m) (fst (sdSkipList sd)) (snd (sdSkipList sd)) = (r, h, c)"
      by (metis prod_cases3)
    let ?sd1 = "sd\<lparr>sdSkipList := (h, c)\<rparr>"
    obtain q closed sd' where l: "sniff_loop env now1 conn m ord2 0 ?sd1 = Done (q, closed, sd')"
      and sd': "sd' = (if closed then cacheSniffFailed env now1 m ?sd1 else ?sd1)"
      and q: "case q of Err e \<Rightarrow> True
        | Ok host \<Rightarrow> \<not> closed \<and> seParseAddr env host = None \<and>
          (\<exists>s cfg j dat. (s, cfg) \<in> set ord2 \<and> SupportNetwork s = TCP \<and> conn j = Peeked (Some dat) \<and> SniffData env s dat = Done (Ok host))"
      using sniff_loop_result [of env now1 conn m ord2 0 ?sd1] by blast
    show ?thesis
    proof (cases q)
      case (Err e)
      then show ?thesis using ov Some g l by (auto simp: TCPSniff_def sniffDomain_def Let_def)
    next
      case (Ok host)
      with q sd' have "sd' = ?sd1" by simp
      with q Ok show ?thesis using ov Some g l by (auto simp: TCPSniff_def sniffDomain_def Let_def)
    qed
  qed (simp add: TCPSniff_def ov Let_def)
qed (simp add: TCPSniff_def Let_def)


subsection \<open>Connections that keep failing\<close>

text \<open>The count of an address in the skip list, 0 where there is none or it is too old.\<close>

definition skip_count :: "sniff_env \<Rightarrow> int \<Rightarrow> metadata \<Rightarrow> sniffer_dispatcher \<Rightarrow> u8" where
  "skip_count env now m sd =
     (case fst (lru_get now (skip_key env m) (fst (sdSkipList sd)) (snd (sdSkipList sd))) of None \<Rightarrow> 0 | Some n \<Rightarrow> n)"

definition skip_ok :: "sniffer_dispatcher \<Rightarrow> bool" where
  "skip_ok sd \<longleftrightarrow> lru_sync (fst (sdSkipList sd)) (snd (sdSkipList sd)) \<and> maxAge (snd (sdSkipList sd)) = 600 \<and>
     \<not> staleReturn (snd (sdSkipList sd)) \<and> \<not> updateAgeOnGet (snd (sdSkipList sd))"

definition bump :: "u8 \<Rightarrow> u8" where
  "bump n = (if n \<le> 5 then n + 1 else n)"

lemma skip_okD:
  "skip_ok sd \<Longrightarrow> sdSkipList sd = (h, c) \<Longrightarrow> lru_sync h c \<and> maxAge c = 600 \<and> \<not> staleReturn c \<and> \<not> updateAgeOnGet c"
  by (simp add: skip_ok_def)

text \<open>An entry that was just set has not expired.\<close>

lemma s_find_set_fresh:
  assumes "now < x"
  shows "s_find k (s_set stale age sz now k v x es) = Some \<lparr>ekey = k, evalue = v, eexpires = x\<rparr>"
proof -
  let ?e = "\<lparr>ekey = k, evalue = v, eexpires = x\<rparr>"
  have f: "s_find k (s_expire stale age now (ys @ [?e])) = Some ?e" if "s_find k ys = None" for ys
    using that assms s_find_dropWhile_None [OF that]
    by (simp add: s_expire_def dropWhile_append3 s_find_append) (simp add: s_find_def)
  have "s_set stale age sz now k v x es = s_expire stale age now (s_del k es @ [?e]) \<or>
      s_set stale age sz now k v x es = s_expire stale age now (tl (s_del k es) @ [?e])"
    by (cases "s_del k es") (auto simp: s_set_def Let_def)
  then show ?thesis using f [OF s_find_del] f [OF s_find_tl [OF s_find_del]] by (elim disjE) (simp_all only:)
qed

lemma skip_count_s:
  assumes "skip_ok sd"
  shows "skip_count env now m sd = (case s_find (skip_key env m) (lru_view (fst (sdSkipList sd)) (snd (sdSkipList sd))) of
           None \<Rightarrow> 0 | Some e \<Rightarrow> if eexpires e \<le> now then 0 else evalue e)"
proof -
  obtain h c where hc: "sdSkipList sd = (h, c)" by force
  obtain r h' c' where g: "lru_get now (skip_key env m) h c = (r, h', c')" by (metis prod_cases3)
  from skip_okD [OF assms hc] get_refines [OF _ g]
  show ?thesis by (auto simp: skip_count_def hc g s_get_def split: option.splits if_splits)
qed

lemma get_keeps_count:
  assumes ok: "skip_ok sd" and g: "lru_get now (skip_key env m) (fst (sdSkipList sd)) (snd (sdSkipList sd)) = (r, h', c')"
    and n: "now \<le> now1"
  shows "skip_ok (sd\<lparr>sdSkipList := (h', c')\<rparr>)"
    and "skip_count env now1 m (sd\<lparr>sdSkipList := (h', c')\<rparr>) = skip_count env now1 m sd"
proof -
  obtain h c where hc: "sdSkipList sd = (h, c)" by force
  note s = get_refines [of h c now "skip_key env m" r h' c'] skip_okD [OF ok hc]
  from s g hc show ok': "skip_ok (sd\<lparr>sdSkipList := (h', c')\<rparr>)" by (simp add: skip_ok_def same_config_def)
  have "s_find (skip_key env m) (s_expire False 600 now (s_del (skip_key env m) (lru_view h c))) = None"
    using s_find_dropWhile_None [OF s_find_del] by (simp add: s_expire_def)
  then show "skip_count env now1 m (sd\<lparr>sdSkipList := (h', c')\<rparr>) = skip_count env now1 m sd"
    unfolding skip_count_s [OF ok] skip_count_s [OF ok'] using s g hc n
    by (auto simp: s_get_def s_find_append s_find_del s_find_single split: option.splits if_splits dest: s_find_key)
qed

lemma cacheSniffFailed_count:
  assumes ok: "skip_ok sd"
  shows "skip_ok (cacheSniffFailed env now m sd)"
    and "skip_count env now m (cacheSniffFailed env now m sd) = bump (skip_count env now m sd)"
proof -
  obtain h c where hc: "sdSkipList sd = (h, c)" by force
  obtain r h1 c1 where g: "lru_get now (skip_key env m) h c = (r, h1, c1)" by (metis prod_cases3)
  let ?n = "bump (case r of None \<Rightarrow> 0 | Some n \<Rightarrow> n)"
  obtain h2 c2 where t: "lru_set now (skip_key env m) ?n h1 c1 = (h2, c2)" by force
  have eq: "cacheSniffFailed env now m sd = sd\<lparr>sdSkipList := (h2, c2)\<rparr>"
    using hc g t by (simp add: cacheSniffFailed_def bump_def Let_def)
  have s1: "lru_sync h1 c1" "maxAge c1 = 600" "\<not> staleReturn c1" "\<not> updateAgeOnGet c1"
    using get_refines [OF _ g] skip_okD [OF ok hc] by (auto simp: same_config_def)
  note s2 = set_refines [OF s1(1) t]
  from s1 s2 show ok': "skip_ok (cacheSniffFailed env now m sd)" by (simp add: eq skip_ok_def same_config_def)
  have "s_find (skip_key env m) (lru_view h2 c2) = Some \<lparr>ekey = skip_key env m, evalue = ?n, eexpires = now + 600\<rparr>"
    using s1 s2 by (simp add: s_find_set_fresh)
  then have "skip_count env now m (cacheSniffFailed env now m sd) = ?n" unfolding skip_count_s [OF ok'] by (simp add: eq)
  then show "skip_count env now m (cacheSniffFailed env now m sd) = bump (skip_count env now m sd)"
    using hc g by (simp add: skip_count_def)
qed

text \<open>What is counted from time \<open>t\<close> to time \<open>e\<close>.\<close>

definition counted :: "sniff_env \<Rightarrow> metadata \<Rightarrow> int \<Rightarrow> u8 \<Rightarrow> int \<Rightarrow> sniffer_dispatcher \<Rightarrow> bool" where
  "counted env m e n t sd \<longleftrightarrow> skip_ok sd \<and> (\<forall>u. t \<le> u \<and> u < e \<longrightarrow> skip_count env u m sd = n)"

lemma counted_get:
  assumes "counted env m e n t sd" "t \<le> now" "lru_get now (skip_key env m) (fst (sdSkipList sd)) (snd (sdSkipList sd)) = (r, h, c)"
  shows "counted env m e n now (sd\<lparr>sdSkipList := (h, c)\<rparr>)"
  using assms get_keeps_count [OF _ assms(3)] by (auto simp: counted_def)

lemma cacheSniffFailed_later:
  assumes ok: "skip_ok sd" and u: "now \<le> u" "u < now + 600"
  shows "skip_count env u m (cacheSniffFailed env now m sd) = bump (skip_count env now m sd)"
proof -
  obtain h c where hc: "sdSkipList sd = (h, c)" by force
  obtain r h1 c1 where g: "lru_get now (skip_key env m) h c = (r, h1, c1)" by (metis prod_cases3)
  let ?n = "bump (case r of None \<Rightarrow> 0 | Some n \<Rightarrow> n)"
  obtain h2 c2 where t: "lru_set now (skip_key env m) ?n h1 c1 = (h2, c2)" by force
  have eq: "cacheSniffFailed env now m sd = sd\<lparr>sdSkipList := (h2, c2)\<rparr>"
    using hc g t by (simp add: cacheSniffFailed_def bump_def Let_def)
  have s1: "lru_sync h1 c1" "maxAge c1 = 600"
    using get_refines [OF _ g] skip_okD [OF ok hc] by (auto simp: same_config_def)
  have "s_find (skip_key env m) (lru_view h2 c2) = Some \<lparr>ekey = skip_key env m, evalue = ?n, eexpires = now + 600\<rparr>"
    using s1 set_refines [OF s1(1) t] by (simp add: s_find_set_fresh)
  then have "skip_count env u m (cacheSniffFailed env now m sd) = ?n"
    unfolding skip_count_s [OF cacheSniffFailed_count(1) [OF ok]] using u by (simp add: eq)
  then show ?thesis using hc g by (simp add: skip_count_def)
qed

lemma counted_failed:
  assumes "counted env m e n now sd" "now < e" "e \<le> now + 600"
  shows "counted env m e (bump n) now (cacheSniffFailed env now m sd)"
  using assms cacheSniffFailed_later [of sd now _ env m] cacheSniffFailed_count(1) by (auto simp: counted_def)

text \<open>A connection that sends nothing in time, and one in whose data no sniffer finds a name (but it may find an address).\<close>

definition silent :: "(nat \<Rightarrow> peek_result) \<Rightarrow> bool" where
  "silent conn \<longleftrightarrow> (\<forall>i. conn i = PeekOpErr)"

definition nameless :: "sniff_env \<Rightarrow> (sniffer \<times> SnifferConfig) list \<Rightarrow> (nat \<Rightarrow> peek_result) \<Rightarrow> bool" where
  "nameless env ss conn \<longleftrightarrow> (\<forall>i. conn i \<noteq> PeekOpErr \<and>
     (\<forall>dat. conn i = Peeked (Some dat) \<longrightarrow> (\<forall>(s, cfg) \<in> set ss. \<forall>h. SniffData env s dat = Done (Ok h) \<longrightarrow> seParseAddr env h \<noteq> None)))"

lemma sniff_loop_silent:
  "silent conn \<Longrightarrow> \<exists>p \<in> set ord. SupportNetwork (fst p) = TCP \<Longrightarrow>
    sniff_loop env now conn m ord i sd = Done (Err ErrOpError, True, cacheSniffFailed env now m sd)"
proof (induction ord)
  case (Cons p ord)
  obtain s cfg where p: "p = (s, cfg)" by force
  show ?case
  proof (cases "SupportNetwork s = TCP")
    case True
    then show ?thesis using Cons.prems(1) p by (simp add: silent_def)
  next
    case False
    then have "\<exists>p \<in> set ord. SupportNetwork (fst p) = TCP" using Cons.prems(2) p by auto
    with Cons.IH [OF Cons.prems(1)] False p show ?thesis by simp
  qed
qed simp

lemma sniff_loop_nameless:
  "nameless env ss conn \<Longrightarrow> set ord \<subseteq> set ss \<Longrightarrow> \<exists>err. sniff_loop env now conn m ord i sd = Done (Err err, False, sd)"
proof (induction ord arbitrary: i)
  case (Cons p ord)
  obtain s cfg where p: "p = (s, cfg)" by force
  have ih: "\<exists>err. sniff_loop env now conn m ord j sd = Done (Err err, False, sd)" for j using Cons by simp
  show ?case
  proof (cases "SupportNetwork s = TCP")
    case True
    show ?thesis
    proof (cases "conn i")
      case (Peeked d)
      show ?thesis
      proof (cases d)
        case (Some dat)
        obtain r where r: "SniffData env s dat = Done r" using SniffData_total [OF True] by blast
        then have "r = Ok h \<Longrightarrow> seParseAddr env h \<noteq> None" for h
          using Cons.prems p Peeked Some unfolding nameless_def by fastforce
        with ih r p True Peeked Some show ?thesis by (cases r) auto
      qed (use ih p True Peeked in simp)
    qed (use Cons.prems(1) p True in \<open>auto simp: nameless_def\<close>)
  qed (use ih p in simp)
qed simp

lemma sniff_loop_host_indep:
  "sniff_loop env now conn m ord i sd = Done (Ok host, closed, sd') \<Longrightarrow> sniff_loop env now conn m ord i sd2 = Done (Ok host, closed, sd2)"
proof (induction ord arbitrary: i)
  case (Cons p ord)
  obtain s cfg where p: "p = (s, cfg)" by force
  show ?case
  proof (cases "SupportNetwork s = TCP")
    case True
    show ?thesis
    proof (cases "conn i")
      case (Peeked d)
      show ?thesis
      proof (cases d)
        case (Some dat)
        obtain r where "SniffData env s dat = Done r" using SniffData_total [OF True] by blast
        with Cons p True Peeked Some show ?thesis by (cases r) (auto split: if_splits)
      qed (use Cons p True Peeked in simp)
    qed (use Cons.prems p True in simp_all)
  qed (use Cons p in simp)
qed simp

lemma port_loop_None: "port_loop port ord = None \<longleftrightarrow> \<not> (\<exists>p \<in> set ord. SupportNetwork (fst p) = TCP \<and> SupportPort (fst p) port)"
proof (induction ord)
  case (Cons p ord)
  obtain s cfg where p: "p = (s, cfg)" by force
  have "SupportNetwork s \<noteq> ALLNet" by (simp add: SupportNetwork_def split: sniffer_kind.splits)
  with Cons.IH p show ?case by (cases "SupportNetwork s = TCP \<and> SupportPort s port") auto
qed simp

text \<open>Connections to one address: the two readings of the clock, the orders in which the two loops meet the sniffers, and the data.\<close>

record attempt =
  atNow :: int
  atNow1 :: int
  atOrd1 :: "(sniffer \<times> SnifferConfig) list"
  atOrd2 :: "(sniffer \<times> SnifferConfig) list"
  atConn :: "nat \<Rightarrow> peek_result"

definition try_sniff :: "sniff_env \<Rightarrow> metadata \<Rightarrow> attempt \<Rightarrow> sniffer_dispatcher \<Rightarrow> sniff_out outcome" where
  "try_sniff env m a sd = TCPSniff env (atNow a) (atNow1 a) (atOrd1 a) (atOrd2 a) (atConn a) m sd"

fun sniff_run :: "sniff_env \<Rightarrow> metadata \<Rightarrow> attempt list \<Rightarrow> sniffer_dispatcher \<Rightarrow> (bool list \<times> sniffer_dispatcher) outcome" where
  "sniff_run env m [] sd = Done ([], sd)"
| "sniff_run env m (a # as) sd =
     obind (try_sniff env m a sd) (\<lambda>out.
     obind (sniff_run env m as (soDispatcher out)) (\<lambda>(bs, sd'). Done (soSniffed out # bs, sd')))"

text \<open>In order, and before \<open>e\<close>.\<close>

fun in_window :: "int \<Rightarrow> int \<Rightarrow> attempt list \<Rightarrow> bool" where
  "in_window e t [] \<longleftrightarrow> True"
| "in_window e t (a # as) \<longleftrightarrow> t \<le> atNow a \<and> atNow a \<le> atNow1 a \<and> atNow1 a < e \<and> in_window e (atNow1 a) as"

definition weight :: "attempt \<Rightarrow> nat" where
  "weight a = (if silent (atConn a) then 2 else 1)"

definition capped :: "nat \<Rightarrow> u8" where
  "capped w = of_nat (min w 6)"

lemma bump_capped: "bump (capped w) = capped (w + 1)"
proof -
  consider "w = 0" | "w = 1" | "w = 2" | "w = 3" | "w = 4" | "w = 5" | "6 \<le> w" by linarith
  then show ?thesis by cases (simp_all add: bump_def capped_def)
qed

lemma capped_over: "(5 < capped w) = (6 \<le> w)"
proof -
  consider "w = 0" | "w = 1" | "w = 2" | "w = 3" | "w = 4" | "w = 5" | "6 \<le> w" by linarith
  then show ?thesis by cases (simp_all add: capped_def)
qed

definition regular :: "sniff_env \<Rightarrow> (sniffer \<times> SnifferConfig) list \<Rightarrow> attempt \<Rightarrow> bool" where
  "regular env ss a \<longleftrightarrow> set (atOrd1 a) = set ss \<and> set (atOrd2 a) = set ss \<and> (silent (atConn a) \<or> nameless env ss (atConn a))"

definition takes_port :: "(sniffer \<times> SnifferConfig) list \<Rightarrow> metadata \<Rightarrow> bool" where
  "takes_port ss m \<longleftrightarrow> (\<exists>p \<in> set ss. SupportNetwork (fst p) = TCP \<and> SupportPort (fst p) (mDstPort m))"

definition same_but_list :: "sniffer_dispatcher \<Rightarrow> sniffer_dispatcher \<Rightarrow> bool" where
  "same_but_list sd sd' \<longleftrightarrow> sd' = sd\<lparr>sdSkipList := sdSkipList sd'\<rparr>"

lemma cacheSniffFailed_same: "same_but_list sd sd' \<Longrightarrow> same_but_list sd (cacheSniffFailed env now m sd')"
  by (cases sd; cases sd') (simp add: same_but_list_def cacheSniffFailed_def Let_def split: prod.splits)

text \<open>What an attempt makes of the result of the sniffers.\<close>

abbreviation after_sniff where
  "after_sniff env m a ov \<equiv> (\<lambda>(r, closed, sd2).
        case r of
          Err e \<Rightarrow> Done \<lparr>soSniffed = False, soMetadata = m, soClosed = closed, soDispatcher = cacheSniffFailed env (atNow1 a) m sd2\<rparr>
        | Ok host \<Rightarrow>
            if sdSkipSNI sd2 host then Done \<lparr>soSniffed = False, soMetadata = m, soClosed = closed, soDispatcher = sd2\<rparr>
            else Done \<lparr>soSniffed = True, soMetadata = replaceDomain m host ov, soClosed = closed,
                   soDispatcher = sd2\<lparr>sdSkipList := (fst (sdSkipList sd2), lru_delete (skip_key env m) (fst (sdSkipList sd2)) (snd (sdSkipList sd2)))\<rparr>\<rparr>)"

text \<open>The lookup at the start of an attempt.\<close>

lemma attempt_start:
  assumes "counted env m e (capped w) t sd" "in_window e t [a]"
    and "shouldOverride sd m" "takes_port ss m" "set (atOrd1 a) = set ss"
  obtains l where "counted env m e (capped w) (atNow a) (sd\<lparr>sdSkipList := l\<rparr>)"
    and "6 \<le> w \<Longrightarrow> try_sniff env m a sd = Done \<lparr>soSniffed = False, soMetadata = m, soClosed = False, soDispatcher = sd\<lparr>sdSkipList := l\<rparr>\<rparr>"
    and "w < 6 \<Longrightarrow> \<exists>ov. try_sniff env m a sd =
      obind (sniffDomain env (atNow1 a) (atOrd2 a) (atConn a) m (sd\<lparr>sdSkipList := l\<rparr>)) (after_sniff env m a ov)"
proof -
  obtain r h c where g: "lru_get (atNow a) (skip_key env m) (fst (sdSkipList sd)) (snd (sdSkipList sd)) = (r, h, c)"
    by (metis prod_cases3)
  have "skip_count env (atNow a) m sd = capped w" using assms(1,2) by (simp add: counted_def)
  then have r: "(case r of None \<Rightarrow> False | Some count \<Rightarrow> count > 5) \<longleftrightarrow> 6 \<le> w"
    using capped_over [of w] by (auto simp: skip_count_def g split: option.splits)
  obtain ov where ov: "port_loop (mDstPort m) (atOrd1 a) = Some ov"
    using assms(4,5) port_loop_None [of "mDstPort m" "atOrd1 a"] by (cases "port_loop (mDstPort m) (atOrd1 a)") (auto simp: takes_port_def)
  show thesis
  proof (rule that [of "(h, c)"])
    show "counted env m e (capped w) (atNow a) (sd\<lparr>sdSkipList := (h, c)\<rparr>)" using counted_get [OF assms(1) _ g] assms(2) by simp
  qed (use assms(3) g r ov in \<open>auto simp: try_sniff_def TCPSniff_def Let_def not_le [symmetric]\<close>)
qed

lemma failed_attempt:
  assumes c: "counted env m (t0 + 600) (capped w) t sd" and "t0 \<le> t" and win: "in_window (t0 + 600) t [a]"
    and so: "shouldOverride sd m" and p: "takes_port ss m" and a: "regular env ss a"
  shows "\<exists>out. try_sniff env m a sd = Done out \<and> \<not> soSniffed out \<and> same_but_list sd (soDispatcher out) \<and>
    counted env m (t0 + 600) (capped (w + weight a)) (atNow1 a) (soDispatcher out)"
proof -
  have o1: "set (atOrd1 a) = set ss" "set (atOrd2 a) = set ss" using a by (simp_all add: regular_def)
  obtain l where cl: "counted env m (t0 + 600) (capped w) (atNow a) (sd\<lparr>sdSkipList := l\<rparr>)"
    and over: "6 \<le> w \<Longrightarrow> try_sniff env m a sd = Done \<lparr>soSniffed = False, soMetadata = m, soClosed = False, soDispatcher = sd\<lparr>sdSkipList := l\<rparr>\<rparr>"
    and under: "w < 6 \<Longrightarrow> \<exists>ov. try_sniff env m a sd =
      obind (sniffDomain env (atNow1 a) (atOrd2 a) (atConn a) m (sd\<lparr>sdSkipList := l\<rparr>)) (after_sniff env m a ov)"
    using attempt_start [OF c win so p o1(1)] by blast
  have c1: "counted env m (t0 + 600) (capped w) (atNow1 a) (sd\<lparr>sdSkipList := l\<rparr>)" using cl win by (auto simp: counted_def)
  have n: "atNow1 a < t0 + 600" "t0 + 600 \<le> atNow1 a + 600" using win \<open>t0 \<le> t\<close> by auto
  have sb: "same_but_list sd (sd\<lparr>sdSkipList := l\<rparr>)" by (simp add: same_but_list_def)
  note sb1 = cacheSniffFailed_same [OF sb] and sb2 = cacheSniffFailed_same [OF cacheSniffFailed_same [OF sb]]
  note f1 = counted_failed [OF c1 n]
  note f2 = counted_failed [OF f1 n]
  show ?thesis
  proof (cases "6 \<le> w")
    case True
    then have "capped (w + weight a) = capped w" by (simp add: capped_def)
    with over [OF True] c1 sb show ?thesis by simp
  next
    case False
    then have u: "w < 6" by simp
    from under [OF u] obtain ov where t: "try_sniff env m a sd =
      obind (sniffDomain env (atNow1 a) (atOrd2 a) (atConn a) m (sd\<lparr>sdSkipList := l\<rparr>)) (after_sniff env m a ov)" by blast
    have "\<exists>p \<in> set (atOrd2 a). SupportNetwork (fst p) = TCP" using p o1 by (auto simp: takes_port_def)
    note sl = sniff_loop_silent [OF _ this]
    show ?thesis
    proof (cases "silent (atConn a)")
      case True
      then have "capped (w + weight a) = bump (bump (capped w))" by (simp add: weight_def bump_capped)
      then show ?thesis unfolding t sniffDomain_def sl [OF True] using f2 sb2 by simp
    next
      case False
      with a have nl: "nameless env ss (atConn a)" by (simp add: regular_def)
      have "capped (w + weight a) = bump (capped w)" using False by (simp add: weight_def bump_capped)
      moreover obtain err where "sniff_loop env (atNow1 a) (atConn a) m (atOrd2 a) 0 (sd\<lparr>sdSkipList := l\<rparr>) = Done (Err err, False, sd\<lparr>sdSkipList := l\<rparr>)"
        using sniff_loop_nameless [OF nl, of "atOrd2 a"] o1(2) by blast
      ultimately show ?thesis unfolding t sniffDomain_def using f1 sb1 by simp
    qed
  qed
qed

lemma same_but_list_trans: "same_but_list a b \<Longrightarrow> same_but_list b c \<Longrightarrow> same_but_list a c"
  by (cases a; cases b; cases c) (simp add: same_but_list_def)

lemma same_but_list_simps:
  "same_but_list a b \<Longrightarrow> shouldOverride b m = shouldOverride a m" "same_but_list a b \<Longrightarrow> sdSkipSNI b = sdSkipSNI a"
  by (cases a; cases b; simp add: same_but_list_def shouldOverride_def)+

definition last_time :: "int \<Rightarrow> attempt list \<Rightarrow> int" where
  "last_time t as = (if as = [] then t else atNow1 (last as))"

lemma in_window_snoc: "in_window e t (as @ [a]) \<longleftrightarrow> in_window e t as \<and> in_window e (last_time t as) [a]"
  by (induction as arbitrary: t) (auto simp: last_time_def)

lemma failed_run:
  assumes "takes_port ss m"
  shows "counted env m (t0 + 600) (capped w) t sd \<Longrightarrow> t0 \<le> t \<Longrightarrow> in_window (t0 + 600) t as \<Longrightarrow> shouldOverride sd m \<Longrightarrow>
    \<forall>a \<in> set as. regular env ss a \<Longrightarrow>
    \<exists>sd'. sniff_run env m as sd = Done (replicate (length as) False, sd') \<and> same_but_list sd sd' \<and>
      counted env m (t0 + 600) (capped (w + sum_list (map weight as))) (last_time t as) sd'"
proof (induction as arbitrary: w t sd)
  case Nil
  then show ?case by (simp add: same_but_list_def last_time_def)
next
  case (Cons a as)
  have "in_window (t0 + 600) t [a]" "regular env ss a" using Cons.prems(3,5) by simp_all
  from failed_attempt [OF Cons.prems(1,2) this(1) Cons.prems(4) assms this(2)]
  obtain out where out: "try_sniff env m a sd = Done out" "\<not> soSniffed out" "same_but_list sd (soDispatcher out)"
    "counted env m (t0 + 600) (capped (w + weight a)) (atNow1 a) (soDispatcher out)" by blast
  have "t0 \<le> atNow1 a" "in_window (t0 + 600) (atNow1 a) as" using Cons.prems(2,3) by auto
  from Cons.IH [OF out(4) this] same_but_list_simps(1) [OF out(3)] Cons.prems(4,5)
  obtain sd' where "sniff_run env m as (soDispatcher out) = Done (replicate (length as) False, sd')" "same_but_list (soDispatcher out) sd'"
    "counted env m (t0 + 600) (capped (w + weight a + sum_list (map weight as))) (last_time (atNow1 a) as) sd'" by auto
  with out same_but_list_trans [OF out(3)] show ?case by (auto simp: last_time_def ac_simps)
qed

lemma counted_new:
  assumes "NewSnifferDispatcher cfgs fd sk fm pp = (sd, True)"
  shows "counted env m e (capped 0) t sd" "sdSkipSNI sd = sk"
proof -
  from assms have sd: "sdSkipList sd = ([], lru_new 600 128 False False)" "sdSkipSNI sd = sk"
    by (auto simp: NewSnifferDispatcher_def split: option.splits)
  have "skip_ok sd" using sd(1) by (simp add: skip_ok_def) (simp add: lru_new_def)
  moreover have "skip_count env u m sd = 0" for u using sd(1) by (simp add: skip_count_def lru_get_def lru_get_ref_def lru_new_def)
  ultimately show "counted env m e (capped 0) t sd" by (simp add: counted_def capped_def)
  show "sdSkipSNI sd = sk" by (rule sd)
qed

text \<open>With a count below six, the connection is sniffed when its data have a name that is not to be skipped.\<close>

lemma judged_by_name:
  assumes t: "try_sniff env m a sd' = obind (sniffDomain env (atNow1 a) (atOrd2 a) (atConn a) m sd) (after_sniff env m a ov)"
    and sk: "sdSkipSNI sd = sk"
  shows "\<exists>out. try_sniff env m a sd' = Done out \<and> (soSniffed out \<longleftrightarrow>
    (\<exists>host d d'. sniffDomain env (atNow1 a) (atOrd2 a) (atConn a) m d = Done (Ok host, False, d') \<and> \<not> sk host))"
proof -
  obtain r closed sd2 where l: "sniff_loop env (atNow1 a) (atConn a) m (atOrd2 a) 0 sd = Done (r, closed, sd2)"
    and sd2: "sd2 = (if closed then cacheSniffFailed env (atNow1 a) m sd else sd)" and nc: "\<And>h. r = Ok h \<Longrightarrow> \<not> closed"
    using sniff_loop_result [of env "atNow1 a" "atConn a" m "atOrd2 a" 0 sd] by fastforce
  note indep = sniff_loop_host_indep [where ?sd2.0 = sd and env = env and now = "atNow1 a" and conn = "atConn a" and m = m and ord = "atOrd2 a" and i = 0]
  show ?thesis
  proof (cases r)
    case (Err e)
    have "sniffDomain env (atNow1 a) (atOrd2 a) (atConn a) m d \<noteq> Done (Ok host, False, d')" for host d d'
      using indep [of d host False d'] l Err by (auto simp: sniffDomain_def)
    then show ?thesis unfolding t sniffDomain_def l using Err by simp
  next
    case (Ok host)
    with nc sd2 have n: "\<not> closed" "sd2 = sd" by simp_all
    have "h = host" if "sniffDomain env (atNow1 a) (atOrd2 a) (atConn a) m d = Done (Ok h, False, d')" for h d d'
      using indep [of d h False d'] that l Ok by (auto simp: sniffDomain_def)
    moreover have "sniffDomain env (atNow1 a) (atOrd2 a) (atConn a) m sd = Done (Ok host, False, sd2)" using l Ok n by (simp add: sniffDomain_def)
    ultimately have "(\<exists>h d d'. sniffDomain env (atNow1 a) (atOrd2 a) (atConn a) m d = Done (Ok h, False, d') \<and> \<not> sk h) \<longleftrightarrow> \<not> sk host"
      by blast
    then show ?thesis unfolding t sniffDomain_def l using Ok n sk by simp
  qed
qed

text \<open>C31: connections to an address that yield no name are counted, one that sends nothing in time twice (\<open>sniffDomain\<close> counts it, and
  \<open>TCPSniff\<close> again), any other once. After such connections to one address, within ten minutes and with no others in between, a new
  connection to it, whatever it sends, is sniffed exactly when the count is below six (less than three silent connections, or
  less than six others) and a sniffer finds a name in its data that is not to be skipped. So from a count of six on the address is left alone,
  and what the connection sends does not matter. The dispatcher is a new one, the connection's metadata asks for sniffing, and a TCP sniffer takes its port.\<close>

theorem TCPSniff_failures:
  assumes "NewSnifferDispatcher cfgs fd sk fm pp = (sd, True)" "shouldOverride sd m" "takes_port (sdSniffers sd) m"
    and "in_window (t0 + 600) t0 (as @ [a])" "\<forall>b \<in> set as. regular env (sdSniffers sd) b"
    and "set (atOrd1 a) = set (sdSniffers sd)"
  shows "\<exists>sd' out. sniff_run env m as sd = Done (replicate (length as) False, sd') \<and> try_sniff env m a sd' = Done out \<and>
    (soSniffed out \<longleftrightarrow> sum_list (map weight as) < 6 \<and>
      (\<exists>host d d'. sniffDomain env (atNow1 a) (atOrd2 a) (atConn a) m d = Done (Ok host, False, d') \<and> \<not> sk host))"
proof -
  have win: "in_window (t0 + 600) t0 as" "in_window (t0 + 600) (last_time t0 as) [a]" using assms(4) by (simp_all only: in_window_snoc)
  from failed_run [OF assms(3) counted_new(1) [OF assms(1)] order_refl win(1) assms(2,5)]
  obtain sd' where run: "sniff_run env m as sd = Done (replicate (length as) False, sd')" and sb: "same_but_list sd sd'"
    and c: "counted env m (t0 + 600) (capped (0 + sum_list (map weight as))) (last_time t0 as) sd'" by blast
  define w where "w = sum_list (map weight as)"
  have c: "counted env m (t0 + 600) (capped w) (last_time t0 as) sd'" using c by (simp add: w_def)
  have so: "shouldOverride sd' m" "sdSkipSNI sd' = sk" using same_but_list_simps [OF sb] assms(2) counted_new(2) [OF assms(1)] by simp_all
  from attempt_start [OF c win(2) so(1) assms(3,6)] obtain l where
    over: "6 \<le> w \<Longrightarrow> try_sniff env m a sd' = Done \<lparr>soSniffed = False, soMetadata = m, soClosed = False, soDispatcher = sd'\<lparr>sdSkipList := l\<rparr>\<rparr>"
    and under: "w < 6 \<Longrightarrow> \<exists>ov. try_sniff env m a sd' =
      obind (sniffDomain env (atNow1 a) (atOrd2 a) (atConn a) m (sd'\<lparr>sdSkipList := l\<rparr>)) (after_sniff env m a ov)"
    by blast
  have "\<exists>out. try_sniff env m a sd' = Done out \<and> (soSniffed out \<longleftrightarrow> w < 6 \<and>
      (\<exists>host d d'. sniffDomain env (atNow1 a) (atOrd2 a) (atConn a) m d = Done (Ok host, False, d') \<and> \<not> sk host))"
  proof (cases "6 \<le> w")
    case False
    then have "w < 6" by simp
    with under obtain ov where
      "try_sniff env m a sd' = obind (sniffDomain env (atNow1 a) (atOrd2 a) (atConn a) m (sd'\<lparr>sdSkipList := l\<rparr>)) (after_sniff env m a ov)" by blast
    from judged_by_name [OF this, of sk] so(2) \<open>w < 6\<close> show ?thesis by simp
  qed (use over in simp)
  with run show ?thesis by (auto simp: w_def)
qed

text \<open>Three connections that send nothing, and then a request with a name.\<close>

definition sniff_env0 :: sniff_env where
  "sniff_env0 = \<lparr>seParseIP = (\<lambda>s. None), seParseAddr = (\<lambda>s. None), seAddrStr = (\<lambda>a. ''ip''), seQuic = (\<lambda>b. Done (Err ErrNotTLS))\<rparr>"

definition sniff_dispatcher0 :: sniffer_dispatcher where
  "sniff_dispatcher0 = fst (NewSnifferDispatcher [(SniffT_HTTP, \<lparr>scOverrideDest = True, scPorts = [Range 0 0]\<rparr>)] (\<lambda>h. False) (\<lambda>h. False) False True)"

definition attempt_at :: "int \<Rightarrow> (nat \<Rightarrow> peek_result) \<Rightarrow> attempt" where
  "attempt_at t conn = \<lparr>atNow = t, atNow1 = t + 1, atOrd1 = sdSniffers sniff_dispatcher0, atOrd2 = sdSniffers sniff_dispatcher0, atConn = conn\<rparr>"

lemma TCPSniff_failures_witness:
  "\<forall>conn. \<exists>sd' out. sniff_run sniff_env0 metadata0 [attempt_at 0 (\<lambda>i. PeekOpErr), attempt_at 2 (\<lambda>i. PeekOpErr), attempt_at 4 (\<lambda>i. PeekOpErr)] sniff_dispatcher0 =
      Done ([False, False, False], sd') \<and> try_sniff sniff_env0 metadata0 (attempt_at 6 conn) sd' = Done out \<and> \<not> soSniffed out"
proof
  fix conn
  let ?as = "[attempt_at 0 (\<lambda>i. PeekOpErr), attempt_at 2 (\<lambda>i. PeekOpErr), attempt_at 4 (\<lambda>i. PeekOpErr)]"
  have n: "NewSnifferDispatcher [(SniffT_HTTP, \<lparr>scOverrideDest = True, scPorts = [Range 0 0]\<rparr>)] (\<lambda>h. False) (\<lambda>h. False) False True = (sniff_dispatcher0, True)"
    by (simp add: sniff_dispatcher0_def NewSnifferDispatcher_def)
  have s: "shouldOverride sniff_dispatcher0 metadata0" by code_simp
  have p: "takes_port (sdSniffers sniff_dispatcher0) metadata0" unfolding takes_port_def by code_simp
  have w: "in_window (0 + 600) 0 (?as @ [attempt_at 6 conn])" by (simp add: attempt_at_def)
  have r: "\<forall>b \<in> set ?as. regular sniff_env0 (sdSniffers sniff_dispatcher0) b" by (simp add: regular_def attempt_at_def silent_def)
  have o1: "set (atOrd1 (attempt_at 6 conn)) = set (sdSniffers sniff_dispatcher0)" by (simp add: attempt_at_def)
  have "sum_list (map weight ?as) = 6" by (simp add: weight_def attempt_at_def silent_def)
  with TCPSniff_failures [OF n s p w r o1] show "\<exists>sd' out. sniff_run sniff_env0 metadata0 ?as sniff_dispatcher0 = Done ([False, False, False], sd') \<and>
      try_sniff sniff_env0 metadata0 (attempt_at 6 conn) sd' = Done out \<and> \<not> soSniffed out"
    by (simp add: numeral_3_eq_3)
qed

end
