(* ===== verification/DomainSet.thy ===== *)
theory DomainSet
  imports DomainTrie "HOL-Library.Multiset"
begin

text \<open>
  The domain set of \<open>component/trie/domain_set.go\<close>: a trie of reversed domains, laid out level by level in bitmaps (a LOUDS
  trie). The bitmap library (\<open>openacid/low/bitmap\<close>) is an argument; what is relied on of it is \<open>bitmap_ok\<close>.
  Strings are ASCII, so that \<open>utils.Reverse\<close> reverses the bytes, and there are fewer than \<open>2^31\<close> labels.
\<close>

section \<open>Bitmaps\<close>

text \<open>\<open>IndexSelect32R64\<close> (selects and ranks), \<open>Rank64\<close> and \<open>Select32R64\<close>, without their second results.\<close>

record bitmap_lib =
  blIndex :: "u64 list \<Rightarrow> int list \<times> int list"
  blRank :: "u64 list \<Rightarrow> int list \<Rightarrow> nat \<Rightarrow> nat"
  blSelect :: "u64 list \<Rightarrow> int list \<Rightarrow> int list \<Rightarrow> nat \<Rightarrow> nat"

definition setBit :: "u64 list \<Rightarrow> nat \<Rightarrow> bool \<Rightarrow> u64 list" where
  "setBit bm i v =
     (let bm1 = bm @ replicate (Suc (i div 64) - length bm) 0
      in bm1[i div 64 := or (bm1 ! (i div 64)) (if v then push_bit (i mod 64) 1 else 0)])"

definition getBit :: "u64 list \<Rightarrow> nat \<Rightarrow> bool outcome" where
  "getBit bm i = (if i div 64 < length bm then Done (and (bm ! (i div 64)) (push_bit (i mod 64) 1) \<noteq> 0) else Panicked)"

section \<open>Building\<close>

record domain_set =
  dsLeaves :: "u64 list"
  dsLabelBitmap :: "u64 list"
  dsLabels :: string
  dsRanks :: "int list"
  dsSelects :: "int list"

record qElt =
  q_s :: nat
  q_e :: nat
  q_col :: nat

text \<open>\<open>keys[j][col]\<close>.\<close>

definition key_at :: "string list \<Rightarrow> nat \<Rightarrow> nat \<Rightarrow> char outcome" where
  "key_at keys j col = (if j < length keys \<and> col < length (keys ! j) then Done (keys ! j ! col) else Panicked)"

text \<open>The innermost loop, from the key after \<open>frm\<close> on: the first key that does not have the label \<open>c\<close>.\<close>

function run_end :: "string list \<Rightarrow> nat \<Rightarrow> nat \<Rightarrow> char \<Rightarrow> nat \<Rightarrow> nat outcome" where
  "run_end keys e col c j =
     (if j < e then obind (key_at keys j col) (\<lambda>x. if x = c then run_end keys e col c (Suc j) else Done j) else Done j)"
  by pat_completeness auto
termination by (relation "measure (\<lambda>(keys, e, col, c, j). e - j)") auto

declare run_end.simps [simp del]

lemma run_end_ge: "run_end keys e col c j = Done j' \<Longrightarrow> j \<le> j' \<and> (j \<le> e \<longrightarrow> j' \<le> e)"
proof (induction keys e col c j rule: run_end.induct)
  case (1 keys e col c j)
  show ?case
  proof (cases "j < e")
    case True
    with "1.prems" obtain x where x: "key_at keys j col = Done x"
      and r: "(if x = c then run_end keys e col c (Suc j) else Done j) = Done j'"
      by (subst (asm) run_end.simps) (auto simp: obind_Done)
    show ?thesis
    proof (cases "x = c")
      case t: True
      with "1.IH" [OF True x t] r True show ?thesis by simp
    qed (use r True in simp)
  next
    case False
    with "1.prems" show ?thesis by (subst (asm) run_end.simps) simp
  qed
qed

text \<open>What the loops extend: the queue, the set, and the length of the bitmap of labels.\<close>

record build =
  bQueue :: "qElt list"
  bLeaves :: "u64 list"
  bBitmap :: "u64 list"
  bLabels :: string
  b_lIdx :: nat

definition add_label :: "nat \<Rightarrow> nat \<Rightarrow> nat \<Rightarrow> char \<Rightarrow> build \<Rightarrow> build" where
  "add_label frm j col c b =
     b\<lparr>bQueue := bQueue b @ [\<lparr>q_s = frm, q_e = j, q_col = col + 1\<rparr>], bLabels := bLabels b @ [c],
       bBitmap := setBit (bBitmap b) (b_lIdx b) False, b_lIdx := b_lIdx b + 1\<rparr>"

text \<open>The loop over the keys of one element of the queue.\<close>

function expand :: "string list \<Rightarrow> nat \<Rightarrow> nat \<Rightarrow> nat \<Rightarrow> build \<Rightarrow> build outcome" where
  "expand keys e col j b =
     (if j < e then
        obind (key_at keys j col) (\<lambda>c.
        obind (run_end keys e col c (Suc j)) (\<lambda>j'. expand keys e col j' (add_label j j' col c b)))
      else Done b)"
  by pat_completeness auto
termination by (relation "measure (\<lambda>(keys, e, col, j, b). e - j)") (auto dest: run_end_ge)

declare expand.simps [simp del]

definition visit :: "string list \<Rightarrow> nat \<Rightarrow> build \<Rightarrow> build outcome" where
  "visit keys i b =
     (let elt = bQueue b ! i
      in if q_s elt \<ge> length keys then Panicked
         else
           let leaf = (q_col elt = length (keys ! q_s elt));
               s = (if leaf then q_s elt + 1 else q_s elt);
               b1 = (if leaf then b\<lparr>bLeaves := setBit (bLeaves b) i True\<rparr> else b)
           in obind (expand keys (q_e elt) (q_col elt) s b1) (\<lambda>b2.
                Done (b2\<lparr>bBitmap := setBit (bBitmap b2) (b_lIdx b2) True, b_lIdx := b_lIdx b2 + 1\<rparr>)))"

fun bfs :: "string list \<Rightarrow> nat \<Rightarrow> nat \<Rightarrow> build \<Rightarrow> build outcome" where
  "bfs keys 0 i b = (if i < length (bQueue b) then NoFuel else Done b)"
| "bfs keys (Suc n) i b =
     (if i < length (bQueue b) then obind (visit keys i b) (bfs keys n (i + 1)) else Done b)"

text \<open>The number of nodes is at most one more than the number of bytes.\<close>

definition bfs_fuel :: "string list \<Rightarrow> nat" where
  "bfs_fuel keys = Suc (sum_list (map length keys))"

definition build0 :: "string list \<Rightarrow> build" where
  "build0 keys = \<lparr>bQueue = [\<lparr>q_s = 0, q_e = length keys, q_col = 0\<rparr>], bLeaves = [], bBitmap = [], bLabels = [], b_lIdx = 0\<rparr>"

definition ds_init :: "bitmap_lib \<Rightarrow> domain_set \<Rightarrow> domain_set" where
  "ds_init bl ss = (case blIndex bl (dsLabelBitmap ss) of (sel, rk) \<Rightarrow> ss\<lparr>dsSelects := sel, dsRanks := rk\<rparr>)"

definition domain_set_of :: "bitmap_lib \<Rightarrow> string list \<Rightarrow> domain_set option outcome" where
  "domain_set_of bl domains =
     (let keys = sort (map rev domains)
      in if keys = [] then Done None
         else obind (bfs keys (bfs_fuel keys) 0 (build0 keys)) (\<lambda>b.
           Done (Some (ds_init bl \<lparr>dsLeaves = bLeaves b, dsLabelBitmap = bBitmap b, dsLabels = bLabels b, dsRanks = [], dsSelects = []\<rparr>))))"

definition NewDomainSet :: "bitmap_lib \<Rightarrow> 'a node \<Rightarrow> domain_set option outcome" where
  "NewDomainSet bl t = domain_set_of bl (map fst (Foreach t))"

section \<open>Queries\<close>

definition countZeros :: "bitmap_lib \<Rightarrow> u64 list \<Rightarrow> int list \<Rightarrow> nat \<Rightarrow> nat" where
  "countZeros bl bm ranks i = i - blRank bl bm ranks i"

definition selectIthOne :: "bitmap_lib \<Rightarrow> u64 list \<Rightarrow> int list \<Rightarrow> int list \<Rightarrow> nat \<Rightarrow> nat" where
  "selectIthOne bl bm ranks selects i = blSelect bl bm selects ranks i"

definition label_at :: "domain_set \<Rightarrow> nat \<Rightarrow> nat \<Rightarrow> char outcome" where
  "label_at ss bmIdx nodeId =
     (if nodeId \<le> bmIdx \<and> bmIdx - nodeId < length (dsLabels ss) then Done (dsLabels ss ! (bmIdx - nodeId)) else Panicked)"

definition next_node :: "bitmap_lib \<Rightarrow> domain_set \<Rightarrow> nat \<Rightarrow> nat" where
  "next_node bl ss bmIdx = countZeros bl (dsLabelBitmap ss) (dsRanks ss) (bmIdx + 1)"

definition first_bit :: "bitmap_lib \<Rightarrow> domain_set \<Rightarrow> nat \<Rightarrow> nat" where
  "first_bit bl ss nodeId = selectIthOne bl (dsLabelBitmap ss) (dsRanks ss) (dsSelects ss) (nodeId - 1) + 1"

text \<open>The end of the label of the domain at \<open>j\<close>.\<close>

definition skip_part :: "string \<Rightarrow> nat \<Rightarrow> nat" where
  "skip_part key j = j + length (takeWhile (\<lambda>c. c \<noteq> domainStep) (drop j key))"

text \<open>The loop that looks for a dot from \<open>nextBmIdx\<close> on, which ends with the labels.\<close>

function find_dot :: "domain_set \<Rightarrow> nat \<Rightarrow> nat \<Rightarrow> nat option" where
  "find_dot ss nodeId b =
     (if b < length (dsLabels ss) + nodeId then
        if dsLabels ss ! (b - nodeId) = domainStep then Some b else find_dot ss nodeId (Suc b)
      else None)"
  by pat_completeness auto
termination by (relation "measure (\<lambda>(ss, nodeId, b). length (dsLabels ss) + nodeId - b)") auto

declare find_dot.simps [simp del]

text \<open>
  The loop of \<open>Has\<close> at the byte \<open>i\<close> of the key, at \<open>RESTART\<close> or in a turn of the loop over the bitmap; the
  stack holds pairs of \<open>bmIdx\<close> and \<open>index\<close>.
\<close>

fun has_loop :: "bitmap_lib \<Rightarrow> domain_set \<Rightarrow> string \<Rightarrow> nat \<Rightarrow> nat \<Rightarrow> nat \<Rightarrow> nat \<Rightarrow> (nat \<times> nat) list \<Rightarrow> bool outcome" where
  "has_loop bl ss key 0 i nodeId bmIdx stack = NoFuel"
| "has_loop bl ss key (Suc n) i nodeId bmIdx stack =
     (if i < length key then
        obind (getBit (dsLabelBitmap ss) bmIdx) (\<lambda>one.
        if one then
          (case stack of
             [] \<Rightarrow> Done False
           | (cbm, cidx) # stack' \<Rightarrow>
               let nextNodeId = next_node bl ss cbm;
                   nextBmIdx = first_bit bl ss nextNodeId;
                   j = skip_part key cidx
               in if j = length key then
                    obind (getBit (dsLeaves ss) nextNodeId) (\<lambda>l.
                      if l then Done True else has_loop bl ss key n i nodeId bmIdx stack')
                  else
                    (case find_dot ss nextNodeId nextBmIdx of
                       None \<Rightarrow> Done False
                     | Some b \<Rightarrow> has_loop bl ss key n j nextNodeId b stack'))
        else
          obind (label_at ss bmIdx nodeId) (\<lambda>l.
            if l = CHR ''+'' then Done True
            else if l = CHR ''*'' then has_loop bl ss key n i nodeId (bmIdx + 1) ((bmIdx, i) # stack)
            else if l = key ! i then
              (let nodeId' = next_node bl ss bmIdx
               in has_loop bl ss key n (i + 1) nodeId' (first_bit bl ss nodeId') stack)
            else has_loop bl ss key n i nodeId (bmIdx + 1) stack))
      else getBit (dsLeaves ss) nodeId)"

definition Has :: "bitmap_lib \<Rightarrow> nat \<Rightarrow> domain_set option \<Rightarrow> string \<Rightarrow> bool outcome" where
  "Has bl fuel sso key =
     (case sso of
        None \<Rightarrow> Done False
      | Some ss \<Rightarrow> has_loop bl ss (to_lower (rev key)) fuel 0 0 0 [])"


section \<open>Bitmaps as lists of bits\<close>

definition bit_at :: "u64 list \<Rightarrow> nat \<Rightarrow> bool" where
  "bit_at bm i \<longleftrightarrow> i div 64 < length bm \<and> bit (bm ! (i div 64)) (i mod 64)"

text \<open>What the bitmap library promises: \<open>Rank64\<close> counts the ones before a bit, and \<open>Select32R64\<close> finds the one that has so many before it.\<close>

definition ones :: "u64 list \<Rightarrow> nat \<Rightarrow> nat" where
  "ones bm i = length (filter (bit_at bm) [0..<i])"

definition bitmap_ok :: "bitmap_lib \<Rightarrow> bool" where
  "bitmap_ok bl \<longleftrightarrow> (\<forall>bm i. i < 64 * length bm \<longrightarrow> blRank bl bm (snd (blIndex bl bm)) i = ones bm i) \<and>
     (\<forall>bm i. bit_at bm i \<longrightarrow> blSelect bl bm (fst (blIndex bl bm)) (snd (blIndex bl bm)) (ones bm i) = i)"

lemma and_push_bit_one: "n < 64 \<Longrightarrow> and (w :: u64) (push_bit n 1) \<noteq> 0 \<longleftrightarrow> bit w n"
proof
  assume "n < 64" "and w (push_bit n 1) \<noteq> 0"
  then obtain k where "bit (and w (push_bit n 1)) k" by (metis bit_eqI bit_0_eq bot_apply bot_bool_def)
  then show "bit w n" by (auto simp: bit_simps split: if_splits)
next
  assume "n < 64" "bit w n"
  then have "bit (and w (push_bit n 1)) n" by (simp add: bit_simps)
  then show "and w (push_bit n 1) \<noteq> 0" by auto
qed

lemma getBit_eq: "getBit bm i = (if i div 64 < length bm then Done (bit_at bm i) else Panicked)"
  using and_push_bit_one [of "i mod 64" "bm ! (i div 64)"] unfolding getBit_def bit_at_def by simp

lemma bit_at_length: "bit_at bm i \<Longrightarrow> i < 64 * length bm"
  by (simp add: bit_at_def) (metis div_less_iff_less_mult mult.commute zero_less_numeral)

lemma length_setBit: "length (setBit bm i v) = max (length bm) (Suc (i div 64))"
  by (simp add: setBit_def Let_def)

lemma bit_at_setBit: "bit_at (setBit bm i v) k \<longleftrightarrow> bit_at bm k \<or> (k = i \<and> v)"
proof -
  let ?bm = "bm @ replicate (Suc (i div 64) - length bm) 0"
  have e: "bit_at ?bm k \<longleftrightarrow> bit_at bm k" by (auto simp: bit_at_def nth_append)
  have l: "i div 64 < length ?bm" by simp
  have "bit_at (setBit bm i v) k \<longleftrightarrow> bit_at ?bm k \<or> (k = i \<and> v)"
  proof (cases "k div 64 = i div 64")
    case True
    then have "k = i \<longleftrightarrow> k mod 64 = i mod 64" by (metis div_mult_mod_eq)
    with True l show ?thesis by (auto simp: bit_at_def setBit_def Let_def bit_simps)
  next
    case False
    then have "k \<noteq> i" by auto
    with False show ?thesis by (auto simp: bit_at_def setBit_def Let_def nth_list_update)
  qed
  with e show ?thesis by simp
qed

definition bits_are :: "u64 list \<Rightarrow> bool list \<Rightarrow> bool" where
  "bits_are bm B \<longleftrightarrow> length B \<le> 64 * length bm \<and> (\<forall>i. bit_at bm i \<longleftrightarrow> i < length B \<and> B ! i)"

lemma bits_are_Nil: "bits_are [] []"
  by (simp add: bits_are_def bit_at_def)

lemma bits_are_setBit: "bits_are bm B \<Longrightarrow> bits_are (setBit bm (length B) v) (B @ [v])"
proof -
  assume b: "bits_are bm B"
  have "length B < 64 * Suc (length B div 64)" using dividend_less_times_div [of 64 "length B"] by simp
  also have "\<dots> \<le> 64 * length (setBit bm (length B) v)" unfolding length_setBit by (intro mult_le_mono2 max.cobounded2)
  finally have l: "length (B @ [v]) \<le> 64 * length (setBit bm (length B) v)" by simp
  have "bit_at (setBit bm (length B) v) i \<longleftrightarrow> i < length (B @ [v]) \<and> (B @ [v]) ! i" for i
  proof -
    have "bit_at bm i \<longleftrightarrow> i < length B \<and> B ! i" using b by (simp add: bits_are_def)
    then show ?thesis by (auto simp: bit_at_setBit nth_append less_Suc_eq)
  qed
  with l show ?thesis unfolding bits_are_def by blast
qed

lemma bits_are_getBit: "bits_are bm B \<Longrightarrow> i < length B \<Longrightarrow> getBit bm i = Done (B ! i)"
proof -
  assume b: "bits_are bm B" and i: "i < length B"
  then have "i < length bm * 64" by (simp add: bits_are_def mult.commute)
  then have "i div 64 < length bm" by (rule less_mult_imp_div_less)
  with b i show ?thesis by (simp add: getBit_eq bits_are_def)
qed

definition trues :: "bool list \<Rightarrow> nat" where
  "trues B = length (filter id B)"

lemma trues_simps [simp]: "trues [] = 0" "trues (xs @ ys) = trues xs + trues ys" "trues (replicate n False) = 0" "trues [b] = of_bool b"
  by (auto simp: trues_def)

lemma ones_trues:
  assumes "bits_are bm B" "i \<le> length B"
  shows "ones bm i = trues (take i B)"
  using assms(2)
proof (induction i)
  case (Suc i)
  have "bit_at bm i \<longleftrightarrow> B ! i" using assms(1) Suc.prems by (simp add: bits_are_def)
  with Suc show ?case by (auto simp: ones_def take_Suc_conv_app_nth)
qed (simp add: ones_def)

lemma rank_bits:
  assumes "bitmap_ok bl" "bits_are bm B" "i < length B"
  shows "countZeros bl bm (snd (blIndex bl bm)) i = i - trues (take i B)"
proof -
  have "i < 64 * length bm" using assms(2,3) by (simp add: bits_are_def)
  with assms(1) have "blRank bl bm (snd (blIndex bl bm)) i = ones bm i" by (simp add: bitmap_ok_def)
  with ones_trues [OF assms(2)] assms(3) show ?thesis by (simp add: countZeros_def)
qed

lemma select_bits:
  assumes "bitmap_ok bl" "bits_are bm B" "i < length B" "B ! i" "trues (take i B) = m"
  shows "selectIthOne bl bm (snd (blIndex bl bm)) (fst (blIndex bl bm)) m = i"
proof -
  have "bit_at bm i" using assms(2-4) by (simp add: bits_are_def)
  with assms(1) have "blSelect bl bm (fst (blIndex bl bm)) (snd (blIndex bl bm)) (ones bm i) = i" by (simp add: bitmap_ok_def)
  with ones_trues [OF assms(2)] assms(3,5) show ?thesis by (simp add: selectIthOne_def)
qed


section \<open>The groups of keys\<close>

lemma lex_nth_le:
  fixes xs ys :: string
  assumes "xs \<le> ys" "take n xs = take n ys" "n < length xs" "n < length ys"
  shows "xs ! n \<le> ys ! n"
  using assms
proof (induction n arbitrary: xs ys)
  case 0
  then show ?case by (cases xs; cases ys) (auto simp: Cons_le_Cons)
next
  case (Suc n)
  then show ?case by (cases xs; cases ys) (auto simp: Cons_le_Cons)
qed

lemma lex_prefix_eq:
  fixes xs ys :: string
  assumes "xs \<le> ys" "take n xs = take n ys" "length ys = n" "n \<le> length xs"
  shows "xs = ys"
  using assms
proof (induction n arbitrary: xs ys)
  case 0
  then show ?case by (cases xs) auto
next
  case (Suc n)
  then show ?case by (cases xs; cases ys) (auto simp: Cons_le_Cons)
qed

text \<open>What an element of the queue stands for: the rests of its keys.\<close>

definition rests :: "string list \<Rightarrow> nat \<Rightarrow> nat \<Rightarrow> nat \<Rightarrow> string set" where
  "rests keys s e col = {drop col (keys ! k) | k. s \<le> k \<and> k < e}"

definition S_of :: "string list \<Rightarrow> qElt \<Rightarrow> string set" where
  "S_of keys q = rests keys (q_s q) (q_e q) (q_col q)"

definition range_ok :: "string list \<Rightarrow> nat \<Rightarrow> nat \<Rightarrow> nat \<Rightarrow> bool" where
  "range_ok keys s e col \<longleftrightarrow> e \<le> length keys \<and>
     (\<forall>k. s \<le> k \<longrightarrow> k < e \<longrightarrow> col \<le> length (keys ! k) \<and> take col (keys ! k) = take col (keys ! s))"

definition qok :: "string list \<Rightarrow> qElt \<Rightarrow> bool" where
  "qok keys q \<longleftrightarrow> q_s q < q_e q \<and> range_ok keys (q_s q) (q_e q) (q_col q)"

text \<open>How the loop cuts a range: the labels with the ends of their groups.\<close>

fun segs :: "string list \<Rightarrow> nat \<Rightarrow> nat \<Rightarrow> nat \<Rightarrow> (char \<times> nat) list \<Rightarrow> bool" where
  "segs keys col e j [] \<longleftrightarrow> j = e"
| "segs keys col e j ((c, j') # r) \<longleftrightarrow> j < j' \<and> j' \<le> e \<and> (\<forall>k. j \<le> k \<longrightarrow> k < j' \<longrightarrow> keys ! k ! col = c) \<and>
     (j' < e \<longrightarrow> keys ! j' ! col \<noteq> c) \<and> segs keys col e j' r"

fun seg_elts :: "nat \<Rightarrow> nat \<Rightarrow> (char \<times> nat) list \<Rightarrow> qElt list" where
  "seg_elts col j [] = []"
| "seg_elts col j ((c, j') # r) = \<lparr>q_s = j, q_e = j', q_col = col + 1\<rparr> # seg_elts col j' r"

lemma length_seg_elts [simp]: "length (seg_elts col j r) = length r"
  by (induction r arbitrary: j) auto

text \<open>From \<open>j\<close> on every key has a byte at \<open>col\<close>, and these bytes ascend.\<close>

definition asc_range :: "string list \<Rightarrow> nat \<Rightarrow> nat \<Rightarrow> nat \<Rightarrow> bool" where
  "asc_range keys s e col \<longleftrightarrow> e \<le> length keys \<and> (\<forall>k. s \<le> k \<longrightarrow> k < e \<longrightarrow> col < length (keys ! k)) \<and>
     (\<forall>k l. s \<le> k \<longrightarrow> k \<le> l \<longrightarrow> l < e \<longrightarrow> keys ! k ! col \<le> keys ! l ! col)"

lemma asc_range_mono: "asc_range keys s e col \<Longrightarrow> s \<le> s' \<Longrightarrow> asc_range keys s' e col"
  unfolding asc_range_def by (meson le_trans)

lemma run_end_seg:
  assumes "e \<le> length keys" "\<And>k. j \<le> k \<Longrightarrow> k < e \<Longrightarrow> col < length (keys ! k)" "j \<le> e"
  shows "\<exists>j'. run_end keys e col c j = Done j' \<and> j \<le> j' \<and> j' \<le> e \<and> (\<forall>k. j \<le> k \<longrightarrow> k < j' \<longrightarrow> keys ! k ! col = c) \<and>
    (j' < e \<longrightarrow> keys ! j' ! col \<noteq> c)"
  using assms
proof (induction keys e col c j rule: run_end.induct)
  case (1 keys e col c j)
  show ?case
  proof (cases "j < e")
    case True
    then have k: "key_at keys j col = Done (keys ! j ! col)" using "1.prems" by (simp add: key_at_def)
    show ?thesis
    proof (cases "keys ! j ! col = c")
      case t: True
      obtain j' where j': "run_end keys e col c (Suc j) = Done j'" "Suc j \<le> j'" "j' \<le> e"
          "\<forall>k. Suc j \<le> k \<longrightarrow> k < j' \<longrightarrow> keys ! k ! col = c" "j' < e \<longrightarrow> keys ! j' ! col \<noteq> c"
        using "1.IH" [OF True k t] "1.prems" True by auto
      have "\<forall>k. j \<le> k \<longrightarrow> k < j' \<longrightarrow> keys ! k ! col = c" using j'(4) t by (metis le_eq_less_or_eq Suc_leI)
      with j' True k t show ?thesis by (subst run_end.simps) auto
    next
      case False
      with True k show ?thesis by (subst run_end.simps) auto
    qed
  next
    case False
    with "1.prems" show ?thesis by (subst run_end.simps) auto
  qed
qed

text \<open>The build after a list of groups has been added.\<close>

fun add_segs :: "nat \<Rightarrow> nat \<Rightarrow> (char \<times> nat) list \<Rightarrow> build \<Rightarrow> build" where
  "add_segs col j [] b = b"
| "add_segs col j ((c, j') # r) b = add_segs col j' r (add_label j j' col c b)"

lemma expand_segs:
  assumes "asc_range keys j e col" "j \<le> e"
  shows "\<exists>r. expand keys e col j b = Done (add_segs col j r b) \<and> segs keys col e j r"
  using assms
proof (induction keys e col j b rule: expand.induct)
  case (1 keys e col j b)
  show ?case
  proof (cases "j < e")
    case True
    define c where "c = keys ! j ! col"
    from "1.prems" have a: "e \<le> length keys" "\<And>k. j \<le> k \<Longrightarrow> k < e \<Longrightarrow> col < length (keys ! k)" by (auto simp: asc_range_def)
    then have k: "key_at keys j col = Done c" using True by (simp add: key_at_def c_def)
    obtain j' where j': "run_end keys e col c (Suc j) = Done j'" "Suc j \<le> j'" "j' \<le> e"
        "\<forall>k. Suc j \<le> k \<longrightarrow> k < j' \<longrightarrow> keys ! k ! col = c" "j' < e \<longrightarrow> keys ! j' ! col \<noteq> c"
      using run_end_seg [of e keys "Suc j" col c] a True by auto
    have "asc_range keys j' e col" using asc_range_mono [OF "1.prems"(1)] j'(2) by simp
    from "1.IH" [OF True k j'(1) this j'(3)]
    obtain r where r: "expand keys e col j' (add_label j j' col c b) = Done (add_segs col j' r (add_label j j' col c b))"
        "segs keys col e j' r" by (elim exE conjE)
    have "keys ! k ! col = c" if "j \<le> k" "k < j'" for k using j'(4) that by (cases "k = j") (simp_all add: c_def)
    then have "segs keys col e j ((c, j') # r)" using j' r by simp
    moreover have "expand keys e col j b = Done (add_segs col j ((c, j') # r) b)"
      using True k j' r by (subst expand.simps) simp
    ultimately show ?thesis by blast
  next
    case False
    then have "expand keys e col j b = Done (add_segs col j [] b)" by (subst expand.simps) simp
    moreover have "segs keys col e j []" using False "1.prems"(2) by simp
    ultimately show ?thesis by blast
  qed
qed


lemma rests_step:
  assumes "asc_range keys s e col" "k < e" "s \<le> k"
  shows "drop col (keys ! k) = keys ! k ! col # drop (col + 1) (keys ! k)"
  using assms by (simp add: asc_range_def Cons_nth_drop_Suc)

lemma in_rests: "w \<in> rests keys s e col \<longleftrightarrow> (\<exists>k. s \<le> k \<and> k < e \<and> w = drop col (keys ! k))"
  by (auto simp: rests_def)

lemma in_rests_Cons:
  assumes "asc_range keys s e col"
  shows "c # w \<in> rests keys s e col \<longleftrightarrow> (\<exists>k. s \<le> k \<and> k < e \<and> keys ! k ! col = c \<and> w = drop (col + 1) (keys ! k))"
  using rests_step [OF assms] unfolding in_rests by auto

text \<open>The groups are the parts of the range with one label, the labels ascend.\<close>

lemma segs_labels:
  assumes "segs keys col e j r" "asc_range keys j e col"
  shows "fst ` set r = (\<lambda>k. keys ! k ! col) ` {j..<e} \<and> sorted_wrt (<) (map fst r)"
  using assms
proof (induction keys col e j r rule: segs.induct)
  case (2 keys col e j c j' r)
  from "2.prems" have s: "j < j'" "j' \<le> e" "\<And>k. j \<le> k \<Longrightarrow> k < j' \<Longrightarrow> keys ! k ! col = c"
      "j' < e \<Longrightarrow> keys ! j' ! col \<noteq> c" "segs keys col e j' r" by auto
  have a: "asc_range keys j' e col" using asc_range_mono [OF "2.prems"(2)] s(1) by simp
  note ih = "2.IH" [OF s(5) a]
  have "(\<lambda>k. keys ! k ! col) ` {j..<j'} = {c}" using s(1,3) by (auto simp: image_iff)
  moreover have "{j..<e} = {j..<j'} \<union> {j'..<e}" using s by auto
  ultimately have "fst ` set ((c, j') # r) = (\<lambda>k. keys ! k ! col) ` {j..<e}" using ih by (simp add: image_Un)
  moreover have "c < keys ! k ! col" if "j' \<le> k" "k < e" for k
  proof -
    have le: "keys ! l ! col \<le> keys ! m ! col" if "j \<le> l" "l \<le> m" "m < e" for l m
      using "2.prems"(2) that by (simp add: asc_range_def)
    have "keys ! (j' - 1) ! col = c" using s(1) s(3) [of "j' - 1"] by simp
    moreover have "keys ! (j' - 1) ! col \<le> keys ! j' ! col" using le [of "j' - 1" j'] s that by simp
    moreover have "keys ! j' ! col \<noteq> c" using s(4) that by simp
    moreover have "keys ! j' ! col \<le> keys ! k ! col" using le [of j' k] s that by simp
    ultimately show ?thesis by simp
  qed
  then have "\<forall>d \<in> fst ` set r. c < d" using ih by auto
  ultimately show ?case using ih by auto
qed auto

lemma seg_elt:
  assumes "segs keys col e j r" "asc_range keys j e col" "p < length r"
  shows "\<exists>s' e'. seg_elts col j r ! p = \<lparr>q_s = s', q_e = e', q_col = col + 1\<rparr> \<and> j \<le> s' \<and> s' < e' \<and> e' \<le> e \<and>
    (\<forall>k. j \<le> k \<longrightarrow> k < e \<longrightarrow> (s' \<le> k \<and> k < e') = (keys ! k ! col = fst (r ! p)))"
  using assms
proof (induction keys col e j r arbitrary: p rule: segs.induct)
  case (2 keys col e j c j' r)
  from "2.prems" have s: "j < j'" "j' \<le> e" "\<And>k. j \<le> k \<Longrightarrow> k < j' \<Longrightarrow> keys ! k ! col = c" "segs keys col e j' r" by auto
  have a: "asc_range keys j' e col" using asc_range_mono [OF "2.prems"(2)] s(1) by simp
  have lab: "fst ` set ((c, j') # r) = (\<lambda>k. keys ! k ! col) ` {j..<e}" "sorted_wrt (<) (map fst ((c, j') # r))"
    "fst ` set r = (\<lambda>k. keys ! k ! col) ` {j'..<e}"
    using segs_labels [OF "2.prems"(1,2)] segs_labels [OF s(4) a] by simp_all
  have after: "c < keys ! k ! col" if "j' \<le> k" "k < e" for k
  proof -
    have "keys ! k ! col \<in> fst ` set r" using that lab(3) by auto
    with lab(2) show ?thesis by auto
  qed
  show ?case
  proof (cases p)
    case 0
    have "(j \<le> k \<and> k < j') = (keys ! k ! col = c)" if "j \<le> k" "k < e" for k
      using s(3) [of k] after [of k] that by (cases "k < j'") auto
    with 0 s show ?thesis by simp
  next
    case (Suc p')
    with "2.prems" have p': "p' < length r" by simp
    obtain s' e' where q: "seg_elts col j' r ! p' = \<lparr>q_s = s', q_e = e', q_col = col + 1\<rparr>" "j' \<le> s'" "s' < e'" "e' \<le> e"
        "\<forall>k. j' \<le> k \<longrightarrow> k < e \<longrightarrow> (s' \<le> k \<and> k < e') = (keys ! k ! col = fst (r ! p'))"
      using "2.IH" [OF s(4) a p'] by (elim exE conjE)
    have c: "fst (r ! p') \<noteq> c" using lab(2) p' by auto
    have "(s' \<le> k \<and> k < e') = (keys ! k ! col = fst (r ! p'))" if "j \<le> k" "k < e" for k
    proof (cases "j' \<le> k")
      case True
      with q(5) that show ?thesis by blast
    next
      case False
      with s(3) [of k] that q(2) c show ?thesis by auto
    qed
    with Suc q s show ?thesis by auto
  qed
qed simp


lemma child_rests:
  assumes "segs keys col e j r" "asc_range keys j e col" "p < length r"
  shows "S_of keys (seg_elts col j r ! p) = {w. fst (r ! p) # w \<in> rests keys j e col}"
proof -
  obtain s' e' where q: "seg_elts col j r ! p = \<lparr>q_s = s', q_e = e', q_col = col + 1\<rparr>" "j \<le> s'" "e' \<le> e"
      "\<And>k. j \<le> k \<Longrightarrow> k < e \<Longrightarrow> (s' \<le> k \<and> k < e') = (keys ! k ! col = fst (r ! p))"
    using seg_elt [OF assms] by (elim exE conjE) blast
  have "(s' \<le> k \<and> k < e') \<longleftrightarrow> (j \<le> k \<and> k < e \<and> keys ! k ! col = fst (r ! p))" for k
    using q(2,3) q(4) [of k] by (cases "j \<le> k \<and> k < e") auto
  then have "w \<in> rests keys s' e' (col + 1) \<longleftrightarrow> fst (r ! p) # w \<in> rests keys j e col" for w
    by (subst in_rests_Cons [OF assms(2)], unfold in_rests, intro ex_cong1) (simp only: conj_assoc [symmetric])
  with q(1) show ?thesis by (simp add: S_of_def set_eq_iff)
qed

lemma child_qok:
  assumes "segs keys col e j r" "asc_range keys j e col" "p < length r" "range_ok keys s e col" "s \<le> j"
  shows "qok keys (seg_elts col j r ! p)"
proof -
  obtain s' e' where q: "seg_elts col j r ! p = \<lparr>q_s = s', q_e = e', q_col = col + 1\<rparr>" "j \<le> s'" "s' < e'" "e' \<le> e"
      "\<And>k. j \<le> k \<Longrightarrow> k < e \<Longrightarrow> (s' \<le> k \<and> k < e') = (keys ! k ! col = fst (r ! p))"
    using seg_elt [OF assms(1-3)] by (elim exE conjE) blast
  have sh: "take col (keys ! l) = take col (keys ! s)" if "s \<le> l" "l < e" for l using assms(4) that unfolding range_ok_def by blast
  have ch: "Suc col \<le> length (keys ! k) \<and> take (Suc col) (keys ! k) = take (Suc col) (keys ! s')" if k: "s' \<le> k" "k < e'" for k
  proof -
    have l: "col < length (keys ! k)" "col < length (keys ! s')" using assms(2) q k by (auto simp: asc_range_def)
    have "keys ! k ! col = keys ! s' ! col" using q(5) [of k] q(5) [of s'] q(2-4) k by simp
    moreover have "take col (keys ! k) = take col (keys ! s)" "take col (keys ! s') = take col (keys ! s)"
      using sh [of k] sh [of s'] assms(5) q(2-4) k by simp_all
    ultimately show ?thesis using l by (simp add: take_Suc_conv_app_nth)
  qed
  have "e' \<le> length keys" using q(4) assms(2) unfolding asc_range_def by linarith
  then show ?thesis unfolding q(1) qok_def range_ok_def qElt.select_convs Suc_eq_plus1 [symmetric]
    by (intro conjI allI impI q(3)) (rule ch [THEN conjunct1] ch [THEN conjunct2] | assumption)+
qed

text \<open>An element of the queue before its loop: at most its first key ends there.\<close>

lemma qok_split:
  assumes q: "qok keys q" and srt: "sorted_wrt (<) keys"
    and s1: "s1 = (if q_col q = length (keys ! q_s q) then q_s q + 1 else q_s q)"
  shows "asc_range keys s1 (q_e q) (q_col q)" "s1 \<le> q_e q" "q_s q < length keys"
    and "S_of keys q = (if q_col q = length (keys ! q_s q) then {[]} else {}) \<union> rests keys s1 (q_e q) (q_col q)"
    and "[] \<notin> rests keys s1 (q_e q) (q_col q)"
proof -
  let ?s = "q_s q" and ?e = "q_e q" and ?c = "q_col q"
  have r: "?s < ?e" "?e \<le> length keys" "\<And>k. ?s \<le> k \<Longrightarrow> k < ?e \<Longrightarrow> ?c \<le> length (keys ! k) \<and> take ?c (keys ! k) = take ?c (keys ! ?s)"
    using q unfolding qok_def range_ok_def by blast+
  have lt: "keys ! k < keys ! l" if "k < l" "l < length keys" for k l using srt that by (simp add: sorted_wrt_iff_nth_less)
  have long: "?c < length (keys ! k)" if "s1 \<le> k" "k < ?e" for k
  proof (rule ccontr)
    assume "\<not> ?c < length (keys ! k)"
    moreover have k: "?s \<le> k" using that s1 by (auto split: if_splits)
    ultimately have l: "length (keys ! k) = ?c" using conjunct1 [OF r(3) [OF k that(2)]] by linarith
    show False
    proof (cases "k = ?s")
      case True
      with l s1 that show False by simp
    next
      case False
      with k have "keys ! ?s < keys ! k" using lt that r(2) by simp
      moreover have "keys ! ?s = keys ! k"
      proof (rule lex_prefix_eq)
        show "keys ! ?s \<le> keys ! k" using calculation by simp
        show "take ?c (keys ! ?s) = take ?c (keys ! k)" using r(3) [OF k that(2)] by metis
        show "?c \<le> length (keys ! ?s)" using r(3) [of ?s] r(1) by blast
      qed (rule l)
      ultimately show False by simp
    qed
  qed
  have "keys ! k ! ?c \<le> keys ! l ! ?c" if "s1 \<le> k" "k \<le> l" "l < ?e" for k l
  proof -
    have "?s \<le> k" using that s1 by (auto split: if_splits)
    moreover have "keys ! k \<le> keys ! l" using lt [of k l] that r(2) by (cases "k = l") auto
    moreover have "take ?c (keys ! k) = take ?c (keys ! l)"
      using r(3) [of k] r(3) [of l] calculation(1) that by (metis le_trans le_less_trans)
    ultimately show ?thesis using that long [of k] long [of l] by (intro lex_nth_le) (simp_all only: le_less_trans le_trans)
  qed
  with long r(2) show asc: "asc_range keys s1 ?e ?c" by (simp add: asc_range_def)
  show "s1 \<le> ?e" "?s < length keys" using r s1 by auto
  show "[] \<notin> rests keys s1 ?e ?c"
  proof
    assume "[] \<in> rests keys s1 ?e ?c"
    then obtain k where "s1 \<le> k" "k < ?e" "[] = drop ?c (keys ! k)" by (auto simp: in_rests)
    with long [of k] show False by simp
  qed
  have "w \<in> S_of keys q \<longleftrightarrow> w = drop ?c (keys ! ?s) \<or> w \<in> rests keys (Suc ?s) ?e ?c" for w
    unfolding S_of_def in_rests using r(1) by (metis Suc_leD Suc_leI le_eq_less_or_eq)
  then show "S_of keys q = (if ?c = length (keys ! ?s) then {[]} else {}) \<union> rests keys s1 ?e ?c"
    using s1 by (auto simp: S_of_def)
qed

lemma add_segs_eq:
  "add_segs col j r b = b\<lparr>bQueue := bQueue b @ seg_elts col j r, bLabels := bLabels b @ map fst r,
     bBitmap := bBitmap (add_segs col j r b), b_lIdx := b_lIdx b + length r\<rparr>"
proof (induction col j r b rule: add_segs.induct)
  case (2 col j c j' r b)
  show ?case unfolding add_segs.simps by (subst "2.IH") (simp add: add_label_def)
qed simp

lemma add_segs_bits:
  "bits_are (bBitmap b) B \<Longrightarrow> b_lIdx b = length B \<Longrightarrow>
   bits_are (bBitmap (add_segs col j r b)) (B @ replicate (length r) False)"
proof (induction col j r b arbitrary: B rule: add_segs.induct)
  case (2 col j c j' r b)
  have "bits_are (bBitmap (add_segs col j' r (add_label j j' col c b))) ((B @ [False]) @ replicate (length r) False)"
    by (rule "2.IH") (use "2.prems" bits_are_setBit [of "bBitmap b" B False] in \<open>simp_all add: add_label_def\<close>)
  then show ?case by (simp add: replicate_append_same flip: replicate_Suc)
qed simp


section \<open>The set after the loop\<close>

text \<open>For every node in the order of the queue: whether it is a leaf, and its labels. From it come the number of the first child of a node,
  and the bitmap of the labels.\<close>

type_synonym shape = "(bool \<times> string) list"

definition kid :: "shape \<Rightarrow> nat \<Rightarrow> nat" where
  "kid T n = Suc (length (concat (map snd (take n T))))"

definition shape_bits :: "shape \<Rightarrow> bool list" where
  "shape_bits T = concat (map (\<lambda>t. replicate (length (snd t)) False @ [True]) T)"

definition node_ok :: "string list \<Rightarrow> qElt list \<Rightarrow> shape \<Rightarrow> nat \<Rightarrow> bool" where
  "node_ok keys Q T n \<longleftrightarrow>
     fst (T ! n) = ([] \<in> S_of keys (Q ! n)) \<and> sorted_wrt (<) (snd (T ! n)) \<and>
     set (snd (T ! n)) = {c. \<exists>w. c # w \<in> S_of keys (Q ! n)} \<and> n < kid T n \<and>
     (\<forall>k < length (snd (T ! n)). kid T n + k < length Q \<and>
        S_of keys (Q ! (kid T n + k)) = {w. snd (T ! n) ! k # w \<in> S_of keys (Q ! n)})"

definition build_inv :: "string list \<Rightarrow> nat \<Rightarrow> shape \<Rightarrow> build \<Rightarrow> bool" where
  "build_inv keys i T b \<longleftrightarrow>
     length T = i \<and> i \<le> length (bQueue b) \<and> list_all (qok keys) (bQueue b) \<and>
     length (bQueue b) = Suc (length (bLabels b)) \<and> bLabels b = concat (map snd T) \<and>
     bits_are (bBitmap b) (shape_bits T) \<and> b_lIdx b = length (shape_bits T) \<and>
     (\<forall>n. bit_at (bLeaves b) n \<longleftrightarrow> n < i \<and> fst (T ! n)) \<and> (\<forall>n < i. node_ok keys (bQueue b) T n)"

lemma kid_append: "n \<le> length T \<Longrightarrow> kid (T @ T') n = kid T n"
  by (simp add: kid_def)

lemma node_ok_extend:
  assumes "node_ok keys Q T n" "n < length T" "n < length Q"
  shows "node_ok keys (Q @ Q') (T @ T') n"
  using assms by (auto simp: node_ok_def kid_append nth_append trans_less_add1)

lemma rests_labels: "asc_range keys j e col \<Longrightarrow> (\<lambda>k. keys ! k ! col) ` {j..<e} = {c. \<exists>w. c # w \<in> rests keys j e col}"
  using in_rests_Cons [of keys j e col] by (auto simp: image_iff)

lemma visit_inv:
  assumes inv: "build_inv keys i T b" and i: "i < length (bQueue b)" and srt: "sorted_wrt (<) keys"
  shows "\<exists>t b' r s1. visit keys i b = Done b' \<and> build_inv keys (i + 1) (T @ [t]) b' \<and>
    bQueue b' = bQueue b @ seg_elts (q_col (bQueue b ! i)) s1 r \<and>
    segs keys (q_col (bQueue b ! i)) (q_e (bQueue b ! i)) s1 r \<and> asc_range keys s1 (q_e (bQueue b ! i)) (q_col (bQueue b ! i)) \<and>
    q_s (bQueue b ! i) \<le> s1"
proof -
  let ?q = "bQueue b ! i"
  define leaf where "leaf = (q_col ?q = length (keys ! q_s ?q))"
  define s1 where "s1 = (if leaf then q_s ?q + 1 else q_s ?q)"
  define b1 where "b1 = (if leaf then b\<lparr>bLeaves := setBit (bLeaves b) i True\<rparr> else b)"
  have q: "qok keys ?q" using inv i by (simp add: build_inv_def list_all_length)
  note sp = qok_split [OF q srt, of s1, folded leaf_def, OF s1_def]
  obtain r where r: "expand keys (q_e ?q) (q_col ?q) s1 b1 = Done (add_segs (q_col ?q) s1 r b1)" "segs keys (q_col ?q) (q_e ?q) s1 r"
    using expand_segs [OF sp(1,2), of b1] by (elim exE conjE)
  define b2 where "b2 = add_segs (q_col ?q) s1 r b1"
  define b3 where "b3 = b2\<lparr>bBitmap := setBit (bBitmap b2) (b_lIdx b2) True, b_lIdx := b_lIdx b2 + 1\<rparr>"
  let ?t = "(leaf, map fst r)"
  let ?T = "T @ [?t]"
  let ?S = "S_of keys ?q"
  have v: "visit keys i b = Done b3"
    using sp(3) r(1) by (simp add: visit_def Let_def leaf_def [symmetric] s1_def [symmetric] b1_def [symmetric] b2_def b3_def)
  have lT: "length T = i" "i \<le> length (bQueue b)" using inv unfolding build_inv_def by blast+
  have b2: "bQueue b2 = bQueue b @ seg_elts (q_col ?q) s1 r" "bLabels b2 = bLabels b @ map fst r" "b_lIdx b2 = b_lIdx b + length r"
    "bLeaves b2 = bLeaves b1"
    unfolding b2_def by (subst add_segs_eq, simp add: b1_def)+
  have Q3: "bQueue b3 = bQueue b @ seg_elts (q_col ?q) s1 r" "bLabels b3 = bLabels b @ map fst r" "bLeaves b3 = bLeaves b1"
    using b2 by (simp_all add: b3_def)
  have kidi: "kid ?T i = length (bQueue b)" using inv by (simp add: build_inv_def kid_def)
  have lab: "set (map fst r) = {c. \<exists>w. c # w \<in> rests keys s1 (q_e ?q) (q_col ?q)}" "sorted_wrt (<) (map fst r)"
    using segs_labels [OF r(2) sp(1)] rests_labels [OF sp(1)] by simp_all
  have consS: "c # w \<in> ?S \<longleftrightarrow> c # w \<in> rests keys s1 (q_e ?q) (q_col ?q)" for c w using sp(4) by auto
  have leafS: "leaf \<longleftrightarrow> [] \<in> ?S" using sp(4,5) by (auto simp: leaf_def)
  have newnode: "node_ok keys (bQueue b3) ?T i"
    unfolding node_ok_def kidi
  proof (intro conjI allI impI)
    show "i < length (bQueue b)" by (rule i)
    fix k assume k: "k < length (snd (?T ! i))"
    then have k': "k < length r" using lT by (simp add: nth_append)
    then show "length (bQueue b) + k < length (bQueue b3)" using Q3 by simp
    show "S_of keys (bQueue b3 ! (length (bQueue b) + k)) = {w. snd (?T ! i) ! k # w \<in> S_of keys (bQueue b3 ! i)}"
      using child_rests [OF r(2) sp(1) k'] Q3 lT i k' consS by (simp add: nth_append)
  qed (use lab leafS consS lT Q3 i in \<open>simp_all add: nth_append\<close>)
  have "list_all (qok keys) (seg_elts (q_col ?q) s1 r)"
    using child_qok [OF r(2) sp(1) _ _ , of _ "q_s ?q"] q by (auto simp: list_all_length qok_def s1_def)
  then have qs: "list_all (qok keys) (bQueue b3)" using inv Q3 by (simp add: build_inv_def)
  have bits: "bits_are (bBitmap b3) (shape_bits ?T)"
  proof -
    have "bits_are (bBitmap b1) (shape_bits T)" "b_lIdx b1 = length (shape_bits T)" using inv by (simp_all add: build_inv_def b1_def)
    from add_segs_bits [OF this, of "q_col ?q" s1 r] have "bits_are (bBitmap b2) (shape_bits T @ replicate (length r) False)"
      by (simp add: b2_def)
    from bits_are_setBit [OF this, of True] show ?thesis
      using b2(3) inv by (simp add: b3_def shape_bits_def build_inv_def)
  qed
  have leaves: "bit_at (bLeaves b3) n \<longleftrightarrow> n < i + 1 \<and> fst (?T ! n)" for n
  proof -
    have "bit_at (bLeaves b) n \<longleftrightarrow> n < i \<and> fst (T ! n)" using inv by (simp add: build_inv_def)
    then show ?thesis using lT by (auto simp: Q3 b1_def bit_at_setBit nth_append less_Suc_eq)
  qed
  have nodes: "node_ok keys (bQueue b3) ?T n" if "n < i + 1" for n
  proof (cases "n = i")
    case False
    with that inv have "node_ok keys (bQueue b) T n" "n < length T" "n < length (bQueue b)" by (auto simp: build_inv_def)
    then show ?thesis unfolding Q3(1) by (rule node_ok_extend)
  qed (use newnode in simp)
  have "build_inv keys (i + 1) ?T b3"
    unfolding build_inv_def using lT i qs bits leaves nodes inv b2 Q3
    by (simp add: build_inv_def b3_def shape_bits_def)
  moreover have "q_s ?q \<le> s1" by (simp add: s1_def)
  ultimately show ?thesis using v Q3(1) r(2) sp(1) by blast
qed


text \<open>The fuel: every node takes one, and the bytes below it are shared by its children.\<close>

definition left_bytes :: "string list \<Rightarrow> nat \<Rightarrow> nat \<Rightarrow> nat \<Rightarrow> nat" where
  "left_bytes keys s e col = (\<Sum>k = s..<e. length (keys ! k) - col)"

definition weight :: "string list \<Rightarrow> qElt \<Rightarrow> nat" where
  "weight keys q = Suc (left_bytes keys (q_s q) (q_e q) (q_col q))"

lemma left_bytes_split: "s \<le> m \<Longrightarrow> m \<le> e \<Longrightarrow> left_bytes keys s e col = left_bytes keys s m col + left_bytes keys m e col"
  by (simp add: left_bytes_def sum.atLeastLessThan_concat)

lemma weight_segs:
  assumes "segs keys col e j r" "asc_range keys j e col"
  shows "sum_list (map (weight keys) (seg_elts col j r)) \<le> left_bytes keys j e col"
  using assms
proof (induction keys col e j r rule: segs.induct)
  case (2 keys col e j c j' r)
  from "2.prems" have s: "j < j'" "j' \<le> e" "segs keys col e j' r" by auto
  have a: "asc_range keys j' e col" using asc_range_mono [OF "2.prems"(2)] s(1) by simp
  have l: "col < length (keys ! k)" if "j \<le> k" "k < j'" for k using "2.prems"(2) s(2) that by (auto simp: asc_range_def)
  have "left_bytes keys j j' (col + 1) \<le> (\<Sum>k = Suc j..<j'. length (keys ! k) - col) + (length (keys ! j) - Suc col)"
    unfolding left_bytes_def using s(1) by (subst sum.atLeast_Suc_lessThan) (auto intro!: sum_mono diff_le_mono2)
  also have "\<dots> < left_bytes keys j j' col"
    unfolding left_bytes_def using s(1) l [of j] by (subst (2) sum.atLeast_Suc_lessThan) auto
  finally have "weight keys \<lparr>q_s = j, q_e = j', q_col = col + 1\<rparr> \<le> left_bytes keys j j' col" by (simp add: weight_def)
  with "2.IH" [OF s(3) a] left_bytes_split [of j j' e keys col] s show ?case by simp
qed simp

lemma bfs_inv:
  assumes "build_inv keys i T b" "sorted_wrt (<) keys" "sum_list (map (weight keys) (drop i (bQueue b))) \<le> n"
  shows "\<exists>T' b'. bfs keys n i b = Done b' \<and> build_inv keys (length (bQueue b')) T' b' \<and> bQueue b' \<noteq> [] \<and>
    (bQueue b \<noteq> [] \<longrightarrow> bQueue b' ! 0 = bQueue b ! 0)"
  using assms
proof (induction n arbitrary: i T b)
  case 0
  have ne: "bQueue b \<noteq> []" using "0.prems"(1) by (auto simp: build_inv_def)
  have "\<not> i < length (bQueue b)"
  proof
    assume "i < length (bQueue b)"
    then have "drop i (bQueue b) = bQueue b ! i # drop (Suc i) (bQueue b)" by (rule Cons_nth_drop_Suc [symmetric])
    with "0.prems"(3) show False by (simp add: weight_def)
  qed
  moreover have "i = length (bQueue b)" using calculation "0.prems"(1) by (simp add: build_inv_def)
  ultimately show ?case using "0.prems"(1) ne by auto
next
  case (Suc n)
  have ne: "bQueue b \<noteq> []" using Suc.prems(1) by (auto simp: build_inv_def)
  show ?case
  proof (cases "i < length (bQueue b)")
    case True
    let ?q = "bQueue b ! i"
    obtain t b' r s1 where v: "visit keys i b = Done b'" "build_inv keys (i + 1) (T @ [t]) b'"
        "bQueue b' = bQueue b @ seg_elts (q_col ?q) s1 r" "segs keys (q_col ?q) (q_e ?q) s1 r"
        "asc_range keys s1 (q_e ?q) (q_col ?q)" "q_s ?q \<le> s1"
      using visit_inv [OF Suc.prems(1) True Suc.prems(2)] by (elim exE conjE)
    have d: "drop i (bQueue b) = ?q # drop (Suc i) (bQueue b)" using True by (rule Cons_nth_drop_Suc [symmetric])
    have lb: "left_bytes keys s1 (q_e ?q) (q_col ?q) \<le> left_bytes keys (q_s ?q) (q_e ?q) (q_col ?q)"
      unfolding left_bytes_def using v(6) by (intro sum_mono2) auto
    have "sum_list (map (weight keys) (drop (i + 1) (bQueue b'))) \<le> n"
      using Suc.prems(3) weight_segs [OF v(4,5)] lb True unfolding v(3) d by (simp add: weight_def [of keys ?q])
    from Suc.IH [OF v(2) Suc.prems(2) this] obtain T' b2 where
      "bfs keys n (i + 1) b' = Done b2" "build_inv keys (length (bQueue b2)) T' b2" "bQueue b2 \<noteq> []"
      "bQueue b' \<noteq> [] \<longrightarrow> bQueue b2 ! 0 = bQueue b' ! 0" by (elim exE conjE)
    with True v(1,3) ne show ?thesis by (auto simp: nth_append)
  next
    case False
    then have "i = length (bQueue b)" using Suc.prems(1) by (simp add: build_inv_def)
    with False Suc.prems(1) ne show ?thesis by auto
  qed
qed

lemma bfs_build0:
  assumes "sorted_wrt (<) keys" "keys \<noteq> []"
  shows "\<exists>T b. bfs keys (bfs_fuel keys) 0 (build0 keys) = Done b \<and> build_inv keys (length (bQueue b)) T b \<and>
    bQueue b \<noteq> [] \<and> S_of keys (bQueue b ! 0) = set keys"
proof -
  have inv: "build_inv keys 0 [] (build0 keys)"
    using assms(2) by (simp add: build_inv_def build0_def qok_def range_ok_def bits_are_Nil shape_bits_def bit_at_def)
  have "left_bytes keys 0 (length keys) 0 = sum_list (map length keys)"
    by (simp add: left_bytes_def sum_list_sum_nth)
  then have "sum_list (map (weight keys) (drop 0 (bQueue (build0 keys)))) \<le> bfs_fuel keys"
    by (simp add: build0_def weight_def bfs_fuel_def)
  from bfs_inv [OF inv assms(1) this] obtain T b where
    b: "bfs keys (bfs_fuel keys) 0 (build0 keys) = Done b" "build_inv keys (length (bQueue b)) T b" "bQueue b \<noteq> []"
      "bQueue (build0 keys) \<noteq> [] \<longrightarrow> bQueue b ! 0 = bQueue (build0 keys) ! 0"
    by (elim exE conjE)
  then have "bQueue b ! 0 = \<lparr>q_s = 0, q_e = length keys, q_col = 0\<rparr>" by (simp add: build0_def)
  then have "S_of keys (bQueue b ! 0) = set keys" by (auto simp: S_of_def rests_def in_set_conv_nth)
  with b show ?thesis by blast
qed


section \<open>What \<open>Has\<close> answers\<close>

text \<open>Walking the bytes of the key through the set of keys: a label \<open>+\<close> takes any rest that is not empty.\<close>

fun accepts :: "string set \<Rightarrow> string \<Rightarrow> bool" where
  "accepts S [] \<longleftrightarrow> [] \<in> S"
| "accepts S (c # u) \<longleftrightarrow> (\<exists>v. CHR ''+'' # v \<in> S) \<or> accepts {w. c # w \<in> S} u"

lemma accepts_empty [simp]: "accepts {} u \<longleftrightarrow> False"
  by (induction u) auto

lemma accepts_iff: "accepts S w \<longleftrightarrow> w \<in> S \<or> (\<exists>p u v. w = p @ u \<and> u \<noteq> [] \<and> p @ CHR ''+'' # v \<in> S)"
proof (induction S w rule: accepts.induct)
  case (2 S c u)
  show ?case
  proof
    assume "accepts S (c # u)"
    then consider v where "CHR ''+'' # v \<in> S" | "c # u \<in> S" | p x v where "u = p @ x" "x \<noteq> []" "c # p @ CHR ''+'' # v \<in> S"
      using "2.IH" by auto
    then show "c # u \<in> S \<or> (\<exists>p x v. c # u = p @ x \<and> x \<noteq> [] \<and> p @ CHR ''+'' # v \<in> S)"
    proof cases
      case 1
      then show ?thesis by (intro disjI2 exI [of _ "[]"] exI [of _ "c # u"] exI [of _ v]) simp
    next
      case (3 p x v)
      then show ?thesis by (intro disjI2 exI [of _ "c # p"] exI [of _ x] exI [of _ v]) simp
    qed simp
  next
    assume "c # u \<in> S \<or> (\<exists>p x v. c # u = p @ x \<and> x \<noteq> [] \<and> p @ CHR ''+'' # v \<in> S)"
    then consider "c # u \<in> S" | p x v where "c # u = p @ x" "x \<noteq> []" "p @ CHR ''+'' # v \<in> S" by blast
    then show "accepts S (c # u)"
    proof cases
      case (2 p x v)
      then show ?thesis using "2.IH" by (cases p) auto
    qed (use "2.IH" in simp)
  qed
qed simp

definition first_at :: "shape \<Rightarrow> nat \<Rightarrow> nat" where
  "first_at T n = length (shape_bits (take n T))"

lemma first_at_kid: "n \<le> length T \<Longrightarrow> first_at T n + 1 = n + kid T n"
proof (induction n)
  case (Suc n)
  then show ?case by (simp add: first_at_def kid_def shape_bits_def take_Suc_conv_app_nth)
qed (simp add: first_at_def kid_def shape_bits_def)

lemma trues_first_at: "n \<le> length T \<Longrightarrow> trues (shape_bits (take n T)) = n"
proof (induction n)
  case (Suc n)
  then show ?case by (simp add: shape_bits_def take_Suc_conv_app_nth)
qed (simp add: shape_bits_def)

lemma shape_bits_split:
  "n < length T \<Longrightarrow> shape_bits T = shape_bits (take n T) @ replicate (length (snd (T ! n))) False @ True # shape_bits (drop (Suc n) T)"
  by (subst id_take_nth_drop [of n T]) (simp_all add: shape_bits_def)

lemma shape_bits_at:
  assumes "n < length T" "k \<le> length (snd (T ! n))"
  shows "first_at T n + k < length (shape_bits T)"
    and "shape_bits T ! (first_at T n + k) = (k = length (snd (T ! n)))"
    and "trues (take (first_at T n + k) (shape_bits T)) = n"
proof -
  note s = shape_bits_split [OF assms(1)]
  show "first_at T n + k < length (shape_bits T)" unfolding s first_at_def using assms(2) by simp
  show "shape_bits T ! (first_at T n + k) = (k = length (snd (T ! n)))"
    unfolding s first_at_def using assms(2) by (auto simp: nth_append nth_Cons')
  show "trues (take (first_at T n + k) (shape_bits T)) = n"
    unfolding s first_at_def using assms trues_first_at [of n T] by simp
qed


definition louds :: "bitmap_lib \<Rightarrow> string list \<Rightarrow> qElt list \<Rightarrow> shape \<Rightarrow> domain_set \<Rightarrow> bool" where
  "louds bl keys Q T ss \<longleftrightarrow> length T = length Q \<and> (\<forall>n < length Q. node_ok keys Q T n) \<and>
     bits_are (dsLabelBitmap ss) (shape_bits T) \<and> dsLabels ss = concat (map snd T) \<and>
     (dsSelects ss, dsRanks ss) = blIndex bl (dsLabelBitmap ss) \<and>
     (\<forall>n < length Q. getBit (dsLeaves ss) n = Done (fst (T ! n)))"

lemma labels_at:
  assumes "n < length T" "k < length (snd (T ! n))"
  shows "kid T n - 1 + k < length (concat (map snd T))" "concat (map snd T) ! (kid T n - 1 + k) = snd (T ! n) ! k"
proof -
  have s: "concat (map snd T) = concat (map snd (take n T)) @ snd (T ! n) @ concat (map snd (drop (Suc n) T))"
    using assms(1) by (subst id_take_nth_drop [of n T]) simp_all
  show "kid T n - 1 + k < length (concat (map snd T))" unfolding s kid_def using assms by simp
  show "concat (map snd T) ! (kid T n - 1 + k) = snd (T ! n) ! k" unfolding s kid_def using assms by (simp add: nth_append)
qed

lemma louds_steps:
  assumes l: "louds bl keys Q T ss" and ok: "bitmap_ok bl" and n: "n < length Q" and k: "k \<le> length (snd (T ! n))"
  shows "getBit (dsLabelBitmap ss) (first_at T n + k) = Done (k = length (snd (T ! n)))"
    and "k < length (snd (T ! n)) \<Longrightarrow> label_at ss (first_at T n + k) n = Done (snd (T ! n) ! k)"
    and "k < length (snd (T ! n)) \<Longrightarrow> next_node bl ss (first_at T n + k) = kid T n + k"
    and "k < length (snd (T ! n)) \<Longrightarrow> first_bit bl ss (kid T n + k) = first_at T (kid T n + k)"
proof -
  have n': "n < length T" using l n unfolding louds_def by simp
  have b: "bits_are (dsLabelBitmap ss) (shape_bits T)" using l by (simp add: louds_def)
  have ix: "dsSelects ss = fst (blIndex bl (dsLabelBitmap ss))" "dsRanks ss = snd (blIndex bl (dsLabelBitmap ss))"
    using l unfolding louds_def by (metis fst_conv, metis snd_conv)
  note at = shape_bits_at [OF n' k]
  have fk: "first_at T n + 1 = n + kid T n" using first_at_kid n' by simp
  show "getBit (dsLabelBitmap ss) (first_at T n + k) = Done (k = length (snd (T ! n)))"
    using bits_are_getBit [OF b at(1)] at(2) by simp
  assume k': "k < length (snd (T ! n))"
  have pos: "first_at T n + k - n = kid T n - 1 + k" "n \<le> first_at T n + k" using fk by (simp_all add: kid_def)
  show "label_at ss (first_at T n + k) n = Done (snd (T ! n) ! k)"
    using labels_at [OF n' k'] pos l by (simp add: label_at_def louds_def)
  have "Suc k \<le> length (snd (T ! n))" using k' by simp
  from shape_bits_at [OF n' this] have "trues (take (first_at T n + k + 1) (shape_bits T)) = n"
      "first_at T n + k + 1 < length (shape_bits T)" by simp_all
  with rank_bits [OF ok b] show "next_node bl ss (first_at T n + k) = kid T n + k"
    using fk by (simp add: next_node_def ix)
  have c: "kid T n + k < length Q" using l n k' by (simp add: louds_def node_ok_def)
  define m where "m = kid T n + k - 1"
  have m: "kid T n + k = Suc m" "m < length T" using c l by (simp_all add: m_def kid_def louds_def)
  have "shape_bits T ! (first_at T m + length (snd (T ! m)))" "first_at T m + length (snd (T ! m)) < length (shape_bits T)"
      "trues (take (first_at T m + length (snd (T ! m))) (shape_bits T)) = m"
    using shape_bits_at [OF m(2) order_refl] by simp_all
  from select_bits [OF ok b this(2,1,3)] have "first_bit bl ss (Suc m) = first_at T m + length (snd (T ! m)) + 1"
    by (simp add: first_bit_def ix)
  also have "\<dots> = first_at T (Suc m)" using m(2) by (simp add: first_at_def shape_bits_def take_Suc_conv_app_nth)
  finally show "first_bit bl ss (kid T n + k) = first_at T (kid T n + k)" by (simp add: m)
qed

lemma louds_child:
  assumes "louds bl keys Q T ss" "n < length Q" "k < length (snd (T ! n))"
  shows "kid T n + k < length Q" "S_of keys (Q ! (kid T n + k)) = {w. snd (T ! n) ! k # w \<in> S_of keys (Q ! n)}"
    and "first_at T n + k < first_at T (kid T n + k)"
proof -
  have nk: "node_ok keys Q T n" "length T = length Q" using assms by (simp_all add: louds_def)
  with assms(3) show c: "kid T n + k < length Q" "S_of keys (Q ! (kid T n + k)) = {w. snd (T ! n) ! k # w \<in> S_of keys (Q ! n)}"
    by (simp_all add: node_ok_def)
  have "take (kid T n + k) T = take (Suc n) T @ take (kid T n + k - Suc n) (drop (Suc n) T)"
    using nk(1) by (simp add: node_ok_def flip: take_add)
  then have "first_at T (Suc n) \<le> first_at T (kid T n + k)" by (simp add: first_at_def shape_bits_def)
  moreover have "first_at T (Suc n) = first_at T n + length (snd (T ! n)) + 1"
    using assms(2) nk(2) by (simp add: first_at_def shape_bits_def take_Suc_conv_app_nth)
  ultimately show "first_at T n + k < first_at T (kid T n + k)" using assms(3) by simp
qed

text \<open>A scan of the labels of a node from the \<open>k\<close>th on, without \<open>*\<close>.\<close>

lemma has_loop_ok:
  assumes l: "louds bl keys Q T ss" and ok: "bitmap_ok bl"
    and key: "list_all (\<lambda>c. CHR ''+'' \<le> c) key"
    and S: "\<And>n w. n < length Q \<Longrightarrow> w \<in> S_of keys (Q ! n) \<Longrightarrow> CHR ''*'' \<notin> set w"
  shows "n < length Q \<Longrightarrow> k \<le> length (snd (T ! n)) \<Longrightarrow> i \<le> length key \<Longrightarrow>
     length (shape_bits T) < first_at T n + k + fuel \<Longrightarrow>
     has_loop bl ss key fuel i n (first_at T n + k) [] =
       Done (if i < length key then
               CHR ''+'' \<in> set (drop k (snd (T ! n))) \<or>
               (key ! i \<in> set (drop k (snd (T ! n))) \<and> accepts {w. key ! i # w \<in> S_of keys (Q ! n)} (drop (i + 1) key))
             else [] \<in> S_of keys (Q ! n))"
proof (induction fuel arbitrary: i n k)
  case 0
  have "length T = length Q" using l by (simp add: louds_def)
  with "0.prems" shape_bits_at(1) [of n T k] show ?case by simp
next
  case (Suc fuel)
  let ?cs = "snd (T ! n)" and ?S = "S_of keys (Q ! n)"
  have nk: "node_ok keys Q T n" using l Suc.prems(1) by (simp add: louds_def)
  note st = louds_steps [OF l ok Suc.prems(1,2)]
  show ?case
  proof (cases "i < length key")
    case False
    with l Suc.prems(1) nk show ?thesis by (simp add: louds_def node_ok_def)
  next
    case i: True
    show ?thesis
    proof (cases "k < length ?cs")
      case False
      with i st(1) Suc.prems(2) show ?thesis by simp
    next
      case True
      define c where "c = ?cs ! k"
      have d: "drop k ?cs = c # drop (Suc k) ?cs" using True by (simp add: c_def Cons_nth_drop_Suc)
      have "c \<in> set ?cs" using True by (simp add: c_def)
      then obtain w where w: "c # w \<in> ?S" using nk by (auto simp: node_ok_def)
      with S [OF Suc.prems(1) w] have nstar: "c \<noteq> CHR ''*''" by auto
      have asc: "c < x" if "x \<in> set (drop (Suc k) ?cs)" for x
      proof -
        have "sorted_wrt (<) (drop k ?cs)" using nk by (simp add: node_ok_def sorted_wrt_drop)
        with that show ?thesis unfolding d by simp
      qed
      have unf: "has_loop bl ss key (Suc fuel) i n (first_at T n + k) [] =
          (if c = CHR ''+'' then Done True
           else if c = key ! i then has_loop bl ss key fuel (i + 1) (kid T n + k) (first_at T (kid T n + k)) []
           else has_loop bl ss key fuel i n (first_at T n + Suc k) [])"
        using i True st nstar by (simp add: c_def Let_def)
      consider "c = CHR ''+''" | "c \<noteq> CHR ''+''" "c = key ! i" | "c \<noteq> CHR ''+''" "c \<noteq> key ! i" by blast
      then show ?thesis
      proof cases
        case 1
        with i d show ?thesis unfolding unf by simp
      next
        case 2
        note ch = louds_child [OF l Suc.prems(1) True]
        have plus: "CHR ''+'' \<le> key ! i" using key i by (simp add: list_all_length)
        have noplus: "CHR ''+'' \<notin> set (drop (Suc k) ?cs)" using asc [of "CHR ''+''"] 2 plus by auto
        let ?S' = "{w. c # w \<in> ?S}"
        have "has_loop bl ss key fuel (i + 1) (kid T n + k) (first_at T (kid T n + k) + 0) [] =
            Done (accepts ?S' (drop (i + 1) key))"
        proof (subst Suc.IH [OF ch(1)])
          have nk': "node_ok keys Q T (kid T n + k)" using l ch(1) by (simp add: louds_def)
          have lab: "x \<in> set (snd (T ! (kid T n + k))) \<longleftrightarrow> (\<exists>w. c # x # w \<in> ?S)" for x
            using nk' ch(2) by (auto simp: node_ok_def c_def)
          have emp: "\<not> (\<exists>w. c # x # w \<in> ?S) \<Longrightarrow> {w. c # x # w \<in> ?S} = {}" for x by simp
          show "Done (if i + 1 < length key then
               CHR ''+'' \<in> set (drop 0 (snd (T ! (kid T n + k)))) \<or>
               (key ! (i + 1) \<in> set (drop 0 (snd (T ! (kid T n + k)))) \<and>
                accepts {w. key ! (i + 1) # w \<in> S_of keys (Q ! (kid T n + k))} (drop (i + 1 + 1) key))
             else [] \<in> S_of keys (Q ! (kid T n + k))) = Done (accepts ?S' (drop (i + 1) key))"
          proof (cases "i + 1 < length key")
            case True
            then have "drop (i + 1) key = key ! (i + 1) # drop (i + 1 + 1) key" by (simp add: Cons_nth_drop_Suc)
            then show ?thesis using True lab emp [of "key ! (i + 1)"] ch(2) by (auto simp: c_def)
          qed (use ch(2) i in \<open>simp add: c_def\<close>)
        qed (use Suc.prems(4) ch(3) i in simp_all)
        with 2 i d noplus show ?thesis unfolding unf by simp
      next
        case 3
        then show ?thesis unfolding unf using Suc.IH [of n "Suc k" i] Suc.prems True i d by simp
      qed
    qed
  qed
qed


lemma leaves_ok:
  assumes inv: "build_inv keys (length Q) T b" and Q: "Q = bQueue b" "Q \<noteq> []" and n: "n < length Q"
  shows "getBit (bLeaves b) n = Done (fst (T ! n))"
proof -
  let ?l = "length Q - 1"
  have bt: "bit_at (bLeaves b) m \<longleftrightarrow> m < length Q \<and> fst (T ! m)" for m using inv unfolding build_inv_def by blast
  have l: "?l < length Q" using Q(2) by simp
  have nk: "node_ok keys Q T ?l" using inv l Q(1) unfolding build_inv_def by blast
  have "snd (T ! ?l) = []"
  proof (rule ccontr)
    assume "snd (T ! ?l) \<noteq> []"
    then have "kid T ?l + 0 < length Q" using nk by (auto simp: node_ok_def)
    moreover have "?l < kid T ?l" using nk by (simp add: node_ok_def)
    ultimately show False by simp
  qed
  moreover have "S_of keys (Q ! ?l) \<noteq> {}"
  proof -
    have "qok keys (Q ! ?l)" using inv l Q(1) by (simp add: build_inv_def list_all_length)
    then show ?thesis by (auto simp: qok_def S_of_def rests_def)
  qed
  ultimately have "[] \<in> S_of keys (Q ! ?l)" using nk by (auto simp: node_ok_def) (metis neq_Nil_conv)
  then have "bit_at (bLeaves b) ?l" using nk l bt by (simp add: node_ok_def)
  then have "?l div 64 < length (bLeaves b)" by (simp add: bit_at_def)
  moreover have "n div 64 \<le> ?l div 64" using n by (intro div_le_mono) simp
  ultimately show ?thesis using bt n by (simp add: getBit_eq)
qed

text \<open>The set of any distinct domains without \<open>*\<close>: what it accepts, with the fuel that is enough.\<close>

lemma domain_set_of_accepts:
  assumes "bitmap_ok bl" "distinct ds" "ds \<noteq> []" "list_all (\<lambda>d. CHR ''*'' \<notin> set d) ds"
  shows "\<exists>ss. domain_set_of bl ds = Done (Some ss) \<and>
    (\<forall>key fuel. list_all (\<lambda>c. CHR ''+'' \<le> c) (to_lower (rev key)) \<longrightarrow> 64 * length (dsLabelBitmap ss) < fuel \<longrightarrow>
       Has bl fuel (Some ss) key = Done (accepts (rev ` set ds) (to_lower (rev key))))"
proof -
  let ?keys = "sort (map rev ds)"
  have srt: "sorted_wrt (<) ?keys" using assms(2) by (simp add: strict_sorted_iff distinct_map)
  have ne: "?keys \<noteq> []" using assms(3) by (metis length_0_conv length_map length_sort)
  obtain T b where b: "bfs ?keys (bfs_fuel ?keys) 0 (build0 ?keys) = Done b" "build_inv ?keys (length (bQueue b)) T b"
      "bQueue b \<noteq> []" "S_of ?keys (bQueue b ! 0) = set ?keys"
    using bfs_build0 [OF srt ne] by (elim exE conjE)
  let ?Q = "bQueue b"
  define ss where "ss = ds_init bl \<lparr>dsLeaves = bLeaves b, dsLabelBitmap = bBitmap b, dsLabels = bLabels b, dsRanks = [], dsSelects = []\<rparr>"
  have d: "domain_set_of bl ds = Done (Some ss)" using ne b(1) by (simp add: domain_set_of_def Let_def ss_def)
  have lT: "length T = length ?Q" "\<forall>n < length ?Q. node_ok ?keys ?Q T n" "bits_are (bBitmap b) (shape_bits T)"
      "bLabels b = concat (map snd T)" using b(2) unfolding build_inv_def by blast+
  have ssb: "dsLabelBitmap ss = bBitmap b" "dsLabels ss = bLabels b" "dsLeaves ss = bLeaves b"
      "(dsSelects ss, dsRanks ss) = blIndex bl (bBitmap b)"
    by (simp_all add: ss_def ds_init_def case_prod_beta)
  have l: "louds bl ?keys ?Q T ss"
    unfolding louds_def ssb using lT leaves_ok [OF b(2) refl b(3)] by blast
  have S: "CHR ''*'' \<notin> set w" if "n < length ?Q" "w \<in> S_of ?keys (?Q ! n)" for n w
  proof -
    have "qok ?keys (?Q ! n)" using b(2) that(1) by (simp add: build_inv_def list_all_length)
    then have e: "q_e (?Q ! n) \<le> length ?keys" unfolding qok_def range_ok_def by blast
    from that(2) obtain k where "k < q_e (?Q ! n)" "w = drop (q_col (?Q ! n)) (?keys ! k)"
      unfolding S_of_def rests_def by blast
    with e obtain x where "x \<in> set ?keys" "set w \<subseteq> set x" by (metis nth_mem set_drop_subset less_le_trans)
    with assms(4) show ?thesis by (auto simp: list_all_iff)
  qed
  have "Has bl fuel (Some ss) key = Done (accepts (rev ` set ds) (to_lower (rev key)))"
    if k: "list_all (\<lambda>c. CHR ''+'' \<le> c) (to_lower (rev key))" and f: "64 * length (dsLabelBitmap ss) < fuel" for key fuel
  proof -
    let ?k = "to_lower (rev key)"
    have "length (shape_bits T) < first_at T 0 + 0 + fuel" using f lT(3) by (simp add: bits_are_def ssb)
    from has_loop_ok [where k = 0, OF l assms(1) k S _ le0 le0 this] b(3)
    have r: "has_loop bl ss ?k fuel 0 0 (first_at T 0 + 0) [] =
        Done (if 0 < length ?k then CHR ''+'' \<in> set (drop 0 (snd (T ! 0))) \<or>
             (?k ! 0 \<in> set (drop 0 (snd (T ! 0))) \<and> accepts {w. ?k ! 0 # w \<in> S_of ?keys (?Q ! 0)} (drop (0 + 1) ?k))
           else [] \<in> S_of ?keys (?Q ! 0))" by simp
    have lab: "x \<in> set (snd (T ! 0)) \<longleftrightarrow> (\<exists>w. x # w \<in> S_of ?keys (?Q ! 0))" for x
      using lT(2) b(3) by (simp add: node_ok_def)
    have "(if 0 < length ?k then CHR ''+'' \<in> set (drop 0 (snd (T ! 0))) \<or>
             (?k ! 0 \<in> set (drop 0 (snd (T ! 0))) \<and> accepts {w. ?k ! 0 # w \<in> S_of ?keys (?Q ! 0)} (drop (0 + 1) ?k))
           else [] \<in> S_of ?keys (?Q ! 0)) = accepts (S_of ?keys (?Q ! 0)) ?k"
    proof (cases ?k)
      case (Cons c u)
      have "\<not> (\<exists>w. c # w \<in> S_of ?keys (?Q ! 0)) \<Longrightarrow> {w. c # w \<in> S_of ?keys (?Q ! 0)} = {}" by simp
      then show ?thesis using lab unfolding Cons by auto
    qed (simp add: to_lower_def)
    with r show ?thesis by (simp add: Has_def b(4) first_at_def shape_bits_def)
  qed
  with d show ?thesis by blast
qed


section \<open>The set of a trie\<close>

subsection \<open>\<open>Foreach\<close> lists every path once\<close>

function node_paths :: "'a node \<Rightarrow> string list list" where
  "node_paths n =
     concat (map (\<lambda>(k, c). (case ndata c of None \<Rightarrow> [] | Some x \<Rightarrow> [[k]]) @ map ((#) k) (node_paths c)) (getChildren n))"
  by pat_completeness auto
termination by (relation "measure size") (auto simp: size_getChildren)

declare node_paths.simps [simp del]

lemma map_concat_cong: "(\<And>p. p \<in> set xs \<Longrightarrow> map h (f p) = map g (f' p)) \<Longrightarrow> map h (concat (map f xs)) = map g (concat (map f' xs))"
  by (induction xs) auto

lemma mset_concat_cong:
  "(\<And>p. p \<in> set xs \<Longrightarrow> mset (map h (f p)) = mset (map g (f' p))) \<Longrightarrow>
   mset (map h (concat (map f xs))) = mset (map g (concat (map f' xs)))"
  by (induction xs) auto

lemma recursion_paths:
  "items \<noteq> [] \<Longrightarrow> map fst (recursion items n) = map (\<lambda>q. show_path (rev items @ q)) (node_paths n)"
proof (induction items n rule: recursion.induct)
  case (1 items n)
  show ?case
    unfolding recursion.simps [of items n] node_paths.simps [of n]
  proof (rule map_concat_cong, clarify)
    fix k c assume kc: "(k, c) \<in> set (getChildren n)"
    have ih: "map fst (recursion (k # items) c) = map (\<lambda>q. show_path (rev (k # items) @ q)) (node_paths c)"
      using "1.IH" [OF kc refl refl refl refl] by simp
    have sp: "show_path (rev items @ [k]) = (let dn = joinDomain (k # items)
        in if dn \<noteq> [] \<and> hd dn = domainStep then complexWildcard @ dn else dn)"
      using "1.prems" by (simp add: show_path_def)
    show "map fst (let newItems = k # items; domain = joinDomain newItems;
            domain' = if domain \<noteq> [] \<and> hd domain = domainStep then complexWildcard @ domain else domain
        in (case ndata c of None \<Rightarrow> [] | Some x \<Rightarrow> [(domain', x)]) @ recursion newItems c) =
      map (\<lambda>q. show_path (rev items @ q)) ((case ndata c of None \<Rightarrow> [] | Some x \<Rightarrow> [[k]]) @ map ((#) k) (node_paths c))"
      using ih sp by (cases "ndata c") (simp_all add: Let_def o_def)
  qed
qed

lemma Foreach_paths: "mset (map fst (Foreach n)) = mset (map show_path (node_paths n))"
proof -
  have sp: "show_path [k] = joinDomain [k]" for k by (simp add: show_path_def)
  have e: "mset (map fst (recursion [k] c @ (case ndata c of None \<Rightarrow> [] | Some x \<Rightarrow> [(joinDomain [k], x)]))) =
      mset (map show_path ((case ndata c of None \<Rightarrow> [] | Some x \<Rightarrow> [[k]]) @ map ((#) k) (node_paths c)))" for k c
    using recursion_paths [of "[k]" c] sp by (cases "ndata c") (simp_all add: o_def)
  have "mset (map fst (concat (map (\<lambda>(k, c). recursion [k] c @ (case ndata c of None \<Rightarrow> [] | Some x \<Rightarrow> [(joinDomain [k], x)])) cs))) =
      mset (map show_path (concat (map (\<lambda>(k, c). (case ndata c of None \<Rightarrow> [] | Some x \<Rightarrow> [[k]]) @ map ((#) k) (node_paths c)) cs)))" for cs
    by (rule mset_concat_cong) (use e in \<open>simp only: case_prod_beta\<close>)
  then show ?thesis unfolding Foreach_def node_paths.simps [of n] .
qed

lemma distinct_node_paths: "node_wf n \<Longrightarrow> distinct (node_paths n)"
proof (induction n rule: node_paths.induct)
  case (1 n)
  have dk: "distinct (map fst (getChildren n))"
    using "1.prems" by (cases n rule: getChildren.cases) auto
  let ?f = "\<lambda>(k, c). (case ndata c of None \<Rightarrow> [] | Some x \<Rightarrow> [[k]]) @ map ((#) k) (node_paths c)"
  have nn: "[] \<notin> set (node_paths m)" for m :: "'a node"
    by (subst node_paths.simps) (auto split: option.splits)
  have d: "distinct (?f (k, c))" if kc: "(k, c) \<in> set (getChildren n)" for k c
  proof -
    have "node_wf c" using kc "1.prems" children_iff node_wf_getChild by metis
    then have "distinct (node_paths c)" using "1.IH" [OF kc refl] by simp
    then show ?thesis using nn [of c] by (auto simp: distinct_map split: option.splits)
  qed
  have h: "q \<noteq> [] \<and> hd q = k" if "q \<in> set (?f (k, c))" for q k c using that by (auto split: option.splits)
  have "distinct (concat (map ?f cs))" if "distinct (map fst cs)" "set cs \<subseteq> set (getChildren n)" for cs
    using that
  proof (induction cs)
    case (Cons p cs)
    obtain k c where p: "p = (k, c)" by force
    have "set (?f (k, c)) \<inter> set (concat (map ?f cs)) = {}"
    proof (rule ccontr)
      assume "set (?f (k, c)) \<inter> set (concat (map ?f cs)) \<noteq> {}"
      then obtain q where q: "q \<in> set (?f (k, c))" "q \<in> set (concat (map ?f cs))" by blast
      from q(2) obtain k' c' where "(k', c') \<in> set cs" "q \<in> set (?f (k', c'))" unfolding set_concat_alist by blast
      note q(1) this
      with h [of q k c] h [of q k' c'] have "k' = k" by simp
      with Cons.prems(1) p \<open>(k', c') \<in> set cs\<close> show False by force
    qed
    moreover have "distinct (concat (map ?f cs))" using Cons by simp
    moreover have "distinct (?f (k, c))" using d Cons.prems(2) p by simp
    ultimately show ?case unfolding p list.map concat.simps distinct_append by blast
  qed simp
  from this [OF dk subset_refl] show ?case unfolding node_paths.simps [of n] .
qed

lemma set_node_paths:
  assumes "node_wf n"
  shows "q \<in> set (node_paths n) \<longleftrightarrow> q \<noteq> [] \<and> look n q \<noteq> None"
  using assms
proof (induction n arbitrary: q rule: node_paths.induct)
  case (1 n)
  have wf: "node_wf c" if "(k, c) \<in> set (getChildren n)" for k c using that "1.prems" children_iff node_wf_getChild by metis
  show ?case
  proof (cases q)
    case Nil
    then show ?thesis by (subst node_paths.simps) (auto split: option.splits)
  next
    case (Cons k qs)
    have "q \<in> set (node_paths n) \<longleftrightarrow> (\<exists>c. (k, c) \<in> set (getChildren n) \<and> (qs = [] \<and> ndata c \<noteq> None \<or> qs \<in> set (node_paths c)))"
    proof -
      have m: "y \<in> set (case ndata c of None \<Rightarrow> [] | Some x \<Rightarrow> [[k']]) \<longleftrightarrow> y = [k'] \<and> ndata c \<noteq> None" for y k' and c :: "'a node"
        by (cases "ndata c") auto
      show ?thesis
        unfolding Cons node_paths.simps [of n] set_concat_alist case_prod_conv set_append Un_iff set_map image_iff m by auto
    qed
    also have "\<dots> \<longleftrightarrow> (\<exists>c. (k, c) \<in> set (getChildren n) \<and> look c qs \<noteq> None)"
      using "1.IH" wf by (metis (no_types, lifting) look.simps(1))
    also have "\<dots> \<longleftrightarrow> look n q \<noteq> None"
      unfolding children_iff [OF "1.prems"] Cons by (auto split: option.splits)
    finally show ?thesis using Cons by simp
  qed
qed


subsection \<open>Plain patterns\<close>

text \<open>A domain, or one behind a leading dot or \<open>+\<close>: no other wildcard.\<close>

definition plain_pattern :: "string \<Rightarrow> bool" where
  "plain_pattern d \<longleftrightarrow> CHR ''*'' \<notin> set d \<and> CHR ''+'' \<notin> set (if has_prefix d ''+.'' then drop 2 d else d)"

definition path_ok :: "string list \<Rightarrow> bool" where
  "path_ok q \<longleftrightarrow> q \<noteq> [] \<and> q \<noteq> [''''] \<and> '''' \<notin> set (butlast q) \<and>
     (\<forall>p \<in> set q. CHR ''.'' \<notin> set p \<and> CHR ''*'' \<notin> set p \<and> CHR ''+'' \<notin> set p)"

lemma in_lower_plain: "x \<in> {CHR ''*'', CHR ''+'', CHR ''.''} \<Longrightarrow> x \<in> set (to_lower s) \<longleftrightarrow> x \<in> set s"
  by (rule in_to_lower_iff) (auto simp: less_eq_char_def)

lemma path_ok_rev:
  assumes "ws \<noteq> []" "ws \<noteq> ['''']" "'''' \<notin> set (tl ws)"
    and "\<And>w. w \<in> set ws \<Longrightarrow> CHR ''.'' \<notin> set w \<and> CHR ''*'' \<notin> set w \<and> CHR ''+'' \<notin> set w"
  shows "path_ok (rev ws)"
proof -
  have "butlast (rev ws) = rev (tl ws)" by (cases ws) auto
  with assms show ?thesis by (auto simp: path_ok_def)
qed

lemma plain_paths:
  assumes d: "plain_pattern d" and q: "q \<in> set (pattern_paths d)"
  shows "path_ok q"
proof -
  obtain parts where v: "ValidAndSplitDomain d = Some parts"
    using q by (cases "ValidAndSplitDomain d") (auto simp: pattern_paths_def)
  note lab = ValidAndSplit_labels [OF v]
  have parts: "parts = split_on (CHR ''.'') (to_lower d)" "parts \<noteq> ['''']"
    using v by (auto simp: ValidAndSplitDomain_def Let_def domainStep_def split: if_splits)
  have dot: "CHR ''.'' \<notin> set w" if "w \<in> set parts" for w using split_on_no_sep that parts(1) by blast
  show ?thesis
  proof (cases "hd parts = ''+''")
    case True
    with parts lab(1) have "to_lower d = join_with (CHR ''.'') (''+'' # tl parts)" by (metis join_split list.collapse)
    then have low: "to_lower d = (if tl parts = [] then ''+'' else ''+.'' @ join_with (CHR ''.'') (tl parts))" by (simp add: join_with_Cons)
    have d0: "d \<noteq> []" using True parts(1) by (auto simp: to_lower_def)
    have h: "hd d = CHR ''+''"
    proof -
      have "ascii_lower (hd d) = CHR ''+''" using low d0 by (cases d) (auto simp: to_lower_def split: if_splits)
      then show ?thesis by (rule ascii_lower_eq [rotated]) (simp add: less_eq_char_def)
    qed
    have pre: "has_prefix d ''+.''"
    proof (rule ccontr)
      assume "\<not> has_prefix d ''+.''"
      then have "CHR ''+'' \<notin> set d" using d by (simp add: plain_pattern_def)
      with h d0 show False by (metis hd_in_set)
    qed
    then obtain x where x: "d = ''+.'' @ x" by (auto simp: has_prefix_iff prefix_def)
    with d have nx: "CHR ''*'' \<notin> set x" "CHR ''+'' \<notin> set x" using pre by (simp_all add: plain_pattern_def)
    have "to_lower d = ''+.'' @ to_lower x" using x by (simp add: to_lower_def ascii_lower_def less_eq_char_def)
    then have ps: "parts = ''+'' # split_on (CHR ''.'') (to_lower x)" using parts(1) by simp
    have ws: "CHR ''.'' \<notin> set w \<and> CHR ''*'' \<notin> set w \<and> CHR ''+'' \<notin> set w" if "w \<in> set (tl parts)" for w
    proof -
      have "set w \<subseteq> set (to_lower x)" using that ps set_split_on by simp
      moreover have "w \<in> set parts" using that ps by simp
      ultimately show ?thesis using nx in_lower_plain dot by blast
    qed
    have tn: "tl parts \<noteq> []" "tl parts \<noteq> ['''']" using ps lab(2) by auto
    have "'''' \<notin> set (tl (tl parts))" using lab(2) by (metis list.set_sel(2) tl_Nil)
    with ws tn have "path_ok (rev (tl parts))" by (intro path_ok_rev) auto
    moreover have "path_ok (rev ('''' # tl parts))" using ws tn lab(2) by (intro path_ok_rev) auto
    moreover have "q = rev ('''' # tl parts) \<or> q = rev (tl parts)"
      using q v True by (auto simp: pattern_paths_def complexWildcard_def dotWildcard_def)
    ultimately show ?thesis by blast
  next
    case False
    have "CHR ''+'' \<notin> set d"
    proof (cases "has_prefix d ''+.''")
      case True
      then obtain x where x: "d = ''+.'' @ x" by (auto simp: has_prefix_iff prefix_def)
      then have "to_lower d = ''+.'' @ to_lower x" by (simp add: to_lower_def ascii_lower_def less_eq_char_def)
      with parts(1) False show ?thesis by simp
    qed (use d in \<open>simp add: plain_pattern_def\<close>)
    moreover have "CHR ''*'' \<notin> set d" using d by (simp add: plain_pattern_def)
    ultimately have ws: "CHR ''.'' \<notin> set w \<and> CHR ''*'' \<notin> set w \<and> CHR ''+'' \<notin> set w" if "w \<in> set parts" for w
      using that parts(1) set_split_on [of w "CHR ''.''" "to_lower d"] in_lower_plain dot by blast
    have "q = rev parts" using q v False by (auto simp: pattern_paths_def complexWildcard_def)
    with ws parts(2) lab show ?thesis by (auto intro!: path_ok_rev)
  qed
qed

lemma show_path_ok:
  assumes "path_ok q"
  shows "show_path q = (if last q = '''' then ''+.'' @ join_with (CHR ''.'') (rev (butlast q)) else join_with (CHR ''.'') (rev q))"
proof -
  obtain r l where q: "q = r @ [l]" using assms by (cases q rule: rev_cases) (auto simp: path_ok_def)
  have j: "join_with (CHR ''.'') (l # rev r) = (if r = [] then l else l @ CHR ''.'' # join_with (CHR ''.'') (rev r))"
    by (simp add: join_with_Cons)
  show ?thesis
  proof (cases "l = ''''")
    case True
    with assms q have "r \<noteq> []" by (auto simp: path_ok_def)
    with True show ?thesis by (simp add: show_path_def q joinDomain_def domainStep_def complexWildcard_def join_with_Cons Let_def)
  next
    case False
    have "CHR ''.'' \<notin> set l" using assms q by (simp add: path_ok_def)
    then have "hd l \<noteq> CHR ''.''" using False hd_in_set by metis
    with False show ?thesis by (simp add: show_path_def q joinDomain_def domainStep_def j Let_def)
  qed
qed

lemma split_show_path:
  assumes "path_ok q"
  shows "split_on (CHR ''.'') (show_path q) = (if last q = '''' then ''+'' # rev (butlast q) else rev q)"
proof -
  have nd: "CHR ''.'' \<notin> set w" if "w \<in> set q" for w using assms that by (auto simp: path_ok_def)
  show ?thesis
  proof (cases "last q = ''''")
    case True
    then have "butlast q \<noteq> []" using assms by (cases q rule: rev_cases) (auto simp: path_ok_def)
    then have "split_on (CHR ''.'') (join_with (CHR ''.'') (rev (butlast q))) = rev (butlast q)"
      using nd in_set_butlastD by (intro split_join) fastforce+
    with True show ?thesis by (simp add: show_path_ok [OF assms])
  next
    case False
    have "split_on (CHR ''.'') (join_with (CHR ''.'') (rev q)) = rev q"
      using nd assms by (intro split_join) (auto simp: path_ok_def)
    with False show ?thesis by (simp add: show_path_ok [OF assms])
  qed
qed

lemma show_path_inj: "path_ok q \<Longrightarrow> path_ok q' \<Longrightarrow> show_path q = show_path q' \<Longrightarrow> q = q'"
proof -
  assume q: "path_ok q" "path_ok q'" "show_path q = show_path q'"
  have np: "''+'' \<notin> set p" if "path_ok p" for p using that by (auto simp: path_ok_def)
  have ne: "p \<noteq> []" if "path_ok p" for p using that by (simp add: path_ok_def)
  have e: "(if last q = '''' then ''+'' # rev (butlast q) else rev q) = (if last q' = '''' then ''+'' # rev (butlast q') else rev q')"
    using split_show_path [OF q(1)] split_show_path [OF q(2)] q(3) by simp
  have m: "''+'' \<in> set (if last p = '''' then ''+'' # rev (butlast p) else rev p) \<longleftrightarrow> last p = ''''" if "path_ok p" for p
    using np [OF that] by auto
  from e m [OF q(1)] m [OF q(2)] have "(last q = '''') = (last q' = '''')" by simp
  with e ne [OF q(1)] ne [OF q(2)] show ?thesis by (metis append_butlast_last_id list.inject rev_is_rev_conv)
qed


subsection \<open>\<open>Has\<close> and \<open>Search\<close>\<close>

lemma Search_stored:
  assumes "ValidAndSplitDomain d = Some ps" "hd ps \<noteq> ''''"
  shows "Search (insert_all ds newNode) d \<noteq> None \<longleftrightarrow> (\<exists>q. last_insert ds q \<noteq> None \<and> path_matches q (rev ps))"
  using assms unfolding Search_data_iff
  by (auto simp: Search_candidates first_some_None_iff look_insert_all candidates_iff [symmetric] split: option.splits)

lemma path_ok_matches:
  assumes q: "path_ok q" and p: "'''' \<notin> set ps"
  shows "path_matches q (rev ps) \<longleftrightarrow> q = rev ps \<or> (last q = '''' \<and> (\<exists>pre. pre \<noteq> [] \<and> ps = pre @ rev (butlast q)))"
proof -
  have lo: "list_all2 label_ok r s \<longleftrightarrow> r = s" if "set r \<subseteq> set q" for r s
    using that
  proof (induction r arbitrary: s)
    case (Cons a r)
    have "a \<noteq> ''*''" using Cons.prems q by (auto simp: path_ok_def)
    with Cons show ?case by (cases s) (auto simp: label_ok_def wildcard_def)
  qed auto
  have "path_matches q (rev ps) \<longleftrightarrow> list_all2 label_ok q (rev ps) \<or>
      (q \<noteq> [] \<and> last q = dotWildcard \<and> (\<exists>suf pre. rev ps = suf @ pre \<and> pre \<noteq> [] \<and> list_all2 label_ok (butlast q) suf))"
    using q p by (intro path_matches_iff) (auto simp: path_ok_def dotWildcard_def)
  also have "\<dots> \<longleftrightarrow> q = rev ps \<or> (last q = '''' \<and> (\<exists>pre. pre \<noteq> [] \<and> rev ps = butlast q @ pre))"
  proof -
    have "set (butlast q) \<subseteq> set q" by (auto dest: in_set_butlastD)
    from lo [OF this] lo [OF subset_refl] q show ?thesis by (auto simp: path_ok_def dotWildcard_def)
  qed
  also have "(\<exists>pre. pre \<noteq> [] \<and> rev ps = butlast q @ pre) \<longleftrightarrow> (\<exists>pre. pre \<noteq> [] \<and> ps = pre @ rev (butlast q))"
  proof
    assume "\<exists>pre. pre \<noteq> [] \<and> rev ps = butlast q @ pre"
    then obtain pre where "pre \<noteq> []" "ps = rev pre @ rev (butlast q)" by (metis rev_append rev_rev_ident)
    then show "\<exists>pre. pre \<noteq> [] \<and> ps = pre @ rev (butlast q)" by (metis rev_is_Nil_conv)
  next
    assume "\<exists>pre. pre \<noteq> [] \<and> ps = pre @ rev (butlast q)"
    then obtain pre where "pre \<noteq> []" "ps = pre @ rev (butlast q)" by blast
    then have "rev pre \<noteq> [] \<and> rev ps = butlast q @ rev pre" by simp
    then show "\<exists>pre. pre \<noteq> [] \<and> rev ps = butlast q @ pre" by blast
  qed
  finally show ?thesis .
qed

lemma not_in_join: "list_all (\<lambda>w. x \<notin> set w) ws \<Longrightarrow> x \<noteq> c \<Longrightarrow> x \<notin> set (join_with c ws)"
  by (induction c ws rule: join_with.induct) auto

text \<open>What the printed paths accept is what the paths match.\<close>

lemma accepts_paths:
  assumes Q: "\<And>q. q \<in> Q \<Longrightarrow> path_ok q" and k: "k = join_with (CHR ''.'') ps" "ps = split_on (CHR ''.'') k" "'''' \<notin> set ps"
    and plus: "CHR ''+'' \<notin> set k"
  shows "accepts (rev ` show_path ` Q) (rev k) \<longleftrightarrow> (\<exists>q \<in> Q. path_matches q (rev ps))"
proof
  assume "accepts (rev ` show_path ` Q) (rev k)"
  then consider q where "q \<in> Q" "rev k = rev (show_path q)"
    | p u v q where "q \<in> Q" "rev k = p @ u" "u \<noteq> []" "p @ CHR ''+'' # v = rev (show_path q)"
    unfolding accepts_iff by auto
  then show "\<exists>q \<in> Q. path_matches q (rev ps)"
  proof cases
    case (1 q)
    then have "last q \<noteq> ''''" using plus show_path_ok [OF Q [OF 1(1)]] by auto
    then have "rev q = ps" using split_show_path [OF Q [OF 1(1)]] k(2) 1(2) by simp
    then have "q = rev ps" by auto
    then show ?thesis using 1 path_ok_matches [OF Q k(3)] by blast
  next
    case (2 p u v q)
    note qo = Q [OF 2(1)]
    let ?b = "join_with (CHR ''.'') (rev (butlast q))"
    have ps': "CHR ''+'' \<notin> set (join_with (CHR ''.'') (rev r))" if "set r \<subseteq> set q" for r
    proof -
      have "list_all (\<lambda>w. CHR ''+'' \<notin> set w) (rev r)" using that qo by (auto simp: path_ok_def list_all_iff)
      then show ?thesis by (rule not_in_join) simp
    qed
    have sq: "show_path q = rev v @ CHR ''+'' # rev p" using 2(4) by (metis rev.simps(2) rev_append rev_rev_ident append.assoc append_Cons append_Nil)
    have l: "last q = ''''"
    proof (rule ccontr)
      assume "last q \<noteq> ''''"
      then have "show_path q = join_with (CHR ''.'') (rev q)" using show_path_ok [OF qo] by simp
      with ps' [OF subset_refl] sq show False by simp
    qed
    then have "CHR ''+'' # CHR ''.'' # ?b = rev v @ CHR ''+'' # rev p" using show_path_ok [OF qo] sq by simp
    moreover have "CHR ''+'' \<notin> set (CHR ''.'' # ?b)" using ps' [of "butlast q"] in_set_butlastD by fastforce
    ultimately have "rev p = CHR ''.'' # ?b" by (cases "rev v") auto
    with 2(2) have "k = rev u @ CHR ''.'' # ?b" by (metis rev_append rev_rev_ident)
    then have "ps = split_on (CHR ''.'') (rev u) @ split_on (CHR ''.'') ?b" using k(2) by (simp add: split_on_append_any)
    moreover have "split_on (CHR ''.'') ?b = rev (butlast q)" using split_show_path [OF qo] show_path_ok [OF qo] l by simp
    ultimately show ?thesis using 2(1) l path_ok_matches [OF qo k(3)] by (metis split_on_not_Nil)
  qed
next
  assume "\<exists>q \<in> Q. path_matches q (rev ps)"
  then obtain q where q: "q \<in> Q" "path_matches q (rev ps)" by blast
  note qo = Q [OF q(1)]
  from q(2) consider "q = rev ps" | pre where "last q = ''''" "pre \<noteq> []" "ps = pre @ rev (butlast q)"
    unfolding path_ok_matches [OF qo k(3)] by blast
  then show "accepts (rev ` show_path ` Q) (rev k)"
  proof cases
    case 1
    have "ps \<noteq> []" using k(2) by simp
    then have "last q \<noteq> ''''" using 1 k(3) by (metis hd_in_set last_rev)
    then have "show_path q = k" using show_path_ok [OF qo] k(1) 1 by simp
    then show ?thesis using q(1) unfolding accepts_iff by auto
  next
    case (2 pre)
    let ?b = "join_with (CHR ''.'') (rev (butlast q))"
    have bn: "rev (butlast q) \<noteq> []" using qo 2(1) by (cases q rule: rev_cases) (auto simp: path_ok_def)
    have jj: "join_with (CHR ''.'') (xs @ ys) = join_with (CHR ''.'') xs @ CHR ''.'' # join_with (CHR ''.'') ys" if "xs \<noteq> []" "ys \<noteq> []" for xs ys
      using that by (induction "CHR ''.''" xs rule: join_with.induct) (auto simp: join_with_Cons)
    have "k = join_with (CHR ''.'') pre @ CHR ''.'' # ?b" using k(1) jj 2 bn by simp
    moreover have "join_with (CHR ''.'') pre \<noteq> []" using 2 k(3) by (cases pre; cases "tl pre") (auto simp: join_with_Cons)
    moreover have "show_path q = ''+.'' @ ?b" using show_path_ok [OF qo] 2(1) by simp
    ultimately have "rev k = (rev ?b @ ''.'') @ rev (join_with (CHR ''.'') pre)" "rev (join_with (CHR ''.'') pre) \<noteq> []"
      "(rev ?b @ ''.'') @ ''+'' = rev (show_path q)" by simp_all
    then show ?thesis using q(1) unfolding accepts_iff by (metis (no_types, lifting) imageI)
  qed
qed


text \<open>The paths of a trie of plain patterns, and their domains as \<open>Foreach\<close> prints them.\<close>

lemma show_path_no_star: "path_ok q \<Longrightarrow> CHR ''*'' \<notin> set (show_path q)"
proof -
  assume q: "path_ok q"
  then have "list_all (\<lambda>w. CHR ''*'' \<notin> set w) (rev q)" "list_all (\<lambda>w. CHR ''*'' \<notin> set w) (rev (butlast q))"
    by (auto simp: path_ok_def list_all_iff dest: in_set_butlastD)
  then show ?thesis using not_in_join [of "CHR ''*''"] by (simp add: show_path_ok [OF q])
qed

lemma built_plain_paths:
  assumes "list_all (\<lambda>p. plain_pattern (fst p)) ds"
  shows "q \<in> set (node_paths (insert_all ds newNode)) \<longleftrightarrow> last_insert ds q \<noteq> None"
    and "q \<in> set (node_paths (insert_all ds newNode)) \<Longrightarrow> path_ok q"
    and "distinct (map fst (Foreach (insert_all ds newNode)))"
    and "set (map fst (Foreach (insert_all ds newNode))) = show_path ` set (node_paths (insert_all ds newNode))"
    and "list_all (\<lambda>s. CHR ''*'' \<notin> set s) (map fst (Foreach (insert_all ds newNode)))"
proof -
  let ?t = "insert_all ds newNode"
  have wf: "node_wf ?t" by (rule node_wf_insert_all) simp
  have stored: "\<exists>p \<in> set ds. q \<in> set (pattern_paths (fst p))" if "last_insert ds q \<noteq> None" for q
    using that unfolding last_insert_Some by (auto simp: case_prod_beta)
  have ok: "path_ok q" if "last_insert ds q \<noteq> None" for q
    using stored [OF that] plain_paths assms by (auto simp: list_all_iff)
  have Q: "q \<in> set (node_paths ?t) \<longleftrightarrow> last_insert ds q \<noteq> None" for q
    using set_node_paths [OF wf, of q] ok [of q] by (auto simp: look_built path_ok_def)
  have Qok: "path_ok q" if "q \<in> set (node_paths ?t)" for q using that Q ok by blast
  have "distinct (map show_path (node_paths ?t))"
    using distinct_node_paths [OF wf] show_path_inj Qok by (auto simp: distinct_map inj_on_def)
  then show "distinct (map fst (Foreach ?t))" using mset_eq_imp_distinct_iff [OF Foreach_paths [of ?t]] by simp
  show sets: "set (map fst (Foreach ?t)) = show_path ` set (node_paths ?t)" using mset_eq_setD [OF Foreach_paths [of ?t]] by simp
  show "list_all (\<lambda>s. CHR ''*'' \<notin> set s) (map fst (Foreach ?t))"
    using sets Qok show_path_no_star by (auto simp: list_all_iff simp del: set_map)
  show "q \<in> set (node_paths ?t) \<longleftrightarrow> last_insert ds q \<noteq> None" "q \<in> set (node_paths ?t) \<Longrightarrow> path_ok q" using Q Qok by blast+
qed

text \<open>C4: for a trie of domains and of domains behind a leading dot or \<open>+\<close> (no pattern has a \<open>*\<close>), the domain set built from it answers as
  the search of the trie does, for every valid domain whose first label is not empty and whose characters all come after \<open>+\<close> in ASCII,
  which is so of letters, digits, dots, hyphens and underscores: the layout in bitmaps loses nothing. For a domain with a
  character before \<open>+\<close> it can be wrong (\<open>DomainSet_low_character\<close>). No index is out of range, building always ends, and a query
  ends within a number of steps that depends on the set only. The bitmap library only has to count and find ones.\<close>

theorem DomainSet_Has_Search:
  assumes "bitmap_ok bl" "list_all (\<lambda>p. plain_pattern (fst p)) ds" "ValidAndSplitDomain d = Some ps" "hd ps \<noteq> ''''"
    and "list_all (\<lambda>c. CHR ''+'' < c) (to_lower d)"
  shows "\<exists>sso n. NewDomainSet bl (insert_all ds newNode) = Done sso \<and>
    (\<forall>fuel > n. Has bl fuel sso d = Done (Search (insert_all ds newNode) d \<noteq> None))"
proof -
  let ?t = "insert_all ds newNode"
  let ?Q = "set (node_paths ?t)"
  let ?ds = "map fst (Foreach ?t)"
  note b = built_plain_paths [OF assms(2)]
  have ps: "ps = split_on (CHR ''.'') (to_lower d)"
    using assms(3) by (auto simp: ValidAndSplitDomain_def Let_def domainStep_def split: if_splits)
  have "'''' \<notin> set ps" using valid_domain_labels [OF assms(3,4)] by (simp add: dotWildcard_def)
  moreover have "to_lower d = join_with (CHR ''.'') ps" using ps by simp
  moreover have "CHR ''+'' \<notin> set (to_lower d)" using assms(5) by (auto simp: list_all_iff)
  ultimately have acc: "accepts (rev ` show_path ` ?Q) (rev (to_lower d)) \<longleftrightarrow> (\<exists>q \<in> ?Q. path_matches q (rev ps))"
    using accepts_paths [OF b(2)] ps by blast
  have srch: "Search ?t d \<noteq> None \<longleftrightarrow> (\<exists>q \<in> ?Q. path_matches q (rev ps))"
    using Search_stored [OF assms(3,4), of ds] b(1) by blast
  show ?thesis
  proof (cases "?ds = []")
    case True
    then have "NewDomainSet bl ?t = Done None" by (simp add: NewDomainSet_def domain_set_of_def)
    moreover have "Search ?t d = None" using srch b(4) True by auto
    ultimately show ?thesis by (auto simp: Has_def)
  next
    case False
    from domain_set_of_accepts [OF assms(1) b(3) False b(5)] obtain ss where
      ss: "domain_set_of bl ?ds = Done (Some ss)"
        "\<forall>key fuel. list_all (\<lambda>c. CHR ''+'' \<le> c) (to_lower (rev key)) \<longrightarrow> 64 * length (dsLabelBitmap ss) < fuel \<longrightarrow>
           Has bl fuel (Some ss) key = Done (accepts (rev ` set ?ds) (to_lower (rev key)))"
      by (elim exE conjE)
    have "to_lower (rev d) = rev (to_lower d)" by (simp add: to_lower_def rev_map)
    moreover have "list_all (\<lambda>c. CHR ''+'' \<le> c) (rev (to_lower d))" using assms(5) by (auto simp: list_all_iff)
    ultimately have "Has bl fuel (Some ss) d = Done (Search ?t d \<noteq> None)" if "64 * length (dsLabelBitmap ss) < fuel" for fuel
      using ss(2) [rule_format, of d fuel] that acc srch unfolding b(4) by simp
    then show ?thesis using ss(1) by (auto simp: NewDomainSet_def)
  qed
qed

text \<open>A bitmap library that does what is asked, and a trie.\<close>

fun nth_one :: "u64 list \<Rightarrow> nat \<Rightarrow> nat \<Rightarrow> nat \<Rightarrow> nat" where
  "nth_one bm 0 i m = i"
| "nth_one bm (Suc n) i m =
     (if bit_at bm i then case m of 0 \<Rightarrow> i | Suc m' \<Rightarrow> nth_one bm n (Suc i) m' else nth_one bm n (Suc i) m)"

lemma nth_one_eq: "bit_at bm k \<Longrightarrow> i \<le> k \<Longrightarrow> k < i + n \<Longrightarrow> m + ones bm i = ones bm k \<Longrightarrow> nth_one bm n i m = k"
proof (induction n arbitrary: i m)
  case (Suc n)
  have s: "ones bm (Suc i) = ones bm i + of_bool (bit_at bm i)" by (simp add: ones_def)
  show ?case
  proof (cases "i = k")
    case True
    with Suc.prems show ?thesis by simp
  next
    case False
    with Suc.prems(2) have i: "Suc i \<le> k" by simp
    show ?thesis
    proof (cases "bit_at bm i")
      case True
      have "[0..<k] = [0..<Suc i] @ [Suc i..<k]" using upt_add_eq_append [of 0 "Suc i" "k - Suc i"] i by simp
      then have "ones bm (Suc i) \<le> ones bm k" by (simp add: ones_def)
      with Suc.prems(4) s True obtain m' where "m = Suc m'" by (cases m) auto
      then show ?thesis using True Suc.IH [OF Suc.prems(1) i, of m'] Suc.prems(3,4) s by simp
    next
      case f: False
      then show ?thesis using Suc.IH [OF Suc.prems(1) i, of m] Suc.prems(3,4) s by simp
    qed
  qed
qed simp

definition bitmap_ref :: bitmap_lib where
  "bitmap_ref = \<lparr>blIndex = (\<lambda>bm. ([], [])), blRank = (\<lambda>bm rk i. ones bm i),
     blSelect = (\<lambda>bm sel rk m. nth_one bm (64 * length bm) 0 m)\<rparr>"

lemma bitmap_ref_ok: "bitmap_ok bitmap_ref"
  unfolding bitmap_ok_def bitmap_ref_def bitmap_lib.simps
  using bit_at_length by (auto intro!: nth_one_eq simp: ones_def)

lemma DomainSet_Has_Search_witness:
  "\<exists>sso n. NewDomainSet bitmap_ref (insert_all [(''+.b.c'', 1 :: nat), (''x'', 2)] newNode) = Done sso \<and>
    (\<forall>fuel > n. Has bitmap_ref fuel sso ''A.b.c'' =
       Done (Search (insert_all [(''+.b.c'', 1 :: nat), (''x'', 2)] newNode) ''A.b.c'' \<noteq> None))"
proof (rule DomainSet_Has_Search [OF bitmap_ref_ok])
  show "ValidAndSplitDomain ''A.b.c'' = Some [''a'', ''b'', ''c'']" by code_simp
  show "list_all (\<lambda>c. CHR ''+'' < c) (to_lower ''A.b.c'')" by code_simp
qed (simp_all add: plain_pattern_def has_prefix_def)


text \<open>With \<open>*\<close> the set and the trie differ. When the key ends inside a name that was tried after a \<open>*\<close>, \<open>Has\<close> does not go
  back to the \<open>*\<close>; and the search for a dot behind a \<open>*\<close> runs past the labels of its node, into those of others.\<close>

lemma has_loop_if:
  "0 < n \<Longrightarrow> i < length key \<Longrightarrow> getBit (dsLabelBitmap ss) bmIdx = Done False \<Longrightarrow> label_at ss bmIdx nodeId = Done l \<Longrightarrow>
   has_loop bl ss key n i nodeId bmIdx stack =
     (if l = CHR ''+'' then Done True
      else if l = CHR ''*'' then has_loop bl ss key (n - 1) i nodeId (bmIdx + 1) ((bmIdx, i) # stack)
      else if l = key ! i then
        has_loop bl ss key (n - 1) (i + 1) (next_node bl ss bmIdx) (first_bit bl ss (next_node bl ss bmIdx)) stack
      else has_loop bl ss key (n - 1) i nodeId (bmIdx + 1) stack)"
  by (cases n) (simp_all add: Let_def)

lemma has_loop_end: "0 < n \<Longrightarrow> length key \<le> i \<Longrightarrow> has_loop bl ss key n i nodeId bmIdx stack = getBit (dsLeaves ss) nodeId"
  by (cases n) simp_all

lemma has_loop_pop:
  "0 < n \<Longrightarrow> i < length key \<Longrightarrow> getBit (dsLabelBitmap ss) bmIdx = Done True \<Longrightarrow> skip_part key cidx = j \<Longrightarrow> j < length key \<Longrightarrow>
   find_dot ss (next_node bl ss cbm) (first_bit bl ss (next_node bl ss cbm)) = Some b \<Longrightarrow>
   has_loop bl ss key n i nodeId bmIdx ((cbm, cidx) # stack) = has_loop bl ss key (n - 1) j (next_node bl ss cbm) b stack"
  by (cases n) (simp_all add: Let_def)


lemma recursion_map:
  "recursion items (Node (Some m) cn cs d) = concat (map (\<lambda>(key, c).
     (case ndata c of None \<Rightarrow> []
      | Some x \<Rightarrow> [(if joinDomain (key # items) \<noteq> [] \<and> hd (joinDomain (key # items)) = domainStep
                then complexWildcard @ joinDomain (key # items) else joinDomain (key # items), x)]) @
     recursion (key # items) c) m)"
  by (subst recursion.simps) (simp add: Let_def)

definition missed_set :: domain_set where
  "missed_set = \<lparr>dsLeaves = [40], dsLabelBitmap = [1738], dsLabels = ''c.*ba'', dsRanks = [], dsSelects = []\<rparr>"

lemma missed_set_steps:
  "getBit (dsLabelBitmap missed_set) 0 = Done False"
  "label_at missed_set 0 0 = Done CHR ''c''"
  "next_node bitmap_ref missed_set 0 = 1"
  "first_bit bitmap_ref missed_set 1 = 2"
  "getBit (dsLabelBitmap missed_set) 2 = Done False"
  "label_at missed_set 2 1 = Done CHR ''.''"
  "next_node bitmap_ref missed_set 2 = 2"
  "first_bit bitmap_ref missed_set 2 = 4"
  "getBit (dsLabelBitmap missed_set) 4 = Done False"
  "label_at missed_set 4 2 = Done CHR ''*''"
  "getBit (dsLabelBitmap missed_set) 5 = Done False"
  "label_at missed_set 5 2 = Done CHR ''b''"
  "next_node bitmap_ref missed_set 5 = 4"
  "first_bit bitmap_ref missed_set 4 = 8"
  "getBit (dsLeaves missed_set) 4 = Done False"
  by code_simp+

lemma missed_set_trie: "NewDomainSet bitmap_ref (insert_all [(''*.c'', ()), (''ab.c'', ())] newNode) = Done (Some missed_set)"
proof -
  have "insert_all [(''*.c'', ()), (''ab.c'', ())] newNode =
      Node None (Some (Node (Some [(''*'', Node None None [] (Some ())), (''ab'', Node None None [] (Some ()))]) None [] None)) ''c'' None"
    by code_simp
  then have "map fst (Foreach (insert_all [(''*.c'', ()), (''ab.c'', ())] newNode)) = [''*.c'', ''ab.c'']"
    by (simp add: Foreach_def recursion_single recursion_map joinDomain_def domainStep_def complexWildcard_def)
  moreover have "domain_set_of bitmap_ref [''*.c'', ''ab.c''] = Done (Some missed_set)" by code_simp
  ultimately show ?thesis by (simp add: NewDomainSet_def)
qed

theorem DomainSet_wildcard_missed:
  "NewDomainSet bitmap_ref (insert_all [(''*.c'', ()), (''ab.c'', ())] newNode) = Done (Some missed_set) \<and>
   Has bitmap_ref 100 (Some missed_set) ''b.c'' = Done False \<and>
   Search (insert_all [(''*.c'', ()), (''ab.c'', ())] newNode) ''b.c'' \<noteq> None"
proof (intro conjI)
  have "to_lower (rev ''b.c'') = ''c.b''" by code_simp
  then show "Has bitmap_ref 100 (Some missed_set) ''b.c'' = Done False"
    by (simp add: Has_def has_loop_if has_loop_end has_loop_pop missed_set_steps del: has_loop.simps One_nat_def)
qed (rule missed_set_trie, code_simp)


definition wrong_set :: domain_set where
  "wrong_set = \<lparr>dsLeaves = [5312], dsLabelBitmap = [27978388], dsLabels = ''ab..a*a.ba.+'', dsRanks = [], dsSelects = []\<rparr>"

lemma wrong_set_steps:
  "getBit (dsLabelBitmap wrong_set) 0 = Done False"
  "label_at wrong_set 0 0 = Done CHR ''a''"
  "next_node bitmap_ref wrong_set 0 = 1"
  "first_bit bitmap_ref wrong_set 1 = 3"
  "getBit (dsLabelBitmap wrong_set) 3 = Done False"
  "label_at wrong_set 3 1 = Done CHR ''.''"
  "next_node bitmap_ref wrong_set 3 = 3"
  "first_bit bitmap_ref wrong_set 3 = 8"
  "getBit (dsLabelBitmap wrong_set) 8 = Done False"
  "label_at wrong_set 8 3 = Done CHR ''*''"
  "getBit (dsLabelBitmap wrong_set) 9 = Done True"
  "next_node bitmap_ref wrong_set 8 = 6"
  "first_bit bitmap_ref wrong_set 6 = 14"
  "skip_part ''a.b.a.a'' 2 = 3"
  "find_dot wrong_set 6 14 = Some 16"
  "getBit (dsLabelBitmap wrong_set) 16 = Done False"
  "label_at wrong_set 16 6 = Done CHR ''.''"
  "next_node bitmap_ref wrong_set 16 = 9"
  "first_bit bitmap_ref wrong_set 9 = 18"
  "getBit (dsLabelBitmap wrong_set) 18 = Done False"
  "label_at wrong_set 18 9 = Done CHR ''a''"
  "next_node bitmap_ref wrong_set 18 = 10"
  "first_bit bitmap_ref wrong_set 10 = 20"
  "getBit (dsLabelBitmap wrong_set) 20 = Done False"
  "label_at wrong_set 20 10 = Done CHR ''.''"
  "next_node bitmap_ref wrong_set 20 = 11"
  "first_bit bitmap_ref wrong_set 11 = 22"
  "getBit (dsLabelBitmap wrong_set) 22 = Done False"
  "label_at wrong_set 22 11 = Done CHR ''+''"
  by code_simp+

lemma wrong_set_trie: "NewDomainSet bitmap_ref (insert_all [(''a.b'', ()), (''*.a'', ()), (''+.ab.ab'', ())] newNode) = Done (Some wrong_set)"
proof -
  have "insert_all [(''a.b'', ()), (''*.a'', ()), (''+.ab.ab'', ())] newNode =
      Node (Some [(''b'', Node None (Some (Node None None [] (Some ()))) ''a'' None),
        (''a'', Node None (Some (Node None None [] (Some ()))) ''*'' None),
        (''ab'', Node None (Some (Node None (Some (Node None None [] (Some ()))) [] (Some ()))) ''ab'' None)]) None [] None"
    by code_simp
  then have "map fst (Foreach (insert_all [(''a.b'', ()), (''*.a'', ()), (''+.ab.ab'', ())] newNode)) = [''a.b'', ''*.a'', ''ab.ab'', ''+.ab.ab'']"
    by (simp add: Foreach_def recursion_single recursion_map joinDomain_def domainStep_def complexWildcard_def)
  moreover have "domain_set_of bitmap_ref [''a.b'', ''*.a'', ''ab.ab'', ''+.ab.ab''] = Done (Some wrong_set)" by code_simp
  ultimately show ?thesis by (simp add: NewDomainSet_def)
qed

theorem DomainSet_wildcard_wrong:
  "NewDomainSet bitmap_ref (insert_all [(''a.b'', ()), (''*.a'', ()), (''+.ab.ab'', ())] newNode) = Done (Some wrong_set) \<and>
   Has bitmap_ref 100 (Some wrong_set) ''a.a.b.a'' = Done True \<and>
   Search (insert_all [(''a.b'', ()), (''*.a'', ()), (''+.ab.ab'', ())] newNode) ''a.a.b.a'' = None"
proof (intro conjI)
  have "to_lower (rev ''a.a.b.a'') = ''a.b.a.a''" by code_simp
  then show "Has bitmap_ref 100 (Some wrong_set) ''a.a.b.a'' = Done True"
    by (simp add: Has_def has_loop_if has_loop_end has_loop_pop wrong_set_steps del: has_loop.simps One_nat_def)
qed (rule wrong_set_trie, code_simp)


text \<open>A character before \<open>+\<close>: its label comes first in its node, the query goes below it, and the \<open>+\<close> beside it is not tried again.\<close>

definition low_set :: domain_set where
  "low_set = \<lparr>dsLeaves = [50], dsLabelBitmap = [1866], dsLabels = ''x.!+q'', dsRanks = [], dsSelects = []\<rparr>"

lemma low_set_steps:
  "getBit (dsLabelBitmap low_set) 0 = Done False"
  "label_at low_set 0 0 = Done CHR ''x''"
  "next_node bitmap_ref low_set 0 = 1"
  "first_bit bitmap_ref low_set 1 = 2"
  "getBit (dsLabelBitmap low_set) 2 = Done False"
  "label_at low_set 2 1 = Done CHR ''.''"
  "next_node bitmap_ref low_set 2 = 2"
  "first_bit bitmap_ref low_set 2 = 4"
  "getBit (dsLabelBitmap low_set) 4 = Done False"
  "label_at low_set 4 2 = Done CHR ''!''"
  "next_node bitmap_ref low_set 4 = 3"
  "first_bit bitmap_ref low_set 3 = 7"
  "getBit (dsLabelBitmap low_set) 7 = Done False"
  "label_at low_set 7 3 = Done CHR ''q''"
  "getBit (dsLabelBitmap low_set) 8 = Done True"
  by code_simp+

lemma low_set_trie: "NewDomainSet bitmap_ref (insert_all [(''+.x'', ()), (''q!.x'', ())] newNode) = Done (Some low_set)"
proof -
  have "insert_all [(''+.x'', ()), (''q!.x'', ())] newNode =
      Node None (Some (Node (Some [([], Node None None [] (Some ())), (''q!'', Node None None [] (Some ()))]) None [] (Some ()))) ''x'' None"
    by code_simp
  then have "map fst (Foreach (insert_all [(''+.x'', ()), (''q!.x'', ())] newNode)) = [''+.x'', ''q!.x'', ''x'']"
    by (simp add: Foreach_def recursion_single recursion_map joinDomain_def domainStep_def complexWildcard_def)
  moreover have "domain_set_of bitmap_ref [''+.x'', ''q!.x'', ''x''] = Done (Some low_set)" by code_simp
  ultimately show ?thesis by (simp add: NewDomainSet_def)
qed

lemma has_loop_fail:
  "0 < n \<Longrightarrow> i < length key \<Longrightarrow> getBit (dsLabelBitmap ss) bmIdx = Done True \<Longrightarrow> has_loop bl ss key n i nodeId bmIdx [] = Done False"
  by (cases n) (simp_all add: Let_def)

theorem DomainSet_low_character:
  "NewDomainSet bitmap_ref (insert_all [(''+.x'', ()), (''q!.x'', ())] newNode) = Done (Some low_set) \<and>
   Has bitmap_ref 100 (Some low_set) ''z!.x'' = Done False \<and>
   Search (insert_all [(''+.x'', ()), (''q!.x'', ())] newNode) ''z!.x'' \<noteq> None"
proof (intro conjI)
  have "to_lower (rev ''z!.x'') = ''x.!z''" by code_simp
  then show "Has bitmap_ref 100 (Some low_set) ''z!.x'' = Done False"
    by (simp add: Has_def has_loop_if has_loop_fail low_set_steps del: has_loop.simps One_nat_def)
qed (rule low_set_trie, code_simp)

end
