(* ===== verification/PeerProc.thy ===== *)
theory PeerProc
  imports GoBytes
begin

text \<open>
  Two peers that talk over a connection: a process reads an exact number of bytes (\<open>io.ReadFull\<close>), writes some, or returns.
  The answer to a read is \<open>None\<close> when it fails, the answer to a write is whether it succeeded. A process may read for ever, so the type
  is a codatatype. The pair of peers with the bytes on their way is a transition system whose steps commute.
\<close>

codatatype 'a proc =
  PRet (ret_of: 'a)
| PRead (read_len: nat) (after_read: "bytes option \<Rightarrow> 'a proc")
| PWrite (written: bytes) (after_write: "bool \<Rightarrow> 'a proc")

primcorec pbind :: "'a proc \<Rightarrow> ('a \<Rightarrow> 'b proc) \<Rightarrow> 'b proc" where
  "pbind p f =
     (case p of
        PRet a \<Rightarrow> f a
      | PRead n k \<Rightarrow> PRead n (\<lambda>r. pbind (k r) f)
      | PWrite b k \<Rightarrow> PWrite b (\<lambda>ok. pbind (k ok) f))"

lemma pbind_simps [simp]:
  "pbind (PRet a) f = f a"
  "pbind (PRead n k) f = PRead n (\<lambda>r. pbind (k r) f)"
  "pbind (PWrite b k') f = PWrite b (\<lambda>ok. pbind (k' ok) f)"
proof -
  show "pbind (PRet a) f = f a" by (subst pbind.code) simp
  show "pbind (PRead n k) f = PRead n (\<lambda>r. pbind (k r) f)" by (subst pbind.code) simp
  show "pbind (PWrite b k') f = PWrite b (\<lambda>ok. pbind (k' ok) f)" by (subst pbind.code) simp
qed

section \<open>A connection\<close>

text \<open>The two peers, the bytes on the way to the second and those on the way to the first.\<close>

type_synonym ('a, 'b) duo = "'a proc \<times> 'b proc \<times> bytes \<times> bytes"

inductive duo_step :: "('a, 'b) duo \<Rightarrow> ('a, 'b) duo \<Rightarrow> bool" where
  write1: "duo_step (PWrite b k, s, x, y) (k True, s, x @ b, y)"
| read1: "n \<le> length y \<Longrightarrow> duo_step (PRead n k, s, x, y) (k (Some (take n y)), s, x, drop n y)"
| write2: "duo_step (c, PWrite b k, x, y) (c, k True, x, y @ b)"
| read2: "n \<le> length x \<Longrightarrow> duo_step (c, PRead n k, x, y) (c, k (Some (take n x)), drop n x, y)"

lemmas duo_induct = duo_step.induct [split_format (complete)]

inductive_cases duo_stepE: "duo_step (c, s, x, y) t"

abbreviation duo_steps :: "('a, 'b) duo \<Rightarrow> ('a, 'b) duo \<Rightarrow> bool" where
  "duo_steps \<equiv> duo_step\<^sup>*\<^sup>*"

text \<open>A step is one of the first peer or one of the second; they do not disturb each other.\<close>

fun act1 :: "'a proc \<times> bytes \<times> bytes \<Rightarrow> ('a proc \<times> bytes \<times> bytes) option" where
  "act1 (p, inp, out) =
     (case p of
        PRet a \<Rightarrow> None
      | PRead n k \<Rightarrow> if n \<le> length inp then Some (k (Some (take n inp)), drop n inp, out) else None
      | PWrite b k \<Rightarrow> Some (k True, inp, out @ b))"

lemma duo_step_iff:
  "duo_step (c, s, x, y) (c', s', x', y') \<longleftrightarrow>
     (s' = s \<and> act1 (c, y, x) = Some (c', y', x')) \<or> (c' = c \<and> act1 (s, x, y) = Some (s', x', y'))"
  by (cases c; cases s) (auto elim!: duo_stepE intro: duo_step.intros split: if_splits)

lemma act1_frame: "act1 (p, inp, out) = Some (p', inp', out') \<Longrightarrow> act1 (p, inp @ z, out) = Some (p', inp' @ z, out')"
  by (cases p) (auto split: if_splits)

lemma act1_out: "act1 (p, inp, out) = Some (p', inp', out') \<Longrightarrow> \<exists>b. out' = out @ b \<and> (\<forall>o2. act1 (p, inp, o2) = Some (p', inp', o2 @ b))"
  by (cases p) (auto split: if_splits)

lemma act1_in: "act1 (p, inp, out) = Some (p', inp', out') \<Longrightarrow> \<exists>r. inp = r @ inp' \<and> (\<forall>z. act1 (p, r @ z, out) = Some (p', z, out'))"
proof (cases p)
  case (PRead n k)
  moreover assume "act1 (p, inp, out) = Some (p', inp', out')"
  ultimately show ?thesis by (intro exI [of _ "take n inp"]) (auto split: if_splits)
qed (auto split: if_splits)

lemma act1_commute:
  assumes "act1 (c, y, x) = Some (c', y', x')" "act1 (s, x, y) = Some (s', x2, y2)"
  shows "\<exists>x3 y3. act1 (c, y2, x2) = Some (c', y3, x3) \<and> act1 (s, x', y') = Some (s', x3, y3)"
proof -
  obtain b where b: "x' = x @ b" "\<And>o2. act1 (c, y, o2) = Some (c', y', o2 @ b)" using act1_out [OF assms(1)] by blast
  obtain d where d: "y2 = y @ d" "\<And>o2. act1 (s, x, o2) = Some (s', x2, o2 @ d)" using act1_out [OF assms(2)] by blast
  have "act1 (c, y2, x2) = Some (c', y' @ d, x2 @ b)" unfolding d(1) by (rule act1_frame) (rule b(2))
  moreover have "act1 (s, x', y') = Some (s', x2 @ b, y' @ d)" unfolding b(1) by (rule act1_frame) (rule d(2))
  ultimately show ?thesis by blast
qed

lemma duo_diamond:
  assumes "duo_step (c, s, x, y) t" "duo_step (c, s, x, y) u"
  shows "t = u \<or> (\<exists>v. duo_step t v \<and> duo_step u v)"
proof -
  obtain c1 s1 x1 y1 where t: "t = (c1, s1, x1, y1)" by (metis prod_cases4)
  obtain c2 s2 x2 y2 where u: "u = (c2, s2, x2, y2)" by (metis prod_cases4)
  from assms [unfolded t u duo_step_iff] consider "t = u"
    | "s1 = s" "act1 (c, y, x) = Some (c1, y1, x1)" "c2 = c" "act1 (s, x, y) = Some (s2, x2, y2)"
    | "c1 = c" "act1 (s, x, y) = Some (s1, x1, y1)" "s2 = s" "act1 (c, y, x) = Some (c2, y2, x2)"
    unfolding t u by fastforce
  then show ?thesis
  proof cases
    case 2
    from act1_commute [OF 2(2,4)] show ?thesis unfolding t u 2 by (metis duo_step_iff)
  next
    case 3
    from act1_commute [OF 3(4,2)] show ?thesis unfolding t u 3 by (metis duo_step_iff)
  qed simp
qed

lemma duo_ret: "\<not> duo_step (PRet a, PRet b, x, y) t"
  by (auto elim: duo_stepE)

text \<open>Steps of a length; where one run ends, every run does, in the same state.\<close>

lemma duo_confluent:
  assumes "(duo_step ^^ n) st t" "\<And>u. \<not> duo_step t u" "(duo_step ^^ m) st u"
  shows "m \<le> n \<and> (duo_step ^^ (n - m)) u t"
  using assms
proof (induction n arbitrary: st m u)
  case 0
  then have "st = t" by simp
  with "0.prems" show ?case by (cases m) (use relpowp_Suc_D2 in \<open>force+\<close>)
next
  case (Suc n)
  obtain st1 where st1: "duo_step st st1" "(duo_step ^^ n) st1 t" using Suc.prems(1) by (blast elim: relpowp_Suc_E2)
  show ?case
  proof (cases m)
    case 0
    with Suc.prems show ?thesis by simp
  next
    case m: (Suc m')
    obtain u1 where u1: "duo_step st u1" "(duo_step ^^ m') u1 u" using Suc.prems(3) m by (blast elim: relpowp_Suc_E2)
    have u1t: "(duo_step ^^ n) u1 t"
    proof (cases "u1 = st1")
      case False
      obtain c s x y where st: "st = (c, s, x, y)" by (metis prod_cases4)
      with duo_diamond [of c s x y st1 u1] st1 u1 False obtain v where v: "duo_step st1 v" "duo_step u1 v" by auto
      have "(duo_step ^^ 1) st1 v" using v(1) by (simp only: relpowp_1)
      with Suc.IH [OF st1(2) Suc.prems(2)] have n: "1 \<le> n" "(duo_step ^^ (n - 1)) v t" by blast+
      have "(duo_step ^^ Suc (n - 1)) u1 t" using v(2) n(2) by (rule relpowp_Suc_I2)
      with n(1) show ?thesis by simp
    qed (use st1 in simp)
    from Suc.IH [OF u1t Suc.prems(2) u1(2)] show ?thesis using m by simp
  qed
qed

lemma duo_always_ends:
  assumes "duo_steps st (PRet a, PRet b, x, y)"
  shows "\<exists>n. \<forall>u m. (duo_step ^^ m) st u \<longrightarrow> m \<le> n \<and> duo_steps u (PRet a, PRet b, x, y)"
proof -
  obtain n where "(duo_step ^^ n) st (PRet a, PRet b, x, y)" using assms by (auto simp: rtranclp_is_Sup_relpowp)
  from duo_confluent [OF this duo_ret] show ?thesis by (meson relpowp_imp_rtranclp)
qed

section \<open>One peer at a time\<close>

abbreviation acts :: "'a proc \<times> bytes \<times> bytes \<Rightarrow> 'a proc \<times> bytes \<times> bytes \<Rightarrow> bool" where
  "acts \<equiv> (\<lambda>u v. act1 u = Some v)\<^sup>*\<^sup>*"

lemma acts_duo1: "acts (p, y, x) (p', y', x') \<Longrightarrow> duo_steps (p, s, x, y) (p', s, x', y')"
proof -
  have "acts u v \<Longrightarrow> (\<lambda>(p, y, x) (p', y', x'). duo_steps (p, s, x, y) (p', s, x', y')) u v" for u v
  proof (induction rule: rtranclp_induct)
    case (step v w)
    then have "(\<lambda>(p, y, x) (p', y', x'). duo_step (p, s, x, y) (p', s, x', y')) v w"
      by (simp add: duo_step_iff case_prod_beta del: act1.simps)
    with step.IH show ?case by (auto simp: case_prod_beta)
  qed (simp add: case_prod_beta)
  then show "acts (p, y, x) (p', y', x') \<Longrightarrow> duo_steps (p, s, x, y) (p', s, x', y')" by fastforce
qed

lemma acts_duo2: "acts (p, x, y) (p', x', y') \<Longrightarrow> duo_steps (c, p, x, y) (c, p', x', y')"
proof -
  have "acts u v \<Longrightarrow> (\<lambda>(p, x, y) (p', x', y'). duo_steps (c, p, x, y) (c, p', x', y')) u v" for u v
  proof (induction rule: rtranclp_induct)
    case (step v w)
    then have "(\<lambda>(p, x, y) (p', x', y'). duo_step (c, p, x, y) (c, p', x', y')) v w"
      by (simp add: duo_step_iff case_prod_beta del: act1.simps)
    with step.IH show ?case by (auto simp: case_prod_beta)
  qed (simp add: case_prod_beta)
  then show "acts (p, x, y) (p', x', y') \<Longrightarrow> duo_steps (c, p, x, y) (c, p', x', y')" by fastforce
qed

lemma acts_read: "n = length b \<Longrightarrow> acts (k (Some b), r, out) u \<Longrightarrow> acts (PRead n k, b @ r, out) u"
  by (rule converse_rtranclp_into_rtranclp) simp_all

lemma acts_write: "acts (k True, inp, out @ b) u \<Longrightarrow> acts (PWrite b k, inp, out) u"
  by (rule converse_rtranclp_into_rtranclp) simp_all

end
