(* ===== verification/Socks.thy ===== *)
theory Socks
  imports PeerProc Strconv
begin

text \<open>
  The SOCKS protocols (\<open>transport/socks5/socks5.go\<close>, \<open>transport/socks4/socks4.go\<close>) and the users of the inbound servers
  (\<open>component/auth/auth.go\<close>). A handshake is a process; \<open>net.ParseIP\<close>, \<open>netip.ParseAddr\<close> and the printing of addresses are arguments.
\<close>

section \<open>Users\<close>

record authenticator =
  au_storage :: "string \<rightharpoonup> string"
  au_usernames :: "string list"

definition Verify :: "authenticator \<Rightarrow> string \<Rightarrow> string \<Rightarrow> bool" where
  "Verify au user pass \<longleftrightarrow> au_storage au user = Some pass"

definition Users :: "authenticator \<Rightarrow> string list" where
  "Users au = au_usernames au"

fun add_users :: "(string \<times> string) list \<Rightarrow> authenticator \<Rightarrow> authenticator" where
  "add_users [] au = au"
| "add_users ((u, p) # us) au =
     add_users us (au\<lparr>au_storage := (au_storage au)(u \<mapsto> p), au_usernames := au_usernames au @ [u]\<rparr>)"

definition NewAuthenticator :: "(string \<times> string) list \<Rightarrow> authenticator option" where
  "NewAuthenticator users =
     (if users = [] then None else Some (add_users users \<lparr>au_storage = Map.empty, au_usernames = []\<rparr>))"

section \<open>Addresses of SOCKS 5\<close>

datatype sock_error = ErrIO | ErrShortBuffer | ErrSock nat | ErrAuth | ErrVersion | ErrRejected | ErrNeedAuth
  | ErrShortPacket | ErrReserved | ErrFragment | ErrUDPHeader | ErrBadAddr | ErrSplitHost | ErrPort | ErrIPv6NotSupported
  | ErrVersionMismatched | ErrCommandUnsupported | ErrRequestRejected | ErrIdentdFailed | ErrIdentdMismatched | ErrUnknownCode

definition ErrCommandNotSupported :: sock_error where "ErrCommandNotSupported = ErrSock 7"
definition ErrAddressNotSupported :: sock_error where "ErrAddressNotSupported = ErrSock 8"

definition CmdConnect :: u8 where "CmdConnect = 1"
definition CmdBind :: u8 where "CmdBind = 2"
definition CmdUDPAssociate :: u8 where "CmdUDPAssociate = 3"

definition MaxAddrLen :: nat where "MaxAddrLen = 259"

definition SplitAddr :: "bytes \<Rightarrow> bytes option" where
  "SplitAddr b =
     (if length b < 1 then None
      else
        let addrLen = (if b ! 0 = 3 then if length b < 2 then None else Some (1 + 1 + unat (b ! 1) + 2)
                       else if b ! 0 = 1 then Some (1 + 4 + 2)
                       else if b ! 0 = 4 then Some (1 + 16 + 2)
                       else None)
        in case addrLen of None \<Rightarrow> None | Some n \<Rightarrow> if length b < n then None else Some (take n b))"

text \<open>\<open>String\<close>, with \<open>net.IP.String\<close> as an argument; it panics on an address that is too short.\<close>

definition Addr_String :: "(bytes \<Rightarrow> string) \<Rightarrow> bytes \<Rightarrow> string outcome" where
  "Addr_String ip_str a =
     obind (at_idx a 0) (\<lambda>t.
       if t = 3 then
         obind (at_idx a 1) (\<lambda>l. let hostLen = unat l in
         obind (sub_idx a 2 (2 + hostLen)) (\<lambda>h.
         obind (u16_at a (2 + hostLen)) (\<lambda>p. Done (JoinHostPort (bytes_str h) (format_uint p)))))
       else if t = 1 then
         obind (sub_idx a 1 5) (\<lambda>h. obind (u16_at a 5) (\<lambda>p. Done (JoinHostPort (ip_str h) (format_uint p))))
       else if t = 4 then
         obind (sub_idx a 1 17) (\<lambda>h. obind (u16_at a 17) (\<lambda>p. Done (JoinHostPort (ip_str h) (format_uint p))))
       else Done (JoinHostPort [] []))"

text \<open>\<open>UDPAddr\<close>: the bytes of the address and the port.\<close>

definition Addr_UDPAddr :: "bytes \<Rightarrow> (bytes \<times> nat) option outcome" where
  "Addr_UDPAddr a =
     (if a = [] then Done None
      else if a ! 0 = 1 then obind (sub_idx a 1 5) (\<lambda>ip. obind (sub_idx a 5 7) (\<lambda>p. obind (u16_at p 0) (\<lambda>n. Done (Some (ip, n)))))
      else if a ! 0 = 4 then obind (sub_idx a 1 17) (\<lambda>ip. obind (sub_idx a 17 19) (\<lambda>p. obind (u16_at p 0) (\<lambda>n. Done (Some (ip, n)))))
      else Done None)"

definition ParseAddr :: "(string \<Rightarrow> bytes option) \<Rightarrow> string \<Rightarrow> bytes option" where
  "ParseAddr parse_ip s =
     (case SplitHostPort s of
        None \<Rightarrow> None
      | Some (host, port) \<Rightarrow>
          let front = (case parse_ip host of
                Some ip \<Rightarrow> (case ip_to4 ip of Some ip4 \<Rightarrow> Some (1 # ip4) | None \<Rightarrow> Some (4 # ip))
              | None \<Rightarrow> if length host > 255 then None else Some (3 # of_nat (length host) # str_bytes host))
          in case front of
               None \<Rightarrow> None
             | Some f \<Rightarrow> (case parse_uint 16 port of None \<Rightarrow> None | Some p \<Rightarrow> Some (f @ be16 p)))"

text \<open>A \<open>net.Addr\<close>: the address and port if it is one of UDP or TCP with an address, and its string.\<close>

record net_addr =
  na_ip :: "bytes option"
  na_port :: int
  na_string :: string

definition ParseAddrToSocksAddr :: "(string \<Rightarrow> bytes option) \<Rightarrow> net_addr \<Rightarrow> bytes option" where
  "ParseAddrToSocksAddr parse_ip a =
     (case na_ip a of
        None \<Rightarrow> ParseAddr parse_ip (na_string a)
      | Some ip \<Rightarrow>
          let port = be16 (nat (na_port a mod 65536))
          in case ip_to4 ip of
               Some ip4 \<Rightarrow> Some (1 # ip4 @ port)
             | None \<Rightarrow> Some (4 # take 16 (ip @ replicate 16 0) @ port))"

definition AddrFromStdAddrPort :: "addr \<Rightarrow> u16 \<Rightarrow> bytes" where
  "AddrFromStdAddrPort a port =
     (if addr_is4 a then 1 # addr_as_slice a @ be16 (unat port)
      else 4 # take 16 (addr_as_slice a @ replicate 16 0) @ be16 (unat port))"

definition DecodeUDPPacket :: "bytes \<Rightarrow> bytes option \<times> bytes \<times> sock_error option" where
  "DecodeUDPPacket packet =
     (if length packet < 5 then (None, [], Some ErrShortPacket)
      else if take 2 packet \<noteq> [0, 0] then (None, [], Some ErrReserved)
      else if packet ! 2 \<noteq> 0 then (None, [], Some ErrFragment)
      else
        let a = SplitAddr (drop 3 packet)
        in (a, drop (3 + (case a of None \<Rightarrow> 0 | Some x \<Rightarrow> length x)) packet, if a = None then Some ErrUDPHeader else None))"

definition EncodeUDPPacket :: "bytes option \<Rightarrow> bytes \<Rightarrow> (sock_error, bytes) go_result" where
  "EncodeUDPPacket a payload = (case a of None \<Rightarrow> Err ErrBadAddr | Some x \<Rightarrow> Ok ([0, 0, 0] @ x @ payload))"

section \<open>Handshakes of SOCKS 5\<close>

definition read_full :: "nat \<Rightarrow> 'a \<Rightarrow> (bytes \<Rightarrow> 'a proc) \<Rightarrow> 'a proc" where
  "read_full n e f = PRead n (\<lambda>r. case r of None \<Rightarrow> PRet e | Some b \<Rightarrow> f b)"

definition write_all :: "bytes \<Rightarrow> 'a \<Rightarrow> 'a proc \<Rightarrow> 'a proc" where
  "write_all b e p = PWrite b (\<lambda>ok. if ok then p else PRet e)"

text \<open>\<open>ReadAddr\<close> with a buffer of \<open>blen\<close> bytes, and \<open>ReadAddr0\<close>. The part of an address that comes with an error is left out.\<close>

definition ReadAddr :: "nat \<Rightarrow> (sock_error, bytes) go_result proc" where
  "ReadAddr blen =
     (if blen < MaxAddrLen then PRet (Err ErrShortBuffer)
      else read_full 1 (Err ErrIO) (\<lambda>t.
        if t ! 0 = 3 then read_full 1 (Err ErrIO) (\<lambda>l. read_full (unat (l ! 0) + 2) (Err ErrIO) (\<lambda>r. PRet (Ok (t @ l @ r))))
        else if t ! 0 = 1 then read_full (4 + 2) (Err ErrIO) (\<lambda>r. PRet (Ok (t @ r)))
        else if t ! 0 = 4 then read_full (16 + 2) (Err ErrIO) (\<lambda>r. PRet (Ok (t @ r)))
        else PRet (Err ErrAddressNotSupported)))"

definition ReadByte :: "(sock_error, u8) go_result proc" where
  "ReadByte = read_full 1 (Err ErrIO) (\<lambda>b. PRet (Ok (b ! 0)))"

definition ReadAddr0 :: "(sock_error, bytes) go_result proc" where
  "ReadAddr0 = pbind ReadByte (\<lambda>r. case r of
     Err e \<Rightarrow> PRet (Err e)
   | Ok aType \<Rightarrow>
       if aType = 3 then pbind ReadByte (\<lambda>r. case r of
         Err e \<Rightarrow> PRet (Err e)
       | Ok domainLength \<Rightarrow> read_full (unat domainLength + 2) (Err ErrIO) (\<lambda>b. PRet (Ok (aType # domainLength # b))))
       else if aType = 1 then read_full (4 + 2) (Err ErrIO) (\<lambda>b. PRet (Ok (aType # b)))
       else if aType = 4 then read_full (16 + 2) (Err ErrIO) (\<lambda>b. PRet (Ok (aType # b)))
       else PRet (Err ErrAddressNotSupported))"

text \<open>The named results of \<open>ServerHandshake\<close>. The authenticator is its \<open>Verify\<close>, the local address what \<open>ParseAddr\<close> makes of it.\<close>

record server_result =
  sr_addr :: "bytes option"
  sr_command :: u8
  sr_err :: "sock_error option"

definition sr_fail :: "sock_error \<Rightarrow> server_result" where
  "sr_fail e = \<lparr>sr_addr = None, sr_command = 0, sr_err = Some e\<rparr>"

text \<open>The end of it, from the request on.\<close>

definition server_request :: "bytes option \<Rightarrow> server_result proc" where
  "server_request local =
     read_full 3 (sr_fail ErrIO) (\<lambda>b. let command = b ! 1 in
     pbind (ReadAddr MaxAddrLen) (\<lambda>r. case r of
       Err e \<Rightarrow> PRet \<lparr>sr_addr = None, sr_command = command, sr_err = Some e\<rparr>
     | Ok a \<Rightarrow>
         if command = CmdConnect \<or> command = CmdUDPAssociate then
           (case local of
              None \<Rightarrow> PRet \<lparr>sr_addr = Some a, sr_command = command, sr_err = Some ErrAddressNotSupported\<rparr>
            | Some localAddr \<Rightarrow>
                PWrite ([5, 0, 0] @ localAddr)
                  (\<lambda>ok. PRet \<lparr>sr_addr = Some a, sr_command = command, sr_err = if ok then None else Some ErrIO\<rparr>))
         else PRet \<lparr>sr_addr = Some a, sr_command = command, sr_err = Some ErrCommandNotSupported\<rparr>))"

definition auth_failed :: "server_result proc" where
  "auth_failed = PWrite [1, 1] (\<lambda>ok. PRet (sr_fail ErrAuth))"

definition server_auth :: "(string \<Rightarrow> string \<Rightarrow> bool) \<Rightarrow> server_result proc \<Rightarrow> server_result proc" where
  "server_auth verify rest =
     write_all [5, 2] (sr_fail ErrIO)
       (read_full 2 (sr_fail ErrIO) (\<lambda>header. let userLen = unat (header ! 1) in
        if userLen \<le> 0 then auth_failed
        else read_full userLen (sr_fail ErrIO) (\<lambda>user.
             read_full 1 (sr_fail ErrIO) (\<lambda>header. let passLen = unat (header ! 0) in
             if passLen \<le> 0 then auth_failed
             else read_full passLen (sr_fail ErrIO) (\<lambda>pass.
                  if \<not> verify (bytes_str user) (bytes_str pass) then auth_failed
                  else write_all [1, 0] (sr_fail ErrIO) rest)))))"

definition ServerHandshake :: "(string \<Rightarrow> string \<Rightarrow> bool) option \<Rightarrow> bytes option \<Rightarrow> server_result proc" where
  "ServerHandshake auth local =
     read_full 2 (sr_fail ErrIO) (\<lambda>b. let nmethods = unat (b ! 1) in
     read_full nmethods (sr_fail ErrIO) (\<lambda>methods.
       case auth of
         Some verify \<Rightarrow> server_auth verify (server_request local)
       | None \<Rightarrow> write_all [5, 0] (sr_fail ErrIO) (server_request local)))"

text \<open>The end of \<open>ClientHandshake\<close>, and the whole; \<open>user\<close> is a name with its password.\<close>

definition client_request :: "bytes \<Rightarrow> u8 \<Rightarrow> (sock_error, bytes) go_result proc" where
  "client_request a command =
     write_all ([5, command, 0] @ a) (Err ErrIO) (read_full 3 (Err ErrIO) (\<lambda>b. ReadAddr MaxAddrLen))"

definition auth_msg :: "string \<times> string \<Rightarrow> bytes" where
  "auth_msg user =
     [1] @ [of_nat (length (fst user))] @ str_bytes (fst user) @ [of_nat (length (snd user))] @ str_bytes (snd user)"

definition ClientHandshake :: "bytes \<Rightarrow> u8 \<Rightarrow> (string \<times> string) option \<Rightarrow> (sock_error, bytes) go_result proc" where
  "ClientHandshake a command user =
     write_all (if user \<noteq> None then [5, 1, 2] else [5, 1, 0]) (Err ErrIO)
       (read_full 2 (Err ErrIO) (\<lambda>b.
          if b ! 0 \<noteq> 5 then PRet (Err ErrVersion)
          else if b ! 1 = 2 then
            (case user of
               None \<Rightarrow> PRet (Err ErrAuth)
             | Some u \<Rightarrow>
                 write_all (auth_msg u) (Err ErrIO)
                   (read_full 2 (Err ErrIO) (\<lambda>b. if b ! 1 \<noteq> 0 then PRet (Err ErrRejected) else client_request a command)))
          else if b ! 1 \<noteq> 0 then PRet (Err ErrNeedAuth)
          else client_request a command))"


section \<open>Packets and addresses\<close>

text \<open>The address is one whole SOCKS address.\<close>

definition wf_saddr :: "bytes \<Rightarrow> bool" where
  "wf_saddr a \<longleftrightarrow> SplitAddr a = Some a"

lemma SplitAddr_append: "wf_saddr a \<Longrightarrow> SplitAddr (a @ r) = Some a"
  by (auto simp: wf_saddr_def SplitAddr_def Let_def nth_append split: if_splits option.splits)

lemma wf_saddr_cases:
  assumes "wf_saddr a"
  obtains (name) l r where "a = [3] @ [l] @ r" "length r = unat l + 2"
  | (ip4) r where "a = [1] @ r" "length r = 6"
  | (ip6) r where "a = [4] @ r" "length r = 18"
proof -
  from assms obtain t b where a: "a = t # b" by (cases a) (auto simp: wf_saddr_def SplitAddr_def)
  from assms consider "t = 3" | "t = 1" | "t = 4" by (auto simp: a wf_saddr_def SplitAddr_def Let_def split: if_splits)
  then show thesis
  proof cases
    case 1
    with assms obtain l r where "b = l # r" by (cases b) (auto simp: a wf_saddr_def SplitAddr_def Let_def)
    with assms 1 show thesis by (intro name [of l r]) (auto simp: a wf_saddr_def SplitAddr_def Let_def split: if_splits)
  next
    case 2
    with assms show thesis by (intro ip4 [of b]) (auto simp: a wf_saddr_def SplitAddr_def Let_def split: if_splits)
  next
    case 3
    with assms show thesis by (intro ip6 [of b]) (auto simp: a wf_saddr_def SplitAddr_def Let_def split: if_splits)
  qed
qed

lemma SplitAddr_wf: "SplitAddr b = Some a \<Longrightarrow> wf_saddr a \<and> (\<exists>r. b = a @ r)"
proof -
  assume s: "SplitAddr b = Some a"
  then have "\<exists>n. a = take n b" by (auto simp: SplitAddr_def Let_def split: if_splits option.splits)
  then have "\<exists>r. b = a @ r" by (metis append_take_drop_id)
  moreover have "wf_saddr a" using s by (auto simp: wf_saddr_def SplitAddr_def Let_def min_def split: if_splits option.splits)
  ultimately show ?thesis by blast
qed

text \<open>C17: decoding a SOCKS 5 datagram undoes encoding, for every well formed address and any payload; and whatever packet is decoded
  without an error, its encoding is that packet.\<close>

theorem UDPPacket_round_trip:
  "(wf_saddr a \<longrightarrow> (\<exists>p. EncodeUDPPacket (Some a) payload = Ok p \<and> DecodeUDPPacket p = (Some a, payload, None))) \<and>
   (DecodeUDPPacket packet = (a', payload', None) \<longrightarrow> EncodeUDPPacket a' payload' = Ok packet)"
proof (intro conjI impI)
  assume "wf_saddr a"
  moreover from this have "2 \<le> length a" by (cases rule: wf_saddr_cases) auto
  ultimately show "\<exists>p. EncodeUDPPacket (Some a) payload = Ok p \<and> DecodeUDPPacket p = (Some a, payload, None)"
    using SplitAddr_append [of a payload] by (simp add: EncodeUDPPacket_def DecodeUDPPacket_def Let_def numeral_3_eq_3)
next
  assume d: "DecodeUDPPacket packet = (a', payload', None)"
  then have p: "5 \<le> length packet" "take 2 packet = [0, 0]" "packet ! 2 = 0" "SplitAddr (drop 3 packet) = a'" "a' \<noteq> None"
    by (auto simp: DecodeUDPPacket_def Let_def split: if_splits)
  then obtain a where a: "a' = Some a" "SplitAddr (drop 3 packet) = Some a" by auto
  from SplitAddr_wf [OF a(2)] obtain r where r: "drop 3 packet = a @ r" by blast
  have "take 3 packet = [0, 0, 0]" using p(1-3) take_Suc_conv_app_nth [of 2 packet] by (simp add: numeral_3_eq_3)
  then have pk: "packet = [0, 0, 0] @ a @ r" using r by (metis append_take_drop_id)
  with d a show "EncodeUDPPacket a' payload' = Ok packet"
    by (auto simp: DecodeUDPPacket_def EncodeUDPPacket_def Let_def pk numeral_3_eq_3 split: if_splits)
qed


lemma UDPPacket_round_trip_witness:
  "\<exists>p. EncodeUDPPacket (Some [1, 127, 0, 0, 1, 0, 80]) [9] = Ok p \<and> DecodeUDPPacket p = (Some [1, 127, 0, 0, 1, 0, 80], [9], None)"
  using UDPPacket_round_trip [of "[1, 127, 0, 0, 1, 0, 80]" "[9]" "[]" None "[]"]
  by (simp add: wf_saddr_def SplitAddr_def)

section \<open>The handshake of SOCKS 5\<close>

lemma acts_read_full: "n = length b \<Longrightarrow> acts (f b, r, out) u \<Longrightarrow> acts (read_full n e f, b @ r, out) u"
  unfolding read_full_def by (rule acts_read) simp_all

lemma acts_write_all: "acts (p, inp, out @ b) u \<Longrightarrow> acts (write_all b e p, inp, out) u"
  unfolding write_all_def by (rule acts_write) simp

text \<open>Reading an address, in front of what follows.\<close>

lemma acts_pbind_read: "n = length b \<Longrightarrow> acts (pbind (g b) f, r, out) u \<Longrightarrow> acts (pbind (read_full n e g) f, b @ r, out) u"
  unfolding read_full_def pbind_simps by (rule acts_read) simp_all

lemma acts_ReadAddr:
  assumes "wf_saddr a" "acts (f (Ok a), r, out) u"
  shows "acts (pbind (ReadAddr MaxAddrLen) f, a @ r, out) u"
  using assms(1)
proof (cases rule: wf_saddr_cases)
  case (name l b)
  have "acts (pbind (ReadAddr MaxAddrLen) f, [3] @ [l] @ b @ r, out) u"
    unfolding ReadAddr_def using name assms(2)
    by (auto intro!: acts_pbind_read simp del: append_Cons append_Nil simp: nth_Cons_0)
  then show ?thesis by (simp add: name)
next
  case (ip4 b)
  have "acts (pbind (ReadAddr MaxAddrLen) f, [1] @ b @ r, out) u"
    unfolding ReadAddr_def using ip4 assms(2)
    by (auto intro!: acts_pbind_read simp del: append_Cons append_Nil simp: nth_Cons_0)
  then show ?thesis by (simp add: ip4)
next
  case (ip6 b)
  have "acts (pbind (ReadAddr MaxAddrLen) f, [4] @ b @ r, out) u"
    unfolding ReadAddr_def using ip6 assms(2)
    by (auto intro!: acts_pbind_read simp del: append_Cons append_Nil simp: nth_Cons_0)
  then show ?thesis by (simp add: ip6)
qed

lemma pbind_PRet: "pbind p PRet = p"
proof (coinduction arbitrary: p rule: proc.coinduct_strong)
  case Eq_proc
  then show ?case by (cases p) (auto simp: rel_fun_def)
qed


lemma acts_ReadAddr_end: "wf_saddr a \<Longrightarrow> acts (ReadAddr MaxAddrLen, a @ r, out) (PRet (Ok a), r, out)"
  using acts_ReadAddr [of a PRet r out "(PRet (Ok a), r, out)"] by (simp add: pbind_PRet)

text \<open>The client, from its request on, whatever the reply code \<open>rep\<close> of the server is.\<close>

lemma client_reply:
  "wf_saddr l \<Longrightarrow> acts (read_full 3 (Err ErrIO) (\<lambda>b. ReadAddr MaxAddrLen), [5, rep, 0] @ l, out) (PRet (Ok l), [], out)"
  using acts_ReadAddr_end [of l "[]" out] by (intro acts_read_full) simp_all

lemma server_request_acts:
  assumes "wf_saddr a" "cmd = CmdConnect \<or> cmd = CmdUDPAssociate"
  shows "acts (server_request (Some l), [5, cmd, 0] @ a, out)
     (PRet \<lparr>sr_addr = Some a, sr_command = cmd, sr_err = None\<rparr>, [], out @ [5, 0, 0] @ l)"
proof -
  define f where "f = (\<lambda>r. case r of
       Err e \<Rightarrow> PRet \<lparr>sr_addr = None, sr_command = cmd, sr_err = Some e\<rparr>
     | Ok a \<Rightarrow>
         if cmd = CmdConnect \<or> cmd = CmdUDPAssociate then
           PWrite ([5, 0, 0] @ l) (\<lambda>ok. PRet \<lparr>sr_addr = Some a, sr_command = cmd, sr_err = if ok then None else Some ErrIO\<rparr>)
         else PRet \<lparr>sr_addr = Some a, sr_command = cmd, sr_err = Some ErrCommandNotSupported\<rparr>)"
  have "f (Ok a) = PWrite ([5, 0, 0] @ l) (\<lambda>ok. PRet \<lparr>sr_addr = Some a, sr_command = cmd, sr_err = if ok then None else Some ErrIO\<rparr>)"
    using assms(2) by (simp only: f_def go_result.case if_True)
  then have "acts (f (Ok a), [], out) (PRet \<lparr>sr_addr = Some a, sr_command = cmd, sr_err = None\<rparr>, [], out @ [5, 0, 0] @ l)"
    by (simp only:) (rule acts_write, simp)
  from acts_ReadAddr [where f = f, OF assms(1) this]
  have "acts (pbind (ReadAddr MaxAddrLen) f, a, out) (PRet \<lparr>sr_addr = Some a, sr_command = cmd, sr_err = None\<rparr>, [], out @ [5, 0, 0] @ l)"
    by (simp only: append_Nil2)
  note h = this
  have e: "[5, cmd, 0] ! 1 = cmd" by simp
  show ?thesis unfolding server_request_def option.case
    by (rule acts_read_full, simp, unfold Let_def e, fold f_def, rule h)
qed

lemma request_phase:
  assumes "wf_saddr a" "wf_saddr l" "cmd = CmdConnect \<or> cmd = CmdUDPAssociate"
  shows "duo_steps (client_request a cmd, server_request (Some l), [], [])
     (PRet (Ok l), PRet \<lparr>sr_addr = Some a, sr_command = cmd, sr_err = None\<rparr>, [], [])"
proof -
  let ?c = "read_full 3 (Err ErrIO) (\<lambda>b. ReadAddr MaxAddrLen)"
  let ?s = "PRet \<lparr>sr_addr = Some a, sr_command = cmd, sr_err = None\<rparr>"
  have "duo_steps (client_request a cmd, server_request (Some l), [], []) (?c, server_request (Some l), [5, cmd, 0] @ a, [])"
    by (rule acts_duo1) (simp add: client_request_def acts_write_all)
  also have "duo_steps \<dots> (?c, ?s, [], [] @ [5, 0, 0] @ l)"
    by (rule acts_duo2) (rule server_request_acts [OF assms(1,3)])
  also have "duo_steps \<dots> (PRet (Ok l), ?s, [], [])"
    by (rule acts_duo1) (use client_reply [OF assms(2)] in simp)
  finally show ?thesis .
qed

lemma method_phase:
  "duo_steps (ClientHandshake a cmd user, ServerHandshake None local, [], []) (client_request a cmd, server_request local, [], [])"
proof -
  define m :: u8 where "m = (if user \<noteq> None then 2 else 0)"
  define c1 where "c1 = read_full 2 (Err ErrIO) (\<lambda>b.
          if b ! 0 \<noteq> 5 then PRet (Err ErrVersion)
          else if b ! 1 = 2 then
            (case user of
               None \<Rightarrow> PRet (Err ErrAuth)
             | Some u \<Rightarrow>
                 write_all (auth_msg u) (Err ErrIO)
                   (read_full 2 (Err ErrIO) (\<lambda>b. if b ! 1 \<noteq> 0 then PRet (Err ErrRejected) else client_request a cmd)))
          else if b ! 1 \<noteq> 0 then PRet (Err ErrNeedAuth)
          else client_request a cmd)"
  have "duo_steps (ClientHandshake a cmd user, ServerHandshake None local, [], []) (c1, ServerHandshake None local, [5, 1] @ [m] @ [], [])"
    by (rule acts_duo1) (simp add: ClientHandshake_def c1_def m_def acts_write_all)
  also have "duo_steps \<dots> (c1, server_request local, [], [5, 0])"
    by (rule acts_duo2) (unfold ServerHandshake_def Let_def option.case, intro acts_read_full acts_write_all, simp_all)
  also have "duo_steps \<dots> (client_request a cmd, server_request local, [], [])"
  proof (rule acts_duo1)
    have "acts (c1, [5, 0] @ [], []) (client_request a cmd, [], [])" unfolding c1_def by (rule acts_read_full) simp_all
    then show "acts (c1, [5, 0], []) (client_request a cmd, [], [])" by simp
  qed
  finally show ?thesis .
qed

text \<open>The server asks for a password, and reads it.\<close>

definition short :: "string \<Rightarrow> bool" where
  "short s \<longleftrightarrow> 0 < length s \<and> length s \<le> 255"

lemma short_byte: "short s \<Longrightarrow> unat (of_nat (length s) :: u8) = length s"
  by (simp add: short_def unat_of_nat take_bit_eq_mod)

lemma bytes_str_str_bytes_self: "bytes_str (str_bytes s) = s"
  by simp

lemma auth_phase:
  assumes "short (fst u)" "short (snd u)"
  shows "duo_steps (ClientHandshake a cmd (Some u), ServerHandshake (Some verify) local, [], [])
     (if verify (fst u) (snd u) then (client_request a cmd, server_request local, [], [])
      else (PRet (Err ErrRejected), PRet (sr_fail ErrAuth), [], []))"
proof -
  define c2 where "c2 = read_full 2 (Err ErrIO) (\<lambda>b. if b ! 1 \<noteq> 0 then PRet (Err ErrRejected) else client_request a cmd)"
  define c1 where "c1 = read_full 2 (Err ErrIO) (\<lambda>b.
          if b ! 0 \<noteq> 5 then PRet (Err ErrVersion)
          else if b ! 1 = 2 then write_all (auth_msg u) (Err ErrIO) c2
          else if b ! 1 \<noteq> 0 then PRet (Err ErrNeedAuth)
          else client_request a cmd)"
  define s1 where "s1 = read_full 2 (sr_fail ErrIO) (\<lambda>header. let userLen = unat (header ! 1) in
        if userLen \<le> 0 then auth_failed
        else read_full userLen (sr_fail ErrIO) (\<lambda>user.
             read_full 1 (sr_fail ErrIO) (\<lambda>header. let passLen = unat (header ! 0) in
             if passLen \<le> 0 then auth_failed
             else read_full passLen (sr_fail ErrIO) (\<lambda>pass.
                  if \<not> verify (bytes_str user) (bytes_str pass) then auth_failed
                  else write_all [1, 0] (sr_fail ErrIO) (server_request local)))))"
  let ?ok = "verify (fst u) (snd u)"
  let ?s2 = "if ?ok then server_request local else PRet (sr_fail ErrAuth)"
  let ?reply = "if ?ok then [1, 0] else [1, 1] :: bytes"
  have "duo_steps (ClientHandshake a cmd (Some u), ServerHandshake (Some verify) local, [], [])
      (c1, ServerHandshake (Some verify) local, [5, 1] @ [2] @ [], [])"
    by (rule acts_duo1) (unfold ClientHandshake_def option.case, fold c2_def, fold c1_def, rule acts_write_all, simp)
  also have "duo_steps \<dots> (c1, s1, [], [5, 2])"
    by (rule acts_duo2)
      (unfold ServerHandshake_def Let_def option.case server_auth_def s1_def, intro acts_read_full acts_write_all, simp_all)
  also have "duo_steps \<dots> (c2, s1, auth_msg u, [])"
  proof (rule acts_duo1)
    have "acts (write_all (auth_msg u) (Err ErrIO) c2, [], []) (c2, [], auth_msg u)" by (rule acts_write_all) simp
    then have "acts (c1, [5, 2] @ [], []) (c2, [], auth_msg u)" unfolding c1_def by (intro acts_read_full) simp_all
    then show "acts (c1, [5, 2], []) (c2, [], auth_msg u)" by simp
  qed
  also have "duo_steps \<dots> (c2, ?s2, [], ?reply)"
  proof (rule acts_duo2)
    have e1: "[1, of_nat (length (fst u))] ! 1 = (of_nat (length (fst u)) :: u8)" by simp
    have len: "unat (of_nat (length (fst u)) :: u8) = length (fst u)" "unat (of_nat (length (snd u)) :: u8) = length (snd u)"
      using assms short_byte by auto
    have ne: "(length (fst u) \<le> 0) = False" "(length (snd u) \<le> 0) = False" using assms by (simp_all add: short_def)
    have "acts (if \<not> ?ok then auth_failed else write_all [1, 0] (sr_fail ErrIO) (server_request local), [], [])
        (?s2, [], ?reply)"
      by (auto intro!: acts_write_all acts_write simp: auth_failed_def)
    note h = this
    have "acts (read_full (length (snd u)) (sr_fail ErrIO) (\<lambda>pass.
          if \<not> verify (bytes_str (str_bytes (fst u))) (bytes_str pass) then auth_failed
          else write_all [1, 0] (sr_fail ErrIO) (server_request local)), str_bytes (snd u) @ [], []) (?s2, [], ?reply)"
      by (rule acts_read_full, simp, unfold bytes_str_bytes, rule h)
    note h = this
    have "acts (read_full 1 (sr_fail ErrIO) (\<lambda>header. let passLen = unat (header ! 0) in
             if passLen \<le> 0 then auth_failed
             else read_full passLen (sr_fail ErrIO) (\<lambda>pass.
                  if \<not> verify (bytes_str (str_bytes (fst u))) (bytes_str pass) then auth_failed
                  else write_all [1, 0] (sr_fail ErrIO) (server_request local))),
          [of_nat (length (snd u))] @ str_bytes (snd u) @ [], []) (?s2, [], ?reply)"
      by (rule acts_read_full, simp, unfold Let_def nth_Cons_0 len ne if_False, rule h)
    note h = this
    have "acts (read_full (length (fst u)) (sr_fail ErrIO) (\<lambda>user.
             read_full 1 (sr_fail ErrIO) (\<lambda>header. let passLen = unat (header ! 0) in
             if passLen \<le> 0 then auth_failed
             else read_full passLen (sr_fail ErrIO) (\<lambda>pass.
                  if \<not> verify (bytes_str user) (bytes_str pass) then auth_failed
                  else write_all [1, 0] (sr_fail ErrIO) (server_request local)))),
          str_bytes (fst u) @ [of_nat (length (snd u))] @ str_bytes (snd u) @ [], []) (?s2, [], ?reply)"
      by (rule acts_read_full, simp, rule h)
    note h = this
    have "acts (s1, [1, of_nat (length (fst u))] @ str_bytes (fst u) @ [of_nat (length (snd u))] @ str_bytes (snd u) @ [], []) (?s2, [], ?reply)"
      unfolding s1_def by (rule acts_read_full, simp, unfold e1 Let_def len ne if_False, rule h [unfolded Let_def])
    then show "acts (s1, auth_msg u, []) (?s2, [], ?reply)" by (simp add: auth_msg_def)
  qed
  also have "duo_steps \<dots> (if ?ok then client_request a cmd else PRet (Err ErrRejected), ?s2, [], [])"
  proof (rule acts_duo1)
    have "acts (c2, ?reply @ [], []) (if ?ok then client_request a cmd else PRet (Err ErrRejected), [], [])"
      unfolding c2_def by (rule acts_read_full) auto
    then show "acts (c2, ?reply, []) (if ?ok then client_request a cmd else PRet (Err ErrRejected), [], [])"
      by (simp only: append_Nil2)
  qed
  finally show ?thesis by (cases ?ok) (simp_all only: if_True if_False)
qed


text \<open>C9: between the client and the server of this program every run of the handshake, however the two are interleaved, ends within
  a bounded number of steps, and always in the same way: the server holds the address and the command that were asked for, the client
  the address the server bound, and no byte is left over. The command is \<open>CONNECT\<close> or \<open>UDP ASSOCIATE\<close>, the two that the program asks for
  (the server refuses \<open>BIND\<close>), both addresses are whole SOCKS addresses, and a server with users must hold the name and the password of
  the client, both of 1 to 255 bytes.\<close>

theorem socks5_handshake:
  assumes "wf_saddr a" "wf_saddr l" "cmd = CmdConnect \<or> cmd = CmdUDPAssociate"
    and "case auth of None \<Rightarrow> True | Some verify \<Rightarrow>
           (case user of None \<Rightarrow> False | Some u \<Rightarrow> short (fst u) \<and> short (snd u) \<and> verify (fst u) (snd u))"
  shows "\<exists>n. \<forall>st m. (duo_step ^^ m) (ClientHandshake a cmd user, ServerHandshake auth (Some l), [], []) st \<longrightarrow>
     m \<le> n \<and> duo_steps st (PRet (Ok l), PRet \<lparr>sr_addr = Some a, sr_command = cmd, sr_err = None\<rparr>, [], [])"
proof (rule duo_always_ends)
  have "duo_steps (ClientHandshake a cmd user, ServerHandshake auth (Some l), [], []) (client_request a cmd, server_request (Some l), [], [])"
  proof (cases auth)
    case (Some verify)
    with assms(4) obtain u where u: "user = Some u" "short (fst u)" "short (snd u)" "verify (fst u) (snd u)"
      by (auto split: option.splits)
    show ?thesis using auth_phase [OF u(2,3), of a cmd verify "Some l"] u(4) by (simp only: u(1) Some if_True)
  qed (simp only: method_phase)
  then show "duo_steps (ClientHandshake a cmd user, ServerHandshake auth (Some l), [], [])
      (PRet (Ok l), PRet \<lparr>sr_addr = Some a, sr_command = cmd, sr_err = None\<rparr>, [], [])"
    using request_phase [OF assms(1-3)] by (rule rtranclp_trans)
qed

lemma socks5_handshake_witness:
  "\<exists>n. \<forall>st m. (duo_step ^^ m) (ClientHandshake [3, 1, 97, 0, 80] 1 (Some (''u'', ''p'')),
       ServerHandshake (Some (\<lambda>u p. u = ''u'' \<and> p = ''p'')) (Some [1, 127, 0, 0, 1, 4, 56]), [], []) st \<longrightarrow>
     m \<le> n \<and> duo_steps st (PRet (Ok [1, 127, 0, 0, 1, 4, 56]), PRet \<lparr>sr_addr = Some [3, 1, 97, 0, 80], sr_command = 1, sr_err = None\<rparr>, [], [])"
  by (rule socks5_handshake) (simp_all add: wf_saddr_def SplitAddr_def CmdConnect_def short_def)

text \<open>C27: a client whose password is not accepted is told so: every run ends, the server with its authentication error and the client with
  its rejection, before any address is sent. The name and the password are of 1 to 255 bytes.\<close>

theorem socks5_wrong_password:
  assumes "short (fst u)" "short (snd u)" "\<not> verify (fst u) (snd u)"
  shows "\<exists>n. \<forall>st m. (duo_step ^^ m) (ClientHandshake a cmd (Some u), ServerHandshake (Some verify) local, [], []) st \<longrightarrow>
     m \<le> n \<and> duo_steps st (PRet (Err ErrRejected), PRet (sr_fail ErrAuth), [], [])"
  using auth_phase [OF assms(1,2), of a cmd verify local] assms(3) by (intro duo_always_ends) (simp only: if_False)

lemma socks5_wrong_password_witness:
  "\<exists>n. \<forall>st m. (duo_step ^^ m) (ClientHandshake [3, 1, 97, 0, 80] 1 (Some (''u'', ''q'')), ServerHandshake (Some (\<lambda>u p. p = ''p'')) None, [], []) st \<longrightarrow>
     m \<le> n \<and> duo_steps st (PRet (Err ErrRejected), PRet (sr_fail ErrAuth), [], [])"
  using socks5_wrong_password [of "(''u'', ''q'')" "\<lambda>u p. p = ''p''" "[3, 1, 97, 0, 80]" 1 None] by (simp add: short_def)

text \<open>The reply code of the server is read and not looked at: the client reports success when the server refused the connection.\<close>

lemma socks5_reply_ignored:
  "wf_saddr l \<Longrightarrow> acts (client_request a cmd, [5, rep, 0] @ l, []) (PRet (Ok l), [], [5, cmd, 0] @ a)"
  unfolding client_request_def by (rule acts_write_all) (simp only: append_Nil client_reply)

text \<open>The length of the name is one byte: a name of 256 bytes is announced as empty, and refused whatever the server knows.\<close>

lemma socks5_long_name:
  assumes "length (fst u) = 256"
  shows "\<exists>rest. auth_msg u = [1, 0] @ rest"
    and "acts (server_auth (\<lambda>n p. True) q, [1, 0] @ rest, []) (PRet (sr_fail ErrAuth), rest, [5, 2] @ [1, 1])"
proof -
  have "(256 :: u8) = 0" by simp
  then show "\<exists>rest. auth_msg u = [1, 0] @ rest" using assms by (simp add: auth_msg_def)
  have "acts (auth_failed, rest, [5, 2]) (PRet (sr_fail ErrAuth), rest, [5, 2] @ [1, 1])"
    unfolding auth_failed_def by (rule acts_write) simp
  note h = this
  have e: "[1 :: u8, 0] ! 1 = 0" "unat (0 :: u8) = 0" by simp_all
  show "acts (server_auth (\<lambda>n p. True) q, [1, 0] @ rest, []) (PRet (sr_fail ErrAuth), rest, [5, 2] @ [1, 1])"
    unfolding server_auth_def
    by (rule acts_write_all, rule acts_read_full, simp, unfold Let_def e if_True append_Nil, simp only: order_refl if_True h)
qed

end
