(* ===== verification/Socks4.thy ===== *)
theory Socks4
  imports Socks
begin

text \<open>
  SOCKS 4 and 4A (\<open>transport/socks4/socks4.go\<close>), over the same connections. \<open>netip.ParseAddr\<close> and \<open>netip.Addr.String\<close>
  are arguments.
\<close>

section \<open>The handshakes\<close>

definition RequestGranted :: u8 where "RequestGranted = 90"
definition RequestRejected :: u8 where "RequestRejected = 91"
definition RequestIdentdFailed :: u8 where "RequestIdentdFailed = 92"
definition RequestIdentdMismatched :: u8 where "RequestIdentdMismatched = 93"

definition isReservedIP :: "addr \<Rightarrow> bool" where
  "isReservedIP ip \<longleftrightarrow> \<not> addr_is_unspecified ip \<and> prefix_contains (prefix_from (Addr4 0) 24) ip"

text \<open>The loop of \<open>readUntilNull\<close>: what it has read so far, or its result. A read of one byte gives one byte or fails.\<close>

datatype until_state = is_Reading: Reading (buf_of: bytes) | is_Finished: Finished (result_of: "(sock_error, bytes) go_result")

definition until_next :: "bytes \<Rightarrow> bytes option \<Rightarrow> until_state" where
  "until_next buf r =
     (case r of
        None \<Rightarrow> Finished (Err ErrIO)
      | Some b \<Rightarrow> if b ! 0 = 0 then Finished (Ok buf) else Reading (buf @ [b ! 0]))"

primcorec until_loop :: "until_state \<Rightarrow> (sock_error, bytes) go_result proc" where
  "until_loop st =
     (if is_Finished st then PRet (result_of st) else PRead 1 (\<lambda>r. until_loop (until_next (buf_of st) r)))"

definition readUntilNull :: "(sock_error, bytes) go_result proc" where
  "readUntilNull = until_loop (Reading [])"

text \<open>The named results of the server: the address, the command and the error.\<close>

record server4_result =
  s4_addr :: string
  s4_command :: u8
  s4_err :: "sock_error option"

definition s4_fail :: "u8 \<Rightarrow> sock_error \<Rightarrow> server4_result proc" where
  "s4_fail command e = PRet \<lparr>s4_addr = [], s4_command = command, s4_err = Some e\<rparr>"

definition server4_reply ::
  "(addr \<Rightarrow> string) \<Rightarrow> (string \<Rightarrow> string \<Rightarrow> bool) option \<Rightarrow> bytes \<Rightarrow> bytes \<Rightarrow> string \<Rightarrow> server4_result proc" where
  "server4_reply addr_str auth req userID host =
     (let dstIP = addr_from_slice (take 4 (drop 4 req));
          dstPort = take 2 (drop 2 req);
          port = format_uint (be16_of (dstPort ! 0) (dstPort ! 1));
          a = (if host \<noteq> [] then JoinHostPort host port else JoinHostPort (addr_str dstIP) port);
          ok = (case auth of None \<Rightarrow> True | Some verify \<Rightarrow> verify (bytes_str userID) []);
          code = (if ok then RequestGranted else RequestIdentdMismatched);
          err = (if ok then None else Some ErrIdentdMismatched)
      in PWrite ([0, code] @ dstPort @ addr_as_slice dstIP)
           (\<lambda>wok. PRet \<lparr>s4_addr = a, s4_command = req ! 1, s4_err = if err = None \<and> \<not> wok then Some ErrIO else err\<rparr>))"

definition ServerHandshake4 :: "(addr \<Rightarrow> string) \<Rightarrow> (string \<Rightarrow> string \<Rightarrow> bool) option \<Rightarrow> server4_result proc" where
  "ServerHandshake4 addr_str auth =
     read_full 8 \<lparr>s4_addr = [], s4_command = 0, s4_err = Some ErrIO\<rparr> (\<lambda>req.
       if req ! 0 \<noteq> 4 then s4_fail 0 ErrVersionMismatched
       else if req ! 1 \<noteq> 1 then s4_fail (req ! 1) ErrCommandUnsupported
       else pbind readUntilNull (\<lambda>r. case r of
         Err e \<Rightarrow> s4_fail (req ! 1) e
       | Ok userID \<Rightarrow>
           if isReservedIP (addr_from_slice (take 4 (drop 4 req))) then
             pbind readUntilNull (\<lambda>r. case r of
               Err e \<Rightarrow> s4_fail (req ! 1) e
             | Ok target \<Rightarrow> server4_reply addr_str auth req userID (bytes_str target))
           else server4_reply addr_str auth req userID []))"

definition client4_request :: "addr \<Rightarrow> string \<Rightarrow> nat \<Rightarrow> u8 \<Rightarrow> string \<Rightarrow> bytes" where
  "client4_request dstIP host port command userID =
     [4, command] @ be16 port @ addr_as_slice dstIP @ str_bytes userID @ [0] @
     (if isReservedIP dstIP then str_bytes host @ [0] else [])"

definition client4_answer :: "bytes \<Rightarrow> sock_error option" where
  "client4_answer resp =
     (if resp ! 0 \<noteq> 0 then Some ErrVersionMismatched
      else if resp ! 1 = RequestGranted then None
      else if resp ! 1 = RequestRejected then Some ErrRequestRejected
      else if resp ! 1 = RequestIdentdFailed then Some ErrIdentdFailed
      else if resp ! 1 = RequestIdentdMismatched then Some ErrIdentdMismatched
      else Some ErrUnknownCode)"

text \<open>The result is the error.\<close>

definition ClientHandshake4 :: "(string \<Rightarrow> addr option) \<Rightarrow> string \<Rightarrow> u8 \<Rightarrow> string \<Rightarrow> sock_error option proc" where
  "ClientHandshake4 parse_addr a command userID =
     (case SplitHostPort a of
        None \<Rightarrow> PRet (Some ErrSplitHost)
      | Some (host, portStr) \<Rightarrow>
          (case parse_uint 16 portStr of
             None \<Rightarrow> PRet (Some ErrPort)
           | Some port \<Rightarrow>
               let dstIP = (case parse_addr host of None \<Rightarrow> Addr4 1 | Some ip \<Rightarrow> ip)
               in if (case dstIP of Addr6 w z \<Rightarrow> True | _ \<Rightarrow> False) then PRet (Some ErrIPv6NotSupported)
                  else write_all (client4_request dstIP host port command userID) (Some ErrIO)
                         (read_full 8 (Some ErrIO) (\<lambda>resp. PRet (client4_answer resp)))))"

section \<open>They agree\<close>

lemma until_loop_simps:
  "until_loop (Finished r) = PRet r"
  "until_loop (Reading buf) = PRead 1 (\<lambda>r. until_loop (until_next buf r))"
  by (subst until_loop.code, simp)+

lemma acts_until:
  assumes "0 \<notin> set w" "acts (f (Ok (buf @ w)), r, out) u"
  shows "acts (pbind (until_loop (Reading buf)) f, w @ [0] @ r, out) u"
  using assms
proof (induction w arbitrary: buf)
  case Nil
  have "acts (pbind (until_loop (until_next buf (Some [0]))) f, r, out) u" using Nil by (simp add: until_next_def until_loop_simps)
  then have "acts (PRead 1 (\<lambda>x. pbind (until_loop (until_next buf x)) f), [0] @ r, out) u" by (intro acts_read) simp_all
  then show ?case by (simp add: until_loop_simps)
next
  case (Cons b w)
  have "acts (pbind (until_loop (Reading (buf @ [b]))) f, w @ [0] @ r, out) u" using Cons by (intro Cons.IH) simp_all
  moreover have "until_next buf (Some [b]) = Reading (buf @ [b])" using Cons.prems(1) by (auto simp: until_next_def)
  ultimately have "acts (pbind (until_loop (until_next buf (Some [b]))) f, w @ [0] @ r, out) u" by simp
  then have "acts (PRead 1 (\<lambda>x. pbind (until_loop (until_next buf x)) f), [b] @ w @ [0] @ r, out) u" by (intro acts_read) simp_all
  then show ?case by (simp add: until_loop_simps)
qed

lemma str_bytes_no_null: "CHR 0x00 \<notin> set s \<Longrightarrow> 0 \<notin> set (str_bytes s)"
proof
  assume n: "CHR 0x00 \<notin> set s" and "0 \<in> set (str_bytes s)"
  then obtain c where c: "c \<in> set s" "(of_nat (of_char c) :: u8) = 0" by (auto simp: str_bytes_def)
  have "bytes_str (str_bytes [c]) = [c]" by (rule bytes_str_bytes)
  then have "c = char_of (0 :: nat)" using c(2) by (simp only: bytes_str_def str_bytes_def list.map unsigned_0 list.inject)
  then have "c = CHR 0x00" by (simp add: char_of_def)
  with c(1) n show False by simp
qed

lemma addr4_slice: "length (addr_as_slice (Addr4 w)) = 4" "addr_from_slice (addr_as_slice (Addr4 w)) = Addr4 w"
  by (simp_all add: addr_from_slice_def be_word_be_bytes)


text \<open>A reply, as the server writes it and the client reads it.\<close>

definition granted :: "(string \<Rightarrow> string \<Rightarrow> bool) option \<Rightarrow> string \<Rightarrow> bool" where
  "granted auth u \<longleftrightarrow> (case auth of None \<Rightarrow> True | Some verify \<Rightarrow> verify u [])"

lemma server4_reply_acts:
  assumes "length req = 8" "take 4 (drop 4 req) = addr_as_slice (Addr4 w)" "take 2 (drop 2 req) = be16 port" "port < 65536"
    and "userID = str_bytes u" "req ! 1 = cmd"
  shows "acts (server4_reply addr_str auth req userID host, [], out)
    (PRet \<lparr>s4_addr = JoinHostPort (if host \<noteq> [] then host else addr_str (Addr4 w)) (format_uint port), s4_command = cmd,
           s4_err = if granted auth u then None else Some ErrIdentdMismatched\<rparr>, [],
     out @ [0, if granted auth u then RequestGranted else RequestIdentdMismatched] @ be16 port @ addr_as_slice (Addr4 w))"
proof -
  have p: "be16_of (be16 port ! 0) (be16 port ! 1) = port" using be16_of_be16 [OF assms(4)] by (simp add: be16_def)
  have a: "addr_from_slice (take 4 (drop 4 req)) = Addr4 w" by (simp only: assms(2) addr4_slice)
  show ?thesis unfolding server4_reply_def Let_def a assms(3,5,6) p granted_def bytes_str_bytes
    by (rule acts_write) (cases "case auth of None \<Rightarrow> True | Some verify \<Rightarrow> verify u []"; cases "host = []";
        simp only: if_True if_False simp_thms option.distinct not_None_eq rtranclp.rtrancl_refl)
qed

lemma client4_answer_acts:
  assumes "length rest = 6"
  shows "acts (read_full 8 (Some ErrIO) (\<lambda>resp. PRet (client4_answer resp)), [0, code] @ rest, out) (PRet (client4_answer [0, code]), [], out)"
proof -
  have "client4_answer ([0, code] @ rest) = client4_answer [0, code]" by (simp add: client4_answer_def)
  then have "acts (read_full 8 (Some ErrIO) (\<lambda>resp. PRet (client4_answer resp)), ([0, code] @ rest) @ [], out) (PRet (client4_answer [0, code]), [], out)"
    using assms by (intro acts_read_full) simp_all
  then show ?thesis by simp
qed

text \<open>The server reads the request of the client.\<close>

lemma server4_acts:
  assumes "port < 65536" "CHR 0x00 \<notin> set u" "CHR 0x00 \<notin> set host"
    and k: "\<And>req. \<lbrakk>length req = 8; take 4 (drop 4 req) = addr_as_slice (Addr4 w); take 2 (drop 2 req) = be16 port; req ! 1 = CmdConnect\<rbrakk>
       \<Longrightarrow> acts (server4_reply addr_str auth req (str_bytes u) (if isReservedIP (Addr4 w) then host else []), [], out) t"
  shows "acts (ServerHandshake4 addr_str auth, client4_request (Addr4 w) host port CmdConnect u, out) t"
proof -
  define req where "req = [4, CmdConnect] @ be16 port @ addr_as_slice (Addr4 w)"
  have l: "length req = 8" using addr4_slice(1) [of w] by (simp add: req_def del: addr_as_slice.simps)
  have d: "take 4 (drop 4 req) = addr_as_slice (Addr4 w)" "take 2 (drop 2 req) = be16 port" "req ! 1 = CmdConnect" "req ! 0 = 4"
    using addr4_slice(1) [of w] by (simp_all add: req_def be16_def del: addr_as_slice.simps)
  note k = k [OF l d(1,2,3)]
  have a: "addr_from_slice (take 4 (drop 4 req)) = Addr4 w" by (simp only: d addr4_slice)
  define f where "f = (\<lambda>r. case r of
         Err e \<Rightarrow> s4_fail (req ! 1) e
       | Ok userID \<Rightarrow>
           if isReservedIP (addr_from_slice (take 4 (drop 4 req))) then
             pbind readUntilNull (\<lambda>r. case r of
               Err e \<Rightarrow> s4_fail (req ! 1) e
             | Ok target \<Rightarrow> server4_reply addr_str auth req userID (bytes_str target))
           else server4_reply addr_str auth req userID [])"
  define tail where "tail = (if isReservedIP (Addr4 w) then str_bytes host @ [0] else [])"
  have "acts (f (Ok (str_bytes u)), tail, out) t"
  proof (cases "isReservedIP (Addr4 w)")
    case True
    have "acts (pbind readUntilNull (\<lambda>r. case r of
               Err e \<Rightarrow> s4_fail (req ! 1) e
             | Ok target \<Rightarrow> server4_reply addr_str auth req (str_bytes u) (bytes_str target)), str_bytes host @ [0] @ [], out) t"
      unfolding readUntilNull_def
      by (rule acts_until) (use str_bytes_no_null [OF assms(3)] k True in simp_all)
    with True show ?thesis by (simp add: f_def a tail_def del: One_nat_def)
  qed (use k in \<open>simp add: f_def a tail_def\<close>)
  then have h: "acts (pbind readUntilNull f, str_bytes u @ [0] @ tail, out) t"
    unfolding readUntilNull_def by (intro acts_until) (use str_bytes_no_null [OF assms(2)] in simp_all)
  have c: "(CmdConnect \<noteq> 1) = False" by (simp add: CmdConnect_def)
  have "acts (ServerHandshake4 addr_str auth, req @ str_bytes u @ [0] @ tail, out) t"
    unfolding ServerHandshake4_def
    by (rule acts_read_full) (simp only: l, simp only: d not_True_eq_False if_False c, fold f_def d(3), use h in \<open>simp only: simp_thms if_False f_def d\<close>)
  then show ?thesis by (simp add: req_def tail_def client4_request_def)
qed


text \<open>C13: every run of the SOCKS 4 handshake for \<open>CONNECT\<close> between the client and the server of this program ends, however the two are
  interleaved, and in the same way: the server holds the host that was asked for (its name by SOCKS 4A, or its address) with the port, and both
  peers know whether the user was accepted. The address that is asked for is a host with a port number; the host is a name or an IPv4
  address (for an IPv6 address the client gives up before it writes anything), is not empty, and neither it nor the user holds a null byte.\<close>

theorem socks4_handshake:
  assumes "SplitHostPort a = Some (host, ps)" "parse_uint 16 ps = Some port" "host \<noteq> []"
    and "CHR 0x00 \<notin> set host" "CHR 0x00 \<notin> set u"
    and "(case parse_addr host of None \<Rightarrow> Addr4 1 | Some ip \<Rightarrow> ip) = Addr4 w"
  shows "\<exists>n. \<forall>st m. (duo_step ^^ m) (ClientHandshake4 parse_addr a CmdConnect u, ServerHandshake4 addr_str auth, [], []) st \<longrightarrow>
     m \<le> n \<and> duo_steps st
       (PRet (if granted auth u then None else Some ErrIdentdMismatched),
        PRet \<lparr>s4_addr = JoinHostPort (if isReservedIP (Addr4 w) then host else addr_str (Addr4 w)) (format_uint port), s4_command = CmdConnect,
              s4_err = if granted auth u then None else Some ErrIdentdMismatched\<rparr>, [], [])"
proof (rule duo_always_ends)
  have port: "port < 65536" using assms(2) by (auto simp: parse_uint_def split: if_splits)
  define c where "c = read_full 8 (Some ErrIO) (\<lambda>resp. PRet (client4_answer resp))"
  define s :: "server4_result proc" where "s = PRet \<lparr>s4_addr = JoinHostPort (if isReservedIP (Addr4 w) then host else addr_str (Addr4 w)) (format_uint port),
      s4_command = CmdConnect, s4_err = if granted auth u then None else Some ErrIdentdMismatched\<rparr>"
  define code where "code = (if granted auth u then RequestGranted else RequestIdentdMismatched)"
  have ne: "(if (if isReservedIP (Addr4 w) then host else []) \<noteq> [] then (if isReservedIP (Addr4 w) then host else []) else addr_str (Addr4 w)) =
      (if isReservedIP (Addr4 w) then host else addr_str (Addr4 w))" using assms(3) by simp
  have "ClientHandshake4 parse_addr a CmdConnect u = write_all (client4_request (Addr4 w) host port CmdConnect u) (Some ErrIO) c"
    by (simp add: ClientHandshake4_def assms(1,2) assms(6) c_def)
  then have "duo_steps (ClientHandshake4 parse_addr a CmdConnect u, ServerHandshake4 addr_str auth, [], [])
      (c, ServerHandshake4 addr_str auth, client4_request (Addr4 w) host port CmdConnect u, [])"
    by (intro acts_duo1) (simp add: acts_write_all)
  also have "duo_steps \<dots> (c, s, [], [] @ [0, code] @ be16 port @ addr_as_slice (Addr4 w))"
    unfolding s_def code_def
  proof (rule acts_duo2, rule server4_acts [OF port assms(5,4)])
    fix req :: bytes
    assume r: "length req = 8" "take 4 (drop 4 req) = addr_as_slice (Addr4 w)" "take 2 (drop 2 req) = be16 port" "req ! 1 = CmdConnect"
    note server4_reply_acts [OF r(1-3) port refl r(4), of addr_str auth u "if isReservedIP (Addr4 w) then host else []" "[]"]
    then show "acts (server4_reply addr_str auth req (str_bytes u) (if isReservedIP (Addr4 w) then host else []), [], [])
        (PRet \<lparr>s4_addr = JoinHostPort (if isReservedIP (Addr4 w) then host else addr_str (Addr4 w)) (format_uint port), s4_command = CmdConnect,
              s4_err = if granted auth u then None else Some ErrIdentdMismatched\<rparr>, [],
         [] @ [0, if granted auth u then RequestGranted else RequestIdentdMismatched] @ be16 port @ addr_as_slice (Addr4 w))"
      by (simp only: ne)
  qed
  also have "duo_steps \<dots> (PRet (client4_answer [0, code]), s, [], [])"
  proof (rule acts_duo1)
    have "length (be16 port @ addr_as_slice (Addr4 w)) = 6" using addr4_slice(1) [of w] by (simp del: addr_as_slice.simps)
    then show "acts (c, [] @ [0, code] @ be16 port @ addr_as_slice (Addr4 w), []) (PRet (client4_answer [0, code]), [], [])"
      unfolding c_def append_Nil by (rule client4_answer_acts)
  qed
  also have "client4_answer [0, code] = (if granted auth u then None else Some ErrIdentdMismatched)"
    by (simp add: client4_answer_def code_def RequestGranted_def RequestRejected_def RequestIdentdFailed_def RequestIdentdMismatched_def)
  finally show "duo_steps (ClientHandshake4 parse_addr a CmdConnect u, ServerHandshake4 addr_str auth, [], [])
      (PRet (if granted auth u then None else Some ErrIdentdMismatched),
       PRet \<lparr>s4_addr = JoinHostPort (if isReservedIP (Addr4 w) then host else addr_str (Addr4 w)) (format_uint port), s4_command = CmdConnect,
              s4_err = if granted auth u then None else Some ErrIdentdMismatched\<rparr>, [], [])" unfolding s_def .
qed

lemma socks4_handshake_witness:
  "\<exists>n. \<forall>st m. (duo_step ^^ m) (ClientHandshake4 (\<lambda>h. None) ''a.b:80'' CmdConnect ''u'', ServerHandshake4 (\<lambda>ip. []) None, [], []) st \<longrightarrow>
     m \<le> n \<and> duo_steps st
       (PRet (if granted None ''u'' then None else Some ErrIdentdMismatched),
        PRet \<lparr>s4_addr = JoinHostPort (if isReservedIP (Addr4 1) then ''a.b'' else []) (format_uint 80), s4_command = CmdConnect,
              s4_err = if granted None ''u'' then None else Some ErrIdentdMismatched\<rparr>, [], [])"
proof -
  have s: "SplitHostPort ''a.b:80'' = Some (''a.b'', ''80'')" by code_simp
  have p: "parse_uint 16 ''80'' = Some 80" by (simp add: parse_uint_def is_digit_def digits_val_def digit_val_def)
  from socks4_handshake [OF s p, of "''u''" "\<lambda>h. None" 1 "\<lambda>ip. []" None] show ?thesis by simp
qed

text \<open>An empty host is asked for as 0.0.0.1, which the server takes for the address itself.\<close>

lemma socks4_empty_host:
  assumes "port < 65536" "isReservedIP (Addr4 1)"
  shows "acts (ServerHandshake4 addr_str None, client4_request (Addr4 1) [] port CmdConnect [], [])
    (PRet \<lparr>s4_addr = JoinHostPort (addr_str (Addr4 1)) (format_uint port), s4_command = CmdConnect, s4_err = None\<rparr>, [],
     [0, 90] @ be16 port @ addr_as_slice (Addr4 1))"
proof (rule server4_acts [OF assms(1)])
  fix req :: bytes
  assume r: "length req = 8" "take 4 (drop 4 req) = addr_as_slice (Addr4 1)" "take 2 (drop 2 req) = be16 port" "req ! 1 = CmdConnect"
  from server4_reply_acts [OF r(1-3) assms(1) refl r(4), of addr_str None "[]" "[]" "[]"]
  show "acts (server4_reply addr_str None req (str_bytes []) (if isReservedIP (Addr4 1) then [] else []), [], [])
    (PRet \<lparr>s4_addr = JoinHostPort (addr_str (Addr4 1)) (format_uint port), s4_command = CmdConnect, s4_err = None\<rparr>, [],
     [0, 90] @ be16 port @ addr_as_slice (Addr4 1))"
    by (simp only: granted_def option.case if_True if_False if_cancel simp_thms RequestGranted_def append_Nil)
qed simp_all

end
