(* ===== verification/Spec2Isabelle.thy ===== *)
theory Spec2Isabelle
  imports LruCache DomainTrie IpCidrTrie NetIP GoBytes Strconv Metadata IntRanges RuleMatch RuleParse Hosts Tunnel NatTable
    FakeIP Picker Dns Enhancer AdapterProxy Murmur3 ProxyGroups GroupProps Lookup GroupSort GoList Sniffer DomainSet Socks4
begin

text \<open>
  A verification development of the proxy core in \<open>src/clash-core\<close> (Clash Meta). All paths below are relative to that directory.

  \<^bold>\<open>The program.\<close> A connection comes in through a listener as a \<open>Metadata\<close> record, over SOCKS for example. The tunnel turns a fake
  or mapped address back into the host name it stands for, sniffs the name from the first bytes if it has none, looks the name up
  in the hosts table or by the resolver where a rule needs an address, and takes the proxy of the first rule that matches. The
  proxy may be a group, which chooses one of its members by their liveness and delay. Names are resolved by the DNS part: a server
  with middlewares (hosts table, fake addresses, the mapping from addresses to names, the resolver) and a resolver with a cache,
  policies and fallback servers. Configuration turns text into rules, sub-rules, hosts and an order of groups.

  \<^bold>\<open>Theories.\<close> Below everything:

  \<^item> \<open>Prelude\<close>: strings and bytes of Go with the functions of \<open>strings\<close> that are used, \<open>go_result\<close> (a value or an error), and
    \<open>outcome\<close> (a value, a run-time panic, or no end within the fuel). \<open>GoBytes\<close>: network order, slices that panic out of range.
    \<open>Strconv\<close>: decimal numbers, \<open>net.SplitHostPort\<close> and \<open>JoinHostPort\<close>. \<open>NetIP\<close>: the types of \<open>net/netip\<close> and
    \<open>common/nnip\<close>. \<open>Float64\<close>: rounding of \<open>float64\<close>. \<open>PeerProc\<close>: two processes over one connection.
  \<^item> \<open>GoList\<close> (\<open>common/generics/list\<close>): the linked list as pointers in a heap. \<open>LruCache\<close> (\<open>common/cache/lrucache.go\<close>): its
    list is a plain list of references, which \<open>GoList\<close> justifies, its entries are shared through a heap because \<open>CloneTo\<close> shares
    them, and time is an argument. \<open>Murmur3\<close> (\<open>common/murmur3\<close>), \<open>Picker\<close> (\<open>common/picker\<close>), \<open>IntRanges\<close> (\<open>common/utils\<close>).
  \<^item> \<open>DomainTrie\<close>, \<open>DomainSet\<close>, \<open>IpCidrTrie\<close> (\<open>component/trie\<close>): the three tries.
  \<^item> \<open>Metadata\<close> (\<open>constant\<close>, \<open>tunnel/mode.go\<close>, \<open>tunnel/status.go\<close>): the record of a connection and the enumerations.
  \<^item> \<open>RuleMatch\<close>, \<open>RuleParse\<close> (\<open>rules\<close>, parts of \<open>config\<close>): one constructor per type of rule; what matches, and how text becomes a rule.
  \<^item> \<open>Hosts\<close> (\<open>component/resolver/host.go\<close>), \<open>Lookup\<close> (\<open>component/resolver/resolver.go\<close>): the hosts table, the lookup of names.
  \<^item> \<open>Tunnel\<close>, \<open>NatTable\<close> (\<open>tunnel\<close>, \<open>component/nat\<close>): the choice of a rule and a proxy; UDP sessions as a step relation in which
    every access to the shared table is a step.
  \<^item> \<open>FakeIP\<close> (\<open>component/fakeip\<close>), \<open>Dns\<close> and \<open>Enhancer\<close> (\<open>dns\<close>): the pool of fake addresses on its two stores, the resolver,
    the middlewares of the server.
  \<^item> \<open>AdapterProxy\<close>, \<open>ProxyGroups\<close>, \<open>GroupProps\<close> (\<open>adapter\<close>, \<open>adapter/outboundgroup\<close>), \<open>GroupSort\<close> (\<open>config/utils.go\<close>): proxies
    with their histories, groups and their choices, the order of groups.
  \<^item> \<open>Sniffer\<close> (\<open>component/sniffer\<close>), \<open>Socks\<close> and \<open>Socks4\<close> (\<open>transport/socks5\<close>, \<open>transport/socks4\<close>, \<open>component/auth\<close>).

  \<^bold>\<open>State.\<close> A struct is a record with its fields, an interface a datatype or a record of functions, a map that is iterated an
  association list. A method that changes its receiver returns the changed record. An error is a value; an index out of range, a
  nil pointer or an explicit panic is \<open>Panicked\<close>. Mutexes are not modelled where each operation holds one for all it does;
  where goroutines interleave without one (\<open>NatTable\<close>, the order of answers in \<open>Dns\<close> and \<open>Picker\<close>, the two peers of \<open>Socks\<close>), the
  interleaving is part of the model and the properties hold for each. The iteration order of a Go map, the random numbers and the
  clock are arguments.

  \<^bold>\<open>Interfaces.\<close> \<open>fake_store\<close> (in \<open>FakeIP\<close>) is the contract between the pool and a store; the pool's lemmas are proved in it, and
  the memory store (\<open>memory\<close>) and the cache file (\<open>cf\<close>) are shown to keep it. \<open>dns_library\<close> (in \<open>Dns\<close>) is what is used of the
  packages \<open>miekg/dns\<close> and \<open>samber/lo\<close>. \<open>bucket\<close> is a contract for the data base under the cache file. It promises more than
  bbolt documents, as is said where it is declared, so the lemmas about the cache file hold for a data base that behaves so.
  \<open>bitmap_ok\<close> (in \<open>DomainSet\<close>) is what is used of the bitmap library.

  \<^bold>\<open>What the lemmas show.\<close>

  \<^item> Data structures: the cache refines a list of items with a bound on its length, the linked list a plain list; the domain trie finds what its
    patterns cover, in the documented priority, and the domain set and the CIDR trie find the same as the trie and the
    networks they are built from, within the stated limits.
  \<^item> Rules: the reader of nested logic rules is the inverse of printing them; matching of verified rules returns for every
    connection; \<open>AND\<close>, \<open>OR\<close> and \<open>NOT\<close> mean what their names say; the tunnel takes the first rule whose proxy can be used.
  \<^item> Names: a fake address leads back to the name it was given for, no two names share one, and a connection to an address that
    the DNS server gave out is one to the name. An answer that a filter refuses does not come from the main servers; a cached
    answer is served without the network as long as it is valid; the hosts table is followed through its aliases.
  \<^item> Proxies: consistent hashing and round robin choose a proxy that is alive when there is one, round robin each in its turn, a URL test
    group the fastest within its tolerance; a group offers no proxy that its filters exclude; the groups are put in an order in which each comes after those it uses, or a loop is reported.
  \<^item> Protocols: the SOCKS handshakes of client and server end in every interleaving with both sides agreeing; UDP packets, TLS client
    hellos and HTTP requests are read as they were written, and no bytes from outside make the TLS and HTTP sniffers panic.
  \<^item> Where the code does not do what it means to, a lemma shows the case: a lost wake-up and a doubled session in the tunnel, domains
    that the set misses or invents, aliases and rule sets on which a lookup does not end, and others.

  \<^bold>\<open>Bounds and fuel.\<close> Matching a rule spends fuel only where it follows the name of a sub-rule or of a rule set; one more than the
  number of sub-rules is enough for verified rules (\<open>verified_match_terminates\<close>), and more fuel changes nothing
  (\<open>match_mono\<close>). The breadth first construction of the domain set has one unit for every byte of the domains and one for the
  root (\<open>bfs_fuel\<close>), which is proved enough; a query needs more than the number of its label bits, and the theorem says from which
  number on its result is the same. Following aliases in the hosts table is a partial function into \<open>option\<close>, \<open>None\<close> being no
  end, and returning is proved for tables without a cycle; so is the loop of \<open>jumpHash\<close>, which is proved to end for groups of
  fewer than \<open>2^31\<close> proxies, with every \<open>float64\<close> operation rounded as IEEE 754 does. A process that reads may do so for ever,
  so processes are a codatatype, and it is proved that the handshakes end. All other loops are proved to terminate.
  Integers have the width of the source where it matters (ports, times to live, delays, hashes, the offsets of the
  parsers); counters and indices that cannot leave their range in practice are \<open>nat\<close> or \<open>int\<close>.

  \<^bold>\<open>What is not modelled.\<close> Reading from and writing to sockets, files and devices, and what only calls these: the listeners, the
  dialers and outbound adapters, the clients of the DNS resolver, the providers that fetch, the control interface. The transport
  protocols and their cryptography and congestion control. The QUIC sniffer, which decrypts with library ciphers: it is an argument of the
  dispatcher. Decoding of YAML and JSON, which is the decoders'. Logging and statistics. The Android front end. Geo data are
  functions that stand for the loaded files. Functions of packages outside the repository, such as regular expressions,
  \<open>net.ParseIP\<close> and \<open>netip.ParseAddr\<close>, are arguments, with what is relied on as a hypothesis.
\<close>

end
